(* ===== verification/Prelude.thy ===== *)
theory Prelude
  imports Main "HOL-Library.Word"
begin

unbundle bit_operations_syntax

text \<open>
  Shared types and lemmas of the development: machine integers, the result type
  that stands for the \<open>anyhow::Result\<close> of the Rust code, its error
  values, the standard-library operations the sources use
  (\<open>checked_add\<close>, \<open>div_ceil\<close>, \<open>dedup\<close>, \<open>partition_point\<close>, \<open>chunks\<close>,
  \<open>leading_zeros\<close>), and the facts on words, sums in a base and strictly ascending lists
  that the component theories use.

  Conventions. \<open>u8\<close>, \<open>u32\<close> and \<open>u64\<close> are words of that width, so \<open>+\<close> wraps as it does
  in the release profile. \<open>usize\<close> values are \<open>nat\<close>: they are lengths and
  indices of vectors that exist in memory; where the code checks a \<open>usize\<close> or \<open>u64\<close> sum for
  overflow the model has the same check against \<open>2 ^ 64\<close>.
\<close>

section \<open>Types\<close>

type_synonym u8 = "8 word"
type_synonym u32 = "32 word"
type_synonym u64 = "64 word"
type_synonym bytes = "u8 list"
type_synonym doc_id = u32

text \<open>
  One value per \<open>ensure!\<close>, \<open>context\<close> or \<open>bail!\<close> of the modelled code: the posting codecs and
  the evaluator name theirs, the other files carry the message in \<open>Bail\<close>. \<open>Panic\<close> is a panic
  (an index out of range, an arithmetic check, an \<open>expect\<close>).
\<close>

datatype posting_error =
    CountExceedsDocs | BlockLength | NotAscending | DocOutOfRange
  | MissingWidth | WidthInvalid | BlockTruncated | PackedTruncated
  | DeltaOverflow | IdOutOfBounds | TrailingBytes
  | OffsetLimit | CountLimit

datatype eval_error =
    SingletonOutside | BlockNotFetched

datatype error =
    PostingError posting_error
  | EvalError eval_error
  | Bail string
  | Panic

type_synonym 'a result = "error + 'a"

section \<open>Collections of facts\<close>

named_theorems word_nat \<open>word operations read as operations on natural numbers\<close>
named_theorems asc \<open>facts on strictly ascending lists\<close>

section \<open>Machine integers\<close>

abbreviation u32_max :: u32 where "u32_max \<equiv> - 1"

text \<open>\<open>leading_zeros\<close> of a \<open>u32\<close>, by the number of bits below the highest set one.\<close>

fun bit_len :: "nat \<Rightarrow> nat" where
  "bit_len n = (if n = 0 then 0 else Suc (bit_len (n div 2)))"

declare bit_len.simps [simp del]

definition leading_zeros :: "u32 \<Rightarrow> nat" where
  "leading_zeros v = 32 - bit_len (unat v)"

definition div_ceil :: "nat \<Rightarrow> nat \<Rightarrow> nat" where
  "div_ceil a b = (a + b - 1) div b"

definition saturating_sub :: "'a::len word \<Rightarrow> 'a word \<Rightarrow> 'a word" where
  "saturating_sub a b = (if b \<le> a then a - b else 0)"

definition saturating_add :: "'a::len word \<Rightarrow> 'a word \<Rightarrow> 'a word" where
  "saturating_add a b = (if unat a + unat b < 2 ^ LENGTH('a) then a + b else - 1)"

definition checked_add :: "'a::len word \<Rightarrow> 'a word \<Rightarrow> 'a word option" where
  "checked_add a b = (if unat a + unat b < 2 ^ LENGTH('a) then Some (a + b) else None)"

lemma bit_len_0 [simp]: "bit_len 0 = 0"
  by (simp add: bit_len.simps)

lemma bit_len_bound: "n < 2 ^ bit_len n"
proof (induction n rule: bit_len.induct)
  case (1 n)
  show ?case
  proof (cases "n = 0")
    case True
    then show ?thesis by (simp add: bit_len.simps)
  next
    case False
    with "1" have "n div 2 < 2 ^ bit_len (n div 2)" by simp
    then have "n < 2 * 2 ^ bit_len (n div 2)" by linarith
    with False show ?thesis by (simp add: bit_len.simps [of n])
  qed
qed

lemma bit_len_le: "n < 2 ^ k \<Longrightarrow> bit_len n \<le> k"
proof (induction n arbitrary: k rule: bit_len.induct)
  case (1 n)
  show ?case
  proof (cases "n = 0")
    case True
    then show ?thesis by (simp add: bit_len.simps)
  next
    case False
    with "1.prems" obtain j where j: "k = Suc j" by (cases k) auto
    with "1.prems" have "n div 2 < 2 ^ j" by simp
    with "1.IH" False have "bit_len (n div 2) \<le> j" by simp
    with False j show ?thesis by (simp add: bit_len.simps [of n])
  qed
qed

lemma unat_lt_2p [simp]: "unat (v :: 'a::len word) < 2 ^ LENGTH('a)"
  by (rule unsigned_less)

lemma unat_lt32: "unat (v :: u32) < 2 ^ 32"
  using unat_lt_2p [of v] by simp

lemma unat_lt64: "unat (v :: u64) < 2 ^ 64"
  using unat_lt_2p [of v] by simp

lemma unat_lt8: "unat (v :: u8) < 256"
  using unat_lt_2p [of v] by simp

lemma unat_saturating_sub [word_nat]: "unat (saturating_sub a b) = unat a - unat b"
  by (auto simp: saturating_sub_def unat_sub word_le_nat_alt)

lemma unat_add_fits:
  "unat a + unat b < 2 ^ LENGTH('a) \<Longrightarrow> unat (a + b :: 'a::len word) = unat a + unat b"
  by (simp add: unat_word_ariths)

lemma unat_minus_one: "unat (- 1 :: 'a::len word) = 2 ^ LENGTH('a) - 1"
  by (simp add: unsigned_minus_1_eq_mask mask_eq_exp_minus_1)

lemma unat_saturating_add [word_nat]:
  "unat (saturating_add a b :: 'a::len word) = min (2 ^ LENGTH('a) - 1) (unat a + unat b)"
  by (auto simp: saturating_add_def unat_add_fits unat_minus_one)

lemma checked_add_Some: "checked_add a b = Some c \<Longrightarrow> unat c = unat a + unat b"
  by (auto simp: checked_add_def unat_add_fits split: if_splits)

lemma div_ceil_bounds:
  assumes "0 < b"
  shows "a \<le> b * div_ceil a b" and "b * div_ceil a b < a + b"
proof -
  have eq: "b * div_ceil a b + (a + b - 1) mod b = a + b - 1"
    unfolding div_ceil_def by (rule mult_div_mod_eq)
  have "(a + b - 1) mod b < b" using assms by simp
  with eq assms show "a \<le> b * div_ceil a b" and "b * div_ceil a b < a + b" by linarith+
qed


lemma unat_ucast_up: "LENGTH('a::len) \<le> LENGTH('b::len) \<Longrightarrow> unat (ucast (v :: 'a word) :: 'b word) = unat v"
  by (simp add: unsigned_ucast_eq take_bit_nat_eq_self_iff order_less_le_trans [OF unat_lt_2p])

lemma unat_push_bit:
  fixes x :: "'a::len word"
  assumes "unat x * 2 ^ f < 2 ^ LENGTH('a)"
  shows "unat (push_bit f x) = unat x * 2 ^ f"
  unfolding unsigned_push_bit_eq using assms
  by (simp add: push_bit_eq_mult take_bit_nat_eq_self_iff)

lemma unat_or_push_bit:
  fixes acc x :: "'a::len word"
  assumes acc: "unat acc < 2 ^ f" and fits: "unat x * 2 ^ f < 2 ^ LENGTH('a)"
  shows "unat (acc OR push_bit f x) = unat acc + unat x * 2 ^ f"
proof -
  have tb: "take_bit f (unat acc) = unat acc" using acc by (simp add: take_bit_nat_eq_self_iff)
  have "unat (acc OR push_bit f x) = take_bit f (unat acc) OR push_bit f (unat x)"
    unfolding unsigned_or_eq unat_push_bit [OF fits] tb by (simp add: push_bit_eq_mult)
  also have "\<dots> = take_bit f (unat acc) + push_bit f (unat x)"
    by (subst disjunctive_add_eq_or) (auto simp: bit_eq_iff bit_simps)
  finally show ?thesis by (simp add: tb push_bit_eq_mult)
qed

lemma unat_drop_bit: "unat (drop_bit n (a :: 'a::len word)) = unat a div 2 ^ n"
proof -
  have "take_bit LENGTH('a) (unat a) = unat a" by (simp add: take_bit_nat_eq_self_iff)
  then show ?thesis unfolding unsigned_drop_bit_eq by (simp add: drop_bit_eq_div)
qed

lemma unat_and_mask:
  fixes a :: "'a::len word"
  assumes "n < LENGTH('a)"
  shows "unat (a AND (push_bit n 1 - 1)) = unat a mod 2 ^ n"
proof -
  have "push_bit n (1::'a word) - 1 = mask n" by (simp add: mask_eq_exp_minus_1 push_bit_eq_mult)
  then have "a AND (push_bit n 1 - 1) = take_bit n a" by (simp only: take_bit_eq_mask)
  then have "unat (a AND (push_bit n 1 - 1)) = take_bit n (unat a)"
    by (simp only: unsigned_take_bit_eq)
  then show ?thesis by (simp add: take_bit_eq_mod)
qed

lemma unat_and_le: "unat (a AND b :: 'a::len word) \<le> unat b"
proof -
  have "uint (a AND b) \<le> uint b" by (simp add: unsigned_and_eq AND_upper2)
  then show ?thesis by (simp add: word_le_def flip: word_le_nat_alt)
qed

lemma unat_ucast_down: "unat (ucast (v :: 'a::len word) :: 'b::len word) = unat v mod 2 ^ LENGTH('b)"
  by (simp add: unsigned_ucast_eq take_bit_eq_mod)

lemma unat_of_nat32: "n < 2 ^ 32 \<Longrightarrow> unat (of_nat n :: u32) = n"
  by (simp add: unat_of_nat)

lemma of_nat32_le: "m \<le> n \<Longrightarrow> n < 2 ^ 32 \<Longrightarrow> (of_nat m :: u32) \<le> of_nat n"
  by (simp add: word_le_nat_alt unat_of_nat)

section \<open>Digits in a base\<close>

abbreviation base_sum :: "nat \<Rightarrow> 'a::len word list \<Rightarrow> nat" where
  "base_sum b vs \<equiv> horner_sum unat b vs"

fun base_digits :: "nat \<Rightarrow> nat \<Rightarrow> nat \<Rightarrow> nat list" where
  "base_digits b 0 x = []"
| "base_digits b (Suc n) x = (x mod b) # base_digits b n (x div b)"

lemma base_digits_sum:
  "(\<forall>v\<in>set vs. unat v < b) \<Longrightarrow> base_digits b (length vs) (base_sum b vs) = map unat vs"
  by (induction vs) auto

lemma base_sum_append: "base_sum b (xs @ ys) = base_sum b xs + b ^ length xs * base_sum b ys"
  by (induction xs) (auto simp: algebra_simps)

lemma length_base_digits [simp]: "length (base_digits b n x) = n"
  by (induction n arbitrary: x) auto

lemma base_digits_less: "0 < b \<Longrightarrow> d \<in> set (base_digits b n x) \<Longrightarrow> d < b"
  by (induction n arbitrary: x) auto

section \<open>Loops with a fallible body\<close>

text \<open>A \<open>for\<close> loop whose body updates the state \<open>s\<close> and may return early with an error.\<close>

fun visit_all :: "('s \<Rightarrow> 'a \<Rightarrow> 's result) \<Rightarrow> 's \<Rightarrow> 'a list \<Rightarrow> 's result" where
  "visit_all visit s [] = Inr s"
| "visit_all visit s (x # xs) =
     (case visit s x of Inl e \<Rightarrow> Inl e | Inr s' \<Rightarrow> visit_all visit s' xs)"

lemma visit_all_append:
  "visit_all visit s (xs @ ys) =
     (case visit_all visit s xs of Inl e \<Rightarrow> Inl e | Inr s' \<Rightarrow> visit_all visit s' ys)"
  by (induction xs arbitrary: s) (auto split: sum.split)

section \<open>Strictly ascending lists\<close>

abbreviation ascending :: "'a::linorder list \<Rightarrow> bool" where
  "ascending \<equiv> sorted_wrt (<)"

lemma successively_ascending [simp]: "successively (<) (xs :: 'a::linorder list) = ascending xs"
  by (simp add: successively_iff_sorted_wrt_strong)

lemma ascending_distinct [asc]: "ascending xs \<Longrightarrow> distinct xs"
  by (simp add: strict_sorted_iff)

lemma ascending_eqI [asc]: "ascending xs \<Longrightarrow> ascending ys \<Longrightarrow> set xs = set ys \<Longrightarrow> xs = ys"
  by (rule strict_sorted_equal)

lemma ascending_last: "ascending xs \<Longrightarrow> x \<in> set xs \<Longrightarrow> x \<le> last xs"
  by (induction xs) (auto simp: less_imp_le)

section \<open>Early return\<close>

text \<open>
  \<open>ensure c msg k\<close> is \<open>anyhow::ensure!(c, msg); k\<close> and \<open>and_then r k\<close> is \<open>k(r?)\<close>. Their inversion rules are
  simplification rules: a successful run is the conjunction of its checks.
\<close>

definition ensure :: "bool \<Rightarrow> string \<Rightarrow> 'a result \<Rightarrow> 'a result" where
  "ensure c msg k = (if c then k else Inl (Bail msg))"

definition and_then :: "'a result \<Rightarrow> ('a \<Rightarrow> 'b result) \<Rightarrow> 'b result" where
  "and_then r k = (case r of Inl e \<Rightarrow> Inl e | Inr x \<Rightarrow> k x)"

definition context_of :: "'a option \<Rightarrow> string \<Rightarrow> 'a result" where
  "context_of x msg = (case x of Some v \<Rightarrow> Inr v | None \<Rightarrow> Inl (Bail msg))"

definition or_panic :: "'a option \<Rightarrow> 'a result" where
  "or_panic x = (case x of Some v \<Rightarrow> Inr v | None \<Rightarrow> Inl Panic)"

lemma ensure_True [simp]: "ensure True msg k = k" by (simp add: ensure_def)
lemma ensure_False [simp]: "ensure False msg k = Inl (Bail msg)" by (simp add: ensure_def)
lemma and_then_Inr [simp]: "and_then (Inr x) k = k x" by (simp add: and_then_def)
lemma and_then_Inl [simp]: "and_then (Inl e) k = Inl e" by (simp add: and_then_def)
lemma context_of_simps [simp]: "context_of (Some v) msg = Inr v" "context_of None msg = Inl (Bail msg)"
  by (simp_all add: context_of_def)
lemma or_panic_simps [simp]: "or_panic (Some v) = Inr v" "or_panic None = Inl Panic"
  by (simp_all add: or_panic_def)

lemma ensure_Inr [simp]: "(ensure c msg k = Inr y) = (c \<and> k = Inr y)"
  by (cases c) simp_all

lemma and_then_eq_Inr [simp]: "(and_then r k = Inr y) = (\<exists>x. r = Inr x \<and> k x = Inr y)"
  by (cases r) simp_all

lemma context_of_eq_Inr [simp]: "(context_of x msg = Inr v) = (x = Some v)"
  by (cases x) simp_all

lemma or_panic_eq_Inr [simp]: "(or_panic x = Inr v) = (x = Some v)"
  by (cases x) simp_all

lemma panic_simps [simp]:
  "(ensure c msg k = Inl Panic) = (c \<and> k = Inl Panic)"
  "(and_then r f = Inl Panic) = (r = Inl Panic \<or> (\<exists>x. r = Inr x \<and> f x = Inl Panic))"
  "(context_of x msg = Inl Panic) = False"
  "(or_panic x = Inl Panic) = (x = None)"
  by (simp_all add: ensure_def and_then_def context_of_def or_panic_def split: sum.split option.split)

lemma and_then_cong [fundef_cong]:
  "r = r' \<Longrightarrow> (\<And>x. r' = Inr x \<Longrightarrow> k x = k' x) \<Longrightarrow> and_then r k = and_then r' k'"
  by (cases r') simp_all

lemma ensure_cong [fundef_cong]:
  "c = c' \<Longrightarrow> msg = msg' \<Longrightarrow> (c' \<Longrightarrow> k = k') \<Longrightarrow> ensure c msg k = ensure c' msg' k'"
  by (cases c') simp_all

text \<open>\<open>slice::get\<close>, \<open>slice::get(a..b)\<close> and \<open>u32::try_from\<close>, \<open>u64\<close> addition with its checks.\<close>

definition get :: "'a list \<Rightarrow> nat \<Rightarrow> 'a option" where
  "get xs i = (if i < length xs then Some (xs ! i) else None)"

definition sub_slice :: "'a list \<Rightarrow> nat \<Rightarrow> nat \<Rightarrow> 'a list" where
  "sub_slice xs a b = take (b - a) (drop a xs)"

definition get_range :: "'a list \<Rightarrow> nat \<Rightarrow> nat \<Rightarrow> 'a list option" where
  "get_range xs a b = (if a \<le> b \<and> b \<le> length xs then Some (sub_slice xs a b) else None)"

definition try_u32 :: "nat \<Rightarrow> nat result" where
  "try_u32 n = (if n < 2 ^ 32 then Inr n else Inl (Bail ''out of range integral type conversion attempted''))"

definition add_u64 :: "nat \<Rightarrow> nat \<Rightarrow> nat option" where
  "add_u64 a b = (if a + b < 2 ^ 64 then Some (a + b) else None)"

definition add_u32 :: "nat \<Rightarrow> nat \<Rightarrow> nat option" where
  "add_u32 a b = (if a + b < 2 ^ 32 then Some (a + b) else None)"

definition sat_add_u64 :: "nat \<Rightarrow> nat \<Rightarrow> nat" where
  "sat_add_u64 a b = min (a + b) (2 ^ 64 - 1)"

definition checked_sub :: "nat \<Rightarrow> nat \<Rightarrow> nat option" where
  "checked_sub a b = (if b \<le> a then Some (a - b) else None)"

lemma get_eq_Some [simp]: "(get xs i = Some x) = (i < length xs \<and> x = xs ! i)"
  by (auto simp: get_def)

lemma get_range_eq_Some [simp]:
  "(get_range xs a b = Some ys) = (a \<le> b \<and> b \<le> length xs \<and> ys = sub_slice xs a b)"
  by (auto simp: get_range_def)

lemma try_u32_eq_Inr [simp]: "(try_u32 n = Inr m) = (n < 2 ^ 32 \<and> m = n)"
  by (auto simp: try_u32_def)

lemma add_u64_eq_Some [simp]: "(add_u64 a b = Some c) = (a + b < 2 ^ 64 \<and> c = a + b)"
  by (auto simp: add_u64_def)

lemma add_u32_eq_Some [simp]: "(add_u32 a b = Some c) = (a + b < 2 ^ 32 \<and> c = a + b)"
  by (auto simp: add_u32_def)

lemma checked_sub_eq_Some [simp]: "(checked_sub a b = Some c) = (b \<le> a \<and> c = a - b)"
  by (auto simp: checked_sub_def)

lemma length_sub_slice [simp]: "length (sub_slice xs a b) = min (b - a) (length xs - a)"
  by (simp add: sub_slice_def)

lemma sub_slice_append_middle [simp]:
  "a = length xs \<Longrightarrow> b = length xs + length ys \<Longrightarrow> sub_slice (xs @ ys @ zs) a b = ys"
  by (simp add: sub_slice_def)

lemma sub_slice_join: "a \<le> b \<Longrightarrow> b \<le> c \<Longrightarrow> sub_slice xs a b @ sub_slice xs b c = sub_slice xs a c"
proof -
  assume "a \<le> b" "b \<le> c"
  then have "c - a = (b - a) + (c - b)" "drop (b - a) (drop a xs) = drop b xs" by simp_all
  then show ?thesis by (simp add: sub_slice_def take_add)
qed

lemma take_sub_slice: "take n (sub_slice xs a b) = sub_slice xs a (min b (a + n))"
proof -
  have "min b (a + n) - a = min n (b - a)" by linarith
  then show ?thesis by (simp add: sub_slice_def)
qed

lemma drop_sub_slice: "drop n (sub_slice xs a b) = sub_slice xs (a + n) b"
  by (simp add: sub_slice_def drop_take add.commute)

lemma sub_slice_clip: "length xs \<le> b \<Longrightarrow> sub_slice xs a b = sub_slice xs a (length xs)"
  by (simp add: sub_slice_def)

lemma visit_all_snoc:
  "visit_all visit s (xs @ [x]) = and_then (visit_all visit s xs) (\<lambda>s'. visit s' x)"
  by (simp add: visit_all_append and_then_def split: sum.split)

lemma visit_all_Cons: "visit_all visit s (x # xs) = and_then (visit s x) (\<lambda>s'. visit_all visit s' xs)"
  by (simp add: and_then_def)

lemma visit_all_invariant:
  assumes "visit_all visit s xs = Inr s'" "P s"
    and "\<And>s x s'. x \<in> set xs \<Longrightarrow> P s \<Longrightarrow> visit s x = Inr s' \<Longrightarrow> P s'"
  shows "P s'"
  using assms
proof (induction xs arbitrary: s)
  case (Cons x xs)
  then obtain s1 where s1: "visit s x = Inr s1" "visit_all visit s1 xs = Inr s'" by (auto split: sum.splits)
  moreover have "P s1" using Cons.prems(2) s1(1) by (rule Cons.prems(3) [of x, rotated]) simp
  ultimately show ?case using Cons by auto
qed simp

end
