(* ===== verification/Grams.thy ===== *)
theory Grams
  imports Prelude "HOL-Library.List_Lexorder"
begin

unbundle bit_operations_syntax

text \<open>
  Gram extraction, \<open>crates/core/src/grams.rs\<close>: packed trigrams (a sort path and a bitmap path),
  trigrams attributed to candidate blocks, the sparse grams of the index side (the iterator
  \<open>SparseGramRanges\<close>) and of the query side (the monotone stack), and the two
  gram functions of a strategy.

  Two functions come from other crates and are fields of the record \<open>crates\<close>:
  \<open>radsort::sort\<close>, of which the code needs that it sorts (\<open>radsort_sorts\<close>), and
  \<open>rapidhash_v3\<close>, of which it needs nothing but that it is a function.
\<close>

section \<open>Definitions\<close>

record crates =
  radsort :: "u32 list \<Rightarrow> u32 list"
  rapidhash_v3 :: "bytes \<Rightarrow> u64"

definition radsort_sorts :: "crates \<Rightarrow> bool" where
  "radsort_sorts X \<longleftrightarrow> (\<forall>xs. radsort X xs = sort xs)"

datatype strategy = Trigram | Sparse

definition RADIX_SORT_MIN :: nat where "RADIX_SORT_MIN = 512"
definition BITMAP_WORDS :: nat where "BITMAP_WORDS = 2 ^ 24 div 64"
definition BITMAP_THRESHOLD :: nat where "BITMAP_THRESHOLD = BITMAP_WORDS * 8 div 4"
definition CANDIDATE_BLOCK_BYTES :: nat where "CANDIDATE_BLOCK_BYTES = 128 * 1024"

fun windows3 :: "'a list \<Rightarrow> ('a \<times> 'a \<times> 'a) list" where
  "windows3 (a # b # c # rest) = (a, b, c) # windows3 (b # c # rest)"
| "windows3 _ = []"

fun windows2 :: "'a list \<Rightarrow> ('a \<times> 'a) list" where
  "windows2 (a # b # rest) = (a, b) # windows2 (b # rest)"
| "windows2 _ = []"

fun pack_window :: "u8 \<times> u8 \<times> u8 \<Rightarrow> u32" where
  "pack_window (a, b, c) = (push_bit 16 (ucast a) OR push_bit 8 (ucast b)) OR ucast c"

definition sort_packed_grams :: "crates \<Rightarrow> u32 list \<Rightarrow> u32 list" where
  "sort_packed_grams X grams =
     remdups_adj (if length grams < RADIX_SORT_MIN then sort grams else radsort X grams)"

text \<open>One iteration of the loop over the windows in the bitmap path.\<close>

definition mark_gram :: "u8 \<times> u8 \<times> u8 \<Rightarrow> u64 list \<Rightarrow> u64 list" where
  "mark_gram w bitmap =
     (let gram = unat (pack_window w)
      in bitmap[gram div 64 := bitmap ! (gram div 64) OR push_bit (gram mod 64) 1])"

definition trailing_zeros :: "u64 \<Rightarrow> nat" where
  "trailing_zeros w = length (takeWhile (\<lambda>i. \<not> bit w i) [0..<64])"

definition bitmap_gram :: "nat \<Rightarrow> nat \<Rightarrow> u32" where
  "bitmap_gram word_index n = of_nat (word_index * 64 + n)"

function drain_word :: "nat \<Rightarrow> u64 \<Rightarrow> u32 list" where
  "drain_word word_index w =
     (if w = 0 then []
      else bitmap_gram word_index (trailing_zeros w) # drain_word word_index (w AND (w - 1)))"
  by pat_completeness auto
termination
proof (relation "measure (\<lambda>(i, w). unat w)")
  fix i :: nat and w :: u64
  assume "w \<noteq> 0"
  then have "unat (w - 1) < unat w" by (rule measure_unat)
  with unat_and_le [of w "w - 1"] show "((i, w AND (w - 1)), (i, w)) \<in> measure (\<lambda>(i, w). unat w)" by simp
qed simp

declare drain_word.simps [simp del]

definition pack_trigram_grams :: "crates \<Rightarrow> bytes \<Rightarrow> u32 list" where
  "pack_trigram_grams X data =
     (if length data - 2 > BITMAP_THRESHOLD
      then let bitmap = fold mark_gram (windows3 data) (replicate BITMAP_WORDS 0)
           in concat (map (\<lambda>(i, w). drain_word i w) (enumerate 0 bitmap))
      else sort_packed_grams X (map pack_window (windows3 data)))"

function block_grams_from :: "crates \<Rightarrow> bytes \<Rightarrow> nat \<Rightarrow> u32 \<Rightarrow> (u32 \<times> u32) list" where
  "block_grams_from X data start block =
     (if start + 2 < length data
      then let end = min (start + CANDIDATE_BLOCK_BYTES + 2) (length data);
               grams = pack_trigram_grams X (take (end - start) (drop start data))
           in map (Pair block) grams
              @ block_grams_from X data (start + CANDIDATE_BLOCK_BYTES) (block + 1)
      else [])"
  by pat_completeness auto
termination
  by (relation "measure (\<lambda>(X, data, start, block). length data - start)")
    (auto simp: CANDIDATE_BLOCK_BYTES_def)

declare block_grams_from.simps [simp del]

definition pack_trigram_block_grams :: "crates \<Rightarrow> bytes \<Rightarrow> (u32 \<times> u32) list" where
  "pack_trigram_block_grams X data =
     (if length data < 3 then [] else block_grams_from X data 0 0)"

definition unpack_gram :: "u32 \<Rightarrow> bytes" where
  "unpack_gram g = [ucast (drop_bit 16 g), ucast (drop_bit 8 g), ucast g]"

definition trigram_grams_bytes :: "crates \<Rightarrow> bytes \<Rightarrow> bytes list" where
  "trigram_grams_bytes X data = map unpack_gram (pack_trigram_grams X data)"

section \<open>Trigrams: lemmas\<close>

lemma in_windows3:
  "w \<in> set (windows3 xs) \<longleftrightarrow> (\<exists>i. i + 2 < length xs \<and> w = (xs ! i, xs ! (i + 1), xs ! (i + 2)))"
proof (induction xs rule: windows3.induct)
  case (1 a b c rest)
  have "(\<exists>i. i + 2 < length (a # b # c # rest) \<and> w = ((a # b # c # rest) ! i, (a # b # c # rest) ! (i + 1), (a # b # c # rest) ! (i + 2)))
     \<longleftrightarrow> w = (a, b, c) \<or> (\<exists>i. i + 2 < length (b # c # rest) \<and> w = ((b # c # rest) ! i, (b # c # rest) ! (i + 1), (b # c # rest) ! (i + 2)))"
    (is "?L \<longleftrightarrow> _ \<or> ?R")
  proof
    assume ?L
    then obtain i where "i + 2 < length (a # b # c # rest)"
      "w = ((a # b # c # rest) ! i, (a # b # c # rest) ! (i + 1), (a # b # c # rest) ! (i + 2))" by blast
    then show "w = (a, b, c) \<or> ?R" by (cases i) auto
  next
    assume "w = (a, b, c) \<or> ?R"
    then show ?L
    proof
      assume "w = (a, b, c)" then show ?L by (intro exI [of _ 0]) simp
    next
      assume ?R
      then obtain i where "i + 2 < length (b # c # rest)"
        "w = ((b # c # rest) ! i, (b # c # rest) ! (i + 1), (b # c # rest) ! (i + 2))" by blast
      then show ?L by (intro exI [of _ "Suc i"]) simp
    qed
  qed
  with 1 show ?case by (simp only: windows3.simps set_simps insert_iff)
qed auto

lemma u8_high_bit: "8 \<le> n \<Longrightarrow> \<not> bit (x :: u8) n"
  using bit_imp_le_length [of x n] by auto

lemma unpack_pack_window: "unpack_gram (pack_window (a, b, c)) = [a, b, c]"
  by (auto simp: unpack_gram_def bit_simps u8_high_bit intro!: bit_word_eqI)

lemma inj_pack_window: "pack_window v = pack_window w \<longleftrightarrow> v = w"
proof
  assume "pack_window v = pack_window w"
  then have "unpack_gram (pack_window v) = unpack_gram (pack_window w)" by simp
  then show "v = w" by (cases v; cases w) (simp add: unpack_pack_window del: pack_window.simps)
qed simp

lemma unat_pack_window: "unat (pack_window (a, b, c)) = unat a * 65536 + unat b * 256 + unat c"
proof -
  have b: "unat a < 256" "unat b < 256" "unat c < 256" by (rule unat_lt8)+
  have u: "unat (ucast x :: u32) = unat x" for x :: u8 by (simp add: unat_ucast_up)
  have 1: "unat ((ucast c :: u32) OR push_bit 8 (ucast b)) = unat c + unat b * 2 ^ 8"
    using b by (subst unat_or_push_bit) (auto simp: u)
  have "unat (((ucast c :: u32) OR push_bit 8 (ucast b)) OR push_bit 16 (ucast a)) =
        (unat c + unat b * 2 ^ 8) + unat a * 2 ^ 16"
    using b by (subst unat_or_push_bit) (auto simp: u 1)
  moreover have "pack_window (a, b, c) = ((ucast c :: u32) OR push_bit 8 (ucast b)) OR push_bit 16 (ucast a)"
    by (simp add: or.commute or.left_commute or.assoc)
  ultimately show ?thesis by simp
qed

lemma pack_window_bound: "unat (pack_window w) < 2 ^ 24"
  using unat_lt8 [of "fst w"] unat_lt8 [of "fst (snd w)"] unat_lt8 [of "snd (snd w)"]
  by (cases w) (auto simp: unat_pack_window simp del: pack_window.simps)

subsection \<open>The bitmap path\<close>

lemma unat_cancel: "of_nat (unat v) = (v :: u32)"
  by simp

lemma trailing_zeros_props:
  assumes "(w::u64) \<noteq> 0"
  shows "bit w (trailing_zeros w)" and "trailing_zeros w < 64" and "\<And>n. n < trailing_zeros w \<Longrightarrow> \<not> bit w n"
proof -
  from assms obtain k where k: "bit w k" by (metis bit_eq_iff bit_0_eq bot_apply bot_bool_def)
  then have k64: "k < 64" using bit_imp_le_length [of w k] by simp
  have "\<exists>i\<in>set [0..<64]. \<not> \<not> bit w i" using k k64 by auto
  then have "takeWhile (\<lambda>i. \<not> bit w i) [0..<64] \<noteq> [0..<64]" by (simp add: takeWhile_eq_all_conv)
  then have "length (takeWhile (\<lambda>i. \<not> bit w i) [0..<64]) \<noteq> 64"
    by (metis diff_zero length_upt order_refl take_all takeWhile_eq_take)
  moreover have "length (takeWhile (\<lambda>i. \<not> bit w i) [0..<64]) \<le> 64"
    using length_takeWhile_le [of "\<lambda>i. \<not> bit w i" "[0..<64]"] by simp
  ultimately show lt: "trailing_zeros w < 64" by (simp add: trailing_zeros_def)
  show "bit w (trailing_zeros w)"
    using nth_length_takeWhile [of "\<lambda>i. \<not> bit w i" "[0..<64]"] lt by (simp add: trailing_zeros_def)
  fix n assume n: "n < trailing_zeros w"
  then have "[0..<64] ! n = takeWhile (\<lambda>i. \<not> bit w i) [0..<64] ! n"
    by (simp add: trailing_zeros_def takeWhile_nth)
  moreover have "takeWhile (\<lambda>i. \<not> bit w i) [0..<64] ! n \<in> set (takeWhile (\<lambda>i. \<not> bit w i) [0..<64])"
    using n by (intro nth_mem) (simp add: trailing_zeros_def)
  ultimately show "\<not> bit w n" using n lt by (auto dest: set_takeWhileD)
qed

lemma clear_lowest_bit:
  assumes "(w::u64) \<noteq> 0"
  shows "bit (w AND (w - 1)) n \<longleftrightarrow> bit w n \<and> n \<noteq> trailing_zeros w"
proof -
  let ?t = "trailing_zeros w"
  note tz = trailing_zeros_props [OF assms]
  have "w = unset_bit ?t w + 2 ^ ?t" using tz(1) by (simp add: unset_bit_eq)
  then have "w - 1 = unset_bit ?t w + mask ?t" by (metis add_diff_eq mask_eq_exp_minus_1)
  also have "\<dots> = unset_bit ?t w OR mask ?t"
    by (rule disjunctive_add_eq_or) (use tz(3) in \<open>auto simp: bit_eq_iff bit_simps\<close>)
  finally have "bit (w - 1) n \<longleftrightarrow> bit (unset_bit ?t w OR mask ?t) n" by simp
  then show ?thesis using tz(3) by (auto simp: bit_simps)
qed


lemma drain_word_set: "set (drain_word i w) = {bitmap_gram i n |n. bit w n}"
proof (induction i w rule: drain_word.induct)
  case (1 i w)
  show ?case
  proof (cases "w = 0")
    case True
    then show ?thesis by (simp add: drain_word.simps)
  next
    case False
    from "1.IH" [OF False] trailing_zeros_props(1) [OF False] show ?thesis
      by (subst drain_word.simps) (auto simp: False clear_lowest_bit)
  qed
qed

lemma unat_bitmap_pos:
  assumes "i < BITMAP_WORDS" "n < 64"
  shows "unat (bitmap_gram i n) = i * 64 + n"
  unfolding bitmap_gram_def unat_of_nat using assms by (simp add: BITMAP_WORDS_def)

lemma u64_bit_low: "bit (w :: u64) n \<Longrightarrow> n < 64"
  using bit_imp_le_length [of w n] by simp

lemma drain_word_range:
  assumes "i < BITMAP_WORDS" "g \<in> set (drain_word i w)"
  shows "\<exists>n<64. bit w n \<and> unat g = i * 64 + n"
  using assms by (auto simp: drain_word_set unat_bitmap_pos u64_bit_low)

lemma drain_word_ascending: "i < BITMAP_WORDS \<Longrightarrow> ascending (drain_word i w)"
proof (induction i w rule: drain_word.induct)
  case (1 i w)
  show ?case
  proof (cases "w = 0")
    case True
    then show ?thesis by (simp add: drain_word.simps)
  next
    case False
    note tz = trailing_zeros_props [OF False]
    have "bitmap_gram i (trailing_zeros w) < g" if "g \<in> set (drain_word i (w AND (w - 1)))" for g
    proof -
      from drain_word_range [OF "1.prems" that] obtain n where
        n: "n < 64" "bit w n" "n \<noteq> trailing_zeros w" "unat g = i * 64 + n"
        by (auto simp: clear_lowest_bit [OF False])
      with tz(3) have "trailing_zeros w < n" by (meson linorder_neqE_nat)
      with n tz(2) "1.prems" show ?thesis by (simp add: word_less_nat_alt unat_bitmap_pos)
    qed
    with "1.IH" [OF False "1.prems"] show ?thesis
      by (subst drain_word.simps) (simp add: False)
  qed
qed

lemma ascending_concat:
  "(\<forall>xs\<in>set xss. ascending xs) \<Longrightarrow> sorted_wrt (\<lambda>xs ys. \<forall>x\<in>set xs. \<forall>y\<in>set ys. x < y) xss \<Longrightarrow>
   ascending (concat xss)"
  by (induction xss) (auto simp: sorted_wrt_append)

lemma sorted_wrt_enumerate: "sorted_wrt (\<lambda>x y. fst x < fst y) (enumerate n xs)"
proof -
  have "sorted_wrt (<) (map fst (enumerate n xs))" by simp
  then show ?thesis by (simp only: sorted_wrt_map)
qed

lemma bitmap_list_ascending:
  assumes "length bitmap = BITMAP_WORDS"
  shows "ascending (concat (map (\<lambda>(i, w). drain_word i w) (enumerate 0 bitmap)))"
proof (rule ascending_concat)
  have len: "fst p < BITMAP_WORDS" if "p \<in> set (enumerate 0 bitmap)" for p
    using that assms by (auto simp: in_set_enumerate_eq)
  then show "\<forall>xs\<in>set (map (\<lambda>(i, w). drain_word i w) (enumerate 0 bitmap)). ascending xs"
    by (auto simp: drain_word_ascending)
  have "\<forall>x\<in>set (drain_word (fst p) (snd p)). \<forall>y\<in>set (drain_word (fst q) (snd q)). x < y"
    if "p \<in> set (enumerate 0 bitmap)" "q \<in> set (enumerate 0 bitmap)" "fst p < fst q" for p q
    using drain_word_range [OF len [OF that(1)]] drain_word_range [OF len [OF that(2)]] that(3)
    by (fastforce simp: word_less_nat_alt)
  then show "sorted_wrt (\<lambda>xs ys. \<forall>x\<in>set xs. \<forall>y\<in>set ys. x < y)
      (map (\<lambda>(i, w). drain_word i w) (enumerate 0 bitmap))"
    unfolding sorted_wrt_map
    by (intro sorted_wrt_mono_rel [OF _ sorted_wrt_enumerate]) (auto simp: case_prod_beta)
qed

lemma mark_gram_bit:
  assumes "length bitmap = BITMAP_WORDS" "i < BITMAP_WORDS" "n < 64"
  shows "bit (mark_gram w bitmap ! i) n \<longleftrightarrow> bit (bitmap ! i) n \<or> unat (pack_window w) = i * 64 + n"
proof -
  have "unat (pack_window w) div 64 < BITMAP_WORDS"
    using pack_window_bound [of w] by (simp add: BITMAP_WORDS_def)
  moreover have "unat (pack_window w) = i * 64 + n \<longleftrightarrow> unat (pack_window w) div 64 = i \<and> unat (pack_window w) mod 64 = n"
    using assms(3) by auto
  ultimately show ?thesis
    using assms by (auto simp: mark_gram_def Let_def nth_list_update bit_simps)
qed

lemma length_mark_gram [simp]: "length (mark_gram w bitmap) = length bitmap"
  by (simp add: mark_gram_def Let_def)

lemma fold_mark_gram_bit:
  assumes "length bitmap = BITMAP_WORDS" "i < BITMAP_WORDS" "n < 64"
  shows "bit (fold mark_gram ws bitmap ! i) n \<longleftrightarrow>
         bit (bitmap ! i) n \<or> (\<exists>w\<in>set ws. unat (pack_window w) = i * 64 + n)"
  using assms by (induction ws arbitrary: bitmap) (auto simp: mark_gram_bit)

lemma length_fold_mark_gram [simp]: "length (fold mark_gram ws bitmap) = length bitmap"
  by (induction ws arbitrary: bitmap) auto

lemma bitmap_list_set:
  assumes "bitmap = fold mark_gram ws (replicate BITMAP_WORDS 0)"
  shows "set (concat (map (\<lambda>(i, w). drain_word i w) (enumerate 0 bitmap))) = pack_window ` set ws"
proof -
  have len: "length bitmap = BITMAP_WORDS" by (simp add: assms)
  have bits: "bit (bitmap ! i) n \<longleftrightarrow> (\<exists>w\<in>set ws. unat (pack_window w) = i * 64 + n)"
    if "i < BITMAP_WORDS" "n < 64" for i n
    using fold_mark_gram_bit [of "replicate BITMAP_WORDS 0" i n ws] that by (simp add: assms)
  have "g \<in> set (concat (map (\<lambda>(i, w). drain_word i w) (enumerate 0 bitmap))) \<longleftrightarrow>
        (\<exists>i<BITMAP_WORDS. \<exists>n<64. bit (bitmap ! i) n \<and> g = bitmap_gram i n)" for g
  proof -
    have "set (enumerate 0 bitmap) = (\<lambda>i. (i, bitmap ! i)) ` {..<BITMAP_WORDS}"
      by (auto simp: in_set_enumerate_eq image_iff len)
    then have "g \<in> set (concat (map (\<lambda>(i, w). drain_word i w) (enumerate 0 bitmap))) \<longleftrightarrow>
        (\<exists>i<BITMAP_WORDS. g \<in> set (drain_word i (bitmap ! i)))" by auto
    then show ?thesis by (auto simp: drain_word_set dest: u64_bit_low)
  qed
  moreover have "(\<exists>i<BITMAP_WORDS. \<exists>n<64. bit (bitmap ! i) n \<and> g = bitmap_gram i n) \<longleftrightarrow> g \<in> pack_window ` set ws" for g
  proof
    assume "\<exists>i<BITMAP_WORDS. \<exists>n<64. bit (bitmap ! i) n \<and> g = bitmap_gram i n"
    then obtain i n w where "w \<in> set ws" "unat (pack_window w) = i * 64 + n" "g = bitmap_gram i n"
      using bits by blast
    then show "g \<in> pack_window ` set ws" by (metis bitmap_gram_def image_eqI unat_cancel)
  next
    assume "g \<in> pack_window ` set ws"
    then obtain w where w: "w \<in> set ws" "g = pack_window w" by blast
    have "unat (pack_window w) div 64 < BITMAP_WORDS" "unat (pack_window w) mod 64 < 64"
      using pack_window_bound [of w] by (auto simp: BITMAP_WORDS_def)
    with bits w show "\<exists>i<BITMAP_WORDS. \<exists>n<64. bit (bitmap ! i) n \<and> g = bitmap_gram i n"
      by (metis bitmap_gram_def div_mult_mod_eq unat_cancel)
  qed
  ultimately show ?thesis by blast
qed


subsection \<open>Both paths\<close>

lemma ascending_remdups_adj: "sorted xs \<Longrightarrow> ascending (remdups_adj xs)"
  by (induction xs rule: remdups_adj.induct) auto

lemma sort_packed_grams_spec:
  assumes "radsort_sorts X"
  shows "ascending (sort_packed_grams X gs)" and "set (sort_packed_grams X gs) = set gs"
  using assms by (auto simp: sort_packed_grams_def radsort_sorts_def ascending_remdups_adj)

lemma pack_trigram_grams_ascending:
  assumes "radsort_sorts X"
  shows "ascending (pack_trigram_grams X data)"
  using bitmap_list_ascending [of "fold mark_gram (windows3 data) (replicate BITMAP_WORDS 0)"]
  by (simp add: pack_trigram_grams_def Let_def sort_packed_grams_spec [OF assms])

lemma pack_trigram_grams_set:
  assumes "radsort_sorts X"
  shows "set (pack_trigram_grams X data) = pack_window ` set (windows3 data)"
  using bitmap_list_set [OF refl, of "windows3 data"]
  by (simp only: pack_trigram_grams_def Let_def sort_packed_grams_spec [OF assms] set_map split: if_split)
    simp

lemma slice_windows3:
  assumes "start \<le> fin" "fin \<le> length data"
  shows "w \<in> set (windows3 (take (fin - start) (drop start data))) \<longleftrightarrow>
    (\<exists>i\<ge>start. i + 2 < fin \<and> w = (data ! i, data ! (i + 1), data ! (i + 2)))"
proof -
  have len: "length (take (fin - start) (drop start data)) = fin - start" using assms by simp
  have "w \<in> set (windows3 (take (fin - start) (drop start data))) \<longleftrightarrow>
    (\<exists>j. j + 2 < fin - start \<and> w = (data ! (start + j), data ! (start + (j + 1)), data ! (start + (j + 2))))"
    unfolding in_windows3 len using assms by (intro ex_cong1 conj_cong refl) simp
  also have "\<dots> \<longleftrightarrow> (\<exists>i\<ge>start. i + 2 < fin \<and> w = (data ! i, data ! (i + 1), data ! (i + 2)))"
  proof (intro iffI; elim exE conjE)
    fix j assume "j + 2 < fin - start" "w = (data ! (start + j), data ! (start + (j + 1)), data ! (start + (j + 2)))"
    then show "\<exists>i\<ge>start. i + 2 < fin \<and> w = (data ! i, data ! (i + 1), data ! (i + 2))"
      by (intro exI [of _ "start + j"]) simp
  next
    fix i assume "start \<le> i" "i + 2 < fin" "w = (data ! i, data ! (i + 1), data ! (i + 2))"
    then show "\<exists>j. j + 2 < fin - start \<and> w = (data ! (start + j), data ! (start + (j + 1)), data ! (start + (j + 2)))"
      by (intro exI [of _ "i - start"]) simp
  qed
  finally show ?thesis .
qed

lemma block_grams_from_set:
  assumes "radsort_sorts X"
  shows "(b, g) \<in> set (block_grams_from X data start block) \<longleftrightarrow>
    (\<exists>i\<ge>start. i + 2 < length data \<and> b = block + of_nat ((i - start) div CANDIDATE_BLOCK_BYTES) \<and>
       g = pack_window (data ! i, data ! (i + 1), data ! (i + 2)))"
  using assms
proof (induction X data start block rule: block_grams_from.induct)
  case (1 X data start block)
  let ?B = CANDIDATE_BLOCK_BYTES
  let ?g = "\<lambda>i. pack_window (data ! i, data ! (i + 1), data ! (i + 2))"
  have B: "0 < ?B" by (simp add: CANDIDATE_BLOCK_BYTES_def)
  show ?case
  proof (cases "start + 2 < length data")
    case True
    let ?stop = "min (start + ?B + 2) (length data)"
    have first: "g \<in> set (pack_trigram_grams X (take (?stop - start) (drop start data))) \<longleftrightarrow>
        (\<exists>i\<ge>start. i + 2 < ?stop \<and> g = ?g i)"
    proof -
      have "start \<le> ?stop" "?stop \<le> length data" using True by auto
      then show ?thesis
        unfolding pack_trigram_grams_set [OF "1.prems"] image_iff Bex_def
        by (simp only: slice_windows3) blast
    qed
    have IH: "(b, g) \<in> set (block_grams_from X data (start + ?B) (block + 1)) \<longleftrightarrow>
        (\<exists>i\<ge>start + ?B. i + 2 < length data \<and> b = block + 1 + of_nat ((i - (start + ?B)) div ?B) \<and> g = ?g i)"
      by (rule "1.IH" [OF True refl refl "1.prems"])
    have near: "(i - start) div ?B = 0" if "i < start + ?B" for i using that B by auto
    have far: "of_nat ((i - start) div ?B) = 1 + (of_nat ((i - (start + ?B)) div ?B) :: u32)"
      if "start + ?B \<le> i" for i
    proof -
      have "i - start = (i - (start + ?B)) + ?B" using that by simp
      then have "(i - start) div ?B = ((i - (start + ?B)) + ?B) div ?B" by (rule arg_cong)
      also have "\<dots> = Suc ((i - (start + ?B)) div ?B)" using B by (subst div_add_self2) auto
      finally show ?thesis by simp
    qed
    have "(b, g) \<in> set (block_grams_from X data start block) \<longleftrightarrow>
       (b = block \<and> (\<exists>i\<ge>start. i + 2 < ?stop \<and> g = ?g i)) \<or>
       (\<exists>i\<ge>start + ?B. i + 2 < length data \<and> b = block + 1 + of_nat ((i - (start + ?B)) div ?B) \<and> g = ?g i)"
    proof -
      have "set (block_grams_from X data start block) =
         Pair block ` set (pack_trigram_grams X (take (?stop - start) (drop start data)))
         \<union> set (block_grams_from X data (start + ?B) (block + 1))"
        by (simp only: block_grams_from.simps [of X data start block] True if_True Let_def set_append set_map)
      then have "(b, g) \<in> set (block_grams_from X data start block) \<longleftrightarrow>
         b = block \<and> g \<in> set (pack_trigram_grams X (take (?stop - start) (drop start data)))
         \<or> (b, g) \<in> set (block_grams_from X data (start + ?B) (block + 1))"
        by (simp only: Un_iff image_iff prod.inject) (rule disj_cong [OF _ refl], blast)
      then show ?thesis by (simp only: IH first)
    qed
    also have "\<dots> \<longleftrightarrow> (\<exists>i\<ge>start. i + 2 < length data \<and> b = block + of_nat ((i - start) div ?B) \<and> g = ?g i)"
      (is "?L \<longleftrightarrow> ?R")
    proof
      assume ?L
      then show ?R
      proof
        assume "b = block \<and> (\<exists>i\<ge>start. i + 2 < ?stop \<and> g = ?g i)"
        then obtain i where "b = block" "start \<le> i" "i + 2 < ?stop" "g = ?g i" by blast
        then show ?R using near [of i] by (intro exI [of _ i]) (simp del: pack_window.simps)
      next
        assume "\<exists>i\<ge>start + ?B. i + 2 < length data \<and> b = block + 1 + of_nat ((i - (start + ?B)) div ?B) \<and> g = ?g i"
        then obtain i where "start + ?B \<le> i" "i + 2 < length data"
          "b = block + 1 + of_nat ((i - (start + ?B)) div ?B)" "g = ?g i" by blast
        then show ?R using far [of i] by (intro exI [of _ i]) (simp del: pack_window.simps)
      qed
    next
      assume ?R
      then obtain i where i: "start \<le> i" "i + 2 < length data" "b = block + of_nat ((i - start) div ?B)" "g = ?g i"
        by blast
      show ?L
      proof (cases "i < start + ?B")
        case True
        with i near [of i] show ?L by (intro disjI1 conjI exI [of _ i]) (simp_all del: pack_window.simps)
      next
        case False
        with i far [of i] show ?L by (intro disjI2 exI [of _ i]) (simp del: pack_window.simps)
      qed
    qed
    finally show ?thesis .
  next
    case False
    then show ?thesis by (subst block_grams_from.simps) auto
  qed
qed

lemma pack_trigram_block_grams_set:
  assumes "radsort_sorts X"
  shows "(b, g) \<in> set (pack_trigram_block_grams X data) \<longleftrightarrow>
    (\<exists>i. i + 2 < length data \<and> b = of_nat (i div CANDIDATE_BLOCK_BYTES) \<and>
       g = pack_window (data ! i, data ! (i + 1), data ! (i + 2)))"
  using block_grams_from_set [OF assms, of b g data 0 0]
  by (auto simp: pack_trigram_block_grams_def simp del: pack_window.simps)

lemma trigram_grams_bytes_set:
  assumes "radsort_sorts X"
  shows "set (trigram_grams_bytes X data) =
     {[data ! i, data ! (i + 1), data ! (i + 2)] |i. i + 2 < length data}"
proof -
  have "set (trigram_grams_bytes X data) = (\<lambda>(a, b, c). [a, b, c]) ` set (windows3 data)"
    unfolding trigram_grams_bytes_def set_map pack_trigram_grams_set [OF assms] image_image
    by (intro image_cong refl) (auto simp: unpack_pack_window simp del: pack_window.simps)
  also have "\<dots> = {[data ! i, data ! (i + 1), data ! (i + 2)] |i. i + 2 < length data}"
  proof (intro equalityI subsetI)
    fix g assume "g \<in> (\<lambda>(a, b, c). [a, b, c]) ` set (windows3 data)"
    then show "g \<in> {[data ! i, data ! (i + 1), data ! (i + 2)] |i. i + 2 < length data}"
      by (auto simp only: in_windows3 image_iff Bex_def prod.case)
  next
    fix g assume "g \<in> {[data ! i, data ! (i + 1), data ! (i + 2)] |i. i + 2 < length data}"
    then obtain i where "i + 2 < length data" "g = [data ! i, data ! (i + 1), data ! (i + 2)]" by blast
    then show "g \<in> (\<lambda>(a, b, c). [a, b, c]) ` set (windows3 data)"
      by (intro image_eqI [where x = "(data ! i, data ! (i + 1), data ! (i + 2))"]) (auto simp only: in_windows3 prod.case)
  qed
  finally show ?thesis .
qed

lemma trigram_grams_substring:
  assumes "radsort_sorts X"
  shows "set (trigram_grams_bytes X lit) \<subseteq> set (trigram_grams_bytes X (before @ lit @ after))"
proof
  fix g assume "g \<in> set (trigram_grams_bytes X lit)"
  then obtain i where "i + 2 < length lit" "g = [lit ! i, lit ! (i + 1), lit ! (i + 2)]"
    by (auto simp: trigram_grams_bytes_set [OF assms])
  then have "length before + i + 2 < length (before @ lit @ after) \<and>
    g = [(before @ lit @ after) ! (length before + i), (before @ lit @ after) ! (length before + i + 1),
         (before @ lit @ after) ! (length before + i + 2)]"
    by (simp add: nth_append)
  then show "g \<in> set (trigram_grams_bytes X (before @ lit @ after))"
    unfolding trigram_grams_bytes_set [OF assms] by blast
qed


section \<open>Properties\<close>

definition sample_crates :: crates where
  "sample_crates = \<lparr>radsort = sort, rapidhash_v3 = (\<lambda>bs. foldl (\<lambda>h b. h * 31 + ucast b) 7 bs)\<rparr>"

lemma sample_crates_sorts: "radsort_sorts sample_crates"
  by (simp add: sample_crates_def radsort_sorts_def)

text \<open>
  C40: both paths of \<open>pack_trigram_grams\<close>, the 2 MiB bitmap for large inputs and the radix or
  comparison sort for the others, return the same list: the distinct packed windows in
  ascending order.
\<close>

theorem pack_trigram_grams_paths_agree:
  assumes "radsort_sorts X"
  shows "pack_trigram_grams X data = remdups_adj (sort (map pack_window (windows3 data)))"
  by (rule ascending_eqI)
    (simp_all add: pack_trigram_grams_ascending pack_trigram_grams_set assms ascending_remdups_adj
      del: pack_window.simps)

theorem pack_trigram_grams_paths_agree_witness:
  "pack_trigram_grams sample_crates [98, 97, 98, 97, 98]
   = remdups_adj (sort (map pack_window (windows3 [98, 97, 98, 97, 98])))"
  by (rule pack_trigram_grams_paths_agree [OF sample_crates_sorts])

text \<open>
  Erasing the blocks of the block-granular grams gives the gram set of the whole document.
\<close>

lemma block_grams_erase:
  assumes "radsort_sorts X"
  shows "snd ` set (pack_trigram_block_grams X data) = set (pack_trigram_grams X data)"
proof -
  have "g \<in> snd ` set (pack_trigram_block_grams X data) \<longleftrightarrow> g \<in> pack_window ` set (windows3 data)" for g
  proof -
    have "g \<in> snd ` set (pack_trigram_block_grams X data) \<longleftrightarrow>
        (\<exists>b. (b, g) \<in> set (pack_trigram_block_grams X data))" by force
    also have "\<dots> \<longleftrightarrow> (\<exists>i. i + 2 < length data \<and> g = pack_window (data ! i, data ! (i + 1), data ! (i + 2)))"
      unfolding pack_trigram_block_grams_set [OF assms] by blast
    also have "\<dots> \<longleftrightarrow> g \<in> pack_window ` set (windows3 data)"
      unfolding image_iff Bex_def in_windows3 by blast
    finally show ?thesis .
  qed
  then show ?thesis by (auto simp only: pack_trigram_grams_set [OF assms])
qed

end
