(* ===== verification/Sparse_Grams.thy ===== *)
theory Sparse_Grams
  imports Grams
begin

text \<open>
  Sparse grams, \<open>crates/core/src/grams.rs\<close>: the index-side iterator
  \<open>SparseGramRanges\<close> with its fallible byte source, the query-side cover
  (a stack of pair positions with decreasing weights) and the per-strategy gram functions
  \<open>grams_index\<close> and \<open>grams_query\<close>. The locale \<open>gram_scheme\<close> is the contract between
  the two sides on which the absence of false negatives rests.
\<close>

section \<open>The index side\<close>

definition hash_ngram :: "crates \<Rightarrow> bytes \<Rightarrow> u64" where
  "hash_ngram X gram = rapidhash_v3 X gram AND (push_bit 40 1 - 1)"

definition pair_weight :: "crates \<Rightarrow> u8 \<Rightarrow> u8 \<Rightarrow> u32" where
  "pair_weight X a b = ucast (rapidhash_v3 X [a, b])"

record sparse_gram_ranges =
  pair_count :: nat
  sg_start :: nat
  sg_end :: nat
  interior_max :: u32
  start_weight :: u32
  emit_pair :: bool

definition start_sparse_gram_ranges :: "nat \<Rightarrow> sparse_gram_ranges" where
  "start_sparse_gram_ranges len =
     \<lparr>pair_count = len - 1, sg_start = 0, sg_end = 0, interior_max = 0, start_weight = 0,
      emit_pair = True\<rparr>"

text \<open>\<open>pair_weight(byte(i)?, byte(i + 1)?)\<close> with a fallible byte source.\<close>

definition weight_at :: "crates \<Rightarrow> (nat \<Rightarrow> u8 result) \<Rightarrow> nat \<Rightarrow> u32 result" where
  "weight_at X byte i =
     (case byte i of
        Inl e \<Rightarrow> Inl e
      | Inr a \<Rightarrow> (case byte (i + 1) of Inl e \<Rightarrow> Inl e | Inr b \<Rightarrow> Inr (pair_weight X a b)))"

text \<open>The inner \<open>while\<close> of \<open>next_with\<close>; \<open>None\<close> is leaving the loop, \<open>Some\<close> the early return.\<close>

function scan_end ::
  "crates \<Rightarrow> (nat \<Rightarrow> u8 result) \<Rightarrow> sparse_gram_ranges \<Rightarrow> ((nat \<times> nat) option \<times> sparse_gram_ranges) result" where
  "scan_end X byte st =
     (if sg_end st < pair_count st
      then (case (if sg_end st > sg_start st + 1
                  then (case weight_at X byte (sg_end st - 1) of
                          Inl e \<Rightarrow> Inl e
                        | Inr w \<Rightarrow> Inr (max (interior_max st) w))
                  else Inr (interior_max st)) of
              Inl e \<Rightarrow> Inl e
            | Inr m \<Rightarrow>
                if m \<ge> start_weight st then Inr (None, st\<lparr>interior_max := m\<rparr>)
                else (case weight_at X byte (sg_end st) of
                        Inl e \<Rightarrow> Inl e
                      | Inr w \<Rightarrow>
                          if w > m
                          then Inr (Some (sg_start st, sg_end st + 2),
                                    st\<lparr>interior_max := m, sg_end := sg_end st + 1\<rparr>)
                          else scan_end X byte (st\<lparr>interior_max := m, sg_end := sg_end st + 1\<rparr>)))
      else Inr (None, st))"
  by pat_completeness auto
termination
  by (relation "measure (\<lambda>(X, byte, st). pair_count st - sg_end st)") auto

declare scan_end.simps [simp del]

lemma scan_end_frame:
  "scan_end X byte st = Inr (r, st') \<Longrightarrow>
   pair_count st' = pair_count st \<and> sg_start st' = sg_start st \<and> emit_pair st' = emit_pair st \<and>
   start_weight st' = start_weight st \<and>
   (r \<noteq> None \<longrightarrow> sg_end st < pair_count st \<and> sg_end st < sg_end st')"
proof (induction X byte st rule: scan_end.induct)
  case (1 X byte st)
  show ?case
  proof (cases "sg_end st < pair_count st")
    case True
    let ?m = "if sg_end st > sg_start st + 1
                  then (case weight_at X byte (sg_end st - 1) of
                          Inl e \<Rightarrow> Inl e | Inr w \<Rightarrow> Inr (max (interior_max st) w))
                  else Inr (interior_max st)"
    from "1.prems" True obtain m where m: "?m = Inr m"
      by (subst (asm) scan_end.simps) (auto split: sum.splits if_splits)
    show ?thesis
    proof (cases "m \<ge> start_weight st")
      case True': True
      with "1.prems" True m show ?thesis by (subst (asm) scan_end.simps) auto
    next
      case ge: False
      with "1.prems" True m obtain w where w: "weight_at X byte (sg_end st) = Inr w"
        by (subst (asm) scan_end.simps) (auto split: sum.splits if_splits)
      show ?thesis
      proof (cases "w > m")
        case gt: True
        with "1.prems" True m ge w show ?thesis by (subst (asm) scan_end.simps) auto
      next
        case False
        with "1.prems" True m ge w
        have "scan_end X byte (st\<lparr>interior_max := m, sg_end := sg_end st + 1\<rparr>) = Inr (r, st')"
          by (subst (asm) scan_end.simps) auto
        from "1.IH" [OF True m ge w False this] True show ?thesis by auto
      qed
    qed
  next
    case False
    with "1.prems" show ?thesis by (subst (asm) scan_end.simps) auto
  qed
qed

function next_with ::
  "crates \<Rightarrow> (nat \<Rightarrow> u8 result) \<Rightarrow> sparse_gram_ranges \<Rightarrow> ((nat \<times> nat) option \<times> sparse_gram_ranges) result" where
  "next_with X byte st =
     (if sg_start st \<ge> pair_count st then Inr (None, st)
      else if emit_pair st
      then (case weight_at X byte (sg_start st) of
              Inl e \<Rightarrow> Inl e
            | Inr w \<Rightarrow> Inr (Some (sg_start st, sg_start st + 2),
                           st\<lparr>emit_pair := False, sg_end := sg_start st + 1, interior_max := 0, start_weight := w\<rparr>))
      else (case scan_end X byte st of
              Inl e \<Rightarrow> Inl e
            | Inr (Some r, st') \<Rightarrow> Inr (Some r, st')
            | Inr (None, st') \<Rightarrow>
                next_with X byte (st'\<lparr>sg_start := sg_start st' + 1, emit_pair := True\<rparr>)))"
  by pat_completeness auto
termination
proof (relation "measure (\<lambda>(X, byte, st). pair_count st - sg_start st)")
qed (auto dest: scan_end_frame)

declare next_with.simps [simp del]


lemma next_with_Some:
  "next_with X byte st = Inr (Some r, st') \<Longrightarrow>
   pair_count st' = pair_count st \<and> sg_start st < pair_count st \<and>
   (sg_start st < sg_start st' \<or>
    sg_start st = sg_start st' \<and> (emit_pair st \<and> \<not> emit_pair st' \<or>
      emit_pair st = emit_pair st' \<and> sg_end st < pair_count st \<and> sg_end st < sg_end st'))"
proof (induction X byte st rule: next_with.induct)
  case (1 X byte st)
  from "1.prems" have lt: "\<not> sg_start st \<ge> pair_count st"
    by (subst (asm) next_with.simps) (auto split: if_splits)
  show ?case
  proof (cases "emit_pair st")
    case True
    with "1.prems" lt show ?thesis by (subst (asm) next_with.simps) (auto split: sum.splits)
  next
    case False
    with "1.prems" lt obtain o1 st1 where sc: "scan_end X byte st = Inr (o1, st1)"
      by (subst (asm) next_with.simps) (auto split: sum.splits prod.splits)
    show ?thesis
    proof (cases o1)
      case None
      let ?st2 = "st1\<lparr>sg_start := sg_start st1 + 1, emit_pair := True\<rparr>"
      from None False lt sc "1.prems" have "next_with X byte ?st2 = Inr (Some r, st')"
        by (subst (asm) next_with.simps) auto
      with "1.IH" [OF lt False sc refl None]
      have "pair_count st' = pair_count ?st2" "sg_start ?st2 \<le> sg_start st'" by auto
      with scan_end_frame [OF sc] lt show ?thesis by auto
    next
      case (Some r1)
      with False lt sc "1.prems" have "st' = st1" by (subst (asm) next_with.simps) auto
      with Some scan_end_frame [OF sc] lt show ?thesis by auto
    qed
  qed
qed

function sparse_ranges_from ::
  "crates \<Rightarrow> (nat \<Rightarrow> u8 result) \<Rightarrow> sparse_gram_ranges \<Rightarrow> (nat \<times> nat) list result" where
  "sparse_ranges_from X byte st =
     (case next_with X byte st of
        Inl e \<Rightarrow> Inl e
      | Inr (None, _) \<Rightarrow> Inr []
      | Inr (Some r, st') \<Rightarrow>
          (case sparse_ranges_from X byte st' of Inl e \<Rightarrow> Inl e | Inr rs \<Rightarrow> Inr (r # rs)))"
  by pat_completeness auto
termination
  by (relation "measures [\<lambda>(X, byte, st). pair_count st - sg_start st,
        \<lambda>(X, byte, st). if emit_pair st then 1 else 0,
        \<lambda>(X, byte, st). pair_count st - sg_end st]")
    (auto dest!: next_with_Some)

declare sparse_ranges_from.simps [simp del]

definition byte_of :: "bytes \<Rightarrow> nat \<Rightarrow> u8 result" where
  "byte_of data i = (if i < length data then Inr (data ! i) else Inl Panic)"

definition byte_range :: "'a list \<Rightarrow> nat \<times> nat \<Rightarrow> 'a list" where
  "byte_range xs r = take (snd r - fst r) (drop (fst r) xs)"

definition iterate_sparse_gram_ranges :: "crates \<Rightarrow> nat \<Rightarrow> (nat \<Rightarrow> u8 result) \<Rightarrow> (nat \<times> nat) list result" where
  "iterate_sparse_gram_ranges X len byte = sparse_ranges_from X byte (start_sparse_gram_ranges len)"

definition iterate_sparse_grams :: "crates \<Rightarrow> bytes \<Rightarrow> bytes list result" where
  "iterate_sparse_grams X data =
     map_sum id (map (byte_range data)) (iterate_sparse_gram_ranges X (length data) (byte_of data))"

definition sparse_grams_all_bytes :: "crates \<Rightarrow> bytes \<Rightarrow> bytes list result" where
  "sparse_grams_all_bytes X data =
     map_sum id (\<lambda>out. remdups_adj (sort out)) (iterate_sparse_grams X data)"

section \<open>Reference\<close>

definition imax :: "(nat \<Rightarrow> u32) \<Rightarrow> nat \<Rightarrow> nat \<Rightarrow> u32" where
  "imax W a c = foldl max 0 (map W [a + 1..<c])"

definition ends_gram :: "(nat \<Rightarrow> u32) \<Rightarrow> nat \<Rightarrow> nat \<Rightarrow> bool" where
  "ends_gram W a c \<longleftrightarrow> imax W a c < W a \<and> W c > imax W a c"

definition tail_ranges :: "(nat \<Rightarrow> u32) \<Rightarrow> nat \<Rightarrow> nat \<Rightarrow> nat \<Rightarrow> (nat \<times> nat) list" where
  "tail_ranges W n a c = map (\<lambda>e. (a, e + 2)) (filter (ends_gram W a) [c..<n])"

definition ranges_from :: "(nat \<Rightarrow> u32) \<Rightarrow> nat \<Rightarrow> nat \<Rightarrow> (nat \<times> nat) list" where
  "ranges_from W n a = concat (map (\<lambda>s. (s, s + 2) # tail_ranges W n s (s + 1)) [a..<n])"

definition remaining_ranges :: "(nat \<Rightarrow> u32) \<Rightarrow> sparse_gram_ranges \<Rightarrow> (nat \<times> nat) list" where
  "remaining_ranges W st =
     (if emit_pair st then ranges_from W (pair_count st) (sg_start st)
      else tail_ranges W (pair_count st) (sg_start st) (sg_end st)
           @ ranges_from W (pair_count st) (sg_start st + 1))"

definition scanning :: "(nat \<Rightarrow> u32) \<Rightarrow> sparse_gram_ranges \<Rightarrow> bool" where
  "scanning W st \<longleftrightarrow> \<not> emit_pair st \<and> sg_start st < pair_count st \<and> sg_start st < sg_end st \<and>
     start_weight st = W (sg_start st) \<and> interior_max st = imax W (sg_start st) (sg_end st - 1)"

lemma imax_Suc: "a < c \<Longrightarrow> imax W a (Suc c) = max (imax W a c) (W c)"
  by (simp add: imax_def)

lemma imax_base: "c \<le> a + 1 \<Longrightarrow> imax W a c = 0"
  by (simp add: imax_def)

lemma imax_mono: "a < c \<Longrightarrow> c \<le> d \<Longrightarrow> imax W a c \<le> imax W a d"
proof (induction d)
  case (Suc d)
  show ?case
  proof (cases "c = Suc d")
    case False
    with Suc have "imax W a c \<le> imax W a d" by auto
    also have "\<dots> \<le> imax W a (Suc d)" using Suc.prems False by (simp add: imax_Suc)
    finally show ?thesis .
  qed simp
qed simp

lemma tail_ranges_blocked:
  assumes "a < c" "imax W a c \<ge> W a"
  shows "tail_ranges W n a c = []"
proof -
  have "\<not> ends_gram W a e" if "c \<le> e" for e
    using imax_mono [OF assms(1) that, of W] assms(2) by (auto simp: ends_gram_def)
  then show ?thesis by (auto simp: tail_ranges_def filter_empty_conv)
qed

lemma tail_ranges_step:
  "c < n \<Longrightarrow> tail_ranges W n a c =
     (if ends_gram W a c then [(a, c + 2)] else []) @ tail_ranges W n a (Suc c)"
  by (simp add: tail_ranges_def upt_rec [of c n])

lemma scan_end_refines:
  assumes "\<forall>i<pair_count st. weight_at X byte i = Inr (W i)" "scanning W st"
  shows "\<exists>r st'. scan_end X byte st = Inr (r, st') \<and>
     (r = None \<longrightarrow> tail_ranges W (pair_count st) (sg_start st) (sg_end st) = []) \<and>
     (\<forall>x. r = Some x \<longrightarrow> scanning W st' \<and>
          tail_ranges W (pair_count st) (sg_start st) (sg_end st) =
          x # tail_ranges W (pair_count st) (sg_start st) (sg_end st'))"
  using assms
proof (induction X byte st rule: scan_end.induct)
  case (1 X byte st)
  let ?n = "pair_count st" and ?a = "sg_start st" and ?c = "sg_end st"
  note sc = "1.prems"(2) [unfolded scanning_def]
  show ?case
  proof (cases "?c < ?n")
    case True
    have m: "(if ?c > ?a + 1
              then (case weight_at X byte (?c - 1) of Inl e \<Rightarrow> Inl e | Inr w \<Rightarrow> Inr (max (interior_max st) w))
              else Inr (interior_max st)) = Inr (imax W ?a ?c)"
    proof (cases "?c > ?a + 1")
      case gt: True
      then have "imax W ?a ?c = max (imax W ?a (?c - 1)) (W (?c - 1))"
        using imax_Suc [of ?a "?c - 1" W] by simp
      with gt True sc "1.prems"(1) show ?thesis by simp
    next
      case False
      with sc show ?thesis by (simp add: imax_base)
    qed
    from True "1.prems"(1) have w: "weight_at X byte ?c = Inr (W ?c)" by simp
    show ?thesis
    proof (cases "imax W ?a ?c \<ge> start_weight st")
      case ge: True
      then have "tail_ranges W ?n ?a ?c = []" using sc by (intro tail_ranges_blocked) auto
      with ge show ?thesis by (subst scan_end.simps) (simp only: True m if_True sum.case, simp)
    next
      case lt: False
      show ?thesis
      proof (cases "W ?c > imax W ?a ?c")
        case gt: True
        let ?st' = "st\<lparr>interior_max := imax W ?a ?c, sg_end := ?c + 1\<rparr>"
        have "scan_end X byte st = Inr (Some (?a, ?c + 2), ?st')"
          by (subst scan_end.simps) (simp only: True m w if_True sum.case lt gt if_False)
        moreover have "scanning W ?st'" using sc by (simp add: scanning_def)
        moreover have "ends_gram W ?a ?c" using lt gt sc by (simp add: ends_gram_def)
        ultimately show ?thesis using tail_ranges_step [OF True, of W ?a] by simp
      next
        case ngt: False
        let ?st' = "st\<lparr>interior_max := imax W ?a ?c, sg_end := ?c + 1\<rparr>"
        have eq: "scan_end X byte st = scan_end X byte ?st'"
          by (subst scan_end.simps) (simp only: True m w if_True sum.case lt ngt if_False)
        have "\<not> ends_gram W ?a ?c" using ngt by (simp add: ends_gram_def)
        moreover have "scanning W ?st'" using sc by (simp add: scanning_def)
        ultimately show ?thesis
          using "1.IH" [OF True m lt w ngt] "1.prems"(1) tail_ranges_step [OF True, of W ?a] eq by simp
      qed
    qed
  next
    case False
    then show ?thesis by (subst scan_end.simps) (simp add: tail_ranges_def)
  qed
qed

lemma ranges_from_step: "a < n \<Longrightarrow> ranges_from W n a = (a, a + 2) # tail_ranges W n a (a + 1) @ ranges_from W n (a + 1)"
  by (simp add: ranges_from_def upt_rec [of a n])

lemma ranges_from_done: "n \<le> a \<Longrightarrow> ranges_from W n a = []"
  by (simp add: ranges_from_def)

lemma next_with_refines:
  assumes "\<forall>i<pair_count st. weight_at X byte i = Inr (W i)" "emit_pair st \<or> scanning W st"
  shows "\<exists>r st'. next_with X byte st = Inr (r, st') \<and>
     (r = None \<longrightarrow> remaining_ranges W st = []) \<and>
     (\<forall>x. r = Some x \<longrightarrow>
        (emit_pair st' \<or> scanning W st') \<and> remaining_ranges W st = x # remaining_ranges W st')"
  using assms
proof (induction X byte st rule: next_with.induct)
  case (1 X byte st)
  show ?case
  proof (cases "sg_start st \<ge> pair_count st")
    case True
    with "1.prems"(2) show ?thesis
      by (subst next_with.simps) (auto simp: remaining_ranges_def ranges_from_done scanning_def)
  next
    case lt: False
    show ?thesis
    proof (cases "emit_pair st")
      case True
      with lt "1.prems"(1) show ?thesis
        by (subst next_with.simps)
          (simp add: remaining_ranges_def ranges_from_step scanning_def imax_base)
    next
      case False
      with "1.prems"(2) have sc: "scanning W st" by simp
      from scan_end_refines [OF "1.prems"(1) this] obtain r st1 where
        r: "scan_end X byte st = Inr (r, st1)" and
        c: "r = None \<Longrightarrow> tail_ranges W (pair_count st) (sg_start st) (sg_end st) = []"
           "\<And>x. r = Some x \<Longrightarrow> scanning W st1 \<and> tail_ranges W (pair_count st) (sg_start st) (sg_end st) =
                x # tail_ranges W (pair_count st) (sg_start st) (sg_end st1)" by blast
      note fr = scan_end_frame [OF r]
      show ?thesis
      proof (cases r)
        case None
        let ?st2 = "st1\<lparr>sg_start := sg_start st1 + 1, emit_pair := True\<rparr>"
        have eq: "next_with X byte st = next_with X byte ?st2"
          using lt False r None by (subst next_with.simps) simp
        have rem: "remaining_ranges W st = remaining_ranges W ?st2"
          using c(1) [OF None] fr False by (simp add: remaining_ranges_def)
        have "\<forall>i<pair_count ?st2. weight_at X byte i = Inr (W i)" using "1.prems"(1) fr by simp
        from "1.IH" [OF lt False r refl None this] show ?thesis
          unfolding eq rem by simp
      next
        case (Some x)
        then have "next_with X byte st = Inr (Some x, st1)"
          using lt False r by (subst next_with.simps) simp
        with c(2) [OF Some] fr False show ?thesis by (simp add: remaining_ranges_def)
      qed
    qed
  qed
qed

lemma sparse_ranges_from_refines:
  assumes "\<forall>i<pair_count st. weight_at X byte i = Inr (W i)" "emit_pair st \<or> scanning W st"
  shows "sparse_ranges_from X byte st = Inr (remaining_ranges W st)"
  using assms
proof (induction X byte st rule: sparse_ranges_from.induct)
  case (1 X byte st)
  from next_with_refines [OF "1.prems"] obtain r st' where
    r: "next_with X byte st = Inr (r, st')" and
    c: "r = None \<Longrightarrow> remaining_ranges W st = []"
       "\<And>x. r = Some x \<Longrightarrow> (emit_pair st' \<or> scanning W st') \<and> remaining_ranges W st = x # remaining_ranges W st'"
    by blast
  show ?case
  proof (cases r)
    case None
    with r c(1) show ?thesis by (subst sparse_ranges_from.simps) simp
  next
    case (Some x)
    from next_with_Some [OF r [unfolded Some]] have "pair_count st' = pair_count st" by simp
    with "1.IH" [OF r refl Some] "1.prems"(1) c(2) [OF Some]
    have "sparse_ranges_from X byte st' = Inr (remaining_ranges W st')" by simp
    with r c(2) [OF Some] Some show ?thesis by (subst sparse_ranges_from.simps) simp
  qed
qed


lemma in_ranges_from:
  "(a, e) \<in> set (ranges_from W n s) \<longleftrightarrow> s \<le> a \<and> a + 2 \<le> e \<and> e < n + 2 \<and> (e = a + 2 \<or> ends_gram W a (e - 2))"
proof -
  have "(a, e) \<in> set (ranges_from W n s) \<longleftrightarrow>
     s \<le> a \<and> a < n \<and> (e = a + 2 \<or> (\<exists>c. a < c \<and> c < n \<and> ends_gram W a c \<and> e = c + 2))"
    by (auto simp: ranges_from_def tail_ranges_def)
  also have "\<dots> \<longleftrightarrow> s \<le> a \<and> a + 2 \<le> e \<and> e < n + 2 \<and> (e = a + 2 \<or> ends_gram W a (e - 2))"
    (is "?L \<longleftrightarrow> ?R")
  proof
    assume ?L then show ?R by auto
  next
    assume r: ?R
    show ?L
    proof (cases "e = a + 2")
      case False
      with r have "a < e - 2" "e - 2 < n" "ends_gram W a (e - 2)" "e = e - 2 + 2" by auto
      with r show ?L by auto
    qed (use r in auto)
  qed
  finally show ?thesis .
qed

definition data_weight :: "crates \<Rightarrow> bytes \<Rightarrow> nat \<Rightarrow> u32" where
  "data_weight X data i = pair_weight X (data ! i) (data ! (i + 1))"

text \<open>The ranges come by ascending start, and for one start by ascending end.\<close>

lemma tail_ranges_sorted: "sorted_wrt (\<lambda>(a, e) (a', e'). a < a' \<or> a = a' \<and> e < e') (tail_ranges W n a c)"
  unfolding tail_ranges_def sorted_wrt_map by (simp add: sorted_wrt_filter)

lemma ranges_from_sorted: "sorted_wrt (\<lambda>(a, e) (a', e'). a < a' \<or> a = a' \<and> e < e') (ranges_from W n s)"
proof (induction "n - s" arbitrary: s)
  case (Suc k)
  then have s: "s < n" and IH: "sorted_wrt (\<lambda>(a, e) (a', e'). a < a' \<or> a = a' \<and> e < e') (ranges_from W n (s + 1))" by simp_all
  have "a = s \<and> s + 2 < e" if "(a, e) \<in> set (tail_ranges W n s (s + 1))" for a e using that by (auto simp: tail_ranges_def)
  moreover have "s < a" if "(a, e) \<in> set (ranges_from W n (s + 1))" for a e using that by (simp add: in_ranges_from)
  ultimately show ?case unfolding ranges_from_step [OF s] using IH tail_ranges_sorted by (fastforce simp: sorted_wrt_append)
qed (simp add: ranges_from_done)

lemma iterate_ranges_eq:
  "iterate_sparse_gram_ranges X (length data) (byte_of data) =
     Inr (ranges_from (data_weight X data) (length data - 1) 0)"
proof -
  have "\<forall>i<length data - 1. weight_at X (byte_of data) i = Inr (data_weight X data i)"
    by (auto simp: weight_at_def byte_of_def data_weight_def)
  then show ?thesis
    using sparse_ranges_from_refines [of "start_sparse_gram_ranges (length data)" X "byte_of data" "data_weight X data"]
    by (simp add: iterate_sparse_gram_ranges_def start_sparse_gram_ranges_def remaining_ranges_def)
qed

lemma sparse_all_set:
  "\<exists>gs. sparse_grams_all_bytes X data = Inr gs \<and> ascending gs \<and>
     set gs = {byte_range data (a, e) |a e. a + 2 \<le> e \<and> e \<le> length data \<and>
                 (e = a + 2 \<or> ends_gram (data_weight X data) a (e - 2))}"
proof -
  let ?rs = "ranges_from (data_weight X data) (length data - 1) 0"
  let ?gs = "remdups_adj (sort (map (byte_range data) ?rs))"
  have "sparse_grams_all_bytes X data = Inr ?gs"
    by (simp add: sparse_grams_all_bytes_def iterate_sparse_grams_def iterate_ranges_eq)
  moreover have "ascending ?gs" by (simp add: ascending_remdups_adj)
  moreover have "set ?gs = {byte_range data (a, e) |a e. (a, e) \<in> set ?rs}" by auto
  moreover have "(a, e) \<in> set ?rs \<longleftrightarrow> a + 2 \<le> e \<and> e \<le> length data \<and>
      (e = a + 2 \<or> ends_gram (data_weight X data) a (e - 2))" for a e
    unfolding in_ranges_from by (cases "length data") auto
  ultimately show ?thesis by (simp only: sum.inject) blast
qed


section \<open>The query side\<close>

definition is_indexed_gram :: "u32 list \<Rightarrow> nat \<Rightarrow> nat \<Rightarrow> bool" where
  "is_indexed_gram weights a end_pos =
     (let last_pair = end_pos - 2 in
      if last_pair = a then True
      else let interior = foldl max 0 (take (last_pair - (a + 1)) (drop (a + 1) weights))
           in interior < weights ! a \<and> weights ! last_pair > interior)"

definition push_gram :: "bytes \<Rightarrow> u32 list \<Rightarrow> nat \<Rightarrow> nat \<Rightarrow> bytes list \<Rightarrow> bytes list" where
  "push_gram data weights a end_pos out =
     (if is_indexed_gram weights a end_pos then out @ [byte_range data (a, end_pos)] else out)"

text \<open>The \<open>while let Some(&top)\<close> loop: the stack has its top at the head.\<close>

fun cover_pop :: "bytes \<Rightarrow> u32 list \<Rightarrow> nat \<Rightarrow> nat list \<Rightarrow> bytes list \<Rightarrow> nat list \<times> bytes list" where
  "cover_pop data weights i [] out = ([], out)"
| "cover_pop data weights i (t0 # stack) out =
     (if weights ! t0 \<le> weights ! i
      then let out' = push_gram data weights t0 (i + 2) out in
           if weights ! t0 = weights ! i then (stack, out')
           else cover_pop data weights i stack out'
      else (t0 # stack, out))"

definition cover_step :: "bytes \<Rightarrow> u32 list \<Rightarrow> nat \<Rightarrow> nat list \<times> bytes list \<Rightarrow> nat list \<times> bytes list" where
  "cover_step data weights i s =
     (case cover_pop data weights i (fst s) (snd s) of (stack, out) \<Rightarrow> (i # stack, out))"

fun cover_drain :: "bytes \<Rightarrow> u32 list \<Rightarrow> nat list \<Rightarrow> bytes list \<Rightarrow> bytes list" where
  "cover_drain data weights [] out = out"
| "cover_drain data weights [pos] out = push_gram data weights pos (pos + 2) out"
| "cover_drain data weights (t0 # prev # stack) out =
     cover_drain data weights (prev # stack) (push_gram data weights prev (t0 + 2) out)"

definition sparse_grams_covering_bytes :: "crates \<Rightarrow> bytes \<Rightarrow> bytes list" where
  "sparse_grams_covering_bytes X data =
     (if length data < 2 then []
      else let weights = map (\<lambda>(a, b). pair_weight X a b) (windows2 data);
               (stack, out) = fold (cover_step data weights) [0..<length weights] ([], [])
           in remdups_adj (sort (cover_drain data weights stack out)))"

lemma length_windows2 [simp]: "length (windows2 xs) = length xs - 1"
  by (induction xs rule: windows2.induct) auto

lemma nth_windows2: "i + 1 < length xs \<Longrightarrow> windows2 xs ! i = (xs ! i, xs ! (i + 1))"
proof (induction xs arbitrary: i rule: windows2.induct)
  case (1 a b rest)
  then show ?case by (cases i) auto
qed auto

definition emitted :: "bytes \<Rightarrow> u32 list \<Rightarrow> bytes set" where
  "emitted data weights = {byte_range data (a, e) |a e. a + 2 \<le> e \<and> e < length weights + 2 \<and> is_indexed_gram weights a e}"

lemma set_push_gram:
  "a + 2 \<le> e \<Longrightarrow> e < length weights + 2 \<Longrightarrow> set out \<subseteq> emitted data weights \<Longrightarrow>
   set (push_gram data weights a e out) \<subseteq> emitted data weights"
  by (auto simp: push_gram_def emitted_def)

lemma cover_pop_inv:
  "i < length weights \<Longrightarrow> \<forall>t\<in>set stack. t < i \<Longrightarrow> sorted_wrt (>) stack \<Longrightarrow> set out \<subseteq> emitted data weights \<Longrightarrow>
   cover_pop data weights i stack out = (stack', out') \<Longrightarrow>
   set stack' \<subseteq> set stack \<and> sorted_wrt (>) stack' \<and> set out' \<subseteq> emitted data weights"
proof (induction stack arbitrary: out)
  case (Cons t0 stack)
  then have push: "set (push_gram data weights t0 (i + 2) out) \<subseteq> emitted data weights"
    by (intro set_push_gram) auto
  then have IH: "cover_pop data weights i stack (push_gram data weights t0 (i + 2) out) = (stack', out') \<Longrightarrow>
      set stack' \<subseteq> set stack \<and> sorted_wrt (>) stack' \<and> set out' \<subseteq> emitted data weights"
    using Cons.prems by (intro Cons.IH) auto
  show ?case
  proof (cases "weights ! t0 < weights ! i")
    case True
    then have "weights ! t0 \<le> weights ! i" "weights ! t0 \<noteq> weights ! i" by auto
    with Cons.prems(5) IH show ?thesis by (auto simp: Let_def)
  next
    case False
    with Cons.prems push show ?thesis by (auto simp: Let_def split: if_splits)
  qed
qed simp

lemma cover_fold_inv:
  "n \<le> length weights \<Longrightarrow> fold (cover_step data weights) [0..<n] ([], []) = (stack, out) \<Longrightarrow>
   (\<forall>t\<in>set stack. t < n) \<and> sorted_wrt (>) stack \<and> set out \<subseteq> emitted data weights \<and> (0 < n \<longrightarrow> stack \<noteq> [])"
proof (induction n arbitrary: stack out)
  case (Suc n)
  obtain st0 out0 where f: "fold (cover_step data weights) [0..<n] ([], []) = (st0, out0)" by fastforce
  obtain st1 out1 where p: "cover_pop data weights n st0 out0 = (st1, out1)" by fastforce
  from Suc.prems f p have eq: "stack = n # st1" "out = out1" by (auto simp: cover_step_def [of data weights n])
  from Suc.IH [OF _ f] Suc.prems(1) have "(\<forall>t\<in>set st0. t < n) \<and> sorted_wrt (>) st0 \<and> set out0 \<subseteq> emitted data weights"
    by simp
  with cover_pop_inv [OF _ _ _ _ p] Suc.prems(1)
  have "set st1 \<subseteq> set st0 \<and> sorted_wrt (>) st1 \<and> set out1 \<subseteq> emitted data weights" "\<forall>t\<in>set st0. t < n" by auto
  with eq show ?case by fastforce
qed simp

lemma cover_drain_sound:
  "\<forall>t\<in>set stack. t < length weights \<Longrightarrow> sorted_wrt (>) stack \<Longrightarrow> set out \<subseteq> emitted data weights \<Longrightarrow>
   set (cover_drain data weights stack out) \<subseteq> emitted data weights"
proof (induction data weights stack out rule: cover_drain.induct)
  case (2 data weights pos out)
  then show ?case using set_push_gram [of pos "pos + 2" weights out data] by simp
next
  case (3 data weights t0 prev stack out)
  then have "set (push_gram data weights prev (t0 + 2) out) \<subseteq> emitted data weights"
    by (intro set_push_gram) auto
  with 3 show ?case by simp
qed simp

lemma cover_drain_nonempty: "stack \<noteq> [] \<Longrightarrow> cover_drain data weights stack out \<noteq> []"
proof (induction data weights stack out rule: cover_drain.induct)
  case (2 data weights pos out)
  then show ?case by (simp add: push_gram_def is_indexed_gram_def)
qed simp_all


lemma is_indexed_gram_ends:
  assumes "a + 2 \<le> e" "e < length data + 1"
  shows "is_indexed_gram (map (\<lambda>(a, b). pair_weight X a b) (windows2 data)) a e \<longleftrightarrow>
         e = a + 2 \<or> ends_gram (data_weight X data) a (e - 2)"
proof -
  let ?ws = "map (\<lambda>(a, b). pair_weight X a b) (windows2 data)"
  have len: "length ?ws = length data - 1" by simp
  have nth: "?ws ! i = data_weight X data i" if "i + 1 < length data" for i
    using that by (simp add: data_weight_def nth_windows2)
  have "take (e - 2 - (a + 1)) (drop (a + 1) ?ws) = map (data_weight X data) [a + 1..<e - 2]"
    using assms len nth by (intro nth_equalityI) auto
  then show ?thesis
    using assms nth [of a] nth [of "e - 2"]
    by (auto simp: is_indexed_gram_def Let_def ends_gram_def imax_def)
qed

lemma covering_set:
  "set (sparse_grams_covering_bytes X data) \<subseteq>
     {byte_range data (a, e) |a e. a + 2 \<le> e \<and> e \<le> length data \<and>
        (e = a + 2 \<or> ends_gram (data_weight X data) a (e - 2))}"
proof (cases "length data < 2")
  case False
  let ?ws = "map (\<lambda>(a, b). pair_weight X a b) (windows2 data)"
  obtain stack out where f: "fold (cover_step data ?ws) [0..<length ?ws] ([], []) = (stack, out)" by fastforce
  from cover_fold_inv [OF order_refl f] have
    inv: "\<forall>t\<in>set stack. t < length ?ws" "sorted_wrt (>) stack" "set out \<subseteq> emitted data ?ws" by auto
  have "set (sparse_grams_covering_bytes X data) \<subseteq> emitted data ?ws"
    using cover_drain_sound [OF inv] False f by (simp add: sparse_grams_covering_bytes_def Let_def)
  moreover have "emitted data ?ws \<subseteq> {byte_range data (a, e) |a e. a + 2 \<le> e \<and> e \<le> length data \<and>
        (e = a + 2 \<or> ends_gram (data_weight X data) a (e - 2))}"
    using False by (fastforce simp: emitted_def is_indexed_gram_ends)
  ultimately show ?thesis by blast
qed (simp add: sparse_grams_covering_bytes_def)

lemma covering_nonempty: "2 \<le> length data \<Longrightarrow> sparse_grams_covering_bytes X data \<noteq> []"
proof -
  assume len: "2 \<le> length data"
  let ?ws = "map (\<lambda>(a, b). pair_weight X a b) (windows2 data)"
  obtain stack out where f: "fold (cover_step data ?ws) [0..<length ?ws] ([], []) = (stack, out)" by fastforce
  from cover_fold_inv [OF order_refl f] len have "stack \<noteq> []" by simp
  then have "cover_drain data ?ws stack out \<noteq> []" by (rule cover_drain_nonempty)
  then have "sort (cover_drain data ?ws stack out) \<noteq> []" by (metis set_empty set_sort)
  with len f show ?thesis by (auto simp: sparse_grams_covering_bytes_def Let_def)
qed

lemma ends_gram_shift:
  assumes "a < c" "c + 1 < length lit"
  shows "ends_gram (data_weight X (before @ lit @ after)) (length before + a) (length before + c) \<longleftrightarrow>
         ends_gram (data_weight X lit) a c"
proof -
  let ?d = "before @ lit @ after" and ?k = "length before"
  have w: "data_weight X ?d (?k + i) = data_weight X lit i" if "i + 1 < length lit" for i
    using that by (simp add: data_weight_def nth_append)
  have "map (data_weight X ?d) [?k + a + 1..<?k + c] = map (data_weight X lit) [a + 1..<c]"
    using assms w by (intro nth_equalityI) (auto simp: add.assoc simp flip: add_Suc_right)
  with assms w [of a] w [of c] show ?thesis by (simp add: ends_gram_def imax_def)
qed

lemma covering_subset_all:
  assumes "sparse_grams_all_bytes X (before @ lit @ after) = Inr all"
  shows "set (sparse_grams_covering_bytes X lit) \<subseteq> set all"
proof
  let ?d = "before @ lit @ after" and ?k = "length before"
  fix g assume "g \<in> set (sparse_grams_covering_bytes X lit)"
  with covering_set [of X lit] obtain a e where
    ae: "a + 2 \<le> e" "e \<le> length lit" "e = a + 2 \<or> ends_gram (data_weight X lit) a (e - 2)" and
    g: "g = byte_range lit (a, e)" by blast
  have gd: "g = byte_range ?d (?k + a, ?k + e)" using ae g by (simp add: byte_range_def)
  have "?k + e = ?k + a + 2 \<or> ends_gram (data_weight X ?d) (?k + a) (?k + e - 2)"
  proof (cases "e = a + 2")
    case False
    with ae have "a < e - 2" "e - 2 + 1 < length lit" "ends_gram (data_weight X lit) a (e - 2)" by auto
    then have "ends_gram (data_weight X ?d) (?k + a) (?k + (e - 2))"
      using ends_gram_shift [of a "e - 2" lit X before after] by blast
    moreover have "?k + (e - 2) = ?k + e - 2" using ae by simp
    ultimately show ?thesis by simp
  qed simp
  with ae have "?k + a + 2 \<le> ?k + e \<and> ?k + e \<le> length ?d \<and>
     (?k + e = ?k + a + 2 \<or> ends_gram (data_weight X ?d) (?k + a) (?k + e - 2))" by simp
  moreover obtain gs where "sparse_grams_all_bytes X ?d = Inr gs" and
    "set gs = {byte_range ?d (a, e) |a e. a + 2 \<le> e \<and> e \<le> length ?d \<and>
                 (e = a + 2 \<or> ends_gram (data_weight X ?d) a (e - 2))}"
    using sparse_all_set [of X ?d] by blast
  ultimately have "g \<in> set gs" "all = gs" using assms gd by (blast, simp)
  then show "g \<in> set all" by simp
qed


section \<open>Strategies\<close>

definition grams_index :: "crates \<Rightarrow> bytes \<Rightarrow> strategy \<Rightarrow> bytes list result" where
  "grams_index X data s =
     (case s of
        Trigram \<Rightarrow> Inr (trigram_grams_bytes X data)
      | Sparse \<Rightarrow> sparse_grams_all_bytes X data)"

definition grams_query :: "crates \<Rightarrow> bytes \<Rightarrow> strategy \<Rightarrow> bytes list" where
  "grams_query X data s =
     (case s of
        Trigram \<Rightarrow> trigram_grams_bytes X data
      | Sparse \<Rightarrow> sparse_grams_covering_bytes X data)"

text \<open>
  The contract of a gram scheme: every query-side gram of a literal is an index-side gram of
  every document that contains the literal, and only literals shorter than \<open>width\<close> have no
  query-side gram. \<open>ok\<close> is what the scheme needs of the external crates.
\<close>

locale gram_scheme =
  fixes index :: "crates \<Rightarrow> bytes \<Rightarrow> bytes list result"
    and query :: "crates \<Rightarrow> bytes \<Rightarrow> bytes list"
    and ok :: "crates \<Rightarrow> bool"
    and width :: nat
  assumes index_total: "ok X \<Longrightarrow> \<exists>gs. index X data = Inr gs"
    and contained: "ok X \<Longrightarrow> index X (before @ lit @ after) = Inr gs \<Longrightarrow> set (query X lit) \<subseteq> set gs"
    and query_empty: "ok X \<Longrightarrow> query X lit = [] \<longleftrightarrow> length lit < width"
begin

lemma query_subset_index: "ok X \<Longrightarrow> index X lit = Inr gs \<Longrightarrow> set (query X lit) \<subseteq> set gs"
  using contained [of X "[]" lit "[]"] by simp

lemma absent_gram_excludes:
  assumes "ok X" "index X data = Inr gs" "g \<in> set (query X lit)" "g \<notin> set gs"
  shows "\<nexists>before after. data = before @ lit @ after"
  using assms contained by blast

end

lemma trigram_grams_empty:
  assumes "radsort_sorts X"
  shows "trigram_grams_bytes X lit = [] \<longleftrightarrow> length lit < 3"
proof -
  have "trigram_grams_bytes X lit = [] \<longleftrightarrow> set (trigram_grams_bytes X lit) = {}" by simp
  also have "\<dots> \<longleftrightarrow> \<not> (\<exists>i. i + 2 < length lit)"
    unfolding trigram_grams_bytes_set [OF assms] by blast
  also have "\<dots> \<longleftrightarrow> length lit < 3"
  proof
    assume "\<not> (\<exists>i. i + 2 < length lit)"
    then have "\<not> 0 + 2 < length lit" by blast
    then show "length lit < 3" by simp
  qed auto
  finally show ?thesis .
qed

interpretation trigram_scheme: gram_scheme
  "\<lambda>X data. grams_index X data Trigram" "\<lambda>X data. grams_query X data Trigram" radsort_sorts 3
proof unfold_locales
  fix X :: crates and before lit after gs
  assume "radsort_sorts X" "grams_index X (before @ lit @ after) Trigram = Inr gs"
  then show "set (grams_query X lit Trigram) \<subseteq> set gs"
    using trigram_grams_substring [of X lit before after] by (simp add: grams_index_def grams_query_def)
qed (simp_all add: grams_index_def grams_query_def trigram_grams_empty)

interpretation sparse_scheme: gram_scheme
  "\<lambda>X data. grams_index X data Sparse" "\<lambda>X data. grams_query X data Sparse" "\<lambda>_. True" 2
proof unfold_locales
  fix X :: crates and data
  show "\<exists>gs. grams_index X data Sparse = Inr gs"
    using sparse_all_set [of X data] by (auto simp: grams_index_def)
next
  fix X :: crates and before lit after gs
  assume "grams_index X (before @ lit @ after) Sparse = Inr gs"
  then show "set (grams_query X lit Sparse) \<subseteq> set gs"
    using covering_subset_all [of X before lit after gs] by (simp add: grams_index_def grams_query_def)
next
  fix X :: crates and lit
  show "grams_query X lit Sparse = [] \<longleftrightarrow> length lit < 2"
    using covering_nonempty [of lit X] by (auto simp: grams_query_def sparse_grams_covering_bytes_def)
qed


section \<open>Properties\<close>

text \<open>What a strategy needs of the external crates.\<close>

definition scheme_ok :: "crates \<Rightarrow> strategy \<Rightarrow> bool" where
  "scheme_ok X s \<longleftrightarrow> s = Trigram \<longrightarrow> radsort_sorts X"

lemma scheme_contained:
  assumes "scheme_ok X s" "grams_index X (before @ lit @ after) s = Inr gs"
  shows "set (grams_query X lit s) \<subseteq> set gs"
  using assms trigram_scheme.contained sparse_scheme.contained
  by (cases s) (auto simp: scheme_ok_def)

lemma scheme_total: "scheme_ok X s \<Longrightarrow> \<exists>gs. grams_index X data s = Inr gs"
  using trigram_scheme.index_total sparse_scheme.index_total by (cases s) (auto simp: scheme_ok_def)

text \<open>
  C12: no false negatives at the gram level. Under either strategy, index-side extraction of a
  document never fails, and if the document contains a literal, every gram the query side
  asks for is among the document's indexed grams. For the sparse strategy this is
  the claim that the covering grams are a subset of the indexed ones, also inside
  runs of equal weights.
\<close>

theorem query_grams_are_indexed:
  assumes "scheme_ok X s"
  shows "\<exists>gs. grams_index X (before @ lit @ after) s = Inr gs \<and> set (grams_query X lit s) \<subseteq> set gs"
  using scheme_total [OF assms] scheme_contained [OF assms] by blast

theorem query_grams_are_indexed_witness:
  "\<exists>gs. grams_index sample_crates ([9] @ [1, 1, 1, 2] @ [1]) Sparse = Inr gs \<and>
        set (grams_query sample_crates [1, 1, 1, 2] Sparse) \<subseteq> set gs"
  by (rule query_grams_are_indexed) (simp add: scheme_ok_def)

text \<open>
  C39: the resumable iterator \<open>SparseGramRanges\<close> terminates and yields, for in-memory data, exactly
  the ranges that the predicate \<open>is_indexed_gram\<close> of the query side describes: every pair, and
  every longer range whose interior weights are all below its first
  weight and below its last. They come in order, each once: by ascending start, and for one
  start by ascending end.
\<close>

theorem sparse_iterator_exact:
  "\<exists>rs. iterate_sparse_gram_ranges X (length data) (byte_of data) = Inr rs \<and>
     sorted_wrt (\<lambda>(a, e) (a', e'). a < a' \<or> a = a' \<and> e < e') rs \<and>
     (\<forall>a e. (a, e) \<in> set rs \<longleftrightarrow>
        a + 2 \<le> e \<and> e \<le> length data \<and>
        is_indexed_gram (map (\<lambda>(a, b). pair_weight X a b) (windows2 data)) a e)"
proof -
  let ?rs = "ranges_from (data_weight X data) (length data - 1) 0"
  have "(a, e) \<in> set ?rs \<longleftrightarrow> a + 2 \<le> e \<and> e \<le> length data \<and>
        is_indexed_gram (map (\<lambda>(a, b). pair_weight X a b) (windows2 data)) a e" for a e
  proof (cases "a + 2 \<le> e \<and> e \<le> length data")
    case True
    then show ?thesis
      unfolding in_ranges_from using is_indexed_gram_ends [of a e data X] by auto
  next
    case False
    then show ?thesis unfolding in_ranges_from by (cases "length data") auto
  qed
  then show ?thesis using iterate_ranges_eq [of X data] ranges_from_sorted by blast
qed

text \<open>
  The query side constrains every literal that is long enough. A literal has no
  covering gram exactly when it is shorter than the gram width of its strategy
  (3 bytes for trigrams, 2 for sparse grams).
\<close>

lemma query_grams_empty_iff_short:
  assumes "scheme_ok X s"
  shows "grams_query X lit s = [] \<longleftrightarrow> length lit < (case s of Trigram \<Rightarrow> 3 | Sparse \<Rightarrow> 2)"
  using assms trigram_scheme.query_empty sparse_scheme.query_empty
  by (cases s) (auto simp: scheme_ok_def)

end
