(* ===== verification/Query_Plan.thy ===== *)
theory Query_Plan
  imports Sparse_Grams
begin

text \<open>
  The query planner, \<open>crates/query/src/lib.rs\<close>: from a parsed regular expression to a boolean
  combination of gram constraints. The parsed expression is the \<open>Hir\<close> of the crate
  \<open>regex-syntax\<close>; the planner looks at its concatenations, alternations, captures and repetitions
  only, so every other node is a \<open>HLeaf\<close> with an arbitrary payload. The literal
  extractors of that crate and the match relation of the engine are the fields of the record
  \<open>regex_crate\<close>, and \<open>regex_laws\<close> states the documented facts the planner relies on:
  a match of a concatenation contains a match of each element, a match of an alternation
  is a match of one branch, a repetition with \<open>min >= 1\<close> contains a match of its body, every
  match starts with one of the prefix literals and ends with one of the suffix
  literals.
\<close>

section \<open>Definitions\<close>

datatype query = QAll | QAnd "query list" | QOr "query list" | QGram bytes

datatype 'a hir =
    HLeaf 'a
  | HRepetition nat "'a hir"
  | HCapture "'a hir"
  | HConcat "'a hir list"
  | HAlternation "'a hir list"

record 'a regex_crate =
  prefixes :: "'a hir \<Rightarrow> bytes list option"
  suffixes :: "'a hir \<Rightarrow> bytes list option"
  hir_match :: "'a hir \<Rightarrow> bytes \<Rightarrow> nat \<Rightarrow> nat \<Rightarrow> bool"

definition lit_query :: "crates \<Rightarrow> bytes \<Rightarrow> strategy \<Rightarrow> query" where
  "lit_query X lit s =
     (let grams = grams_query X lit s
      in if grams = [] then QAll else QAnd (map QGram grams))"

definition side_query :: "crates \<Rightarrow> bytes list option \<Rightarrow> strategy \<Rightarrow> query option" where
  "side_query X seq s =
     (case seq of
        None \<Rightarrow> None
      | Some literals \<Rightarrow>
          if literals = [] then None
          else let branches = map (\<lambda>l. lit_query X l s) literals
               in if QAll \<in> set branches then None else Some (QOr branches))"

definition side_parts :: "'a regex_crate \<Rightarrow> crates \<Rightarrow> strategy \<Rightarrow> 'a hir \<Rightarrow> query list" where
  "side_parts R X s h =
     List.map_filter (\<lambda>seq. side_query X seq s) [prefixes R h, suffixes R h]"

text \<open>The tail of \<open>hir_query\<close>: drop \<open>All\<close> and repeated parts, then unwrap.\<close>

fun unique_parts :: "query list \<Rightarrow> query list \<Rightarrow> query list" where
  "unique_parts unique [] = unique"
| "unique_parts unique (part # parts) =
     unique_parts (if part \<noteq> QAll \<and> part \<notin> set unique then unique @ [part] else unique) parts"

definition join_parts :: "query list \<Rightarrow> query" where
  "join_parts parts =
     (case unique_parts [] parts of
        [] \<Rightarrow> QAll
      | [q] \<Rightarrow> q
      | unique \<Rightarrow> QAnd unique)"

fun hir_query :: "'a regex_crate \<Rightarrow> crates \<Rightarrow> strategy \<Rightarrow> 'a hir \<Rightarrow> query" where
  "hir_query R X s (HLeaf a) = join_parts (side_parts R X s (HLeaf a))"
| "hir_query R X s (HConcat children) =
     join_parts (side_parts R X s (HConcat children) @ map (hir_query R X s) children)"
| "hir_query R X s (HAlternation alternatives) =
     (let branches = map (hir_query R X s) alternatives
      in join_parts (side_parts R X s (HAlternation alternatives)
           @ (if QAll \<in> set branches then [] else [QOr branches])))"
| "hir_query R X s (HCapture h) =
     join_parts (side_parts R X s (HCapture h) @ [hir_query R X s h])"
| "hir_query R X s (HRepetition m h) =
     join_parts (side_parts R X s (HRepetition m h) @ (if m \<ge> 1 then [hir_query R X s h] else []))"

definition plan_hir :: "'a regex_crate \<Rightarrow> crates \<Rightarrow> 'a hir \<Rightarrow> strategy \<Rightarrow> query" where
  "plan_hir R X h s = hir_query R X s h"

text \<open>A gram set satisfies a query.\<close>

fun query_holds :: "bytes set \<Rightarrow> query \<Rightarrow> bool" where
  "query_holds G QAll = True"
| "query_holds G (QAnd qs) = (\<forall>q\<in>set qs. query_holds G q)"
| "query_holds G (QOr qs) = (\<exists>q\<in>set qs. query_holds G q)"
| "query_holds G (QGram g) = (g \<in> G)"

definition regex_laws :: "'a regex_crate \<Rightarrow> bool" where
  "regex_laws R \<longleftrightarrow>
     (\<forall>h d i j. hir_match R h d i j \<longrightarrow> i \<le> j \<and> j \<le> length d) \<and>
     (\<forall>hs d i j h. hir_match R (HConcat hs) d i j \<longrightarrow> h \<in> set hs \<longrightarrow>
        (\<exists>i' j'. i \<le> i' \<and> j' \<le> j \<and> hir_match R h d i' j')) \<and>
     (\<forall>hs d i j. hir_match R (HAlternation hs) d i j \<longrightarrow> (\<exists>h\<in>set hs. hir_match R h d i j)) \<and>
     (\<forall>h d i j. hir_match R (HCapture h) d i j \<longrightarrow> hir_match R h d i j) \<and>
     (\<forall>m h d i j. hir_match R (HRepetition m h) d i j \<longrightarrow> m \<ge> 1 \<longrightarrow>
        (\<exists>i' j'. i \<le> i' \<and> j' \<le> j \<and> hir_match R h d i' j')) \<and>
     (\<forall>h d i j lits. hir_match R h d i j \<longrightarrow> prefixes R h = Some lits \<longrightarrow>
        (\<exists>l\<in>set lits. i + length l \<le> j \<and> take (length l) (drop i d) = l)) \<and>
     (\<forall>h d i j lits. hir_match R h d i j \<longrightarrow> suffixes R h = Some lits \<longrightarrow>
        (\<exists>l\<in>set lits. i + length l \<le> j \<and> take (length l) (drop (j - length l) d) = l))"

section \<open>Lemmas\<close>

lemma query_holds_mono: "G \<subseteq> H \<Longrightarrow> query_holds G q \<Longrightarrow> query_holds H q"
  by (induction q) auto

lemma set_unique_parts: "set (unique_parts unique parts) = set unique \<union> (set parts - {QAll})"
  by (induction unique parts rule: unique_parts.induct) auto

lemma query_holds_join_parts: "query_holds G (join_parts parts) \<longleftrightarrow> (\<forall>p\<in>set parts. query_holds G p)"
proof -
  have "query_holds G (join_parts parts) \<longleftrightarrow> (\<forall>p\<in>set (unique_parts [] parts). query_holds G p)"
    by (auto simp: join_parts_def split: list.splits)
  then show ?thesis by (auto simp: set_unique_parts)
qed

lemma lit_query_holds:
  assumes "scheme_ok X s" "grams_index X d s = Inr gs" "take (length l) (drop i d) = l"
  shows "query_holds (set gs) (lit_query X l s)"
proof -
  have "d = take i d @ l @ drop (length l) (drop i d)" using assms(3) by (metis append_take_drop_id)
  with scheme_contained [OF assms(1)] assms(2) have "set (grams_query X l s) \<subseteq> set gs" by metis
  then show ?thesis by (auto simp: lit_query_def Let_def)
qed

lemma side_query_holds:
  assumes "scheme_ok X s" "grams_index X d s = Inr gs" "side_query X seq s = Some q"
    and "\<And>lits. seq = Some lits \<Longrightarrow> \<exists>l\<in>set lits. \<exists>i. take (length l) (drop i d) = l"
  shows "query_holds (set gs) q"
proof -
  from assms(3) obtain lits where lits: "seq = Some lits" "q = QOr (map (\<lambda>l. lit_query X l s) lits)"
    by (auto simp: side_query_def Let_def split: option.splits if_splits)
  from assms(4) [OF lits(1)] obtain l i where "l \<in> set lits" "take (length l) (drop i d) = l" by blast
  with lits(2) lit_query_holds [OF assms(1,2)] show ?thesis by auto
qed

text \<open>The laws, one by one.\<close>

lemma regex_bounds: "regex_laws R \<Longrightarrow> hir_match R h d i j \<Longrightarrow> i \<le> j \<and> j \<le> length d"
  unfolding regex_laws_def by metis

lemma regex_concat:
  "regex_laws R \<Longrightarrow> hir_match R (HConcat hs) d i j \<Longrightarrow> h \<in> set hs \<Longrightarrow>
   \<exists>i' j'. i \<le> i' \<and> j' \<le> j \<and> hir_match R h d i' j'"
  unfolding regex_laws_def by metis

lemma regex_alternation:
  "regex_laws R \<Longrightarrow> hir_match R (HAlternation hs) d i j \<Longrightarrow> \<exists>h\<in>set hs. hir_match R h d i j"
  unfolding regex_laws_def by metis

lemma regex_capture: "regex_laws R \<Longrightarrow> hir_match R (HCapture h) d i j \<Longrightarrow> hir_match R h d i j"
  unfolding regex_laws_def by metis

lemma regex_repetition:
  "regex_laws R \<Longrightarrow> hir_match R (HRepetition m h) d i j \<Longrightarrow> 1 \<le> m \<Longrightarrow>
   \<exists>i' j'. i \<le> i' \<and> j' \<le> j \<and> hir_match R h d i' j'"
  unfolding regex_laws_def by metis

definition occurs_in :: "bytes \<Rightarrow> nat \<Rightarrow> nat \<Rightarrow> bytes \<Rightarrow> bool" where
  "occurs_in d i j l \<longleftrightarrow> (\<exists>k. i \<le> k \<and> k + length l \<le> j \<and> take (length l) (drop k d) = l)"

lemma regex_prefix:
  "regex_laws R \<Longrightarrow> hir_match R h d i j \<Longrightarrow> prefixes R h = Some lits \<Longrightarrow> \<exists>l\<in>set lits. occurs_in d i j l"
  unfolding regex_laws_def occurs_in_def by (metis order_refl)

lemma regex_suffix:
  assumes "regex_laws R" "hir_match R h d i j" "suffixes R h = Some lits"
  shows "\<exists>l\<in>set lits. occurs_in d i j l"
proof -
  from assms obtain l where "l \<in> set lits" "i + length l \<le> j" "take (length l) (drop (j - length l) d) = l"
    unfolding regex_laws_def by metis
  then show ?thesis by (intro bexI [of _ l]) (auto simp: occurs_in_def intro!: exI [of _ "j - length l"])
qed

text \<open>A window of the document that contains the match contains its literals.\<close>

lemma occurs_in_window:
  assumes "occurs_in d i j l" "i0 \<le> i" "j \<le> j0"
  shows "\<exists>k. take (length l) (drop k (sub_slice d i0 j0)) = l"
proof -
  from assms(1) obtain k where k: "i \<le> k" "k + length l \<le> j" "take (length l) (drop k d) = l"
    by (auto simp: occurs_in_def)
  have "take (length l) (drop (k - i0) (sub_slice d i0 j0)) = take (length l) (drop k d)"
  proof -
    have "length l \<le> j0 - i0 - (k - i0)" "i0 + (k - i0) = k" using k(1,2) assms(2,3) by auto
    then show ?thesis by (simp add: sub_slice_def drop_take take_take min_def add.commute)
  qed
  with k(3) show ?thesis by metis
qed

lemma side_parts_hold:
  assumes "scheme_ok X s" "grams_index X (sub_slice d i0 j0) s = Inr gs" "regex_laws R" "hir_match R h d i j"
    and "i0 \<le> i" "j \<le> j0" "q \<in> set (side_parts R X s h)"
  shows "query_holds (set gs) q"
proof -
  from assms(7) consider "side_query X (prefixes R h) s = Some q" | "side_query X (suffixes R h) s = Some q"
    by (auto simp: side_parts_def map_filter_simps split: option.splits)
  then show ?thesis
  proof cases
    case 1
    then show ?thesis
      by (rule side_query_holds [OF assms(1,2)])
        (use regex_prefix [OF assms(3,4)] occurs_in_window [OF _ assms(5,6)] in blast)
  next
    case 2
    then show ?thesis
      by (rule side_query_holds [OF assms(1,2)])
        (use regex_suffix [OF assms(3,4)] occurs_in_window [OF _ assms(5,6)] in blast)
  qed
qed

lemma hir_query_holds:
  assumes "scheme_ok X s" "grams_index X (sub_slice d i0 j0) s = Inr gs" "regex_laws R"
  shows "hir_match R h d i j \<Longrightarrow> i0 \<le> i \<Longrightarrow> j \<le> j0 \<Longrightarrow> query_holds (set gs) (hir_query R X s h)"
  using assms
proof (induction R X s h arbitrary: i j rule: hir_query.induct)
  case (1 R X s a)
  then show ?case using side_parts_hold by (fastforce simp: query_holds_join_parts)
next
  case (2 R X s children)
  have "query_holds (set gs) (hir_query R X s h)" if "h \<in> set children" for h
    using 2 that regex_concat [OF "2.prems"(6,1) that] by (meson order_trans)
  with 2 side_parts_hold show ?case by (fastforce simp: query_holds_join_parts)
next
  case (3 R X s alternatives)
  have "\<exists>h\<in>set alternatives. query_holds (set gs) (hir_query R X s h)"
    using 3 regex_alternation [OF "3.prems"(6,1)] by blast
  with 3 side_parts_hold show ?case by (fastforce simp: query_holds_join_parts Let_def)
next
  case (4 R X s h)
  then have "query_holds (set gs) (hir_query R X s h)" using regex_capture [OF "4.prems"(6,1)] by blast
  with 4 side_parts_hold show ?case by (fastforce simp: query_holds_join_parts)
next
  case (5 R X s m h)
  have "m \<ge> 1 \<Longrightarrow> query_holds (set gs) (hir_query R X s h)"
    using 5 regex_repetition [OF "5.prems"(6,1)] by (meson order_trans)
  with 5 side_parts_hold show ?case by (fastforce simp: query_holds_join_parts)
qed

section \<open>A concrete engine for the witnesses\<close>

text \<open>
  Leaves are literals; the match relation is the textbook one. It satisfies
  \<open>regex_laws\<close>, so the hypothesis of the planner's theorem is not vacuous.
\<close>

inductive lit_match :: "bytes hir \<Rightarrow> bytes \<Rightarrow> nat \<Rightarrow> nat \<Rightarrow> bool"
  and lit_seq :: "bytes hir list \<Rightarrow> bytes \<Rightarrow> nat \<Rightarrow> nat \<Rightarrow> bool" where
  leaf: "i + length l \<le> length d \<Longrightarrow> take (length l) (drop i d) = l \<Longrightarrow> lit_match (HLeaf l) d i (i + length l)"
| capture: "lit_match h d i j \<Longrightarrow> lit_match (HCapture h) d i j"
| alternation: "h \<in> set hs \<Longrightarrow> lit_match h d i j \<Longrightarrow> lit_match (HAlternation hs) d i j"
| concat: "lit_seq hs d i j \<Longrightarrow> lit_match (HConcat hs) d i j"
| repetition: "m \<le> n \<Longrightarrow> lit_seq (replicate n h) d i j \<Longrightarrow> lit_match (HRepetition m h) d i j"
| seq_nil: "i \<le> length d \<Longrightarrow> lit_seq [] d i i"
| seq_cons: "lit_match h d i k \<Longrightarrow> lit_seq hs d k j \<Longrightarrow> lit_seq (h # hs) d i j"

inductive_simps lit_match_leaf: "lit_match (HLeaf l) d i j"
inductive_cases lit_capture_cases: "lit_match (HCapture h) d i j"
inductive_cases lit_alternation_cases: "lit_match (HAlternation hs) d i j"
inductive_cases lit_concat_cases: "lit_match (HConcat hs) d i j"
inductive_cases lit_repetition_cases: "lit_match (HRepetition m h) d i j"
inductive_cases lit_seq_cons_cases: "lit_seq (h # hs) d i j"

fun leaf_literals :: "bytes hir \<Rightarrow> bytes list option" where
  "leaf_literals (HLeaf l) = Some [l]"
| "leaf_literals h = None"

definition literal_engine :: "bytes regex_crate" where
  "literal_engine = \<lparr>prefixes = leaf_literals, suffixes = leaf_literals, hir_match = lit_match\<rparr>"

lemma lit_bounds:
  "lit_match h d i j \<Longrightarrow> i \<le> j \<and> j \<le> length d"
  "lit_seq hs d i j \<Longrightarrow> i \<le> j \<and> j \<le> length d"
  by (induction rule: lit_match_lit_seq.inducts) auto

lemma lit_seq_member:
  "lit_seq hs d i j \<Longrightarrow> h \<in> set hs \<Longrightarrow> \<exists>i' j'. i \<le> i' \<and> j' \<le> j \<and> lit_match h d i' j'"
proof (induction hs arbitrary: i)
  case (Cons g hs)
  from Cons.prems(1) obtain k where k: "lit_match g d i k" "lit_seq hs d k j" by (rule lit_seq_cons_cases)
  note b = lit_bounds(1) [OF k(1)] lit_bounds(2) [OF k(2)]
  show ?case
  proof (cases "h = g")
    case True
    with k b show ?thesis by blast
  next
    case False
    with Cons.prems(2) Cons.IH [OF k(2)] b show ?thesis by (meson order_trans set_ConsD)
  qed
qed simp

lemma literal_engine_laws: "regex_laws literal_engine"
proof -
  have rep: "\<exists>i' j'. i \<le> i' \<and> j' \<le> j \<and> lit_match h d i' j'"
    if "lit_match (HRepetition m h) d i j" "1 \<le> m" for m h d i j
  proof -
    from that(1) obtain n where n: "m \<le> n" "lit_seq (replicate n h) d i j" by (rule lit_repetition_cases)
    with that(2) have "h \<in> set (replicate n h)" by simp
    then show ?thesis by (rule lit_seq_member [OF n(2)])
  qed
  have lits: "\<exists>l\<in>set ls. i + length l \<le> j \<and> take (length l) (drop i d) = l \<and> take (length l) (drop (j - length l) d) = l"
    if "lit_match h d i j" "leaf_literals h = Some ls" for h d i j ls
    using that by (cases h) (auto simp: lit_match_leaf)
  have cat: "\<exists>i' j'. i \<le> i' \<and> j' \<le> j \<and> lit_match h d i' j'"
    if "lit_match (HConcat hs) d i j" "h \<in> set hs" for hs h d i j
    using that(1) by (rule lit_concat_cases) (rule lit_seq_member [OF _ that(2)])
  have alt: "\<exists>h\<in>set hs. lit_match h d i j" if "lit_match (HAlternation hs) d i j" for hs d i j
    using that by (auto elim!: lit_alternation_cases)
  have cap: "lit_match h d i j" if "lit_match (HCapture h) d i j" for h d i j
    using that by (auto elim!: lit_capture_cases)
  show ?thesis
    unfolding regex_laws_def literal_engine_def regex_crate.simps
    by (intro conjI allI impI) (blast dest: lit_bounds(1) cat alt cap rep lits)+
qed

section \<open>Properties\<close>

text \<open>
  C11: Planning never loses a match. If the engine matches the expression at bytes \<open>i\<close> to \<open>j\<close> of a document,
  the planned query holds of the indexed grams of every window of the document that contains the
  match, under either strategy: of the whole document, and of the matched text
  alone. The proof covers the prefix and suffix literals, required inner literals of
  concatenations, alternations, captures and repetitions.
\<close>

theorem plan_has_no_false_negatives:
  assumes "scheme_ok X s" "regex_laws R" "hir_match R h d i j" "i0 \<le> i" "j \<le> j0"
  shows "\<exists>gs. grams_index X (sub_slice d i0 j0) s = Inr gs \<and> query_holds (set gs) (plan_hir R X h s)"
  using scheme_total [OF assms(1), of "sub_slice d i0 j0"] hir_query_holds [OF assms(1) _ assms(2-5)]
  by (auto simp: plan_hir_def)

lemma sample_match:
  "lit_match (HConcat [HLeaf [1, 2, 3], HLeaf [4, 5, 6]]) [9, 1, 2, 3, 4, 5, 6] 1 7"
proof -
  let ?d = "[9, 1, 2, 3, 4, 5, 6 :: u8]"
  have "lit_match (HLeaf [1, 2, 3]) ?d 1 4" "lit_match (HLeaf [4, 5, 6]) ?d 4 7" "lit_seq [] ?d 7 7"
    by (simp_all add: lit_match_leaf seq_nil)
  then show ?thesis by (blast intro: lit_match_lit_seq.intros)
qed

theorem plan_has_no_false_negatives_witness:
  "\<exists>gs. grams_index sample_crates (sub_slice [9, 1, 2, 3, 4, 5, 6] 0 7) Trigram = Inr gs \<and>
      query_holds (set gs) (plan_hir literal_engine sample_crates (HConcat [HLeaf [1, 2, 3], HLeaf [4, 5, 6]]) Trigram)"
proof (rule plan_has_no_false_negatives [OF _ literal_engine_laws])
  show "scheme_ok sample_crates Trigram" by (simp add: scheme_ok_def sample_crates_sorts)
  show "hir_match literal_engine (HConcat [HLeaf [1, 2, 3], HLeaf [4, 5, 6]]) [9, 1, 2, 3, 4, 5, 6] 1 7"
    using sample_match by (simp add: literal_engine_def)
qed simp_all

end
