(* ===== verification/Posting_Codec.thy ===== *)
theory Posting_Codec
  imports Prelude
begin

unbundle bit_operations_syntax

text \<open>
  The two posting-list codecs of \<open>crates/index\<close>: the fixed-width blocks of \<open>src/lib.rs\<close>
  (trigram segments; the block length is a function of the count) and the
  delta-bitpacked blocks of \<open>src/delta_blocks.rs\<close> (sparse segments). Both are modelled down to
  the 64-bit accumulator of the bit packer. The locale \<open>posting_codec\<close> states what
  the rest of the index relies on, and both codecs are interpretations of it.

  \<open>out: &mut Vec<u8>\<close> parameters that are only appended to are modelled by the
  appended bytes. A byte iterator or a cursor is the list of bytes still to be read.
\<close>

section \<open>The bit packer\<close>

text \<open>The \<open>while filled >= 8\<close> loop of \<open>pack_fixed\<close> and \<open>pack_ids\<close>.\<close>

fun pack_drain :: "u64 \<Rightarrow> nat \<Rightarrow> bytes \<times> u64 \<times> nat" where
  "pack_drain acc filled =
     (if 8 \<le> filled
      then (case pack_drain (drop_bit 8 acc) (filled - 8) of
              (out, acc', filled') \<Rightarrow> (ucast acc # out, acc', filled'))
      else ([], acc, filled))"

declare pack_drain.simps [simp del]

text \<open>The loop over the values, with the final partial byte.\<close>

fun pack_loop :: "nat \<Rightarrow> u64 \<Rightarrow> nat \<Rightarrow> u32 list \<Rightarrow> bytes" where
  "pack_loop width acc filled [] = (if 0 < filled then [ucast acc] else [])"
| "pack_loop width acc filled (value # values) =
     (case pack_drain (acc OR push_bit filled (ucast value)) (filled + width) of
        (out, acc', filled') \<Rightarrow> out @ pack_loop width acc' filled' values)"

text \<open>The \<open>while filled < width\<close> loop; \<open>None\<close> is the exhausted iterator.\<close>

fun unpack_fill :: "nat \<Rightarrow> u64 \<Rightarrow> nat \<Rightarrow> bytes \<Rightarrow> (u64 \<times> nat \<times> bytes) option" where
  "unpack_fill width acc filled input =
     (if filled < width
      then (case input of
              [] \<Rightarrow> None
            | b # input' \<Rightarrow> unpack_fill width (acc OR push_bit filled (ucast b)) (filled + 8) input')
      else Some (acc, filled, input))"

declare unpack_fill.simps [simp del]

fun unpack_fixed_loop ::
  "nat \<Rightarrow> nat \<Rightarrow> u64 \<Rightarrow> nat \<Rightarrow> bytes \<Rightarrow> ('s \<Rightarrow> u32 \<Rightarrow> 's result) \<Rightarrow> 's \<Rightarrow> 's result" where
  "unpack_fixed_loop 0 width acc filled input visit s = Inr s"
| "unpack_fixed_loop (Suc n) width acc filled input visit s =
     (case unpack_fill width acc filled input of
        None \<Rightarrow> Inl (PostingError PackedTruncated)
      | Some (acc', filled', input') \<Rightarrow>
          (case visit s (ucast (acc' AND (push_bit width 1 - 1))) of
             Inl e \<Rightarrow> Inl e
           | Inr s' \<Rightarrow> unpack_fixed_loop n width (drop_bit width acc') (filled' - width) input' visit s'))"

definition pack_fixed :: "u32 list \<Rightarrow> nat \<Rightarrow> bytes" where
  "pack_fixed values width = pack_loop width 0 0 values"

definition unpack_fixed :: "bytes \<Rightarrow> nat \<Rightarrow> nat \<Rightarrow> ('s \<Rightarrow> u32 \<Rightarrow> 's result) \<Rightarrow> 's \<Rightarrow> 's result" where
  "unpack_fixed bs n width visit s = unpack_fixed_loop n width 0 0 bs visit s"

definition pack_ids :: "doc_id list \<Rightarrow> nat \<Rightarrow> bytes" where
  "pack_ids ids width = pack_loop width 0 0 ids"

definition unpack_ids :: "bytes \<Rightarrow> nat \<Rightarrow> nat \<Rightarrow> doc_id list result" where
  "unpack_ids bs n width =
     (case unpack_fixed_loop n width 0 0 bs (\<lambda>out id. Inr (out @ [id])) [] of
        Inl _ \<Rightarrow> Inl Panic
      | Inr out \<Rightarrow> Inr out)"

section \<open>Fixed-width blocks (lib.rs)\<close>

definition posting_id_bits :: "u32 \<Rightarrow> nat" where
  "posting_id_bits doc_count = max (32 - leading_zeros (saturating_sub doc_count 1)) 1"

definition stored_id_count :: "u32 \<Rightarrow> u32 \<Rightarrow> nat" where
  "stored_id_count count doc_count =
     (if count = doc_count then 0
      else if unat count * 2 > unat doc_count then unat (saturating_sub doc_count count)
      else unat count)"

definition posting_block_len :: "u32 \<Rightarrow> u32 \<Rightarrow> nat" where
  "posting_block_len count doc_count =
     div_ceil (stored_id_count count doc_count * posting_id_bits doc_count) 8"

text \<open>The loop over \<open>0..doc_count\<close> with a peekable iterator, in the encoder and in the decoder.\<close>

fun skip_listed :: "doc_id list \<Rightarrow> doc_id list \<Rightarrow> doc_id list" where
  "skip_listed [] listed = []"
| "skip_listed (i # is) [] = i # skip_listed is []"
| "skip_listed (i # is) (x # listed) =
     (if x = i then skip_listed is listed else i # skip_listed is (x # listed))"

definition id_range :: "u32 \<Rightarrow> doc_id list" where
  "id_range doc_count = map of_nat [0..<unat doc_count]"

definition encode_posting_block :: "doc_id list \<Rightarrow> u32 \<Rightarrow> bytes" where
  "encode_posting_block ids doc_count =
     (let count = (of_nat (length ids) :: u32); width = posting_id_bits doc_count in
      if count = doc_count then []
      else if unat count * 2 > unat doc_count
      then pack_ids (skip_listed (id_range doc_count) ids) width
      else pack_ids ids width)"

definition decode_posting_block :: "bytes \<Rightarrow> u32 \<Rightarrow> u32 \<Rightarrow> doc_id list result" where
  "decode_posting_block bs count doc_count =
     (if \<not> count \<le> doc_count then Inl (PostingError CountExceedsDocs)
      else if length bs \<noteq> posting_block_len count doc_count then Inl (PostingError BlockLength)
      else if count = doc_count then Inr (id_range doc_count)
      else (case unpack_ids bs (stored_id_count count doc_count) (posting_id_bits doc_count) of
              Inl e \<Rightarrow> Inl e
            | Inr stored \<Rightarrow>
                if \<not> successively (<) stored then Inl (PostingError NotAscending)
                else if stored \<noteq> [] \<and> \<not> last stored < doc_count then Inl (PostingError DocOutOfRange)
                else if unat count * 2 > unat doc_count
                then Inr (skip_listed (id_range doc_count) stored)
                else Inr stored))"

section \<open>Delta blocks (delta_blocks.rs)\<close>

definition BLOCK_IDS :: nat where "BLOCK_IDS = 128"

definition bits_for :: "u32 \<Rightarrow> nat" where
  "bits_for v = max (32 - leading_zeros v) 1"

definition id_delta :: "doc_id option \<Rightarrow> doc_id \<Rightarrow> u32" where
  "id_delta previous i = (case previous of None \<Rightarrow> i | Some p \<Rightarrow> i - p - 1)"

fun chunk_deltas :: "doc_id option \<Rightarrow> doc_id list \<Rightarrow> u32 list" where
  "chunk_deltas previous [] = []"
| "chunk_deltas previous (i # ids) = id_delta previous i # chunk_deltas (Some i) ids"

function encode_delta_from :: "doc_id option \<Rightarrow> doc_id list \<Rightarrow> bytes" where
  "encode_delta_from previous ids =
     (if ids = [] then []
      else let chunk = take BLOCK_IDS ids;
               deltas = chunk_deltas previous chunk;
               width = bits_for (foldl max 0 deltas)
           in of_nat width # pack_fixed deltas width
              @ encode_delta_from (Some (last chunk)) (drop BLOCK_IDS ids))"
  by pat_completeness auto

termination
  by (relation "measure (\<lambda>(previous, ids). length ids)") (auto simp: BLOCK_IDS_def)

definition encode_delta_blocks :: "doc_id list \<Rightarrow> bytes" where
  "encode_delta_blocks ids = encode_delta_from None ids"

definition delta_visit ::
  "u32 \<Rightarrow> doc_id option \<times> doc_id list \<Rightarrow> u32 \<Rightarrow> (doc_id option \<times> doc_id list) result" where
  "delta_visit doc_count s delta =
     (case s of (previous, ids) \<Rightarrow>
        (case (case previous of
                 None \<Rightarrow> Some delta
               | Some p \<Rightarrow> Option.bind (checked_add p delta) (\<lambda>sum. checked_add sum 1)) of
           None \<Rightarrow> Inl (PostingError DeltaOverflow)
         | Some i \<Rightarrow>
             if \<not> i < doc_count then Inl (PostingError IdOutOfBounds)
             else Inr (Some i, ids @ [i])))"

function decode_delta_loop ::
  "u32 \<Rightarrow> bytes \<Rightarrow> nat \<Rightarrow> doc_id option \<times> doc_id list \<Rightarrow> (bytes \<times> doc_id list) result" where
  "decode_delta_loop doc_count rest remaining s =
     (if remaining = 0 then Inr (rest, snd s)
      else case rest of
        [] \<Rightarrow> Inl (PostingError MissingWidth)
      | w # rest' \<Rightarrow>
          let width = unat w;
              block_ids = min remaining BLOCK_IDS;
              block_bytes = div_ceil (block_ids * width) 8
          in if \<not> (1 \<le> width \<and> width \<le> 32) then Inl (PostingError WidthInvalid)
             else if length rest' < block_bytes then Inl (PostingError BlockTruncated)
             else case unpack_fixed (take block_bytes rest') block_ids width (delta_visit doc_count) s of
               Inl e \<Rightarrow> Inl e
             | Inr s' \<Rightarrow> decode_delta_loop doc_count (drop block_bytes rest') (remaining - block_ids) s')"
  by pat_completeness auto

termination
  by (relation "measure (\<lambda>(doc_count, rest, remaining, s). remaining)") (auto simp: BLOCK_IDS_def)

definition decode_delta_blocks :: "bytes \<Rightarrow> u32 \<Rightarrow> u32 \<Rightarrow> doc_id list result" where
  "decode_delta_blocks bs count doc_count =
     (if \<not> count \<le> doc_count then Inl (PostingError CountExceedsDocs)
      else case decode_delta_loop doc_count bs (unat count) (None, []) of
        Inl e \<Rightarrow> Inl e
      | Inr (rest, ids) \<Rightarrow>
          if rest \<noteq> [] then Inl (PostingError TrailingBytes) else Inr ids)"

declare encode_delta_from.simps [simp del] decode_delta_loop.simps [simp del]

text \<open>The invariant of the decoder's accumulator: \<open>previous\<close> is the last id pushed.\<close>

definition delta_state :: "u32 \<Rightarrow> doc_id option \<times> doc_id list \<Rightarrow> bool" where
  "delta_state n s \<longleftrightarrow>
     (case s of (previous, ids) \<Rightarrow>
        previous = (if ids = [] then None else Some (last ids)) \<and> ascending ids \<and> (\<forall>i\<in>set ids. i < n))"
section \<open>Lemmas\<close>

lemma pack_drain_spec:
  "pack_drain acc filled = (out, acc', filled') \<Longrightarrow>
   filled' = filled mod 8 \<and> length out = filled div 8 \<and>
   unat acc = base_sum 256 out + 256 ^ length out * unat acc'"
proof (induction acc filled arbitrary: out acc' filled' rule: pack_drain.induct)
  case (1 acc filled)
  show ?case
  proof (cases "8 \<le> filled")
    case True
    obtain out1 a1 f1 where rec: "pack_drain (drop_bit 8 acc) (filled - 8) = (out1, a1, f1)"
      by (cases "pack_drain (drop_bit 8 acc) (filled - 8)") auto
    from True rec "1.prems" have eqs: "out = ucast acc # out1" "acc' = a1" "filled' = f1"
      by (auto simp: pack_drain.simps [of acc filled])
    from "1.IH" [OF True rec] have
      IH: "f1 = (filled - 8) mod 8" "length out1 = (filled - 8) div 8"
          "unat acc div 256 = base_sum 256 out1 + 256 ^ length out1 * unat a1"
      by (auto simp: unat_drop_bit)
    have "unat acc = unat acc mod 256 + 256 * (unat acc div 256)" by simp
    with IH(3) have "unat acc = base_sum 256 out + 256 ^ length out * unat acc'"
      by (simp add: eqs unat_ucast_down algebra_simps)
    moreover from True have "filled mod 8 = (filled - 8) mod 8" "filled div 8 = Suc ((filled - 8) div 8)"
      by (auto simp: le_mod_geq le_div_geq)
    ultimately show ?thesis using IH eqs by simp
  next
    case False
    with "1.prems" show ?thesis by (auto simp: pack_drain.simps [of acc filled])
  qed
qed

lemma pack_drain_bound:
  assumes "pack_drain acc filled = (out, acc', filled')" and "unat acc < 2 ^ filled"
  shows "unat acc' < 2 ^ filled'"
proof -
  note spec = pack_drain_spec [OF assms(1)]
  have "(2::nat) ^ filled = 2 ^ (8 * (filled div 8) + filled mod 8)" by simp
  also have "\<dots> = 256 ^ length out * 2 ^ filled'"
    using spec by (simp only: power_add power_mult) simp
  finally have "256 ^ length out * unat acc' < 256 ^ length out * 2 ^ filled'"
    using spec assms(2) by linarith
  then show ?thesis by simp
qed

lemma pack_step:
  assumes "width \<le> 32" "filled < 8" "unat acc < 2 ^ filled" "unat (v::u32) < 2 ^ width"
  shows "unat (acc OR push_bit filled (ucast v) :: u64) = unat acc + 2 ^ filled * unat v"
    and "unat (acc OR push_bit filled (ucast v) :: u64) < 2 ^ (filled + width)"
proof -
  have v: "unat (ucast v :: u64) = unat v" by (simp add: unat_ucast_up)
  have "unat v * 2 ^ filled < 2 ^ width * 2 ^ filled" using assms(4) by simp
  also have "\<dots> = 2 ^ (width + filled)" by (simp add: power_add)
  also have "\<dots> \<le> 2 ^ LENGTH(64)" using assms(1,2) by (intro power_increasing) auto
  finally have "unat (ucast v :: u64) * 2 ^ filled < 2 ^ LENGTH(64)" by (simp add: v)
  from unat_or_push_bit [OF assms(3) this]
  show eq: "unat (acc OR push_bit filled (ucast v) :: u64) = unat acc + 2 ^ filled * unat v"
    by (simp add: v)
  have "unat acc + 2 ^ filled * unat v < 2 ^ filled + 2 ^ filled * unat v" using assms(3) by simp
  also have "\<dots> = 2 ^ filled * Suc (unat v)" by simp
  also have "\<dots> \<le> 2 ^ filled * 2 ^ width" using assms(4) by (intro mult_le_mono2) simp
  finally show "unat (acc OR push_bit filled (ucast v) :: u64) < 2 ^ (filled + width)"
    by (simp add: eq power_add)
qed

lemma pack_loop_sum:
  assumes "width \<le> 32" "filled < 8" "unat acc < 2 ^ filled" "\<forall>v\<in>set vs. unat v < 2 ^ width"
  shows "base_sum 256 (pack_loop width acc filled vs) =
         unat acc + 2 ^ filled * base_sum (2 ^ width) vs"
  using assms
proof (induction vs arbitrary: acc filled)
  case Nil
  have "(2::nat) ^ filled \<le> 2 ^ 7" using Nil.prems(2) by (intro power_increasing) auto
  with Nil have "unat acc < 256" by simp
  with Nil show ?case by (auto simp: unat_ucast_down)
next
  case (Cons v vs)
  let ?a = "acc OR push_bit filled (ucast v) :: u64"
  obtain out a f where dr: "pack_drain ?a (filled + width) = (out, a, f)"
    by (cases "pack_drain ?a (filled + width)") auto
  note step = pack_step [OF Cons.prems(1-3), of v]
  note spec = pack_drain_spec [OF dr]
  from Cons.prems have v: "unat v < 2 ^ width" by simp
  have bnd: "unat a < 2 ^ f" using pack_drain_bound [OF dr step(2) [OF v]] .
  from Cons.prems spec bnd have IH: "base_sum 256 (pack_loop width a f vs) =
      unat a + 2 ^ f * base_sum (2 ^ width) vs" by (intro Cons.IH) auto
  have p: "(256::nat) ^ length out * 2 ^ f = 2 ^ filled * 2 ^ width"
  proof -
    have "(256::nat) ^ length out * 2 ^ f = 2 ^ (8 * ((filled + width) div 8) + (filled + width) mod 8)"
      using spec by (simp only: power_add power_mult) simp
    then show ?thesis by (simp add: power_add)
  qed
  have "base_sum 256 (pack_loop width acc filled (v # vs)) =
        (base_sum 256 out + 256 ^ length out * unat a)
        + (256 ^ length out * 2 ^ f) * base_sum (2 ^ width) vs"
    by (simp add: dr base_sum_append IH algebra_simps)
  also have "\<dots> = unat ?a + 2 ^ filled * 2 ^ width * base_sum (2 ^ width) vs"
    using spec p by simp
  finally show ?case by (simp add: step(1) [OF v] algebra_simps)
qed

lemma pack_loop_length:
  "filled < 8 \<Longrightarrow> length (pack_loop width acc filled vs) = div_ceil (filled + width * length vs) 8"
proof (induction vs arbitrary: acc filled)
  case Nil
  then show ?case by (auto simp: div_ceil_def)
next
  case (Cons v vs)
  let ?a = "acc OR push_bit filled (ucast v) :: u64"
  obtain out a f where dr: "pack_drain ?a (filled + width) = (out, a, f)"
    by (cases "pack_drain ?a (filled + width)") auto
  note spec = pack_drain_spec [OF dr]
  then have "length (pack_loop width a f vs) = div_ceil (f + width * length vs) 8"
    by (intro Cons.IH) simp
  moreover have "filled + width = 8 * length out + f" using spec by simp
  then have "filled + width * length (v # vs) = (f + width * length vs) + 8 * length out"
    by simp
  then have "div_ceil (filled + width * length (v # vs)) 8 = length out + div_ceil (f + width * length vs) 8"
    unfolding div_ceil_def by simp
  ultimately show ?case by (simp only: pack_loop.simps dr prod.case length_append)
qed

lemma unpack_fill_byte:
  assumes "filled < 32" "unat acc < 2 ^ filled"
  shows "unat (acc OR push_bit filled (ucast (b::u8)) :: u64) = unat acc + 2 ^ filled * unat b"
    and "unat (acc OR push_bit filled (ucast b) :: u64) < 2 ^ (filled + 8)"
proof -
  have b: "unat (ucast b :: u64) = unat b" by (simp add: unat_ucast_up)
  have "unat b * 2 ^ filled < 256 * 2 ^ filled" using unat_lt8 [of b] by simp
  also have "\<dots> = 2 ^ (filled + 8)" by (simp add: power_add)
  also have "\<dots> \<le> 2 ^ LENGTH(64)" using assms(1) by (intro power_increasing) auto
  finally have "unat (ucast b :: u64) * 2 ^ filled < 2 ^ LENGTH(64)" by (simp add: b)
  from unat_or_push_bit [OF assms(2) this]
  show eq: "unat (acc OR push_bit filled (ucast b) :: u64) = unat acc + 2 ^ filled * unat b"
    by (simp add: b)
  have "unat acc + 2 ^ filled * unat b < 2 ^ filled * Suc (unat b)" using assms(2) by simp
  also have "\<dots> \<le> 2 ^ filled * 256" using unat_lt8 [of b] by (intro mult_le_mono2) simp
  finally show "unat (acc OR push_bit filled (ucast b) :: u64) < 2 ^ (filled + 8)"
    by (simp add: eq power_add)
qed

lemma unpack_fill_spec:
  assumes "width \<le> 32" "filled < width + 8" "unat acc < 2 ^ filled" "width \<le> filled + 8 * length input"
  shows "\<exists>acc' filled' input'. unpack_fill width acc filled input = Some (acc', filled', input') \<and>
     width \<le> filled' \<and> filled' < width + 8 \<and> unat acc' < 2 ^ filled' \<and>
     filled' + 8 * length input' = filled + 8 * length input \<and>
     unat acc' + 2 ^ filled' * base_sum 256 input' = unat acc + 2 ^ filled * base_sum 256 input"
  using assms
proof (induction input arbitrary: acc filled)
  case Nil
  then show ?case by (simp add: unpack_fill.simps)
next
  case (Cons b input)
  show ?case
  proof (cases "filled < width")
    case True
    with Cons.prems(1) have f: "filled < 32" by simp
    note step = unpack_fill_byte [OF f Cons.prems(3), of b]
    let ?a = "acc OR push_bit filled (ucast b) :: u64"
    have "\<exists>acc' filled' input'. unpack_fill width ?a (filled + 8) input = Some (acc', filled', input') \<and>
     width \<le> filled' \<and> filled' < width + 8 \<and> unat acc' < 2 ^ filled' \<and>
     filled' + 8 * length input' = filled + 8 + 8 * length input \<and>
     unat acc' + 2 ^ filled' * base_sum 256 input' = unat ?a + 2 ^ (filled + 8) * base_sum 256 input"
      using Cons.prems True step(2) by (intro Cons.IH) auto
    moreover have "unat ?a + 2 ^ (filled + 8) * base_sum 256 input = unat acc + 2 ^ filled * base_sum 256 (b # input)"
      by (simp add: step(1) power_add algebra_simps)
    ultimately show ?thesis using True
      by (auto simp: unpack_fill.simps [of width acc filled])
  next
    case False
    with Cons.prems show ?thesis by (auto simp: unpack_fill.simps [of width acc filled])
  qed
qed

lemma unpack_fixed_loop_digits:
  assumes "0 < width" "width \<le> 32" "filled < 8" "unat acc < 2 ^ filled"
    "n * width \<le> filled + 8 * length input"
  shows "unpack_fixed_loop n width acc filled input visit s =
     visit_all visit s (map of_nat (base_digits (2 ^ width) n (unat acc + 2 ^ filled * base_sum 256 input)))"
  using assms
proof (induction n arbitrary: acc filled input s)
  case 0
  then show ?case by simp
next
  case (Suc n)
  let ?x = "unat acc + 2 ^ filled * base_sum 256 input"
  from Suc.prems obtain acc' filled' input' where
    fill: "unpack_fill width acc filled input = Some (acc', filled', input')" and
    b: "width \<le> filled'" "filled' < width + 8" "unat acc' < 2 ^ filled'"
       "filled' + 8 * length input' = filled + 8 * length input" and
    x: "unat acc' + 2 ^ filled' * base_sum 256 input' = ?x"
    using unpack_fill_spec [of width filled acc input] by auto
  have split: "(2::nat) ^ filled' = 2 ^ width * 2 ^ (filled' - width)"
    using b(1) by (simp flip: power_add)
  have digit: "ucast (acc' AND (push_bit width 1 - 1)) = (of_nat (?x mod 2 ^ width) :: u32)"
  proof -
    have "unat (ucast (acc' AND (push_bit width 1 - 1)) :: u32) = unat acc' mod 2 ^ width"
    proof -
      have "unat (acc' AND (push_bit width 1 - 1)) = unat acc' mod 2 ^ width"
        using Suc.prems(2) by (intro unat_and_mask) simp
      moreover have "unat acc' mod 2 ^ width < 2 ^ 32"
        using power_increasing [OF Suc.prems(2), of "2 :: nat"]
        by (intro order_less_le_trans [OF mod_less_divisor]) auto
      ultimately show ?thesis by (simp add: unat_ucast_down)
    qed
    also have "\<dots> = ?x mod 2 ^ width"
      unfolding x [symmetric] split by (simp add: mult.assoc)
    finally have "of_nat (unat (ucast (acc' AND (push_bit width 1 - 1)) :: u32)) = (of_nat (?x mod 2 ^ width) :: u32)"
      by simp
    then show ?thesis by simp
  qed
  have "unat (drop_bit width acc') + 2 ^ (filled' - width) * base_sum 256 input' = ?x div 2 ^ width"
    unfolding x [symmetric] split by (simp add: unat_drop_bit mult.assoc)
  moreover have "unat (drop_bit width acc') < 2 ^ (filled' - width)"
    using b(3) unfolding unat_drop_bit split by (simp add: less_mult_imp_div_less mult.commute)
  moreover have "filled' - width < 8" "n * width \<le> filled' - width + 8 * length input'"
    using b Suc.prems(5) by auto
  ultimately have rest: "unpack_fixed_loop n width (drop_bit width acc') (filled' - width) input' visit s' =
     visit_all visit s' (map of_nat (base_digits (2 ^ width) n (?x div 2 ^ width)))" for s'
    using Suc.IH [of "filled' - width" "drop_bit width acc'" input' s'] Suc.prems(1,2) by simp
  show ?case
    by (simp only: unpack_fixed_loop.simps fill option.case prod.case digit rest visit_all.simps
        base_digits.simps list.map) (simp add: rest split: sum.split)
qed

lemma visit_all_push: "visit_all (\<lambda>out x. Inr (out @ [x])) out xs = Inr (out @ xs)"
  by (induction xs arbitrary: out) auto

lemma unpack_ids_digits:
  assumes "0 < width" "width \<le> 32" "n * width \<le> 8 * length bs"
  shows "unpack_ids bs n width = Inr (map of_nat (base_digits (2 ^ width) n (base_sum 256 bs)))"
  using unpack_fixed_loop_digits [of width 0 0 n bs "\<lambda>out id. Inr (out @ [id])" "[]"] assms
  by (simp add: unpack_ids_def visit_all_push)

lemma base_digits_packed:
  assumes "width \<le> 32" "\<forall>v\<in>set vs. unat v < 2 ^ width"
  shows "map of_nat (base_digits (2 ^ width) (length vs) (base_sum 256 (pack_loop width 0 0 vs))) = (vs :: u32 list)"
proof -
  have "base_sum 256 (pack_loop width 0 0 vs) = base_sum (2 ^ width) vs"
    using pack_loop_sum [of width 0 0 vs] assms by simp
  then show ?thesis using base_digits_sum [OF assms(2)] by (simp add: comp_def)
qed

lemma length_pack_loop0: "length (pack_loop width acc 0 vs) = div_ceil (width * length vs) 8"
  by (simp add: pack_loop_length)

lemma unpack_pack_ids:
  assumes "0 < width" "width \<le> 32" "\<forall>v\<in>set vs. unat v < 2 ^ width"
  shows "unpack_ids (pack_ids vs width) (length vs) width = Inr vs"
proof -
  have "length vs * width \<le> 8 * length (pack_loop width 0 0 vs)"
    using div_ceil_bounds(1) [of 8 "width * length vs"] by (simp add: length_pack_loop0 mult.commute)
  from unpack_ids_digits [OF assms(1,2) this] show ?thesis
    by (simp add: pack_ids_def base_digits_packed assms)
qed

lemma unpack_ids_length: "unpack_ids bs n width = Inr ids \<Longrightarrow> 0 < width \<Longrightarrow> width \<le> 32 \<Longrightarrow>
   n * width \<le> 8 * length bs \<Longrightarrow> length ids = n"
  by (simp add: unpack_ids_digits) auto

lemma set_skip_listed:
  "ascending is \<Longrightarrow> ascending listed \<Longrightarrow> set listed \<subseteq> set is \<Longrightarrow>
   set (skip_listed is listed) = set is - set listed"
proof (induction "is" listed rule: skip_listed.induct)
  case (3 i "is" x listed)
  show ?case
  proof (cases "x = i")
    case True
    with 3 show ?thesis by fastforce
  next
    case False
    with "3.prems" have "i \<notin> set (x # listed)" by fastforce
    with False 3 show ?thesis by auto
  qed
qed auto

lemma ascending_skip_listed: "ascending is \<Longrightarrow> ascending (skip_listed is listed)"
proof -
  have sub: "set (skip_listed is listed) \<subseteq> set is" for "is" listed
    by (induction "is" listed rule: skip_listed.induct) auto
  show "ascending is \<Longrightarrow> ascending (skip_listed is listed)"
    by (induction "is" listed rule: skip_listed.induct) (use sub in fastforce)+
qed

lemma set_id_range: "set (id_range n) = {i. i < n}"
proof
  show "set (id_range n) \<subseteq> {i. i < n}"
    by (auto simp: id_range_def word_less_nat_alt unat_of_nat order_le_less_trans [OF mod_less_eq_dividend])
  show "{i. i < n} \<subseteq> set (id_range n)"
  proof
    fix i assume "i \<in> {i. i < n}"
    then have "unat i < unat n" by (simp add: word_less_nat_alt)
    then have "of_nat (unat i) \<in> (of_nat ` {0..<unat n} :: u32 set)" by (intro imageI) simp
    then show "i \<in> set (id_range n)" by (simp add: id_range_def)
  qed
qed

lemma ascending_id_range: "ascending (id_range n)"
proof -
  have "unat (of_nat i :: u32) = i" if "i < unat n" for i
    using that unat_lt32 [of n] by (simp add: unat_of_nat)
  then show ?thesis
    unfolding id_range_def sorted_wrt_map
    by (auto intro!: sorted_wrt_mono_rel [OF _ sorted_wrt_upt] simp: word_less_nat_alt)
qed

lemma length_id_range [simp]: "length (id_range n) = unat n"
  by (simp add: id_range_def)

lemma ids_count:
  fixes ids :: "doc_id list"
  assumes "ascending ids" "\<forall>id\<in>set ids. id < n"
  shows "length ids \<le> unat n" and "unat (of_nat (length ids) :: u32) = length ids"
proof -
  have "set ids \<subseteq> set (id_range n)" using assms(2) by (auto simp: set_id_range)
  then have "card (set ids) \<le> card (set (id_range n))" by (intro card_mono) auto
  then show le: "length ids \<le> unat n"
    using assms(1) ascending_id_range [of n] by (simp add: distinct_card ascending_distinct)
  show "unat (of_nat (length ids) :: u32) = length ids"
    using le unat_lt32 [of n] by (simp add: unat_of_nat)
qed

lemma length_complement:
  assumes "ascending ids" "\<forall>id\<in>set ids. id < n"
  shows "length (skip_listed (id_range n) ids) = unat n - length ids"
proof -
  have sub: "set ids \<subseteq> set (id_range n)" using assms(2) by (auto simp: set_id_range)
  have "length (skip_listed (id_range n) ids) = card (set (skip_listed (id_range n) ids))"
    by (simp add: distinct_card ascending_distinct ascending_skip_listed ascending_id_range)
  also have "\<dots> = card (set (id_range n)) - card (set ids)"
    using sub by (simp add: set_skip_listed ascending_id_range assms(1) card_Diff_subset)
  finally show ?thesis
    using assms(1) ascending_id_range [of n] by (simp add: distinct_card ascending_distinct)
qed

lemma skip_listed_twice:
  assumes "ascending ids" "\<forall>id\<in>set ids. id < n"
  shows "skip_listed (id_range n) (skip_listed (id_range n) ids) = ids"
proof (rule ascending_eqI)
  have sub: "set ids \<subseteq> set (id_range n)" using assms(2) by (auto simp: set_id_range)
  show "ascending (skip_listed (id_range n) (skip_listed (id_range n) ids))"
    by (simp add: ascending_skip_listed ascending_id_range)
  show "set (skip_listed (id_range n) (skip_listed (id_range n) ids)) = set ids"
    using sub by (auto simp: set_skip_listed ascending_skip_listed ascending_id_range assms(1))
qed (fact assms(1))

lemma posting_id_bits_bounds: "0 < posting_id_bits n" "posting_id_bits n \<le> 32"
  by (auto simp: posting_id_bits_def)

lemma clz_bits: "32 - leading_zeros v = bit_len (unat v)"
  using bit_len_le [OF unat_lt32 [of v]] by (simp add: leading_zeros_def)

lemma posting_id_bits_fits:
  assumes "i < n"
  shows "unat i < 2 ^ posting_id_bits n"
proof -
  have "unat i \<le> unat (saturating_sub n 1)"
    using assms by (simp add: word_less_nat_alt word_nat)
  also have "\<dots> < 2 ^ bit_len (unat (saturating_sub n 1))" by (rule bit_len_bound)
  also have "\<dots> \<le> 2 ^ posting_id_bits n"
    by (intro power_increasing) (auto simp: posting_id_bits_def clz_bits)
  finally show ?thesis .
qed

lemma unpack_pack_ids_fit:
  "\<forall>id\<in>set ids. id < n \<Longrightarrow>
   unpack_ids (pack_ids ids (posting_id_bits n)) (length ids) (posting_id_bits n) = Inr ids"
  by (rule unpack_pack_ids) (auto simp: posting_id_bits_bounds posting_id_bits_fits)

lemma encode_posting_block_length:
  assumes "ascending ids" "\<forall>id\<in>set ids. id < n"
  shows "length (encode_posting_block ids n) = posting_block_len (of_nat (length ids)) n"
proof -
  note cnt = ids_count [OF assms]
  show ?thesis
    unfolding encode_posting_block_def posting_block_len_def stored_id_count_def Let_def
    by (simp add: pack_ids_def length_pack_loop0 cnt length_complement [OF assms] word_nat
        mult.commute div_ceil_def)
qed

lemma fixed_block_roundtrip:
  assumes "ascending ids" "\<forall>id\<in>set ids. id < n"
  shows "decode_posting_block (encode_posting_block ids n) (of_nat (length ids)) n = Inr ids"
proof -
  let ?c = "of_nat (length ids) :: u32"
  let ?abs = "skip_listed (id_range n) ids"
  note cnt = ids_count [OF assms]
  have le: "?c \<le> n" using cnt by (simp add: word_le_nat_alt)
  have sub: "set ids \<subseteq> set (id_range n)" using assms(2) by (auto simp: set_id_range)
  have abs: "\<forall>id\<in>set ?abs. id < n"
    using sub by (auto simp: set_skip_listed ascending_id_range assms(1) set_id_range)
  have last: "\<forall>id\<in>set xs. id < n \<Longrightarrow> xs = [] \<or> last xs < n" for xs
    by (cases "xs = []") auto
  consider (full) "?c = n" | (dense) "?c \<noteq> n" "unat n < unat ?c * 2" | (sparse) "?c \<noteq> n" "\<not> unat n < unat ?c * 2"
    by blast
  then show ?thesis
  proof cases
    case full
    then have "length ids = unat n" using cnt(2) by simp
    then have "card (set (id_range n)) \<le> card (set ids)"
      using assms(1) by (simp add: distinct_card ascending_distinct ascending_id_range)
    then have "set ids = set (id_range n)" using sub by (intro card_seteq) auto
    then have "ids = id_range n" by (intro ascending_eqI) (auto simp: assms(1) ascending_id_range)
    then show ?thesis using full le encode_posting_block_length [OF assms]
      by (simp add: decode_posting_block_def)
  next
    case dense
    have "unpack_ids (encode_posting_block ids n) (stored_id_count ?c n) (posting_id_bits n) = Inr ?abs"
      using unpack_pack_ids_fit [OF abs] dense
      by (simp add: encode_posting_block_def stored_id_count_def length_complement [OF assms] cnt word_nat)
    then show ?thesis using dense le encode_posting_block_length [OF assms] last [OF abs]
      by (simp add: decode_posting_block_def ascending_skip_listed ascending_id_range skip_listed_twice [OF assms])
  next
    case sparse
    have "unpack_ids (encode_posting_block ids n) (stored_id_count ?c n) (posting_id_bits n) = Inr ids"
      using unpack_pack_ids_fit [OF assms(2)] sparse
      by (simp add: encode_posting_block_def stored_id_count_def cnt)
    then show ?thesis using sparse le encode_posting_block_length [OF assms] last [OF assms(2)] assms(1)
      by (simp add: decode_posting_block_def)
  qed
qed

lemma stored_fits:
  "length bs = posting_block_len count n \<Longrightarrow>
   stored_id_count count n * posting_id_bits n \<le> 8 * length bs"
  using div_ceil_bounds(1) [of 8] by (simp add: posting_block_len_def)

lemma fixed_block_sound:
  assumes "decode_posting_block bs count n = Inr ids"
  shows "ascending ids \<and> (\<forall>id\<in>set ids. id < n) \<and> length ids = unat count"
proof -
  from assms have le: "count \<le> n" and len: "length bs = posting_block_len count n"
    by (auto simp: decode_posting_block_def split: if_splits)
  show ?thesis
  proof (cases "count = n")
    case True
    with assms show ?thesis
      by (auto simp: decode_posting_block_def ascending_id_range set_id_range split: if_splits)
  next
    case False
    with assms le len obtain stored where
      un: "unpack_ids bs (stored_id_count count n) (posting_id_bits n) = Inr stored"
      by (cases "unpack_ids bs (stored_id_count count n) (posting_id_bits n)")
        (auto simp: decode_posting_block_def)
    have st: "ascending stored" "stored = [] \<or> last stored < n"
             "ids = (if unat count * 2 > unat n then skip_listed (id_range n) stored else stored)"
      using assms le len False unfolding decode_posting_block_def un
      by (simp_all split: if_split_asm)
    have bound: "\<forall>id\<in>set stored. id < n"
    proof
      fix i assume "i \<in> set stored"
      then have "i \<le> last stored" "stored \<noteq> []"
        using st(1) by (auto intro: ascending_last)
      with st(2) show "i < n" by auto
    qed
    have slen: "length stored = stored_id_count count n"
      by (rule unpack_ids_length [OF un posting_id_bits_bounds stored_fits [OF len]])
    have sub: "set stored \<subseteq> set (id_range n)" using bound by (auto simp: set_id_range)
    have set: "\<forall>id\<in>set (skip_listed (id_range n) stored). id < n"
      using sub by (auto simp: set_skip_listed ascending_id_range st(1) set_id_range)
    show ?thesis
      using st bound slen False le set
      by (auto simp: ascending_skip_listed ascending_id_range length_complement stored_id_count_def
          word_nat word_le_nat_alt)
  qed
qed

lemma delta_visit_state:
  assumes "delta_state n s" "delta_visit n s d = Inr s'"
  shows "delta_state n s' \<and> length (snd s') = Suc (length (snd s))"
proof -
  obtain previous ids where s: "s = (previous, ids)" by (cases s)
  from assms(2) obtain i where i: "i < n" "s' = (Some i, ids @ [i])"
    and c: "(case previous of None \<Rightarrow> Some d
             | Some p \<Rightarrow> Option.bind (checked_add p d) (\<lambda>sum. checked_add sum 1)) = Some i"
    by (auto simp: delta_visit_def s split: option.splits if_splits)
  have "last ids < i" if "ids \<noteq> []"
  proof -
    from that assms(1) s have "previous = Some (last ids)" by (simp add: delta_state_def)
    with c obtain m where "checked_add (last ids) d = Some m" "checked_add m 1 = Some i"
      by (auto simp: bind_eq_Some_conv)
    then have "unat i = unat (last ids) + unat d + 1" by (auto dest!: checked_add_Some)
    then show ?thesis by (simp add: word_less_nat_alt)
  qed
  then have "\<forall>x\<in>set ids. x < i"
    using assms(1) s by (auto simp: delta_state_def dest!: ascending_last split: if_splits)
  then show ?thesis using assms(1) s i by (simp add: delta_state_def sorted_wrt_append)
qed

lemma visit_all_delta_state:
  "delta_state n s \<Longrightarrow> visit_all (delta_visit n) s ds = Inr s' \<Longrightarrow>
   delta_state n s' \<and> length (snd s') = length (snd s) + length ds"
proof (induction ds arbitrary: s)
  case (Cons d ds)
  then obtain s1 where "delta_visit n s d = Inr s1" "visit_all (delta_visit n) s1 ds = Inr s'"
    by (auto split: sum.splits)
  with Cons delta_visit_state [OF Cons.prems(1)] show ?case by fastforce
qed simp

lemma unpack_fixed_visits:
  assumes "0 < width" "width \<le> 32" "n * width \<le> 8 * length bs"
  shows "unpack_fixed bs n width visit s =
         visit_all visit s (map of_nat (base_digits (2 ^ width) n (base_sum 256 bs)))"
  using unpack_fixed_loop_digits [of width 0 0 n bs visit s] assms
  by (simp add: unpack_fixed_def)

lemma decode_delta_loop_sound:
  "delta_state n s \<Longrightarrow> decode_delta_loop n rest remaining s = Inr (rest', ids) \<Longrightarrow>
   ascending ids \<and> (\<forall>i\<in>set ids. i < n) \<and> length ids = length (snd s) + remaining"
proof (induction n rest remaining s rule: decode_delta_loop.induct)
  case (1 n rest remaining s)
  show ?case
  proof (cases "remaining = 0")
    case True
    with "1.prems" show ?thesis
      by (auto simp: decode_delta_loop.simps [of n rest] delta_state_def split: prod.splits)
  next
    case False
    with "1.prems"(2) obtain w tail where rest: "rest = w # tail"
      by (cases rest) (auto simp: decode_delta_loop.simps [of n "[]"])
    let ?b = "min remaining BLOCK_IDS" and ?bytes = "div_ceil (min remaining BLOCK_IDS * unat w) 8"
    from "1.prems"(2) False obtain s1 where
      w: "1 \<le> unat w" "unat w \<le> 32" "?bytes \<le> length tail" and
      un: "unpack_fixed (take ?bytes tail) ?b (unat w) (delta_visit n) s = Inr s1" and
      rec: "decode_delta_loop n (drop ?bytes tail) (remaining - ?b) s1 = Inr (rest', ids)"
      by (auto simp: rest decode_delta_loop.simps [of n "w # tail"] Let_def split: if_splits sum.splits)
    have "?b * unat w \<le> 8 * length (take ?bytes tail)"
      using w(3) div_ceil_bounds(1) [of 8 "?b * unat w"] by (simp add: min_absorb2)
    with un w have "visit_all (delta_visit n) s
        (map of_nat (base_digits (2 ^ unat w) ?b (base_sum 256 (take ?bytes tail)))) = Inr s1"
      by (simp add: unpack_fixed_visits)
    from visit_all_delta_state [OF "1.prems"(1) this]
    have s1: "delta_state n s1" "length (snd s1) = length (snd s) + ?b" by auto
    have "\<not> (\<not> (1 \<le> unat w \<and> unat w \<le> 32))" "\<not> length tail < ?bytes" using w by auto
    from "1.IH" [OF False rest refl refl refl this un s1(1) rec] s1(2) show ?thesis by simp
  qed
qed

lemma delta_block_sound:
  assumes "decode_delta_blocks bs count n = Inr ids"
  shows "ascending ids \<and> (\<forall>i\<in>set ids. i < n) \<and> length ids = unat count"
proof -
  from assms obtain rest where "decode_delta_loop n bs (unat count) (None, []) = Inr (rest, ids)"
    by (auto simp: decode_delta_blocks_def split: if_splits sum.splits)
  from decode_delta_loop_sound [OF _ this] show ?thesis by (simp add: delta_state_def)
qed

lemma bits_for_fits: "unat v \<le> unat m \<Longrightarrow> unat v < 2 ^ bits_for m"
proof -
  assume "unat v \<le> unat m"
  also have "unat m < 2 ^ bit_len (unat m)" by (rule bit_len_bound)
  also have "\<dots> \<le> 2 ^ bits_for m"
    by (intro power_increasing) (auto simp: bits_for_def clz_bits)
  finally show ?thesis .
qed

lemma bits_for_bounds: "0 < bits_for v" "bits_for v \<le> 32"
  by (auto simp: bits_for_def)

lemma foldl_max_ge: "a \<le> foldl max a xs \<and> (\<forall>x\<in>set xs. (x :: 'a::linorder) \<le> foldl max a xs)"
proof (induction xs arbitrary: a)
  case (Cons y xs)
  from Cons.IH [of "max a y"] show ?case by auto
qed simp

lemma length_chunk_deltas [simp]: "length (chunk_deltas previous ids) = length ids"
  by (induction ids arbitrary: previous) auto

lemma delta_visit_id_delta:
  assumes "i < n" "\<And>p. previous = Some p \<Longrightarrow> p < i"
  shows "delta_visit n (previous, acc) (id_delta previous i) = Inr (Some i, acc @ [i])"
proof (cases previous)
  case None
  with assms show ?thesis by (simp add: delta_visit_def id_delta_def)
next
  case (Some p)
  with assms(2) have lt: "unat p < unat i" by (simp add: word_less_nat_alt)
  then have d: "unat (i - p - 1) = unat i - unat p - 1"
    by (simp add: unat_sub word_le_nat_alt word_less_nat_alt)
  have "checked_add p (i - p - 1) = Some (i - 1)" "checked_add (i - 1) 1 = Some i"
    using lt unat_lt32 [of i] by (auto simp: checked_add_def d unat_sub word_le_nat_alt)
  with Some assms(1) show ?thesis by (simp add: delta_visit_def id_delta_def)
qed

lemma visit_all_deltas:
  assumes "ascending ids" "\<forall>i\<in>set ids. i < n" "\<And>p i. previous = Some p \<Longrightarrow> i \<in> set ids \<Longrightarrow> p < i"
  shows "visit_all (delta_visit n) (previous, acc) (chunk_deltas previous ids) =
         Inr (if ids = [] then previous else Some (last ids), acc @ ids)"
  using assms
proof (induction ids arbitrary: previous acc)
  case (Cons i ids)
  have "delta_visit n (previous, acc) (id_delta previous i) = Inr (Some i, acc @ [i])"
    using Cons.prems by (intro delta_visit_id_delta) auto
  moreover have "visit_all (delta_visit n) (Some i, acc @ [i]) (chunk_deltas (Some i) ids) =
      Inr (if ids = [] then Some i else Some (last ids), (acc @ [i]) @ ids)"
    using Cons.prems by (intro Cons.IH) auto
  ultimately show ?case by auto
qed simp

lemma decode_delta_block:
  fixes ids :: "doc_id list"
  assumes "ids \<noteq> []" "length ids \<le> BLOCK_IDS" "length ids \<le> remaining"
    "remaining \<le> BLOCK_IDS \<or> length ids = BLOCK_IDS" "remaining \<le> BLOCK_IDS \<Longrightarrow> length ids = remaining"
    and vis: "visit_all (delta_visit n) s (chunk_deltas previous ids) = Inr s'"
  defines "deltas \<equiv> chunk_deltas previous ids"
  defines "width \<equiv> bits_for (foldl max 0 deltas)"
  shows "decode_delta_loop n (of_nat width # pack_fixed deltas width @ rest) remaining s =
         decode_delta_loop n rest (remaining - length ids) s'"
proof -
  have w: "unat (of_nat width :: u8) = width" "0 < width" "width \<le> 32"
    using bits_for_bounds [of "foldl max 0 deltas"] by (auto simp: width_def unat_of_nat)
  have b: "min remaining BLOCK_IDS = length ids" using assms(2-5) by auto
  have len: "length (pack_fixed deltas width) = div_ceil (length ids * width) 8"
    by (simp add: pack_fixed_def length_pack_loop0 deltas_def mult.commute)
  have fits: "\<forall>v\<in>set deltas. unat v < 2 ^ width"
    using foldl_max_ge [of 0 deltas] by (auto simp: width_def intro!: bits_for_fits simp flip: word_le_nat_alt)
  have "length deltas * width \<le> 8 * length (pack_fixed deltas width)"
    unfolding len using div_ceil_bounds(1) [of 8 "length ids * width"] by (simp add: deltas_def)
  from unpack_fixed_visits [OF w(2,3) this, of "delta_visit n" s]
  have "unpack_fixed (pack_fixed deltas width) (length ids) width (delta_visit n) s = Inr s'"
    using vis base_digits_packed [OF w(3) fits] by (simp add: pack_fixed_def deltas_def)
  moreover have "remaining \<noteq> 0" using assms(1,3) by (cases ids) auto
  ultimately show ?thesis
    using w by (simp add: decode_delta_loop.simps [of n "of_nat width # _"] b len Let_def)
qed

lemma decode_encode_delta_from:
  assumes "ascending ids" "\<forall>i\<in>set ids. i < n" "\<And>p i. previous = Some p \<Longrightarrow> i \<in> set ids \<Longrightarrow> p < i"
  shows "decode_delta_loop n (encode_delta_from previous ids @ rest) (length ids) (previous, acc) =
         Inr (rest, acc @ ids)"
  using assms
proof (induction previous ids arbitrary: acc rule: encode_delta_from.induct)
  case (1 previous ids)
  show ?case
  proof (cases "ids = []")
    case True
    then show ?thesis by (simp add: encode_delta_from.simps decode_delta_loop.simps)
  next
    case False
    let ?chunk = "take BLOCK_IDS ids" and ?tail = "drop BLOCK_IDS ids"
    have ne: "?chunk \<noteq> []" using False by (simp add: BLOCK_IDS_def)
    have split: "ids = ?chunk @ ?tail" by simp
    have "ascending (?chunk @ ?tail)" using "1.prems"(1) by simp
    then have asc: "ascending ?chunk" "ascending ?tail" "\<forall>x\<in>set ?chunk. \<forall>y\<in>set ?tail. x < y"
      unfolding sorted_wrt_append by auto
    have sub: "set ?chunk \<subseteq> set ids" "set ?tail \<subseteq> set ids"
      by (rule set_take_subset, rule set_drop_subset)
    have vis: "visit_all (delta_visit n) (previous, acc) (chunk_deltas previous ?chunk) =
               Inr (Some (last ?chunk), acc @ ?chunk)"
      using visit_all_deltas [OF asc(1), of n previous acc] "1.prems" sub ne by auto
    have lst: "last ?chunk \<in> set ?chunk" using ne by (rule last_in_set)
    have "decode_delta_loop n (encode_delta_from (Some (last ?chunk)) ?tail @ rest) (length ?tail)
            (Some (last ?chunk), acc @ ?chunk) = Inr (rest, (acc @ ?chunk) @ ?tail)"
      using "1.prems"(2) sub asc lst
      by (intro "1.IH" [OF False refl refl refl]) auto
    then have IH: "decode_delta_loop n (encode_delta_from (Some (last ?chunk)) ?tail @ rest)
        (length ids - length ?chunk) (Some (last ?chunk), acc @ ?chunk) = Inr (rest, acc @ ids)"
      by (cases "length ids \<le> BLOCK_IDS") (simp_all add: min_def)
    show ?thesis
      using decode_delta_block [OF ne _ _ _ _ vis, of "length ids"] IH False
      by (simp add: encode_delta_from.simps [of previous ids] Let_def min_def split: if_splits)
  qed
qed

lemma delta_block_roundtrip:
  assumes "ascending ids" "\<forall>i\<in>set ids. i < n"
  shows "decode_delta_blocks (encode_delta_blocks ids) (of_nat (length ids)) n = Inr ids"
proof -
  note cnt = ids_count [OF assms]
  have "decode_delta_loop n (encode_delta_from None ids @ []) (length ids) (None, []) = Inr ([], [] @ ids)"
    by (rule decode_encode_delta_from) (use assms in auto)
  then show ?thesis
    using cnt by (simp add: decode_delta_blocks_def encode_delta_blocks_def word_le_nat_alt)
qed

section \<open>The interface of a posting codec\<close>

text \<open>
  What the query evaluator and the segment writer rely on. \<open>encode ids n\<close> is the block of
  a strictly ascending list of ids below \<open>n\<close>; \<open>decode bs count n\<close> reads it back and
  rejects everything that is not such a list of \<open>count\<close> ids.
\<close>

locale posting_codec =
  fixes encode :: "doc_id list \<Rightarrow> u32 \<Rightarrow> bytes"
    and decode :: "bytes \<Rightarrow> u32 \<Rightarrow> u32 \<Rightarrow> doc_id list result"
  assumes round_trip: "ascending ids \<Longrightarrow> \<forall>i\<in>set ids. i < n \<Longrightarrow>
      decode (encode ids n) (of_nat (length ids)) n = Inr ids"
    and decode_valid: "decode bs count n = Inr ids \<Longrightarrow>
      ascending ids \<and> (\<forall>i\<in>set ids. i < n) \<and> length ids = unat count"
begin

lemma encode_inj:
  assumes "ascending ids" "\<forall>i\<in>set ids. i < n" "ascending ids'" "\<forall>i\<in>set ids'. i < n"
    and "length ids = length ids'" "encode ids n = encode ids' n"
  shows "ids = ids'"
proof -
  have "Inr ids = decode (encode ids n) (of_nat (length ids)) n" by (rule round_trip [OF assms(1,2), symmetric])
  also have "\<dots> = Inr ids'" unfolding assms(5,6) by (rule round_trip [OF assms(3,4)])
  finally show ?thesis by simp
qed

lemma read_back:
  assumes "ascending ids" "\<forall>i\<in>set ids. i < n" "file = before @ encode ids n @ after"
  shows "decode (take (length (encode ids n)) (drop (length before) file)) (of_nat (length ids)) n = Inr ids"
  using round_trip [OF assms(1,2)] assms(3) by simp

lemma decode_full:
  assumes "decode bs n n = Inr ids"
  shows "ids = id_range n"
proof (rule ascending_eqI)
  note v = decode_valid [OF assms]
  have sub: "set ids \<subseteq> set (id_range n)" using v by (auto simp: set_id_range)
  have "card (set (id_range n)) \<le> card (set ids)"
    using v by (simp add: distinct_card ascending_distinct ascending_id_range)
  with sub show "set ids = set (id_range n)" by (intro card_seteq) auto
qed (use decode_valid [OF assms] ascending_id_range in auto)

end

interpretation fixed_codec: posting_codec encode_posting_block decode_posting_block
  by unfold_locales (auto intro: fixed_block_roundtrip dest: fixed_block_sound)

interpretation delta_codec: posting_codec "\<lambda>ids n. encode_delta_blocks ids" decode_delta_blocks
  by unfold_locales (auto intro: delta_block_roundtrip dest: delta_block_sound)

section \<open>Properties\<close>

text \<open>
  C8: a fixed-width posting block decodes to exactly the ids it was written from, in every
  density class (absent ids stored, present ids stored, nothing stored), also when it is
  read at its offset inside a larger postings file.
\<close>

theorem posting_block_reads_back:
  assumes "ascending ids" "\<forall>i\<in>set ids. i < n" "file = before @ encode_posting_block ids n @ after"
  shows "decode_posting_block
     (take (posting_block_len (of_nat (length ids)) n) (drop (length before) file))
     (of_nat (length ids)) n = Inr ids"
  using fixed_codec.read_back [OF assms] encode_posting_block_length [OF assms(1,2)] by simp

theorem posting_block_reads_back_witness:
  "decode_posting_block (take (posting_block_len 3 4) (drop 1 ([7] @ encode_posting_block [0, 1, 3] 4 @ [9]))) 3 4
   = Inr [0, 1, 3]"
  using posting_block_reads_back [of "[0, 1, 3]" 4 "[7] @ encode_posting_block [0, 1, 3] 4 @ [9]" "[7]" "[9]"]
  by simp

text \<open>
  C9: a delta-bitpacked posting list decodes to exactly the ids it was written from.
\<close>

theorem delta_blocks_read_back:
  assumes "ascending ids" "\<forall>i\<in>set ids. i < n" "file = before @ encode_delta_blocks ids @ after"
  shows "decode_delta_blocks
     (take (length (encode_delta_blocks ids)) (drop (length before) file)) (of_nat (length ids)) n = Inr ids"
  by (rule delta_codec.read_back [OF assms])

theorem delta_blocks_read_back_witness:
  "decode_delta_blocks (take (length (encode_delta_blocks [2, 5, 6])) (drop 1 ([7] @ encode_delta_blocks [2, 5, 6] @ [])))
     3 10 = Inr [2, 5, 6]"
  using delta_blocks_read_back [of "[2, 5, 6]" 10 "[7] @ encode_delta_blocks [2, 5, 6] @ []" "[7]" "[]"]
  by simp

text \<open>
  C10: whatever bytes the two decoders are given, an accepted block is a strictly ascending
  list of exactly \<open>count\<close> ids below \<open>doc_count\<close>: no corrupt block yields a duplicate, an id out of
  range or a short list.
\<close>

theorem decoders_validate:
  assumes "decode_posting_block bs count n = Inr ids \<or> decode_delta_blocks bs count n = Inr ids"
  shows "ascending ids \<and> (\<forall>i\<in>set ids. i < n) \<and> length ids = unat count"
  using assms fixed_codec.decode_valid delta_codec.decode_valid by blast

theorem decoders_validate_witness:
  "(\<exists>ids. decode_posting_block [25] 2 8 = Inr ids \<and> ascending ids \<and> list_all (\<lambda>i. i < 8) ids \<and> length ids = 2) \<and>
   (\<exists>ids. decode_delta_blocks (encode_delta_blocks [1, 3]) 2 8 = Inr ids \<and> ascending ids \<and> list_all (\<lambda>i. i < 8) ids \<and> length ids = 2)"
proof -
  have "decode_posting_block [25] 2 8 = Inr [1, 3]" by code_simp
  moreover from this have "ascending [1, 3 :: u32] \<and> (\<forall>i\<in>set [1, 3 :: u32]. i < 8) \<and> length [1, 3 :: u32] = unat (2 :: u32)"
    by (intro decoders_validate disjI1)
  moreover have "decode_delta_blocks (encode_delta_blocks [1, 3]) 2 8 = Inr [1, 3]"
    using delta_codec.round_trip [of "[1, 3]" 8] by simp
  moreover from this have "ascending [1, 3 :: u32] \<and> (\<forall>i\<in>set [1, 3 :: u32]. i < 8) \<and> length [1, 3 :: u32] = unat (2 :: u32)"
    by (intro decoders_validate disjI2)
  ultimately show ?thesis by (simp add: list_all_iff)
qed

end
