(* ===== verification/Posting_Eval.thy ===== *)
theory Posting_Eval
  imports Query_Plan Posting_Codec
begin

unbundle bit_operations_syntax

text \<open>
  Query evaluation over posting lists, \<open>crates/index/src/eval.rs\<close>: the packed dictionary value, the
  resolution of a query against the term dictionary (with its simplifications and the
  pruning of conjunctions), the set of posting blocks a resolved query needs, and the
  set algebra on sorted id lists. The term dictionary is an argument \<open>lookup\<close>, as in the code;
  the locale \<open>posting_index\<close> states what a dictionary promises.
\<close>

section \<open>Definitions\<close>

definition SPARSE_MAX_GRAMS_PER_AND :: nat where "SPARSE_MAX_GRAMS_PER_AND = 8"
definition BLOCK_MAX_GRAMS_PER_AND :: nat where "BLOCK_MAX_GRAMS_PER_AND = 64"
definition OFFSET_BITS :: nat where "OFFSET_BITS = 40"
definition COUNT_BITS :: nat where "COUNT_BITS = 24"
definition MAX_POSTING_COUNT :: nat where "MAX_POSTING_COUNT = 2 ^ COUNT_BITS - 1"

definition pack_posting :: "u64 \<Rightarrow> nat \<Rightarrow> u64 result" where
  "pack_posting offset count =
     (if \<not> offset < push_bit OFFSET_BITS 1 then Inl (PostingError OffsetLimit)
      else if \<not> count < 2 ^ COUNT_BITS then Inl (PostingError CountLimit)
      else Inr (offset OR push_bit OFFSET_BITS (of_nat count)))"

definition unpack_posting :: "u64 \<Rightarrow> u64 \<times> u32" where
  "unpack_posting value =
     (value AND (push_bit OFFSET_BITS 1 - 1), ucast (drop_bit OFFSET_BITS value))"

record term_value =
  packed :: u64
  tv_len :: "u64 option"

type_synonym lookup = "bytes \<Rightarrow> term_value option result"

text \<open>The loop with an explicit stack, top at the head: \<open>extend(children)\<close> leaves the last child on top.\<close>

function collect_grams_loop :: "query list \<Rightarrow> bytes list \<Rightarrow> bytes list" where
  "collect_grams_loop [] grams = grams"
| "collect_grams_loop (QAll # stack) grams = collect_grams_loop stack grams"
| "collect_grams_loop (QGram g # stack) grams = collect_grams_loop stack (grams @ [g])"
| "collect_grams_loop (QAnd cs # stack) grams = collect_grams_loop (rev cs @ stack) grams"
| "collect_grams_loop (QOr cs # stack) grams = collect_grams_loop (rev cs @ stack) grams"
  by pat_completeness auto
termination
proof (relation "measure (\<lambda>(stack, grams). size_list size stack)")
  have "size_list size (rev cs @ stack) = size_list size cs + size_list size stack" for cs stack :: "query list"
    by (simp add: size_list_conv_sum_list rev_map [symmetric] sum_list_rev del: rev_map)
  then show "((rev cs @ stack, grams), (QAnd cs # stack, grams)) \<in> measure (\<lambda>(stack, grams). size_list size stack)"
    and "((rev cs @ stack, grams), (QOr cs # stack, grams)) \<in> measure (\<lambda>(stack, grams). size_list size stack)"
    for cs stack and grams :: "bytes list"
    by simp_all
qed auto

definition collect_query_grams :: "query list \<Rightarrow> bytes list" where
  "collect_query_grams queries = remdups_adj (sort (collect_grams_loop (rev queries) []))"

datatype resolved =
    RAll
  | RNone
  | RDoc doc_id
  | RGram u64 u32 u64
  | RAnd "resolved list"
  | ROr "resolved list"

fun is_doc :: "resolved \<Rightarrow> bool" where "is_doc (RDoc _) = True" | "is_doc _ = False"
fun is_gram :: "resolved \<Rightarrow> bool" where "is_gram (RGram _ _ _) = True" | "is_gram _ = False"

fun gram_count :: "resolved \<Rightarrow> u32" where
  "gram_count (RGram _ c _) = c"
| "gram_count _ = u32_max"

definition and_limit :: "strategy \<Rightarrow> nat" where
  "and_limit s = (case s of Trigram \<Rightarrow> BLOCK_MAX_GRAMS_PER_AND | Sparse \<Rightarrow> SPARSE_MAX_GRAMS_PER_AND)"

definition prune_and :: "resolved list \<Rightarrow> strategy \<Rightarrow> resolved" where
  "prune_and children s =
     (if list_ex is_doc children
      then (let docs = filter (\<lambda>c. \<not> is_gram c) children
            in case docs of [d] \<Rightarrow> d | _ \<Rightarrow> RAnd docs)
      else (let grams = filter is_gram children;
                others = filter (\<lambda>c. \<not> is_gram c) children;
                grams = (if length grams > and_limit s
                         then take (and_limit s) (sort_key gram_count grams) else grams);
                grams = grams @ others
            in case grams of [] \<Rightarrow> RAll | [g] \<Rightarrow> g | _ \<Rightarrow> RAnd grams))"

definition resolve_gram :: "u32 \<Rightarrow> lookup \<Rightarrow> bytes \<Rightarrow> resolved result" where
  "resolve_gram id_space lookup g =
     (case lookup g of
        Inl e \<Rightarrow> Inl e
      | Inr None \<Rightarrow> Inr RNone
      | Inr (Some v) \<Rightarrow>
          (case unpack_posting (packed v) of (offset, count) \<Rightarrow>
             if count = 1
             then (if unat offset < 2 ^ 32 \<and> (ucast offset :: u32) < id_space
                   then Inr (RDoc (ucast offset)) else Inl (EvalError SingletonOutside))
             else if count \<ge> id_space then Inr RAll
             else Inr (RGram offset count
                    (case tv_len v of Some l \<Rightarrow> l | None \<Rightarrow> of_nat (posting_block_len count id_space)))))"

fun resolve :: "u32 \<Rightarrow> strategy \<Rightarrow> lookup \<Rightarrow> query \<Rightarrow> resolved result"
  and resolve_and :: "u32 \<Rightarrow> strategy \<Rightarrow> lookup \<Rightarrow> query list \<Rightarrow> resolved list option result"
  and resolve_or :: "u32 \<Rightarrow> strategy \<Rightarrow> lookup \<Rightarrow> query list \<Rightarrow> resolved list option result" where
  "resolve n s lookup QAll = Inr RAll"
| "resolve n s lookup (QGram g) = resolve_gram n lookup g"
| "resolve n s lookup (QAnd subs) =
     (case resolve_and n s lookup subs of
        Inl e \<Rightarrow> Inl e
      | Inr None \<Rightarrow> Inr RNone
      | Inr (Some children) \<Rightarrow> Inr (prune_and children s))"
| "resolve n s lookup (QOr subs) =
     (case resolve_or n s lookup subs of
        Inl e \<Rightarrow> Inl e
      | Inr None \<Rightarrow> Inr RAll
      | Inr (Some children) \<Rightarrow>
          Inr (case children of [c] \<Rightarrow> c | [] \<Rightarrow> RNone | _ \<Rightarrow> ROr children))"
| "resolve_and n s lookup [] = Inr (Some [])"
| "resolve_and n s lookup (sub # subs) =
     (case resolve n s lookup sub of
        Inl e \<Rightarrow> Inl e
      | Inr RNone \<Rightarrow> Inr None
      | Inr RAll \<Rightarrow> resolve_and n s lookup subs
      | Inr r \<Rightarrow>
          (case resolve_and n s lookup subs of
             Inl e \<Rightarrow> Inl e
           | Inr None \<Rightarrow> Inr None
           | Inr (Some children) \<Rightarrow> Inr (Some (r # children))))"
| "resolve_or n s lookup [] = Inr (Some [])"
| "resolve_or n s lookup (sub # subs) =
     (case resolve n s lookup sub of
        Inl e \<Rightarrow> Inl e
      | Inr RAll \<Rightarrow> Inr None
      | Inr RNone \<Rightarrow> resolve_or n s lookup subs
      | Inr r \<Rightarrow>
          (case resolve_or n s lookup subs of
             Inl e \<Rightarrow> Inl e
           | Inr None \<Rightarrow> Inr None
           | Inr (Some children) \<Rightarrow> Inr (Some (r # children))))"

fun bind_queries :: "query list \<Rightarrow> u32 \<Rightarrow> strategy \<Rightarrow> lookup \<Rightarrow> resolved list result" where
  "bind_queries [] n s lookup = Inr []"
| "bind_queries (q # qs) n s lookup =
     (case resolve n s lookup q of
        Inl e \<Rightarrow> Inl e
      | Inr r \<Rightarrow> (case bind_queries qs n s lookup of Inl e \<Rightarrow> Inl e | Inr rs \<Rightarrow> Inr (r # rs)))"

fun blocks_needed :: "resolved \<Rightarrow> (u64 \<rightharpoonup> u32 \<times> u64) \<Rightarrow> (u64 \<rightharpoonup> u32 \<times> u64)" where
  "blocks_needed (RGram offset count len) out = out(offset \<mapsto> (count, len))"
| "blocks_needed (RAnd children) out = fold blocks_needed children out"
| "blocks_needed (ROr children) out = fold blocks_needed children out"
| "blocks_needed _ out = out"

datatype selection = SAll | SIds "doc_id list"

type_synonym expand = "(doc_id \<Rightarrow> doc_id \<times> doc_id) option"

definition id_span :: "doc_id \<times> doc_id \<Rightarrow> doc_id list" where
  "id_span r = map of_nat [unat (fst r)..<Suc (unat (snd r))]"

definition expand_ids :: "doc_id list \<Rightarrow> expand \<Rightarrow> doc_id list" where
  "expand_ids ids expand =
     (case expand of
        None \<Rightarrow> ids
      | Some f \<Rightarrow> remdups_adj (sort (concat (map (\<lambda>i. id_span (f i)) ids))))"

fun intersect :: "doc_id list \<Rightarrow> doc_id list \<Rightarrow> doc_id list" where
  "intersect (x # a) (y # b) =
     (if x < y then intersect a (y # b)
      else if y < x then intersect (x # a) b
      else x # intersect a b)"
| "intersect _ _ = []"

definition union_many :: "doc_id list list \<Rightarrow> doc_id list" where
  "union_many ls = remdups_adj (sort (concat ls))"

fun intersect_all :: "doc_id list \<Rightarrow> doc_id list list \<Rightarrow> doc_id list" where
  "intersect_all acc [] = acc"
| "intersect_all acc (s # sets) =
     (let acc' = intersect acc s in if acc' = [] then acc' else intersect_all acc' sets)"

fun eval :: "(u64 \<rightharpoonup> doc_id list) \<Rightarrow> expand \<Rightarrow> resolved \<Rightarrow> selection result"
  and eval_and :: "(u64 \<rightharpoonup> doc_id list) \<Rightarrow> expand \<Rightarrow> resolved list \<Rightarrow> doc_id list list option result"
  and eval_or :: "(u64 \<rightharpoonup> doc_id list) \<Rightarrow> expand \<Rightarrow> resolved list \<Rightarrow> doc_id list list option result" where
  "eval blocks expand RAll = Inr SAll"
| "eval blocks expand RNone = Inr (SIds [])"
| "eval blocks expand (RDoc i) = Inr (SIds (expand_ids [i] expand))"
| "eval blocks expand (RGram offset count len) =
     (case blocks offset of
        None \<Rightarrow> Inl (EvalError BlockNotFetched)
      | Some ids \<Rightarrow> Inr (SIds (expand_ids ids expand)))"
| "eval blocks expand (RAnd children) =
     (case eval_and blocks expand children of
        Inl e \<Rightarrow> Inl e
      | Inr None \<Rightarrow> Inr (SIds [])
      | Inr (Some sets) \<Rightarrow>
          Inr (case sort_key length sets of [] \<Rightarrow> SAll | acc # rest \<Rightarrow> SIds (intersect_all acc rest)))"
| "eval blocks expand (ROr children) =
     (case eval_or blocks expand children of
        Inl e \<Rightarrow> Inl e
      | Inr None \<Rightarrow> Inr SAll
      | Inr (Some ls) \<Rightarrow> Inr (SIds (union_many ls)))"
| "eval_and blocks expand [] = Inr (Some [])"
| "eval_and blocks expand (c # cs) =
     (case eval blocks expand c of
        Inl e \<Rightarrow> Inl e
      | Inr SAll \<Rightarrow> eval_and blocks expand cs
      | Inr (SIds ids) \<Rightarrow>
          if ids = [] then Inr None
          else (case eval_and blocks expand cs of
                  Inl e \<Rightarrow> Inl e
                | Inr None \<Rightarrow> Inr None
                | Inr (Some sets) \<Rightarrow> Inr (Some (ids # sets))))"
| "eval_or blocks expand [] = Inr (Some [])"
| "eval_or blocks expand (c # cs) =
     (case eval blocks expand c of
        Inl e \<Rightarrow> Inl e
      | Inr SAll \<Rightarrow> Inr None
      | Inr (SIds ids) \<Rightarrow>
          (case eval_or blocks expand cs of
             Inl e \<Rightarrow> Inl e
           | Inr None \<Rightarrow> Inr None
           | Inr (Some ls) \<Rightarrow> Inr (Some (ids # ls))))"


text \<open>Meaning of the pieces: which ids a selection, an expansion and a resolved query stand for.\<close>

definition hits :: "expand \<Rightarrow> doc_id list \<Rightarrow> doc_id set" where
  "hits expand ids =
     (case expand of
        None \<Rightarrow> set ids
      | Some f \<Rightarrow> {x. \<exists>i\<in>set ids. fst (f i) \<le> x \<and> x \<le> snd (f i)})"

fun sel_has :: "selection \<Rightarrow> doc_id \<Rightarrow> bool" where
  "sel_has SAll b = True"
| "sel_has (SIds ids) b = (b \<in> set ids)"

fun resolved_has :: "(u64 \<rightharpoonup> doc_id list) \<Rightarrow> expand \<Rightarrow> doc_id \<Rightarrow> resolved \<Rightarrow> bool" where
  "resolved_has blocks expand b RAll = True"
| "resolved_has blocks expand b RNone = False"
| "resolved_has blocks expand b (RDoc i) = (b \<in> hits expand [i])"
| "resolved_has blocks expand b (RGram offset count len) =
     (\<exists>ids. blocks offset = Some ids \<and> b \<in> hits expand ids)"
| "resolved_has blocks expand b (RAnd cs) = (\<forall>c\<in>set cs. resolved_has blocks expand b c)"
| "resolved_has blocks expand b (ROr cs) = (\<exists>c\<in>set cs. resolved_has blocks expand b c)"

fun gram_offsets :: "resolved \<Rightarrow> u64 set" where
  "gram_offsets (RGram offset count len) = {offset}"
| "gram_offsets (RAnd cs) = (\<Union>c\<in>set cs. gram_offsets c)"
| "gram_offsets (ROr cs) = (\<Union>c\<in>set cs. gram_offsets c)"
| "gram_offsets _ = {}"

definition blocks_sorted :: "(u64 \<rightharpoonup> doc_id list) \<Rightarrow> bool" where
  "blocks_sorted blocks \<longleftrightarrow> (\<forall>offset ids. blocks offset = Some ids \<longrightarrow> ascending ids)"

section \<open>Lemmas\<close>

lemma pack_posting_unpack:
  assumes "pack_posting offset count = Inr v"
  shows "unpack_posting v = (offset, of_nat count)" and "unat offset < 2 ^ 40" and "count < 2 ^ 24"
proof -
  from assms have lt: "offset < push_bit 40 1" and c: "count < 2 ^ 24"
    and v: "v = offset OR push_bit 40 (of_nat count)"
    by (auto simp: pack_posting_def OFFSET_BITS_def COUNT_BITS_def split: if_splits)
  from lt show off: "unat offset < 2 ^ 40" by (simp add: word_less_nat_alt)
  show "count < 2 ^ 24" by (rule c)
  have cnt: "unat (of_nat count :: u64) = count" using c by (simp add: unat_of_nat)
  have "unat v = unat offset + count * 2 ^ 40"
    unfolding v using off c by (subst unat_or_push_bit) (auto simp: cnt)
  then have "unat (v AND (push_bit 40 1 - 1)) = unat offset" and "unat (drop_bit 40 v) = count"
    using off by (subst unat_and_mask, simp, simp, subst unat_drop_bit, simp)
  then have "v AND (push_bit 40 1 - 1) = offset" "(ucast (drop_bit 40 v) :: u32) = of_nat count"
    using c by (metis word_unat_eq_iff, simp add: word_unat_eq_iff unat_ucast_down unat_of_nat)
  then show "unpack_posting v = (offset, of_nat count)"
    by (simp only: unpack_posting_def OFFSET_BITS_def)
qed

lemma set_intersect: "ascending a \<Longrightarrow> ascending b \<Longrightarrow> set (intersect a b) = set a \<inter> set b"
  by (induction a b rule: intersect.induct) force+

lemma ascending_intersect: "ascending a \<Longrightarrow> ascending b \<Longrightarrow> ascending (intersect a b)"
  by (induction a b rule: intersect.induct) (auto simp: set_intersect)

lemma intersect_all_spec:
  "ascending acc \<Longrightarrow> \<forall>s\<in>set sets. ascending s \<Longrightarrow>
   ascending (intersect_all acc sets) \<and> set (intersect_all acc sets) = set acc \<inter> (\<Inter>s\<in>set sets. set s)"
proof (induction acc sets rule: intersect_all.induct)
  case (2 acc s sets)
  then have i: "set (intersect acc s) = set acc \<inter> set s" "ascending (intersect acc s)"
    by (auto simp: set_intersect ascending_intersect)
  show ?case
  proof (cases "intersect acc s = []")
    case True
    with i(1) have "set acc \<inter> set s = {}" by simp
    with True show ?thesis by (auto simp: Let_def)
  next
    case False
    with 2 i have "ascending (intersect_all (intersect acc s) sets) \<and>
      set (intersect_all (intersect acc s) sets) = set acc \<inter> set s \<inter> (\<Inter>s\<in>set sets. set s)" by simp
    with False show ?thesis by (auto simp: Let_def)
  qed
qed simp

lemma union_many_spec: "ascending (union_many ls)" "set (union_many ls) = (\<Union>l\<in>set ls. set l)"
  by (auto simp: union_many_def ascending_remdups_adj)

lemma set_id_span: "set (id_span r) = {x. fst r \<le> x \<and> x \<le> snd r}"
proof
  show "set (id_span r) \<subseteq> {x. fst r \<le> x \<and> x \<le> snd r}"
  proof
    fix x assume "x \<in> set (id_span r)"
    then obtain k where k: "x = of_nat k" "unat (fst r) \<le> k" "k \<le> unat (snd r)"
      by (auto simp: id_span_def)
    then have "unat x = k" using unat_lt32 [of "snd r"] by (simp add: unat_of_nat)
    with k show "x \<in> {x. fst r \<le> x \<and> x \<le> snd r}" by (simp add: word_le_nat_alt)
  qed
  show "{x. fst r \<le> x \<and> x \<le> snd r} \<subseteq> set (id_span r)"
  proof
    fix x assume "x \<in> {x. fst r \<le> x \<and> x \<le> snd r}"
    then have "unat x \<in> {unat (fst r)..<Suc (unat (snd r))}" by (simp add: word_le_nat_alt less_Suc_eq_le)
    then have "of_nat (unat x) \<in> (of_nat ` {unat (fst r)..<Suc (unat (snd r))} :: u32 set)" by (rule imageI)
    then show "x \<in> set (id_span r)" by (simp only: id_span_def set_map set_upt) simp
  qed
qed

lemma expand_ids_spec:
  assumes "ascending ids"
  shows "ascending (expand_ids ids expand)" and "set (expand_ids ids expand) = hits expand ids"
  using assms by (auto simp: expand_ids_def hits_def set_id_span ascending_remdups_adj split: option.splits)


definition sel_ok :: "(u64 \<rightharpoonup> doc_id list) \<Rightarrow> expand \<Rightarrow> resolved \<Rightarrow> selection \<Rightarrow> bool" where
  "sel_ok blocks expand r sel \<longleftrightarrow>
     (\<forall>b. sel_has sel b = resolved_has blocks expand b r) \<and> (\<forall>ids. sel = SIds ids \<longrightarrow> ascending ids)"

definition and_ok :: "(u64 \<rightharpoonup> doc_id list) \<Rightarrow> expand \<Rightarrow> resolved list \<Rightarrow> doc_id list list option \<Rightarrow> bool" where
  "and_ok blocks expand cs out \<longleftrightarrow>
     (case out of
        None \<Rightarrow> \<forall>b. \<exists>c\<in>set cs. \<not> resolved_has blocks expand b c
      | Some sets \<Rightarrow> (\<forall>s\<in>set sets. ascending s) \<and>
          (\<forall>b. (\<forall>s\<in>set sets. b \<in> set s) = (\<forall>c\<in>set cs. resolved_has blocks expand b c)))"

definition or_ok :: "(u64 \<rightharpoonup> doc_id list) \<Rightarrow> expand \<Rightarrow> resolved list \<Rightarrow> doc_id list list option \<Rightarrow> bool" where
  "or_ok blocks expand cs out \<longleftrightarrow>
     (case out of
        None \<Rightarrow> \<forall>b. \<exists>c\<in>set cs. resolved_has blocks expand b c
      | Some ls \<Rightarrow> \<forall>b. (\<exists>l\<in>set ls. b \<in> set l) = (\<exists>c\<in>set cs. resolved_has blocks expand b c))"

lemma and_ok_result:
  assumes "and_ok blocks expand cs (Some sets)"
  shows "sel_ok blocks expand (RAnd cs)
     (case sort_key length sets of [] \<Rightarrow> SAll | acc # rest \<Rightarrow> SIds (intersect_all acc rest))"
proof (cases "sort_key length sets")
  case Nil
  then have "set sets = {}" by (metis set_empty set_sort)
  with assms Nil show ?thesis by (simp add: and_ok_def sel_ok_def)
next
  case (Cons acc rest)
  then have st: "set sets = insert acc (set rest)" by (metis list.simps(15) set_sort)
  with assms have "ascending acc" "\<forall>s\<in>set rest. ascending s" by (auto simp: and_ok_def)
  from intersect_all_spec [OF this] assms Cons st show ?thesis by (auto simp: and_ok_def sel_ok_def)
qed

lemma eval_exact:
  shows "blocks_sorted blocks \<Longrightarrow> eval blocks expand r = Inr sel \<Longrightarrow> sel_ok blocks expand r sel"
    and "blocks_sorted blocks \<Longrightarrow> eval_and blocks expand cs = Inr out \<Longrightarrow> and_ok blocks expand cs out"
    and "blocks_sorted blocks \<Longrightarrow> eval_or blocks expand ds = Inr out' \<Longrightarrow> or_ok blocks expand ds out'"
proof (induction blocks expand r and blocks expand cs and blocks expand ds arbitrary: sel and out and out'
    rule: eval_eval_and_eval_or.induct)
  case (3 blocks expand i)
  then have "sel = SIds (expand_ids [i] expand)" by simp
  then show ?case using expand_ids_spec [of "[i]" expand] by (simp add: sel_ok_def)
next
  case (4 blocks expand offset count len)
  then obtain ids where ids: "blocks offset = Some ids" "sel = SIds (expand_ids ids expand)"
    by (auto split: option.splits)
  with 4 have "ascending ids" by (auto simp: blocks_sorted_def)
  from expand_ids_spec [OF this] ids show ?case by (simp add: sel_ok_def)
next
  case (5 blocks expand children)
  then obtain out where o: "eval_and blocks expand children = Inr out" by (auto split: sum.splits)
  with 5 have ok: "and_ok blocks expand children out" by blast
  show ?case
  proof (cases out)
    case None
    with 5 o have "sel = SIds []" by simp
    with ok None show ?thesis by (auto simp: and_ok_def sel_ok_def)
  next
    case (Some sets)
    with 5 o and_ok_result ok show ?thesis by auto
  qed
next
  case (6 blocks expand children)
  then obtain out where o: "eval_or blocks expand children = Inr out" by (auto split: sum.splits)
  with 6 have "or_ok blocks expand children out" by blast
  with 6 o show ?case
    by (cases out) (auto simp: or_ok_def sel_ok_def union_many_spec)
next
  case (8 blocks expand c cs)
  then obtain sel where c: "eval blocks expand c = Inr sel" by (auto split: sum.splits)
  with 8 have ok: "sel_ok blocks expand c sel" by blast
  show ?case
  proof (cases sel)
    case SAll
    with 8 c ok show ?thesis by (fastforce simp: and_ok_def sel_ok_def split: option.splits)
  next
    case (SIds ids)
    show ?thesis
    proof (cases "ids = []")
      case True
      with SIds 8 c ok show ?thesis by (auto simp: and_ok_def sel_ok_def)
    next
      case False
      with SIds 8 c obtain o2 where o2: "eval_and blocks expand cs = Inr o2" by (auto split: sum.splits)
      with 8 c SIds False have ok2: "and_ok blocks expand cs o2" by blast
      have "out = (case o2 of None \<Rightarrow> None | Some sets \<Rightarrow> Some (ids # sets))"
        using 8 c SIds False o2 by (auto split: option.splits)
      with ok ok2 SIds show ?thesis by (auto simp: and_ok_def sel_ok_def split: option.splits)
    qed
  qed
next
  case (10 blocks expand c cs)
  then obtain sel where c: "eval blocks expand c = Inr sel" by (auto split: sum.splits)
  with 10 have ok: "sel_ok blocks expand c sel" by blast
  show ?case
  proof (cases sel)
    case SAll
    with 10 c ok show ?thesis by (auto simp: or_ok_def sel_ok_def)
  next
    case (SIds ids)
    with 10 c obtain o2 where o2: "eval_or blocks expand cs = Inr o2" by (auto split: sum.splits)
    with 10 c SIds have ok2: "or_ok blocks expand cs o2" by blast
    have "out' = (case o2 of None \<Rightarrow> None | Some ls \<Rightarrow> Some (ids # ls))"
      using 10 c SIds o2 by (auto split: option.splits)
    with ok ok2 SIds show ?thesis by (auto simp: or_ok_def sel_ok_def split: option.splits)
  qed
qed (auto simp: sel_ok_def and_ok_def or_ok_def)


lemma eval_total:
  shows "gram_offsets r \<subseteq> dom blocks \<Longrightarrow> \<exists>sel. eval blocks expand r = Inr sel"
    and "(\<Union>c\<in>set cs. gram_offsets c) \<subseteq> dom blocks \<Longrightarrow> \<exists>out. eval_and blocks expand cs = Inr out"
    and "(\<Union>c\<in>set ds. gram_offsets c) \<subseteq> dom blocks \<Longrightarrow> \<exists>out. eval_or blocks expand ds = Inr out"
proof (induction blocks expand r and blocks expand cs and blocks expand ds rule: eval_eval_and_eval_or.induct)
  case (5 blocks expand children)
  then obtain out where "eval_and blocks expand children = Inr out" by auto
  then show ?case by (cases out) auto
next
  case (6 blocks expand children)
  then obtain out where "eval_or blocks expand children = Inr out" by auto
  then show ?case by (cases out) auto
next
  case (8 blocks expand c cs)
  then obtain sel where c: "eval blocks expand c = Inr sel" by auto
  have "\<exists>out. eval_and blocks expand cs = Inr out"
    if "sel = SAll \<or> (\<exists>ids. sel = SIds ids \<and> ids \<noteq> [])" using 8 c that by auto
  with c show ?case by (cases sel) (auto split: option.splits)
next
  case (10 blocks expand c cs)
  then obtain sel where c: "eval blocks expand c = Inr sel" by auto
  have "\<exists>out. eval_or blocks expand cs = Inr out" if "sel = SIds ids" for ids using 10 c that by auto
  with c show ?case by (cases sel) (auto split: option.splits)
qed (auto simp: dom_def)

lemma dom_blocks_needed: "dom (blocks_needed r out) = dom out \<union> gram_offsets r"
proof (induction r arbitrary: out)
  have "dom (fold blocks_needed cs out) = dom out \<union> (\<Union>c\<in>set cs. gram_offsets c)"
    if "\<And>c out. c \<in> set cs \<Longrightarrow> dom (blocks_needed c out) = dom out \<union> gram_offsets c" for cs out
    using that by (induction cs arbitrary: out) auto
  then show "dom (blocks_needed (RAnd cs) out) = dom out \<union> gram_offsets (RAnd cs)"
    and "dom (blocks_needed (ROr cs) out) = dom out \<union> gram_offsets (ROr cs)"
    if "\<And>c out. c \<in> set cs \<Longrightarrow> dom (blocks_needed c out) = dom out \<union> gram_offsets c" for cs out
    using that by simp_all
qed auto

lemma set_sort_key_take: "set (take n (sort_key f xs)) \<subseteq> set xs"
  by (metis set_sort set_take_subset)

lemma prune_and_shape:
  "\<exists>cs. set cs \<subseteq> set children \<and>
     (prune_and children s = RAnd cs \<or> cs = [prune_and children s] \<or> prune_and children s = RAll)"
proof -
  have one: "\<exists>cs'. set cs' \<subseteq> set children \<and> (q = RAnd cs' \<or> cs' = [q] \<or> q = RAll)"
    if "set cs \<subseteq> set children"
      "q = (case cs of [d] \<Rightarrow> d | _ \<Rightarrow> RAnd cs) \<or> q = (case cs of [] \<Rightarrow> RAll | [d] \<Rightarrow> d | _ \<Rightarrow> RAnd cs)" for cs q
    using that by (intro exI [of _ cs]) (auto split: list.splits)
  have sub: "set ((if length gs > n then take n (sort_key gram_count gs) else gs) @ others) \<subseteq> set children"
    if "set gs \<subseteq> set children" "set others \<subseteq> set children" for gs others n
    using that set_sort_key_take [of n gram_count gs] by auto
  show ?thesis
  proof (cases "list_ex is_doc children")
    case True
    then show ?thesis
      by (intro one [of "filter (\<lambda>c. \<not> is_gram c) children"]) (auto simp: prune_and_def Let_def)
  next
    case False
    then show ?thesis
      by (intro one [OF sub [of "filter is_gram children" "filter (\<lambda>c. \<not> is_gram c) children" "and_limit s"]])
        (simp_all add: prune_and_def Let_def)
  qed
qed

fun query_atoms :: "query \<Rightarrow> bytes set" where
  "query_atoms (QGram g) = {g}"
| "query_atoms (QAnd qs) = (\<Union>q\<in>set qs. query_atoms q)"
| "query_atoms (QOr qs) = (\<Union>q\<in>set qs. query_atoms q)"
| "query_atoms QAll = {}"

lemma collect_grams_loop_set:
  "set (collect_grams_loop stack grams) = set grams \<union> (\<Union>q\<in>set stack. query_atoms q)"
  by (induction stack grams rule: collect_grams_loop.induct) auto

lemma collect_query_grams_spec:
  "ascending (collect_query_grams qs)" "set (collect_query_grams qs) = (\<Union>q\<in>set qs. query_atoms q)"
  by (auto simp: collect_query_grams_def ascending_remdups_adj collect_grams_loop_set)

lemma resolve_total_if:
  "(\<And>g. \<exists>r. resolve_gram n lookup g = Inr r) \<Longrightarrow> \<exists>r. resolve n s lookup q = Inr r"
  "(\<And>g. \<exists>r. resolve_gram n lookup g = Inr r) \<Longrightarrow> \<exists>out. resolve_and n s lookup qs = Inr out"
  "(\<And>g. \<exists>r. resolve_gram n lookup g = Inr r) \<Longrightarrow> \<exists>out. resolve_or n s lookup qs' = Inr out"
proof (induction n s lookup q and n s lookup qs and n s lookup qs' rule: resolve_resolve_and_resolve_or.induct)
  case (3 n s lookup subs)
  then obtain out where "resolve_and n s lookup subs = Inr out" by blast
  then show ?case by (cases out) auto
next
  case (4 n s lookup subs)
  then obtain out where "resolve_or n s lookup subs = Inr out" by blast
  then show ?case by (cases out) auto
next
  case (6 n s lookup sub subs)
  then obtain r where r: "resolve n s lookup sub = Inr r" by blast
  show ?case
  proof (cases "r = RNone")
    case False
    with 6 r obtain out where "resolve_and n s lookup subs = Inr out" by (cases r) blast+
    with r show ?thesis by (cases r; cases out) auto
  qed (use r in simp)
next
  case (8 n s lookup sub subs)
  then obtain r where r: "resolve n s lookup sub = Inr r" by blast
  show ?case
  proof (cases "r = RAll")
    case False
    with 8 r obtain out where "resolve_or n s lookup subs = Inr out" by (cases r) blast+
    with r show ?thesis by (cases r; cases out) auto
  qed (use r in simp)
qed auto

lemma resolve_and_Cons:
  assumes "resolve_and n s lookup (sub # subs) = Inr out"
  obtains "resolve n s lookup sub = Inr RNone" "out = None"
  | "resolve n s lookup sub = Inr RAll" "resolve_and n s lookup subs = Inr out"
  | r out' where "resolve n s lookup sub = Inr r" "r \<noteq> RNone" "r \<noteq> RAll" "resolve_and n s lookup subs = Inr out'"
      "out = map_option ((#) r) out'"
  using assms by (auto split: sum.splits resolved.splits option.splits)

lemma resolve_or_Cons:
  assumes "resolve_or n s lookup (sub # subs) = Inr out"
  obtains "resolve n s lookup sub = Inr RAll" "out = None"
  | "resolve n s lookup sub = Inr RNone" "resolve_or n s lookup subs = Inr out"
  | r out' where "resolve n s lookup sub = Inr r" "r \<noteq> RNone" "r \<noteq> RAll" "resolve_or n s lookup subs = Inr out'"
      "out = map_option ((#) r) out'"
  using assms by (auto split: sum.splits resolved.splits option.splits)

text \<open>Resolution keeps every id whose grams satisfy the query, whatever is simplified or pruned.\<close>

lemma resolve_complete:
  fixes H :: "bytes \<Rightarrow> doc_id set" and Q :: "u64 \<Rightarrow> bool"
  defines "sat \<equiv> \<lambda>blocks expand b r. (\<forall>x\<in>gram_offsets r. Q x) \<longrightarrow> resolved_has blocks expand b r"
  shows "\<forall>g r. resolve_gram n lookup g = Inr r \<longrightarrow> b \<in> H g \<longrightarrow> sat blocks expand b r \<Longrightarrow>
      resolve n s lookup q = Inr r \<Longrightarrow> query_holds {g. b \<in> H g} q \<Longrightarrow> sat blocks expand b r"
    and "\<forall>g r. resolve_gram n lookup g = Inr r \<longrightarrow> b \<in> H g \<longrightarrow> sat blocks expand b r \<Longrightarrow>
      resolve_and n s lookup qs = Inr out \<Longrightarrow> \<forall>q\<in>set qs. query_holds {g. b \<in> H g} q \<Longrightarrow>
      \<exists>cs. out = Some cs \<and> (\<forall>c\<in>set cs. sat blocks expand b c)"
    and "\<forall>g r. resolve_gram n lookup g = Inr r \<longrightarrow> b \<in> H g \<longrightarrow> sat blocks expand b r \<Longrightarrow>
      resolve_or n s lookup qs' = Inr out' \<Longrightarrow> \<exists>q\<in>set qs'. query_holds {g. b \<in> H g} q \<Longrightarrow>
      out' = None \<or> (\<exists>cs. out' = Some cs \<and> (\<exists>c\<in>set cs. sat blocks expand b c))"
proof (induction n s lookup q and n s lookup qs and n s lookup qs' arbitrary: r and out and out'
    rule: resolve_resolve_and_resolve_or.induct)
  case (1 n s lookup)
  then show ?case by (auto simp: sat_def)
next
  case (2 n s lookup g)
  then show ?case by simp
next
  case (3 n s lookup subs)
  then obtain out where o: "resolve_and n s lookup subs = Inr out" by (auto split: sum.splits)
  from "3.prems"(3) have "\<forall>q\<in>set subs. query_holds {g. b \<in> H g} q" by simp
  from "3.IH" [OF "3.prems"(1) o this]
  obtain cs where cs: "out = Some cs" "\<forall>c\<in>set cs. sat blocks expand b c" by blast
  with 3 o have r: "r = prune_and cs s" by simp
  obtain ks where "set ks \<subseteq> set cs" "prune_and cs s = RAnd ks \<or> ks = [prune_and cs s] \<or> prune_and cs s = RAll"
    using prune_and_shape by blast
  with cs(2) r show ?case by (auto simp: sat_def subset_iff)
next
  case (4 n s lookup subs)
  then obtain out where o: "resolve_or n s lookup subs = Inr out" by (auto split: sum.splits)
  from "4.prems"(3) have "\<exists>q\<in>set subs. query_holds {g. b \<in> H g} q" by simp
  from "4.IH" [OF "4.prems"(1) o this]
  have d: "out = None \<or> (\<exists>cs. out = Some cs \<and> (\<exists>c\<in>set cs. sat blocks expand b c))" .
  show ?case
  proof (cases out)
    case None
    with 4 o show ?thesis by (auto simp: sat_def)
  next
    case (Some cs)
    with d obtain c where c: "c \<in> set cs" "sat blocks expand b c" by auto
    from Some 4 o have "r = (case cs of [c] \<Rightarrow> c | [] \<Rightarrow> RNone | _ \<Rightarrow> ROr cs)" by simp
    with c show ?thesis by (auto simp: sat_def split: list.splits)
  qed
next
  case (6 n s lookup sub subs)
  from "6.prems"(2) show ?case
  proof (cases rule: resolve_and_Cons)
    case 1
    with 6 have "sat blocks expand b RNone" by simp
    then show ?thesis by (simp add: sat_def)
  next
    case 2
    with 6 show ?thesis by auto
  next
    case (3 r out')
    with 6 have "sat blocks expand b r" by simp
    moreover have "\<exists>cs. out' = Some cs \<and> (\<forall>c\<in>set cs. sat blocks expand b c)" using 6 3 by (cases r) auto
    ultimately show ?thesis using 3 by auto
  qed
next
  case (8 n s lookup sub subs)
  from "8.prems"(2) show ?case
  proof (cases rule: resolve_or_Cons)
    case 1
    then show ?thesis by simp
  next
    case 2
    have "\<not> query_holds {g. b \<in> H g} sub" using 8 2 by (force simp: sat_def)
    with 8 2 show ?thesis by auto
  next
    case (3 r out')
    show ?thesis
    proof (cases "query_holds {g. b \<in> H g} sub")
      case True
      with 8 3 have "sat blocks expand b r" by simp
      with 3 show ?thesis by (cases out') auto
    next
      case False
      with 8 have "\<exists>q\<in>set subs. query_holds {g. b \<in> H g} q" by simp
      with 8 3 have "out' = None \<or> (\<exists>cs. out' = Some cs \<and> (\<exists>c\<in>set cs. sat blocks expand b c))" by (cases r) auto
      with 3 show ?thesis by auto
    qed
  qed
qed auto

section \<open>The interface of a term dictionary\<close>

text \<open>
  \<open>postings g\<close> is the list of ids the index holds for the gram \<open>g\<close>. A dictionary never fails on a
  lookup, answers \<open>None\<close> for grams without ids only, packs the number of ids, and
  inlines the id of a singleton. \<open>fetched\<close> says that the block map holds the decoded list of
  every gram with more than one id whose offset was asked for.
\<close>

locale posting_index =
  fixes lookup :: lookup
    and id_space :: u32
    and postings :: "bytes \<Rightarrow> doc_id list"
  assumes lookup_total: "\<exists>v. lookup g = Inr v"
    and lookup_none: "lookup g = Inr None \<Longrightarrow> postings g = []"
    and lookup_some: "lookup g = Inr (Some v) \<Longrightarrow> unpack_posting (packed v) = (offset, count) \<Longrightarrow>
        postings g \<noteq> [] \<and> ascending (postings g) \<and> (\<forall>i\<in>set (postings g). i < id_space) \<and>
        length (postings g) = unat count \<and>
        (count = 1 \<longrightarrow> unat offset < 2 ^ 32 \<and> postings g = [ucast offset])"
begin

definition fetched :: "u64 set \<Rightarrow> (u64 \<rightharpoonup> doc_id list) \<Rightarrow> bool" where
  "fetched needed blocks \<longleftrightarrow>
     (\<forall>offset\<in>needed. \<forall>g v count. lookup g = Inr (Some v) \<longrightarrow> unpack_posting (packed v) = (offset, count) \<longrightarrow>
        count \<noteq> 1 \<longrightarrow> count < id_space \<longrightarrow> blocks offset = Some (postings g))"

lemma resolve_gram_total: "\<exists>r. resolve_gram id_space lookup g = Inr r"
proof -
  obtain v where v: "lookup g = Inr v" using lookup_total by blast
  show ?thesis
  proof (cases v)
    case None
    with v show ?thesis by (simp add: resolve_gram_def)
  next
    case (Some tv)
    obtain offset count where u: "unpack_posting (packed tv) = (offset, count)" by fastforce
    from lookup_some [OF v [unfolded Some] u] have "count = 1 \<longrightarrow> unat offset < 2 ^ 32 \<and> (ucast offset :: u32) < id_space"
      by auto
    with v Some u show ?thesis by (auto simp: resolve_gram_def)
  qed
qed

lemma resolve_total: "\<exists>r. resolve id_space s lookup q = Inr r"
  using resolve_total_if(1) [OF resolve_gram_total] by blast

lemma resolve_gram_keeps:
  assumes "resolve_gram id_space lookup g = Inr r" "b \<in> hits expand (postings g)"
    and "fetched (gram_offsets r) blocks"
  shows "resolved_has blocks expand b r"
proof -
  from assms(2) have ne: "postings g \<noteq> []" by (auto simp: hits_def split: option.splits)
  then obtain v where v: "lookup g = Inr (Some v)"
    using lookup_total [of g] lookup_none [of g] by (metis option.exhaust)
  obtain offset count where u: "unpack_posting (packed v) = (offset, count)" by fastforce
  note p = lookup_some [OF v u]
  show ?thesis
  proof (cases "count = 1")
    case True
    with p have "unat offset < 2 ^ 32 \<and> (ucast offset :: u32) < id_space" "postings g = [ucast offset]" by auto
    with True v u assms show ?thesis by (auto simp: resolve_gram_def)
  next
    case False
    with v u assms show ?thesis by (auto simp: resolve_gram_def fetched_def split: if_splits)
  qed
qed

lemma resolve_keeps:
  assumes "resolve id_space s lookup q = Inr r" "query_holds {g. b \<in> hits expand (postings g)} q"
    and "fetched (gram_offsets r) blocks"
  shows "resolved_has blocks expand b r"
proof -
  define Q where "Q offset \<longleftrightarrow> fetched {offset} blocks" for offset
  have F: "fetched A blocks \<longleftrightarrow> (\<forall>x\<in>A. Q x)" for A by (auto simp: fetched_def Q_def)
  have "(\<forall>x\<in>gram_offsets r. Q x) \<longrightarrow> resolved_has blocks expand b r"
    using assms(1,2)
    by (rule resolve_complete(1) [rotated 1, where H = "\<lambda>g. hits expand (postings g)"])
      (use resolve_gram_keeps F in blast)
  with assms(3) F show ?thesis by blast
qed

text \<open>
  The evaluator's contract: with every needed block fetched and decoded, evaluation succeeds, its
  result is sorted, and it holds every id that satisfies the query (no false
  negatives, whatever was pruned).
\<close>

lemma eval_superset:
  assumes "resolve id_space s lookup q = Inr r" "fetched (gram_offsets r) blocks" "gram_offsets r \<subseteq> dom blocks"
    and "blocks_sorted blocks"
  shows "\<exists>sel. eval blocks expand r = Inr sel \<and> (\<forall>ids. sel = SIds ids \<longrightarrow> ascending ids) \<and>
     (\<forall>b. query_holds {g. b \<in> hits expand (postings g)} q \<longrightarrow> sel_has sel b)"
proof -
  obtain sel where sel: "eval blocks expand r = Inr sel" using eval_total(1) [OF assms(3)] by blast
  from eval_exact(1) [OF assms(4) sel] have "sel_ok blocks expand r sel" .
  with sel resolve_keeps [OF assms(1) _ assms(2)] show ?thesis by (auto simp: sel_ok_def)
qed

end

lemma resolve_cong:
  shows "\<forall>g\<in>query_atoms q. lookup g = lookup' g \<Longrightarrow> resolve n s lookup q = resolve n s lookup' q"
    and "\<forall>q\<in>set qs. \<forall>g\<in>query_atoms q. lookup g = lookup' g \<Longrightarrow> resolve_and n s lookup qs = resolve_and n s lookup' qs"
    and "\<forall>q\<in>set qs'. \<forall>g\<in>query_atoms q. lookup g = lookup' g \<Longrightarrow> resolve_or n s lookup qs' = resolve_or n s lookup' qs'"
proof (induction n s lookup q and n s lookup qs and n s lookup qs' rule: resolve_resolve_and_resolve_or.induct)
  case (6 n s lookup sub subs)
  then have "resolve n s lookup sub = resolve n s lookup' sub" by simp
  moreover have "resolve_and n s lookup subs = resolve_and n s lookup' subs"
    if "resolve n s lookup sub = Inr r" "r \<noteq> RNone" for r
    using 6 that by (cases r) auto
  ultimately show ?case by (auto split: sum.splits resolved.splits)
next
  case (8 n s lookup sub subs)
  then have "resolve n s lookup sub = resolve n s lookup' sub" by simp
  moreover have "resolve_or n s lookup subs = resolve_or n s lookup' subs"
    if "resolve n s lookup sub = Inr r" "r \<noteq> RAll" for r
    using 8 that by (cases r) auto
  ultimately show ?case by (auto split: sum.splits resolved.splits)
qed (auto simp: resolve_gram_def)

lemma bind_queries_cong:
  "\<forall>q\<in>set qs. \<forall>g\<in>query_atoms q. lookup g = lookup' g \<Longrightarrow> bind_queries qs n s lookup = bind_queries qs n s lookup'"
proof (induction qs)
  case (Cons q qs)
  then have "resolve n s lookup q = resolve n s lookup' q" "bind_queries qs n s lookup = bind_queries qs n s lookup'"
    using resolve_cong(1) [of q lookup lookup' n s] by simp_all
  then show ?case by (simp cong: sum.case_cong)
qed simp

section \<open>Properties\<close>

text \<open>
  C17: The dictionary value. \<open>pack_posting\<close> succeeds exactly for offsets below 1 TiB and counts below
  \<open>2 ^ 24\<close>, and \<open>unpack_posting\<close> then returns the offset and the count, so the two bit fields never overlap.
\<close>

theorem posting_value_roundtrip:
  "((\<exists>v. pack_posting offset count = Inr v) = (unat offset < 2 ^ 40 \<and> count \<le> MAX_POSTING_COUNT)) \<and>
   (\<forall>v. pack_posting offset count = Inr v \<longrightarrow> unpack_posting v = (offset, of_nat count))"
proof -
  have "offset < push_bit OFFSET_BITS 1 \<longleftrightarrow> unat offset < 2 ^ 40"
    by (simp add: word_less_nat_alt OFFSET_BITS_def)
  then have "(\<exists>v. pack_posting offset count = Inr v) = (unat offset < 2 ^ 40 \<and> count \<le> MAX_POSTING_COUNT)"
    by (auto simp: pack_posting_def MAX_POSTING_COUNT_def COUNT_BITS_def)
  then show ?thesis using pack_posting_unpack(1) by blast
qed

theorem posting_value_roundtrip_witness:
  "pack_posting 5 3 = Inr (5 OR push_bit 40 3) \<and> unpack_posting (5 OR push_bit 40 3) = (5, 3)"
proof -
  have p: "pack_posting 5 3 = Inr (5 OR push_bit 40 3)" by (simp add: pack_posting_def OFFSET_BITS_def COUNT_BITS_def)
  with posting_value_roundtrip [of 5 3] show ?thesis by simp
qed

text \<open>
  C16: Prefetching is enough. Binding a batch of queries consults the dictionary at the grams that
  \<open>collect_query_grams\<close> lists and nowhere else: two dictionaries that agree there give the
  same resolved queries, or the same error. The list is strictly ascending, so every gram is
  fetched once.
\<close>

theorem bind_consults_collected_grams:
  "ascending (collect_query_grams queries) \<and>
   (list_all (\<lambda>g. lookup g = lookup' g) (collect_query_grams queries) \<longrightarrow>
    bind_queries queries n s lookup = bind_queries queries n s lookup')"
  using bind_queries_cong [of queries lookup lookup']
  by (auto simp: list_all_iff collect_query_grams_spec)

theorem bind_consults_collected_grams_witness:
  "bind_queries [QAnd [QGram [97], QGram [98]]] 9 Trigram (\<lambda>g. Inr None) =
   bind_queries [QAnd [QGram [97], QGram [98]]] 9 Trigram (\<lambda>g. if g = [99] then Inl Panic else Inr None)"
  by (rule bind_consults_collected_grams [THEN conjunct2, rule_format]) (simp add: collect_query_grams_def list_all_iff)

text \<open>
  C15: The evaluator. Once every block \<open>blocks_needed\<close> lists has been fetched and decoded to a sorted
  list, \<open>eval\<close> succeeds; its result is strictly ascending and holds an id exactly when the boolean
  combination of the (expanded) posting lists does. No early exit, sorting by length
  or merge order changes the answer.
\<close>

theorem eval_is_set_algebra:
  assumes "dom (blocks_needed r Map.empty) \<subseteq> dom blocks" and "blocks_sorted blocks"
  shows "\<exists>sel. eval blocks expand r = Inr sel \<and> (\<forall>b. sel_has sel b = resolved_has blocks expand b r) \<and>
     (sel = SAll \<or> (\<exists>ids. sel = SIds ids \<and> ascending ids))"
proof -
  from assms(1) have "gram_offsets r \<subseteq> dom blocks" by (simp add: dom_blocks_needed)
  from eval_total(1) [OF this] obtain sel where sel: "eval blocks expand r = Inr sel" by blast
  with eval_exact(1) [OF assms(2) sel] show ?thesis by (cases sel) (auto simp: sel_ok_def)
qed

theorem eval_is_set_algebra_witness:
  "\<exists>sel. eval [0 \<mapsto> [1, 4], 9 \<mapsto> [4, 7]] None (RAnd [RGram 0 2 1, RGram 9 2 1]) = Inr sel \<and>
     sel_has sel 4 \<and> \<not> sel_has sel 1"
proof -
  have "dom (blocks_needed (RAnd [RGram 0 2 1, RGram 9 2 1]) Map.empty) \<subseteq>
      dom ([0 \<mapsto> [1, 4], 9 \<mapsto> [4, 7]] :: u64 \<rightharpoonup> doc_id list)"
    and "blocks_sorted [0 \<mapsto> [1, 4], 9 \<mapsto> [4, 7]]"
    by (auto simp: blocks_sorted_def split: if_splits)
  from eval_is_set_algebra [OF this, of None] show ?thesis by (auto simp: hits_def)
qed

end
