(* ===== verification/Packs.thy ===== *)
theory Packs
  imports Prelude
begin

text \<open>
  The pack builder, \<open>crates/index/src/pack.rs\<close>: decoded documents are appended to one stream, the
  stream is cut into blocks of \<open>block_bytes\<close>, every block is compressed, hashed and
  appended to the active pack file, and a new pack file is started when the target size would be
  exceeded. A temporary file is the list of bytes written to it; a SHA-256 state is the
  list of bytes fed to it. The compressor and the hash are fields of \<open>pack_crates\<close>. The
  \<open>u32\<close> and \<open>u64\<close> fields are natural numbers, with every conversion and addition the code checks
  written out.
\<close>

section \<open>Definitions\<close>

record pack_crates =
  compress :: "bytes \<Rightarrow> bytes result"
  decompress :: "bytes \<Rightarrow> nat \<Rightarrow> bytes result"
  sha256 :: "bytes \<Rightarrow> bytes"

text \<open>What the code relies on: a compressed frame is not empty and decompresses to what it was made from.\<close>

definition zstd_laws :: "pack_crates \<Rightarrow> bool" where
  "zstd_laws X \<longleftrightarrow>
     (\<forall>data c. compress X data = Inr c \<longrightarrow> c \<noteq> [] \<and> decompress X c (length data) = Inr data)"

definition PACK_BLOCK_BYTES :: nat where "PACK_BLOCK_BYTES = 128 * 1024"
definition PACK_TARGET_BYTES :: nat where "PACK_TARGET_BYTES = 256 * 1024 * 1024"
definition RANGE_BYTES :: nat where "RANGE_BYTES = 8 * 1024 * 1024"

record pack_slice =
  first_block :: nat
  block_offset :: nat

record pack_block =
  pack :: nat
  offset :: nat
  compressed_len :: nat
  decoded_len :: nat
  block_hash :: bytes

record pack_meta =
  meta_hash :: string
  meta_len :: nat

record pack_file =
  content :: bytes
  file_len :: nat
  file_hash :: string

record active_pack =
  active_content :: bytes
  active_len :: nat
  hasher :: bytes

record pack_builder =
  block_bytes :: nat
  pack_bytes :: nat
  open_block :: bytes
  blocks :: "pack_block list"
  packs :: "pack_file list"
  active :: "active_pack option"

record built_packs =
  built_files :: "pack_file list"
  built_blocks :: "pack_block list"

definition pack_file_meta :: "pack_file \<Rightarrow> pack_meta" where
  "pack_file_meta f = \<lparr>meta_hash = file_hash f, meta_len = file_len f\<rparr>"

definition hex_digit :: "nat \<Rightarrow> char" where
  "hex_digit n = ''0123456789abcdef'' ! n"

definition hex :: "bytes \<Rightarrow> string" where
  "hex bs = concat (map (\<lambda>b. [hex_digit (unat b div 16), hex_digit (unat b mod 16)]) bs)"

definition new_builder :: "nat \<Rightarrow> nat \<Rightarrow> pack_builder result" where
  "new_builder bb pb =
     ensure (bb > 0) ''pack block size must be positive''
     (ensure (pb > 0) ''pack target size must be positive''
     (Inr \<lparr>block_bytes = bb, pack_bytes = pb, open_block = [], blocks = [], packs = [], active = None\<rparr>))"

definition production :: "pack_builder result" where
  "production = new_builder PACK_BLOCK_BYTES PACK_TARGET_BYTES"

definition finish_pack :: "pack_crates \<Rightarrow> pack_builder \<Rightarrow> pack_builder" where
  "finish_pack X b =
     (case active b of
        None \<Rightarrow> b
      | Some a \<Rightarrow> b\<lparr>active := None,
          packs := packs b @ [\<lparr>content = active_content a, file_len = active_len a,
            file_hash = hex (sha256 X (hasher a))\<rparr>]\<rparr>)"

definition must_rotate :: "pack_builder \<Rightarrow> nat \<Rightarrow> bool" where
  "must_rotate b clen =
     (case active b of
        None \<Rightarrow> False
      | Some a \<Rightarrow> active_len a > 0 \<and> sat_add_u64 (active_len a) clen > pack_bytes b)"

definition active_or_new :: "pack_builder \<Rightarrow> active_pack" where
  "active_or_new b =
     (case active b of Some a \<Rightarrow> a | None \<Rightarrow> \<lparr>active_content = [], active_len = 0, hasher = []\<rparr>)"

definition flush_block :: "pack_crates \<Rightarrow> pack_builder \<Rightarrow> pack_builder result" where
  "flush_block X b =
     (if open_block b = [] then Inr b
      else and_then (compress X (open_block b)) (\<lambda>compressed.
        and_then (try_u32 (length compressed)) (\<lambda>clen.
        let b = (if must_rotate b clen then finish_pack X b else b);
            a = active_or_new b
        in and_then (context_of (add_u64 (active_len a) clen) ''pack length overflows'') (\<lambda>len'.
           and_then (try_u32 (length (packs b))) (\<lambda>pack_id.
           and_then (try_u32 (length (open_block b))) (\<lambda>dlen.
             Inr (b\<lparr>active := Some \<lparr>active_content = active_content a @ compressed,
                        active_len = len', hasher = hasher a @ compressed\<rparr>,
                    blocks := blocks b @ [\<lparr>pack = pack_id, offset = active_len a, compressed_len = clen,
                        decoded_len = dlen, block_hash = sha256 X compressed\<rparr>],
                    open_block := []\<rparr>)))))))"

lemma flush_block_frame:
  assumes "flush_block X b = Inr b'"
  shows "block_bytes b' = block_bytes b" "pack_bytes b' = pack_bytes b" "open_block b' = []"
  using assms by (auto simp: flush_block_def Let_def finish_pack_def split: if_splits option.splits)

text \<open>
  The copying loop of \<open>append\<close>; \<open>reader\<close> is what the reader still has to give. \<open>block_bytes\<close> is
  positive for every builder that \<open>new\<close> returns; the subtraction panics when the open block is
  larger than that.
\<close>

function append_loop :: "pack_crates \<Rightarrow> pack_builder \<Rightarrow> bytes \<Rightarrow> nat \<Rightarrow> pack_builder result" where
  "append_loop X b reader remaining =
     (if remaining = 0 then Inr b
      else if block_bytes b = 0 \<or> length (open_block b) > block_bytes b then Inl Panic
      else let available = block_bytes b - length (open_block b);
               read = min remaining available
           in ensure (read \<le> length reader) ''decoded document ended before its declared length''
              (let b' = b\<lparr>open_block := open_block b @ take read reader\<rparr>
               in and_then (if length (open_block b') = block_bytes b' then flush_block X b' else Inr b')
                    (\<lambda>b''. append_loop X b'' (drop read reader) (remaining - read))))"
  by pat_completeness auto
termination
  by (relation "measures [\<lambda>(X, b, reader, remaining). remaining, \<lambda>(X, b, reader, remaining). length (open_block b)]")
    (auto simp: flush_block_frame split: if_splits)

declare append_loop.simps [simp del]

definition append_doc :: "pack_crates \<Rightarrow> pack_builder \<Rightarrow> bytes \<Rightarrow> nat \<Rightarrow> (pack_slice \<times> pack_builder) result" where
  "append_doc X b reader len =
     (if len = 0 then Inr (\<lparr>first_block = 0, block_offset = 0\<rparr>, b)
      else and_then (try_u32 (length (blocks b))) (\<lambda>fb.
           and_then (try_u32 (length (open_block b))) (\<lambda>off.
           and_then (append_loop X b reader len) (\<lambda>b'.
             Inr (\<lparr>first_block = fb, block_offset = off\<rparr>, b')))))"

definition finish_builder :: "pack_crates \<Rightarrow> pack_builder \<Rightarrow> built_packs result" where
  "finish_builder X b =
     and_then (flush_block X b) (\<lambda>b.
       let b = finish_pack X b
       in Inr \<lparr>built_files = packs b, built_blocks = blocks b\<rparr>)"

definition pack_blob :: "string \<Rightarrow> string" where
  "pack_blob h = ''packs/'' @ h @ ''.pack''"


section \<open>The builder's invariant\<close>

text \<open>
  The files written so far, the active one last; the decoded bytes a block record stands for; the
  placement of consecutive blocks. \<open>builder_inv X b ds\<close>: the flushed blocks are stored in the
  files, decode to \<open>ds\<close> in order, and are laid out without gaps.
\<close>

definition pack_contents :: "pack_builder \<Rightarrow> bytes list" where
  "pack_contents b =
     map content (packs b) @ (case active b of None \<Rightarrow> [] | Some a \<Rightarrow> [active_content a])"

definition stored :: "pack_crates \<Rightarrow> bytes list \<Rightarrow> pack_block \<Rightarrow> bytes \<Rightarrow> bool" where
  "stored X files bl d \<longleftrightarrow>
     d \<noteq> [] \<and> decoded_len bl = length d \<and> pack bl < length files \<and>
     offset bl + compressed_len bl \<le> length (files ! pack bl) \<and> compressed_len bl < 2 ^ 32 \<and>
     offset bl + compressed_len bl < 2 ^ 64 \<and> pack bl < 2 ^ 32 \<and>
     (let c = sub_slice (files ! pack bl) (offset bl) (offset bl + compressed_len bl)
      in compress X d = Inr c \<and> block_hash bl = sha256 X c)"

definition chained :: "pack_block \<Rightarrow> pack_block \<Rightarrow> bool" where
  "chained x y \<longleftrightarrow>
     pack y = pack x \<and> offset y = offset x + compressed_len x \<or> pack y = pack x + 1 \<and> offset y = 0"

definition laid_out :: "pack_block list \<Rightarrow> bool" where
  "laid_out bs \<longleftrightarrow> successively chained bs \<and> (bs \<noteq> [] \<longrightarrow> pack (hd bs) = 0 \<and> offset (hd bs) = 0)"

definition pack_file_ok :: "pack_crates \<Rightarrow> pack_file \<Rightarrow> bool" where
  "pack_file_ok X f \<longleftrightarrow> file_len f = length (content f) \<and> file_hash f = hex (sha256 X (content f))"

definition active_ok :: "pack_builder \<Rightarrow> bool" where
  "active_ok b \<longleftrightarrow>
     (case active b of
        None \<Rightarrow> blocks b = [] \<and> packs b = []
      | Some a \<Rightarrow> active_len a = length (active_content a) \<and> hasher a = active_content a \<and>
          blocks b \<noteq> [] \<and> pack (last (blocks b)) = length (packs b) \<and>
          offset (last (blocks b)) + compressed_len (last (blocks b)) = active_len a)"

definition builder_inv :: "pack_crates \<Rightarrow> pack_builder \<Rightarrow> bytes list \<Rightarrow> bool" where
  "builder_inv X b ds \<longleftrightarrow>
     list_all2 (stored X (pack_contents b)) (blocks b) ds \<and> laid_out (blocks b) \<and> active_ok b \<and>
     list_all (pack_file_ok X) (packs b)"

definition full_blocks :: "pack_builder \<Rightarrow> bytes list \<Rightarrow> bool" where
  "full_blocks b ds \<longleftrightarrow>
     0 < block_bytes b \<and> length (open_block b) < block_bytes b \<and> (\<forall>d\<in>set ds. length d = block_bytes b)"

section \<open>Lemmas\<close>

lemma new_builder_inv:
  "new_builder bb pb = Inr b \<Longrightarrow> builder_inv X b [] \<and> full_blocks b [] \<and> open_block b = [] \<and> block_bytes b = bb"
  by (auto simp: new_builder_def builder_inv_def full_blocks_def laid_out_def active_ok_def)

lemma sub_slice_prefix:
  "j \<le> length xs \<Longrightarrow> sub_slice (xs @ ys) i j = sub_slice xs i j"
  by (cases "i \<le> j") (auto simp: sub_slice_def)

lemma stored_extend:
  assumes "stored X files bl d" "length files \<le> length files'"
    and "\<And>i. i < length files \<Longrightarrow> \<exists>ds'. files' ! i = files ! i @ ds'"
  shows "stored X files' bl d"
proof -
  from assms(1) have lt: "pack bl < length files" and le: "offset bl + compressed_len bl \<le> length (files ! pack bl)"
    by (auto simp: stored_def)
  from assms(3) [OF lt] obtain ds' where "files' ! pack bl = files ! pack bl @ ds'" by blast
  with assms(1,2) lt le show ?thesis by (auto simp: stored_def Let_def sub_slice_prefix)
qed

lemma laid_out_snoc:
  "laid_out (bs @ [x]) \<longleftrightarrow> laid_out bs \<and> (if bs = [] then pack x = 0 \<and> offset x = 0 else chained (last bs) x)"
  by (auto simp: laid_out_def successively_append_iff hd_append)

text \<open>One flush: the open block becomes the next stored block, whether or not a new pack is started.\<close>

lemma finish_pack_contents [simp]: "pack_contents (finish_pack X b) = pack_contents b"
  by (simp add: pack_contents_def finish_pack_def split: option.split)

lemma flush_block_inv:
  assumes inv: "builder_inv X b ds" and ne: "open_block b \<noteq> []" and fl: "flush_block X b = Inr b'"
  shows "builder_inv X b' (ds @ [open_block b])"
proof -
  obtain c where c: "compress X (open_block b) = Inr c" "length c < 2 ^ 32"
    using fl ne by (auto simp: flush_block_def)
  define b1 where "b1 = (if must_rotate b (length c) then finish_pack X b else b)"
  define a where "a = active_or_new b1"
  define bl where "bl = \<lparr>pack = length (packs b1), offset = active_len a, compressed_len = length c,
    decoded_len = length (open_block b), block_hash = sha256 X c\<rparr>"
  have same: "open_block b1 = open_block b" "blocks b1 = blocks b" "pack_contents b1 = pack_contents b"
    by (simp_all add: b1_def) (simp_all add: finish_pack_def split: option.split)
  have lim: "active_len a + length c < 2 ^ 64" "length (packs b1) < 2 ^ 32"
    using fl ne c same by (auto simp: flush_block_def Let_def b1_def a_def)
  have b': "b' = b1\<lparr>active := Some \<lparr>active_content = active_content a @ c, active_len = active_len a + length c,
      hasher = hasher a @ c\<rparr>, blocks := blocks b @ [bl], open_block := []\<rparr>"
    using fl ne c same by (auto simp: flush_block_def Let_def bl_def b1_def a_def)
  have a_ok: "active_len a = length (active_content a)" "hasher a = active_content a"
    using inv by (auto simp: a_def active_or_new_def b1_def finish_pack_def builder_inv_def active_ok_def
        split: option.splits if_splits)
  have packs_ok: "list_all (pack_file_ok X) (packs b1)"
    using inv by (auto simp: b1_def finish_pack_def builder_inv_def active_ok_def pack_file_ok_def split: option.split)
  have cont: "pack_contents b1 = map content (packs b1) @ (if active b1 = None then [] else [active_content a])"
    by (auto simp: pack_contents_def a_def active_or_new_def split: option.split)
  have cont': "pack_contents b' = map content (packs b1) @ [active_content a @ c]"
    by (simp add: pack_contents_def b')
  have new: "stored X (pack_contents b') bl (open_block b)"
    using ne c a_ok(1) lim by (auto simp: stored_def bl_def cont' nth_append Let_def sub_slice_def)
  have old: "stored X (pack_contents b') x d" if "stored X (pack_contents b) x d" for x d
    using that by (rule stored_extend) (auto simp: cont' cont nth_append simp flip: same(3))
  have chain: "if blocks b = [] then pack bl = 0 \<and> offset bl = 0 else chained (last (blocks b)) bl"
    using inv by (auto simp: bl_def a_def active_or_new_def b1_def finish_pack_def builder_inv_def active_ok_def
        chained_def must_rotate_def split: option.splits if_splits)
  from inv have "list_all2 (stored X (pack_contents b)) (blocks b) ds" by (simp add: builder_inv_def)
  then have "list_all2 (stored X (pack_contents b')) (blocks b) ds" by (rule list_all2_mono) (rule old)
  moreover have "blocks b' = blocks b @ [bl]" by (simp add: b')
  ultimately have "list_all2 (stored X (pack_contents b')) (blocks b') (ds @ [open_block b])"
    using new by (simp add: list_all2_appendI)
  moreover from inv chain have "laid_out (blocks b')" by (simp add: b' builder_inv_def laid_out_snoc)
  moreover from a_ok have "active_ok b'" by (simp add: active_ok_def b' bl_def)
  ultimately show ?thesis using packs_ok by (simp add: builder_inv_def b')
qed

lemma builder_inv_open_block [simp]: "builder_inv X (b\<lparr>open_block := ob\<rparr>) ds = builder_inv X b ds"
  by (cases "active b") (simp_all add: builder_inv_def pack_contents_def active_ok_def)

text \<open>
  The stream view of the builder: everything appended so far is the decoded blocks followed by
  the open block. Appending a document extends the stream by its bytes, and the returned
  coordinates are the document's position in the stream.
\<close>

definition stream :: "pack_builder \<Rightarrow> bytes list \<Rightarrow> bytes" where
  "stream b ds = concat ds @ open_block b"

definition stream_pos :: "bytes list \<Rightarrow> pack_slice \<Rightarrow> nat" where
  "stream_pos ds sl = length (concat (take (first_block sl) ds)) + block_offset sl"

lemma append_loop_inv:
  assumes "append_loop X b reader remaining = Inr b'" "builder_inv X b ds" "full_blocks b ds"
  shows "\<exists>ds'. builder_inv X b' (ds @ ds') \<and> full_blocks b' (ds @ ds') \<and> remaining \<le> length reader \<and>
     stream b' (ds @ ds') = stream b ds @ take remaining reader \<and> block_bytes b' = block_bytes b"
  using assms
proof (induction X b reader remaining arbitrary: ds rule: append_loop.induct)
  case (1 X b reader remaining)
  show ?case
  proof (cases "remaining = 0")
    case True
    with 1 show ?thesis by (intro exI [of _ "[]"]) (simp add: stream_def append_loop.simps)
  next
    case False
    let ?read = "min remaining (block_bytes b - length (open_block b))"
    let ?b1 = "b\<lparr>open_block := open_block b @ take ?read reader\<rparr>"
    let ?full = "length (open_block ?b1) = block_bytes ?b1"
    let ?r = "if ?full then flush_block X ?b1 else Inr ?b1"
    have sane: "\<not> (block_bytes b = 0 \<or> length (open_block b) > block_bytes b)"
      using "1.prems"(3) by (auto simp: full_blocks_def)
    have unfolded: "append_loop X b reader remaining =
      ensure (?read \<le> length reader) ''decoded document ended before its declared length''
        (and_then ?r (\<lambda>b''. append_loop X b'' (drop ?read reader) (remaining - ?read)))"
      using False sane by (subst append_loop.simps) (simp only: Let_def if_False)
    with "1.prems"(1) have "?read \<le> length reader \<and>
        (\<exists>b2. ?r = Inr b2 \<and> append_loop X b2 (drop ?read reader) (remaining - ?read) = Inr b')"
      by (simp only: ensure_Inr and_then_eq_Inr)
    then obtain b2 where rd: "?read \<le> length reader" and b2: "?r = Inr b2"
      and rest: "append_loop X b2 (drop ?read reader) (remaining - ?read) = Inr b'"
      by blast
    have inv1: "builder_inv X ?b1 ds" using "1.prems"(2) by simp
    have pos: "0 < ?read" using False "1.prems"(3) by (auto simp: full_blocks_def)
    obtain ds' where inv2: "builder_inv X b2 (ds @ ds')" and full2: "full_blocks b2 (ds @ ds')"
      and str2: "stream b2 (ds @ ds') = stream b ds @ take ?read reader" and bb: "block_bytes b2 = block_bytes b"
    proof (cases ?full)
      case True
      then have fl: "flush_block X ?b1 = Inr b2" using b2 by simp
      have "open_block ?b1 \<noteq> []" using pos rd by auto
      from flush_block_inv [OF inv1 this fl] flush_block_frame [OF fl] True "1.prems"(3) show ?thesis
        by (intro that [of "[open_block ?b1]"]) (auto simp: full_blocks_def stream_def)
    next
      case False
      then have "b2 = ?b1" using b2 by simp
      with False inv1 "1.prems"(3) show ?thesis
        by (intro that [of "[]"]) (auto simp: full_blocks_def stream_def)
    qed
    note IH = "1.IH" [OF False sane refl refl _ refl b2, OF _ rest inv2 full2]
    from IH [OF rd] obtain es' where m: "builder_inv X b' ((ds @ ds') @ es')"
      "full_blocks b' ((ds @ ds') @ es')" "remaining - ?read \<le> length (drop ?read reader)"
      "stream b' ((ds @ ds') @ es') = stream b2 (ds @ ds') @ take (remaining - ?read) (drop ?read reader)"
      "block_bytes b' = block_bytes b2"
      by blast
    have "remaining \<le> length reader" using m(3) rd by simp
    moreover have "take ?read reader @ take (remaining - ?read) (drop ?read reader) = take remaining reader"
      by (metis le_add_diff_inverse min.cobounded1 take_add)
    ultimately show ?thesis using m str2 bb by (intro exI [of _ "ds' @ es'"]) simp
  qed
qed

lemma append_doc_inv:
  assumes "append_doc X b reader len = Inr (sl, b')" "builder_inv X b ds" "full_blocks b ds"
  shows "\<exists>ds'. builder_inv X b' (ds @ ds') \<and> full_blocks b' (ds @ ds') \<and> len \<le> length reader \<and>
     stream b' (ds @ ds') = stream b ds @ take len reader \<and>
     block_bytes b' = block_bytes b \<and>
     (0 < len \<longrightarrow> first_block sl = length ds \<and> block_offset sl = length (open_block b)) \<and>
     (len = 0 \<longrightarrow> first_block sl = 0 \<and> block_offset sl = 0)"
proof (cases "len = 0")
  case True
  with assms show ?thesis by (intro exI [of _ "[]"]) (auto simp: append_doc_def stream_def)
next
  case False
  with assms(1) have loop: "append_loop X b reader len = Inr b'"
    and sl: "first_block sl = length (blocks b)" "block_offset sl = length (open_block b)"
    by (auto simp: append_doc_def)
  moreover have "length (blocks b) = length ds"
    using assms(2) by (auto simp: builder_inv_def dest: list_all2_lengthD)
  ultimately show ?thesis using append_loop_inv [OF loop assms(2,3)] False by auto
qed

fun append_all :: "pack_crates \<Rightarrow> pack_builder \<Rightarrow> bytes list \<Rightarrow> (pack_slice list \<times> pack_builder) result" where
  "append_all X b [] = Inr ([], b)"
| "append_all X b (doc # docs) =
     and_then (append_doc X b doc (length doc)) (\<lambda>(sl, b').
     and_then (append_all X b' docs) (\<lambda>(sls, b''). Inr (sl # sls, b'')))"

text \<open>
  \<open>located ds sl doc\<close>: the document occupies the bytes of the decoded stream that start at its
  coordinates, and the coordinates point inside a block.
\<close>

definition located :: "bytes list \<Rightarrow> pack_slice \<Rightarrow> bytes \<Rightarrow> bool" where
  "located ds sl doc \<longleftrightarrow>
     (if doc = [] then first_block sl = 0 \<and> block_offset sl = 0
      else first_block sl < length ds \<and> block_offset sl < length (ds ! first_block sl) \<and>
        take (length doc) (drop (stream_pos ds sl) (concat ds)) = doc)"

definition placed :: "nat \<Rightarrow> bytes list \<Rightarrow> bytes \<Rightarrow> pack_slice \<Rightarrow> bytes \<Rightarrow> bool" where
  "placed B ds str sl doc \<longleftrightarrow>
     (if doc = [] then first_block sl = 0 \<and> block_offset sl = 0
      else first_block sl \<le> length ds \<and> block_offset sl < B \<and> stream_pos ds sl + length doc \<le> length str \<and>
        take (length doc) (drop (stream_pos ds sl) str) = doc)"

lemma stream_pos_append:
  "first_block sl \<le> length ds \<Longrightarrow> stream_pos (ds @ ds') sl = stream_pos ds sl"
  by (simp add: stream_pos_def)

lemma placed_extend:
  "placed B ds str sl doc \<Longrightarrow> placed B (ds @ ds') (str @ str') sl doc"
  by (auto simp: placed_def stream_pos_append)

lemma append_doc_placed:
  assumes "append_doc X b doc (length doc) = Inr (sl, b')" "builder_inv X b ds" "full_blocks b ds"
  shows "\<exists>ds'. builder_inv X b' (ds @ ds') \<and> full_blocks b' (ds @ ds') \<and> block_bytes b' = block_bytes b \<and>
     stream b' (ds @ ds') = stream b ds @ doc \<and> placed (block_bytes b) (ds @ ds') (stream b' (ds @ ds')) sl doc \<and>
     (doc \<noteq> [] \<longrightarrow> first_block sl \<le> length ds \<and> stream_pos (ds @ ds') sl = length (stream b ds))"
proof -
  from append_doc_inv [OF assms] obtain ds' where
    *: "builder_inv X b' (ds @ ds')" "full_blocks b' (ds @ ds')" "stream b' (ds @ ds') = stream b ds @ doc"
      "block_bytes b' = block_bytes b"
      "0 < length doc \<longrightarrow> first_block sl = length ds \<and> block_offset sl = length (open_block b)"
      "length doc = 0 \<longrightarrow> first_block sl = 0 \<and> block_offset sl = 0"
    by auto
  have "placed (block_bytes b) (ds @ ds') (stream b ds @ doc) sl doc"
    using * assms(3) by (auto simp: placed_def stream_pos_def stream_def full_blocks_def)
  moreover have "doc \<noteq> [] \<longrightarrow> first_block sl \<le> length ds \<and> stream_pos (ds @ ds') sl = length (stream b ds)"
    using *(5) by (auto simp: stream_pos_def stream_def)
  ultimately show ?thesis using * by auto
qed

definition positioned :: "bytes list \<Rightarrow> nat \<Rightarrow> pack_slice list \<Rightarrow> bytes list \<Rightarrow> bool" where
  "positioned ds p sls docs \<longleftrightarrow>
     (\<forall>i<length docs. docs ! i \<noteq> [] \<longrightarrow>
        first_block (sls ! i) \<le> length ds \<and> stream_pos ds (sls ! i) = p + length (concat (take i docs)))"

lemma positioned_Cons:
  "positioned ds p (sl # sls) (doc # docs) \<longleftrightarrow>
     (doc \<noteq> [] \<longrightarrow> first_block sl \<le> length ds \<and> stream_pos ds sl = p) \<and> positioned ds (p + length doc) sls docs"
  by (auto simp: positioned_def nth_Cons less_Suc_eq_0_disj add.assoc split: nat.split)

lemma positioned_extend: "positioned ds p sls docs \<Longrightarrow> positioned (ds @ ds') p sls docs"
  by (auto simp: positioned_def stream_pos_append)

lemma append_all_placed:
  assumes "append_all X b docs = Inr (sls, b')" "builder_inv X b ds" "full_blocks b ds"
  shows "\<exists>ds'. builder_inv X b' (ds @ ds') \<and> full_blocks b' (ds @ ds') \<and> block_bytes b' = block_bytes b \<and>
     stream b' (ds @ ds') = stream b ds @ concat docs \<and>
     list_all2 (placed (block_bytes b) (ds @ ds') (stream b' (ds @ ds'))) sls docs \<and>
     positioned (ds @ ds') (length (stream b ds)) sls docs"
  using assms
proof (induction docs arbitrary: b ds sls)
  case Nil
  then show ?case by (intro exI [of _ "[]"]) (simp add: positioned_def)
next
  case (Cons doc docs)
  then obtain sl b1 sls1 where ap: "append_doc X b doc (length doc) = Inr (sl, b1)"
    and rest: "append_all X b1 docs = Inr (sls1, b')" and sls: "sls = sl # sls1"
    by (auto split: prod.splits)
  from append_doc_placed [OF ap Cons.prems(2,3)] obtain d1 where
    1: "builder_inv X b1 (ds @ d1)" "full_blocks b1 (ds @ d1)" "block_bytes b1 = block_bytes b"
      "stream b1 (ds @ d1) = stream b ds @ doc" "placed (block_bytes b) (ds @ d1) (stream b1 (ds @ d1)) sl doc"
      "doc \<noteq> [] \<longrightarrow> first_block sl \<le> length ds \<and> stream_pos (ds @ d1) sl = length (stream b ds)"
    by blast
  from Cons.IH [OF rest 1(1,2)] obtain d2 where
    2: "builder_inv X b' ((ds @ d1) @ d2)" "full_blocks b' ((ds @ d1) @ d2)" "block_bytes b' = block_bytes b1"
      "stream b' ((ds @ d1) @ d2) = stream b1 (ds @ d1) @ concat docs"
      "list_all2 (placed (block_bytes b1) ((ds @ d1) @ d2) (stream b' ((ds @ d1) @ d2))) sls1 docs"
      "positioned ((ds @ d1) @ d2) (length (stream b1 (ds @ d1))) sls1 docs"
    by blast
  have pos: "positioned ((ds @ d1) @ d2) (length (stream b ds)) (sl # sls1) (doc # docs)"
    using 1(4,6) 2(6) by (auto simp: positioned_Cons stream_pos_append [of sl "ds @ d1"] simp del: append_assoc)
  have "placed (block_bytes b) ((ds @ d1) @ d2) (stream b1 (ds @ d1) @ concat docs) sl doc"
    by (rule placed_extend) (rule 1(5))
  with 1 2 pos sls show ?case by (intro exI [of _ "d1 @ d2"]) simp
qed

lemma placed_located:
  assumes "placed B ds (concat ds) sl doc" "\<forall>d\<in>set (butlast ds). length d = B"
  shows "located ds sl doc"
proof (cases "doc = []")
  case False
  with assms(1) have *: "first_block sl \<le> length ds" "block_offset sl < B"
    "stream_pos ds sl + length doc \<le> length (concat ds)" "take (length doc) (drop (stream_pos ds sl) (concat ds)) = doc"
    by (auto simp: placed_def)
  let ?k = "first_block sl"
  have k: "?k < length ds"
  proof (rule ccontr)
    assume "\<not> ?k < length ds"
    with * False show False by (auto simp: stream_pos_def)
  qed
  have split: "concat ds = concat (take ?k ds) @ ds ! ?k @ concat (drop (Suc ?k) ds)"
    by (metis id_take_nth_drop [OF k] concat.simps(2) concat_append)
  have "block_offset sl < length (ds ! ?k)"
  proof (cases "Suc ?k = length ds")
    case True
    from False obtain n where "length doc = Suc n" by (cases doc) auto
    with *(3) True show ?thesis by (subst (asm) split) (simp add: stream_pos_def)
  next
    case False
    with k have "?k < length (butlast ds)" by simp
    from nth_mem [OF this] this have "ds ! ?k \<in> set (butlast ds)" by (simp only: nth_butlast)
    with assms(2) *(2) show ?thesis by simp
  qed
  with k * False show ?thesis by (simp add: located_def)
qed (use assms in \<open>simp add: placed_def located_def\<close>)

text \<open>The whole builder: the files it leaves hold every document at its coordinates.\<close>

definition holds_blocks :: "pack_crates \<Rightarrow> built_packs \<Rightarrow> bytes list \<Rightarrow> bool" where
  "holds_blocks X out ds \<longleftrightarrow>
     list_all2 (stored X (map content (built_files out))) (built_blocks out) ds \<and>
     laid_out (built_blocks out) \<and> list_all (pack_file_ok X) (built_files out)"

lemma finish_builder_holds:
  assumes "finish_builder X b = Inr out" "builder_inv X b ds" "full_blocks b ds"
  shows "\<exists>ds'. holds_blocks X out (ds @ ds') \<and> concat (ds @ ds') = stream b ds \<and>
     (\<forall>d\<in>set (butlast (ds @ ds')). length d = block_bytes b) \<and>
     (\<forall>d\<in>set (ds @ ds'). 0 < length d \<and> length d \<le> block_bytes b)"
proof -
  obtain b1 where fl: "flush_block X b = Inr b1"
    and out: "out = \<lparr>built_files = packs (finish_pack X b1), built_blocks = blocks (finish_pack X b1)\<rparr>"
    using assms(1) by (auto simp: finish_builder_def Let_def)
  define ds' where "ds' = (if open_block b = [] then [] else [open_block b])"
  have inv: "builder_inv X b1 (ds @ ds')"
    using flush_block_inv [OF assms(2) _ fl] assms(2) fl by (auto simp: ds'_def flush_block_def)
  have "map content (packs (finish_pack X b1)) = pack_contents b1" "blocks (finish_pack X b1) = blocks b1"
    by (auto simp: finish_pack_def pack_contents_def split: option.split)
  moreover have "list_all (pack_file_ok X) (packs (finish_pack X b1))"
    using inv by (auto simp: finish_pack_def builder_inv_def active_ok_def pack_file_ok_def split: option.split)
  ultimately have "holds_blocks X out (ds @ ds')" using inv by (simp add: holds_blocks_def out builder_inv_def)
  moreover have "\<forall>d\<in>set (butlast (ds @ ds')). length d = block_bytes b"
    using assms(3) by (auto simp: ds'_def full_blocks_def butlast_append dest: in_set_butlastD)
  moreover have "\<forall>d\<in>set (ds @ ds'). 0 < length d \<and> length d \<le> block_bytes b"
    using assms(3) by (auto simp: ds'_def full_blocks_def)
  moreover have "concat (ds @ ds') = stream b ds" by (simp add: ds'_def stream_def)
  ultimately show ?thesis by blast
qed

lemma build_packs_holds:
  assumes "new_builder bb pb = Inr b" "append_all X b docs = Inr (sls, b')" "finish_builder X b' = Inr out"
  shows "\<exists>ds. holds_blocks X out ds \<and> concat ds = concat docs \<and> list_all2 (located ds) sls docs \<and>
     (\<forall>d\<in>set ds. 0 < length d \<and> length d \<le> bb) \<and> positioned ds 0 sls docs"
proof -
  from new_builder_inv [OF assms(1), of X] have b: "builder_inv X b []" "full_blocks b []" "block_bytes b = bb"
    "stream b [] = []" by (simp_all add: stream_def)
  from append_all_placed [OF assms(2) b(1,2)] obtain ds where
    1: "builder_inv X b' ds" "full_blocks b' ds" "block_bytes b' = bb" "stream b' ds = concat docs"
      "list_all2 (placed bb ds (concat docs)) sls docs" "positioned ds 0 sls docs"
    using b by auto
  from finish_builder_holds [OF assms(3) 1(1,2)] obtain ds' where
    2: "holds_blocks X out (ds @ ds')" "concat (ds @ ds') = concat docs"
      "\<forall>d\<in>set (butlast (ds @ ds')). length d = bb" "\<forall>d\<in>set (ds @ ds'). 0 < length d \<and> length d \<le> bb"
    using 1 by auto
  have "placed bb (ds @ ds') (concat docs @ []) sl doc" if "placed bb ds (concat docs) sl doc" for sl doc
    using that by (rule placed_extend)
  then have "located (ds @ ds') sl doc" if "placed bb ds (concat docs) sl doc" for sl doc
    using that 2(2,3) by (intro placed_located [of bb]) (simp_all only: append_Nil2)
  with 1(5) have "list_all2 (located (ds @ ds')) sls docs" by (rule list_all2_mono)
  then show ?thesis using 2 positioned_extend [OF 1(6)] by blast
qed

end
