(* ===== verification/Wire.thy ===== *)
theory Wire
  imports Prelude
begin

text \<open>
  Integers on the wire: the little- and big-endian bytes of a \<open>u64\<close> (\<open>to_le_bytes\<close>, \<open>to_be_bytes\<close> and their inverses in
  the standard library) and the LEB128 varints of \<open>crates/index/src/sparse_table.rs\<close>. The lemmas are the round
  trips, the lengths, and that big-endian bytes are ordered as their integers are.
\<close>

section \<open>Fixed width\<close>

definition to_le_bytes :: "u64 \<Rightarrow> bytes" where
  "to_le_bytes v = map (\<lambda>k. ucast (drop_bit (8 * k) v)) [0..<8]"

definition to_be_bytes :: "u64 \<Rightarrow> bytes" where
  "to_be_bytes v = rev (to_le_bytes v)"

definition from_le_bytes :: "bytes \<Rightarrow> u64" where
  "from_le_bytes bs = of_nat (horner_sum unat 256 bs)"

definition from_be_bytes :: "bytes \<Rightarrow> u64" where
  "from_be_bytes bs = from_le_bytes (rev bs)"

lemma length_to_le_bytes [simp]: "length (to_le_bytes v) = 8"
  by (simp add: to_le_bytes_def)

lemma length_to_be_bytes [simp]: "length (to_be_bytes v) = 8"
  by (simp add: to_be_bytes_def)

lemma horner_base_digits: "horner_sum (\<lambda>x. x) b (base_digits b n x) = x mod b ^ n"
proof (induction n arbitrary: x)
  case (Suc n)
  have "horner_sum (\<lambda>x. x) b (base_digits b (Suc n) x) = x mod b + b * (x div b mod b ^ n)" by (simp add: Suc)
  also have "\<dots> = x mod b ^ Suc n" by (simp add: mod_mult2_eq)
  finally show ?case .
qed simp

lemma nth_base_digits: "k < n \<Longrightarrow> base_digits b n x ! k = x div b ^ k mod b"
proof (induction n arbitrary: k x)
  case (Suc n)
  then show ?case by (cases k) (simp_all add: div_mult2_eq)
qed simp

lemma map_unat_to_le_bytes: "map unat (to_le_bytes v) = base_digits 256 8 (unat v)"
proof (rule nth_equalityI)
  fix k assume "k < length (map unat (to_le_bytes v))"
  then have k: "k < 8" by simp
  have "(2 :: nat) ^ (8 * k) = 256 ^ k" by (simp add: power_mult)
  with k show "map unat (to_le_bytes v) ! k = base_digits 256 8 (unat v) ! k"
    by (simp add: to_le_bytes_def nth_base_digits unat_ucast_down unat_drop_bit)
qed simp

lemma horner_sum_map: "horner_sum f b xs = horner_sum (\<lambda>x. x) b (map f xs)"
  by (induction xs) simp_all

lemma from_to_le_bytes [simp]: "from_le_bytes (to_le_bytes v) = v"
proof -
  have "horner_sum unat 256 (to_le_bytes v) = unat v mod 256 ^ 8"
    by (subst horner_sum_map) (simp only: map_unat_to_le_bytes horner_base_digits)
  also have "\<dots> = unat v" using unat_lt64 [of v] by simp
  finally show ?thesis by (simp add: from_le_bytes_def)
qed

lemma from_to_be_bytes [simp]: "from_be_bytes (to_be_bytes v) = v"
  by (simp add: from_be_bytes_def to_be_bytes_def)

lemma to_le_bytes_inj [simp]: "to_le_bytes v = to_le_bytes w \<longleftrightarrow> v = w"
  by (metis from_to_le_bytes)

lemma to_be_bytes_inj [simp]: "to_be_bytes v = to_be_bytes w \<longleftrightarrow> v = w"
  by (metis from_to_be_bytes)

lemma to_from_le_bytes: "length bs = 8 \<Longrightarrow> to_le_bytes (from_le_bytes bs) = bs"
proof -
  assume len: "length bs = 8"
  have bound: "horner_sum unat 256 bs < 256 ^ 8"
  proof -
    have "horner_sum unat 256 cs < 256 ^ length cs" for cs :: bytes
    proof (induction cs)
      case (Cons c cs)
      with unat_lt8 [of c] show ?case by simp
    qed simp
    from this [of bs] len show ?thesis by simp
  qed
  then have "unat (from_le_bytes bs) = horner_sum unat 256 bs" by (simp add: from_le_bytes_def unat_of_nat)
  then have "map unat (to_le_bytes (from_le_bytes bs)) = base_digits 256 (length bs) (base_sum 256 bs)"
    by (simp add: map_unat_to_le_bytes len)
  also have "\<dots> = map unat bs" by (rule base_digits_sum) (simp add: unat_lt8)
  finally have eq: "map unat (to_le_bytes (from_le_bytes bs)) = map unat bs" .
  have "inj (unat :: u8 \<Rightarrow> nat)" by (simp add: inj_def word_unat_eq_iff)
  from map_injective [OF eq this] show ?thesis .
qed

lemma to_from_be_bytes: "length bs = 8 \<Longrightarrow> to_be_bytes (from_be_bytes bs) = bs"
  by (simp add: to_be_bytes_def from_be_bytes_def to_from_le_bytes)

section \<open>Varints\<close>

lemma unat_and_7f: "unat (v AND 0x7f :: 'a::len word) = unat v mod 128" if "7 < LENGTH('a)"
  using unat_and_mask [OF that, of v] by (simp add: push_bit_eq_mult)

lemma drop_bit_7_less: "drop_bit 7 v \<noteq> (0 :: u64) \<Longrightarrow> unat (drop_bit 7 v) < unat v"
proof -
  assume "drop_bit 7 v \<noteq> 0"
  then have "unat (drop_bit 7 v) \<noteq> 0" by (simp add: unat_eq_zero)
  then have "unat v div 128 \<noteq> 0" by (simp add: unat_drop_bit)
  moreover from this have "0 < unat v" by (cases "unat v = 0") simp_all
  ultimately show ?thesis by (simp add: unat_drop_bit)
qed

function write_varint :: "u64 \<Rightarrow> bytes" where
  "write_varint value =
     (let byte = ucast (value AND 0x7f); value' = drop_bit 7 value
      in if value' = 0 then [byte] else (byte OR 0x80) # write_varint value')"
  by pat_completeness auto
termination by (relation "measure unat") (auto simp: drop_bit_7_less)

declare write_varint.simps [simp del]

function read_varint_loop :: "bytes \<Rightarrow> nat \<Rightarrow> u64 \<Rightarrow> nat \<Rightarrow> (u64 \<times> nat) result" where
  "read_varint_loop blk cursor value shift =
     and_then (context_of (get blk cursor) ''sparse table block ended inside a varint'') (\<lambda>byte.
     ensure (shift < 64) ''sparse table varint overflows u64''
     (ensure (shift < 63 \<or> byte AND 0x7f \<le> 1) ''sparse table varint overflows u64''
      (let value' = value OR push_bit shift (ucast (byte AND 0x7f))
       in if byte AND 0x80 = 0 then Inr (value', cursor + 1)
          else read_varint_loop blk (cursor + 1) value' (shift + 7))))"
  by pat_completeness auto
termination by (relation "measure (\<lambda>(blk, cursor, value, shift). length blk - cursor)") auto

declare read_varint_loop.simps [simp del]

definition read_varint :: "bytes \<Rightarrow> nat \<Rightarrow> (u64 \<times> nat) result" where
  "read_varint blk cursor = read_varint_loop blk cursor 0 0"

lemma read_varint_loop_cursor:
  "read_varint_loop blk cursor val shift = Inr (v, c) \<Longrightarrow> cursor < c \<and> c \<le> length blk"
proof (induction blk cursor val shift rule: read_varint_loop.induct)
  case (1 blk cursor val shift)
  from "1.prems" have "cursor < length blk \<and> (if blk ! cursor AND 0x80 = 0 then c = cursor + 1
      else read_varint_loop blk (cursor + 1) (val OR push_bit shift (ucast (blk ! cursor AND 0x7f))) (shift + 7) = Inr (v, c))"
    by (subst (asm) read_varint_loop.simps) (auto simp: Let_def split: if_splits)
  moreover have "cursor + 1 < c \<and> c \<le> length blk"
    if "cursor < length blk" "blk ! cursor AND 0x80 \<noteq> 0"
      "read_varint_loop blk (cursor + 1) (val OR push_bit shift (ucast (blk ! cursor AND 0x7f))) (shift + 7) = Inr (v, c)"
      "shift < 64" "shift < 63 \<or> blk ! cursor AND 0x7f \<le> 1"
    using "1.IH" [of "blk ! cursor"] that by simp
  moreover from "1.prems" have "shift < 64" "shift < 63 \<or> blk ! cursor AND 0x7f \<le> 1"
    by (subst (asm) read_varint_loop.simps, auto)+
  ultimately show ?case by (auto split: if_splits)
qed

lemma read_varint_cursor: "read_varint blk cursor = Inr (v, c) \<Longrightarrow> cursor < c \<and> c \<le> length blk"
  unfolding read_varint_def by (rule read_varint_loop_cursor)

text \<open>The two bytes a varint is made of.\<close>

lemma varint_byte_bits:
  fixes b :: u8
  assumes "unat b < 128"
  shows "b AND 0x7f = b" "b AND 0x80 = 0" "(b OR 0x80) AND 0x7f = b" "(b OR 0x80) AND 0x80 = 0x80"
proof -
  have m: "bit (0x7f :: u8) n \<longleftrightarrow> n < 7" for n
  proof -
    have "(0x7f :: u8) = mask 7" by (simp add: mask_eq_exp_minus_1)
    then show ?thesis by (simp only: bit_mask_iff) (auto simp: possible_bit_word)
  qed
  have p: "bit (0x80 :: u8) n \<longleftrightarrow> n = 7" for n
  proof -
    have "(0x80 :: u8) = 2 ^ 7" by simp
    then show ?thesis by (simp only: bit_exp_iff) (auto simp: possible_bit_word)
  qed
  have "take_bit 7 b = b" using assms by (simp add: word_unat_eq_iff unsigned_take_bit_eq take_bit_nat_eq_self_iff)
  then have t: "bit b n \<Longrightarrow> n < 7" for n by (metis bit_take_bit_iff)
  then have t7: "\<not> bit b 7" by blast
  show "b AND 0x7f = b" by (rule bit_eqI, simp only: bit_and_iff m, use t in blast)
  have "\<not> bit (b AND 0x80) n" for n by (simp only: bit_and_iff p, use t7 in blast)
  then show "b AND 0x80 = 0" by (intro bit_eqI) simp
  show "(b OR 0x80) AND 0x7f = b" by (rule bit_eqI, simp only: bit_and_iff bit_or_iff m p, use t t7 in blast)
  show "(b OR 0x80) AND 0x80 = 0x80" by (rule bit_eqI, simp only: bit_and_iff bit_or_iff p, use t7 in blast)
qed

lemma varint_low: "unat (ucast (v AND 0x7f :: u64) :: u8) = unat v mod 128"
  by (simp add: unat_ucast_down unat_and_7f)

lemma varint_digit:
  assumes "unat acc < 2 ^ s" "unat b * 2 ^ s < 2 ^ 64" "unat b < 128"
  shows "unat (acc OR push_bit s (ucast (b :: u8) :: u64)) = unat acc + unat b * 2 ^ s"
  using assms by (subst unat_or_push_bit) (simp_all add: unat_ucast_up)

lemma read_write_varint_loop:
  "unat acc < 2 ^ s \<Longrightarrow> unat v * 2 ^ s < 2 ^ 64 \<Longrightarrow> s < 64 \<Longrightarrow>
     read_varint_loop (pre @ write_varint v @ post) (length pre) acc s
       = Inr (of_nat (unat acc + unat v * 2 ^ s), length pre + length (write_varint v))"
proof (induction v arbitrary: acc s pre rule: write_varint.induct)
  case (1 v)
  define b :: u8 where "b = ucast (v AND 0x7f)"
  define v' where "v' = drop_bit 7 v"
  have b: "unat b = unat v mod 128" "unat b < 128" by (simp_all add: b_def varint_low)
  have v': "unat v' = unat v div 128" by (simp add: v'_def unat_drop_bit)
  have split: "unat v = unat b + 128 * unat v'" using b v' by simp
  have fit: "unat b * 2 ^ s < 2 ^ 64"
    by (rule le_less_trans [OF _ "1.prems"(2)]) (simp add: split)
  have top_ok: "s < 63 \<or> b \<le> 1"
  proof (cases "s < 63")
    case False
    then have "s = 63" using "1.prems"(3) by simp
    with fit have "unat b < 2" by simp
    then show ?thesis by (simp add: word_le_nat_alt)
  qed simp
  note digit = varint_digit [OF "1.prems"(1) fit b(2)]
  note bits = varint_byte_bits [OF b(2)]
  show ?case
  proof (cases "v' = 0")
    case True
    then have w: "write_varint v = [b]" by (subst write_varint.simps) (simp add: b_def v'_def Let_def)
    have "unat v = unat b" using split True by simp
    with digit have "acc OR push_bit s (ucast b) = of_nat (unat acc + unat v * 2 ^ s)" by (metis of_nat_unat ucast_id)
    then show ?thesis unfolding w using "1.prems"(3) top_ok bits
      by (subst read_varint_loop.simps) (simp add: get_def Let_def)
  next
    case False
    then have w: "write_varint v = (b OR 0x80) # write_varint v'"
      by (subst write_varint.simps) (simp add: b_def v'_def Let_def)
    have big: "1 \<le> unat v'" using False by (simp add: Suc_le_eq unat_gt_0)
    have "2 ^ 7 * 2 ^ s \<le> unat v * 2 ^ s" using split big by (intro mult_le_mono1) simp
    then have "2 ^ 7 * 2 ^ s < (2 :: nat) ^ 64" using "1.prems"(2) by (rule le_less_trans)
    then have "(2 :: nat) ^ (s + 7) < 2 ^ 64" by (simp only: power_add mult.commute)
    then have s: "s + 7 < 64" by (rule power_less_imp_less_exp [rotated]) simp
    let ?acc = "acc OR push_bit s (ucast b)"
    have acc: "unat ?acc < 2 ^ (s + 7)"
    proof -
      have "unat ?acc < 2 ^ s + unat b * 2 ^ s" using digit "1.prems"(1) by simp
      also have "\<dots> \<le> 128 * 2 ^ s" using b(2) by (simp add: Suc_le_eq flip: mult_Suc)
      finally show ?thesis by (simp add: power_add)
    qed
    have fit': "unat v' * 2 ^ (s + 7) < 2 ^ 64"
      by (rule le_less_trans [OF _ "1.prems"(2)]) (simp add: split power_add)
    define blk where "blk = (pre @ [b OR 0x80]) @ write_varint v' @ post"
    have IH: "read_varint_loop blk (length (pre @ [b OR 0x80])) ?acc (s + 7)
        = Inr (of_nat (unat ?acc + unat v' * 2 ^ (s + 7)), length (pre @ [b OR 0x80]) + length (write_varint v'))"
      unfolding v'_def blk_def by (rule "1.IH" [OF refl refl]) (use False acc fit' s in \<open>simp_all add: v'_def\<close>)
    have sum: "unat ?acc + unat v' * 2 ^ (s + 7) = unat acc + unat v * 2 ^ s"
      unfolding digit by (subst split) (simp add: power_add algebra_simps)
    have g: "get blk (length pre) = Some (b OR 0x80)" by (simp add: blk_def nth_append)
    have "read_varint_loop blk (length pre) acc s = read_varint_loop blk (length pre + 1) ?acc (s + 7)"
      using top_ok bits "1.prems"(3) by (subst read_varint_loop.simps) (simp add: Let_def g)
    moreover have "pre @ write_varint v @ post = blk" by (simp add: w blk_def)
    ultimately show ?thesis using IH [unfolded sum] by (simp add: w)
  qed
qed

lemma read_write_varint:
  "read_varint (pre @ write_varint v @ post) (length pre) = Inr (v, length pre + length (write_varint v))"
  unfolding read_varint_def using read_write_varint_loop [of 0 0 v pre post] unat_lt64 [of v] by simp

lemma write_varint_ne [simp]: "write_varint v \<noteq> []"
  by (subst write_varint.simps) (simp add: Let_def)

lemma length_write_varint: "unat v < 128 ^ n \<Longrightarrow> 0 < n \<Longrightarrow> length (write_varint v) \<le> n"
proof (induction v arbitrary: n rule: write_varint.induct)
  case (1 v)
  show ?case
  proof (cases "drop_bit 7 v = 0")
    case True
    with "1.prems" show ?thesis by (subst write_varint.simps) (simp add: Let_def)
  next
    case False
    obtain m where n: "n = Suc m" using "1.prems"(2) by (cases n) auto
    have "unat (drop_bit 7 v) < 128 ^ m" using "1.prems"(1) n by (simp add: unat_drop_bit less_mult_imp_div_less mult.commute)
    moreover from this have "0 < m" using False by (cases m) (simp_all add: unat_eq_zero)
    ultimately have "length (write_varint (drop_bit 7 v)) \<le> m" using "1.IH" [OF refl refl False] by simp
    with False n show ?thesis by (subst write_varint.simps) (simp add: Let_def)
  qed
qed

end
