(* ===== verification/Sparse_Table.thy ===== *)
theory Sparse_Table
  imports Posting_Eval Packs Wire
begin

text \<open>
  The sparse term dictionary, \<open>crates/index/src/sparse_table.rs\<close>: the entries of a block with their delta-coded hashes and
  tagged values, the writer that cuts ascending inserts into blocks and appends the block index
  and the footer, and the parser of that tail. SHA-256 is the parameter \<open>sha\<close>.
\<close>

section \<open>Entries of a block\<close>

type_synonym entry = "u64 \<times> u64 \<times> u64 option"

definition read_value :: "bytes \<Rightarrow> nat \<Rightarrow> (u64 \<times> u64 option \<times> nat) result" where
  "read_value blk cursor =
     and_then (read_varint blk cursor) (\<lambda>(tag, cursor).
       if tag AND 1 = 1
       then and_then (pack_posting (drop_bit 1 tag) 1) (\<lambda>v. Inr (v, None, cursor))
       else ensure (drop_bit 1 tag \<noteq> 1) ''sparse table singleton is not canonical''
         (and_then (read_varint blk cursor) (\<lambda>(off, cursor).
          and_then (read_varint blk cursor) (\<lambda>(len, cursor).
          ensure (len > 0) ''sparse table posting length is zero''
          (and_then (pack_posting off (unat (drop_bit 1 tag))) (\<lambda>v. Inr (v, Some len, cursor)))))))"

lemma read_value_cursor: "read_value blk cursor = Inr (v, l, c) \<Longrightarrow> cursor < c"
  by (auto simp: read_value_def split: if_splits dest!: read_varint_cursor)

type_synonym 's visitor = "'s \<Rightarrow> u64 \<Rightarrow> u64 \<Rightarrow> u64 option \<Rightarrow> 's result"

function entry_loop :: "bytes \<Rightarrow> 's visitor \<Rightarrow> nat \<Rightarrow> u64 \<Rightarrow> 's \<Rightarrow> 's result" where
  "entry_loop blk visit cursor hash s =
     (if cursor < length blk
      then and_then (read_varint blk cursor) (\<lambda>(delta, c1).
        ensure (delta > 0) ''sparse table hashes must be strictly ascending''
        (and_then (context_of (checked_add hash delta) ''sparse table hash delta overflows'') (\<lambda>hash'.
         and_then (read_value blk c1) (\<lambda>(v, l, c2).
         and_then (visit s hash' v l) (\<lambda>s'. entry_loop blk visit c2 hash' s')))))
      else Inr s)"
  by pat_completeness auto
termination
  by (relation "measure (\<lambda>(blk, visit, cursor, hash, s). length blk - cursor)")
    (auto dest!: read_varint_cursor read_value_cursor)

declare entry_loop.simps [simp del]

definition for_each_entry :: "bytes \<Rightarrow> 's visitor \<Rightarrow> 's \<Rightarrow> 's result" where
  "for_each_entry blk visit s =
     ensure (length blk > 8) ''sparse table block is too short''
     (let hash = from_be_bytes (take 8 blk)
      in and_then (read_value blk 8) (\<lambda>(v, l, c).
         and_then (visit s hash v l) (\<lambda>s'. entry_loop blk visit c hash s')))"

section \<open>The writer\<close>

definition SPARSE_TABLE_MAGIC :: bytes where "SPARSE_TABLE_MAGIC = [0x53, 0x47, 0x53, 0x50, 0x41, 0x52, 0x53, 0x45]"
definition BLOCK_BYTES :: nat where "BLOCK_BYTES = 128 * 1024"
definition INDEX_ENTRY_BYTES :: nat where "INDEX_ENTRY_BYTES = 8 + 8 + 32"
definition FOOTER_BYTES :: nat where "FOOTER_BYTES = 8 + 8 + 8 + 8"

record sparse_block_ref =
  first_hash :: u64
  ref_offset :: nat
  ref_len :: nat
  ref_hash :: bytes

record sparse_writer =
  sw_out :: bytes
  sw_block :: bytes
  block_first_hash :: u64
  last_hash :: "u64 option"
  entry_count :: nat
  written :: nat
  sw_index :: "sparse_block_ref list"

definition new_sparse :: sparse_writer where
  "new_sparse = \<lparr>sw_out = SPARSE_TABLE_MAGIC, sw_block = [], block_first_hash = 0, last_hash = None, entry_count = 0,
     written = length SPARSE_TABLE_MAGIC, sw_index = []\<rparr>"

definition flush_sparse :: "(bytes \<Rightarrow> bytes) \<Rightarrow> sparse_writer \<Rightarrow> sparse_writer" where
  "flush_sparse sha w =
     (if sw_block w = [] then w
      else w\<lparr>sw_index := sw_index w @ [\<lparr>first_hash = block_first_hash w, ref_offset = written w,
               ref_len = length (sw_block w), ref_hash = sha (sw_block w)\<rparr>],
             sw_out := sw_out w @ sw_block w, written := written w + length (sw_block w), sw_block := []\<rparr>)"

definition write_value :: "u64 \<Rightarrow> u64 option \<Rightarrow> bytes result" where
  "write_value v l =
     (case unpack_posting v of (off, count) \<Rightarrow>
        if count = 1
        then ensure (l = None) ''singletons have no posting list'' (Inr (write_varint (push_bit 1 off OR 1)))
        else and_then (context_of l ''multi-doc sparse entries must carry a posting length'') (\<lambda>len.
          ensure (len > 0) ''posting length must be positive''
          (Inr (write_varint (push_bit 1 (ucast count)) @ write_varint off @ write_varint len))))"

definition insert_sparse :: "(bytes \<Rightarrow> bytes) \<Rightarrow> sparse_writer \<Rightarrow> entry \<Rightarrow> sparse_writer result" where
  "insert_sparse sha w = (\<lambda>(hash, v, l).
     ensure (case last_hash w of None \<Rightarrow> True | Some prev \<Rightarrow> hash > prev) ''sparse table inserts must be ascending and unique''
     (and_then (if sw_block w = []
        then Inr (w\<lparr>block_first_hash := hash, sw_block := to_be_bytes hash\<rparr>)
        else and_then (context_of (last_hash w) ''delta after the first entry'') (\<lambda>prev.
          Inr (w\<lparr>sw_block := sw_block w @ write_varint (hash - prev)\<rparr>))) (\<lambda>w1.
      and_then (write_value v l) (\<lambda>bs.
      let w2 = w1\<lparr>sw_block := sw_block w1 @ bs, last_hash := Some hash, entry_count := entry_count w1 + 1\<rparr>
      in Inr (if length (sw_block w2) \<ge> BLOCK_BYTES then flush_sparse sha w2 else w2)))))"

definition index_entry :: "sparse_block_ref \<Rightarrow> bytes" where
  "index_entry r = to_le_bytes (first_hash r) @ to_le_bytes (of_nat (ref_offset r)) @ ref_hash r"

definition finish_sparse :: "(bytes \<Rightarrow> bytes) \<Rightarrow> sparse_writer \<Rightarrow> bytes \<times> string" where
  "finish_sparse sha w =
     (let w' = flush_sparse sha w;
          tail = concat (map index_entry (sw_index w')) @ to_le_bytes (of_nat (entry_count w'))
            @ to_le_bytes (of_nat (length (sw_index w'))) @ to_le_bytes (of_nat (written w')) @ SPARSE_TABLE_MAGIC
      in (sw_out w' @ tail, hex (sha tail)))"

section \<open>The index\<close>

record sparse_table_index =
  index_entries :: nat
  index_blocks :: "sparse_block_ref list"

function chunks_exact :: "nat \<Rightarrow> 'a list \<Rightarrow> 'a list list" where
  "chunks_exact n xs = (if n = 0 \<or> length xs < n then [] else take n xs # chunks_exact n (drop n xs))"
  by pat_completeness auto
termination by (relation "measure (\<lambda>(n, xs). length xs)") auto

declare chunks_exact.simps [simp del]

abbreviation read_u64 :: "bytes \<Rightarrow> nat" where
  "read_u64 bs \<equiv> unat (from_le_bytes bs)"

definition parse_block_ref ::
    "bytes \<Rightarrow> nat \<Rightarrow> nat \<Rightarrow> sparse_block_ref list \<times> nat \<Rightarrow> bytes \<Rightarrow> (sparse_block_ref list \<times> nat) result" where
  "parse_block_ref index_bytes block_count index_offset = (\<lambda>(refs, expected) ent.
     let off = read_u64 (sub_slice ent 8 16)
     in ensure (off = expected) ''sparse table blocks are not contiguous''
        (let nxt = length refs + 1;
             next_offset = (if nxt < block_count
               then read_u64 (sub_slice index_bytes (nxt * INDEX_ENTRY_BYTES + 8) (nxt * INDEX_ENTRY_BYTES + 16))
               else index_offset)
         in and_then (context_of (checked_sub next_offset off) ''sparse table block length underflows'') (\<lambda>len.
            ensure (len > 8 \<and> len \<le> BLOCK_BYTES + 32) ''sparse table block length is invalid''
            (Inr (refs @ [\<lparr>first_hash = from_le_bytes (sub_slice ent 0 8), ref_offset = off, ref_len = len,
                ref_hash = sub_slice ent 16 48\<rparr>], next_offset)))))"

definition mul_u64 :: "nat \<Rightarrow> nat \<Rightarrow> nat option" where
  "mul_u64 a b = (if a * b < 2 ^ 64 then Some (a * b) else None)"

definition parse_sparse :: "nat \<Rightarrow> bytes \<Rightarrow> sparse_table_index result" where
  "parse_sparse table_len tail =
     ensure (table_len \<ge> length SPARSE_TABLE_MAGIC + FOOTER_BYTES \<and> length tail \<ge> FOOTER_BYTES \<and> length tail \<le> table_len)
       ''sparse table is truncated''
     (let footer = drop (length tail - FOOTER_BYTES) tail
      in ensure (sub_slice footer 24 32 = SPARSE_TABLE_MAGIC) ''sparse table footer magic mismatch''
         (let entries = read_u64 (sub_slice footer 0 8); block_count = read_u64 (sub_slice footer 8 16);
              index_offset = read_u64 (sub_slice footer 16 24)
          in and_then (context_of (mul_u64 block_count INDEX_ENTRY_BYTES) ''sparse table index length overflows'') (\<lambda>index_len.
             ensure ((case add_u64 index_offset index_len of None \<Rightarrow> None | Some e \<Rightarrow> add_u64 e FOOTER_BYTES) = Some table_len)
               ''sparse table index does not abut the footer''
             (ensure (table_len - length tail \<le> index_offset) ''sparse table tail does not include the index''
             (and_then (context_of (get_range tail (index_offset - (table_len - length tail)) (length tail - FOOTER_BYTES))
                 ''sparse table index is out of tail bounds'') (\<lambda>index_bytes.
              ensure (length index_bytes = index_len) ''sparse table index length mismatch''
              (and_then (visit_all (parse_block_ref index_bytes block_count index_offset) ([], length SPARSE_TABLE_MAGIC)
                  (chunks_exact INDEX_ENTRY_BYTES index_bytes)) (\<lambda>(refs, _).
               ensure (successively (\<lambda>a b. first_hash a < first_hash b) refs) ''sparse table block index is not sorted''
               (ensure ((entries = 0) = (refs = [])) ''sparse table entry count does not match its blocks''
                (Inr \<lparr>index_entries = entries, index_blocks = refs\<rparr>))))))))))"

text \<open>\<open>partition_point\<close> of a predicate that holds on a prefix.\<close>

definition block_for :: "sparse_table_index \<Rightarrow> u64 \<Rightarrow> nat option" where
  "block_for idx hash = checked_sub (length (takeWhile (\<lambda>r. first_hash r \<le> hash) (index_blocks idx))) 1"

section \<open>Round trip of a block\<close>

lemma unat_unpack:
  "unat (fst (unpack_posting v)) = unat v mod 2 ^ 40" "unat (snd (unpack_posting v)) = unat v div 2 ^ 40"
proof -
  show "unat (fst (unpack_posting v)) = unat v mod 2 ^ 40"
    unfolding unpack_posting_def OFFSET_BITS_def fst_conv by (rule unat_and_mask) simp
  have "unat v div 2 ^ 40 < 2 ^ 24" using unat_lt64 [of v] by (simp add: less_mult_imp_div_less)
  then show "unat (snd (unpack_posting v)) = unat v div 2 ^ 40"
    unfolding unpack_posting_def OFFSET_BITS_def snd_conv by (simp add: unat_ucast_down unat_drop_bit)
qed

lemma pack_unpack:
  assumes "unpack_posting v = (off, count)"
  shows "pack_posting off (unat count) = Inr v" "unat off < 2 ^ 40" "unat count < 2 ^ 24"
proof -
  have off: "unat off = unat v mod 2 ^ 40" and count: "unat count = unat v div 2 ^ 40"
    using unat_unpack [of v] assms by simp_all
  show lo: "unat off < 2 ^ 40" using off by simp
  show hi: "unat count < 2 ^ 24" using count unat_lt64 [of v] by (simp add: less_mult_imp_div_less)
  have "unat count < 2 ^ 64" using hi by simp
  then have c: "unat (of_nat (unat count) :: u64) = unat count" by (simp only: unat_of_nat) (simp add: take_bit_nat_eq_self)
  have "unat (off OR push_bit 40 (of_nat (unat count))) = unat off + unat count * 2 ^ 40"
    using lo hi by (subst unat_or_push_bit) (auto simp only: c, simp_all)
  also have "\<dots> = unat v" unfolding off count by simp
  finally have "off OR push_bit 40 (of_nat (unat count)) = v" by (simp only: word_unat_eq_iff)
  moreover have "off < push_bit 40 1" using lo by (simp add: word_less_nat_alt)
  ultimately show "pack_posting off (unat count) = Inr v"
    using hi unfolding pack_posting_def OFFSET_BITS_def COUNT_BITS_def by (simp only: if_False not_True_eq_False)
qed

lemma tag_bits:
  fixes x :: u64
  assumes "unat x < 2 ^ 63"
  shows "drop_bit 1 (push_bit 1 x OR 1) = x" "(push_bit 1 x OR 1) AND 1 = 1" "drop_bit 1 (push_bit 1 x) = x" "push_bit 1 x AND 1 \<noteq> 1"
proof -
  have p: "unat (push_bit 1 x) = 2 * unat x" using assms by (subst unat_push_bit) simp_all
  have "push_bit 1 x OR 1 = 1 OR push_bit 1 x" by (rule or.commute)
  moreover have "unat (1 OR push_bit 1 x) = 1 + unat x * 2 ^ 1" using assms by (subst unat_or_push_bit) simp_all
  ultimately have o: "unat (push_bit 1 x OR 1) = 2 * unat x + 1" by simp
  show "drop_bit 1 (push_bit 1 x OR 1) = x" "drop_bit 1 (push_bit 1 x) = x"
    by (simp_all only: word_unat_eq_iff unat_drop_bit o p) simp_all
  have m: "unat (a AND 1) = unat a mod 2" for a :: u64 using unat_and_mask [of 1 a] by (simp add: push_bit_eq_mult)
  show "(push_bit 1 x OR 1) AND 1 = 1" by (simp only: word_unat_eq_iff m o) simp
  show "push_bit 1 x AND 1 \<noteq> 1" by (simp only: word_unat_eq_iff m p) simp
qed

lemma read_write_value:
  assumes "write_value v l = Inr bs"
  shows "read_value (pre @ bs @ post) (length pre) = Inr (v, l, length pre + length bs)"
proof -
  obtain off count where u: "unpack_posting v = (off, count)" by (cases "unpack_posting v")
  note p = pack_unpack [OF u]
  show ?thesis
  proof (cases "count = 1")
    case True
    with assms u have w: "l = None" "bs = write_varint (push_bit 1 off OR 1)" by (auto simp: write_value_def)
    have "unat off < 2 ^ 63" using p(2) by simp
    note t = tag_bits(1,2) [OF this]
    have one: "pack_posting off 1 = Inr v" using p(1) True by simp
    show ?thesis unfolding read_value_def w(2) read_write_varint and_then_Inr prod.case t one w(1) by simp
  next
    case False
    with assms u obtain len where w: "l = Some len" "len > 0"
      "bs = write_varint (push_bit 1 (ucast count)) @ write_varint off @ write_varint len" by (auto simp: write_value_def)
    let ?c = "ucast count :: u64" and ?t = "write_varint (push_bit 1 (ucast count))"
    have c: "unat ?c = unat count" by (simp add: unat_ucast_up)
    then have "unat ?c < 2 ^ 63" using p(3) by simp
    note t = tag_bits(3,4) [OF this]
    have "?c \<noteq> 1" using False c by (metis unat_1 word_unat_eq_iff)
    have r1: "read_varint (pre @ bs @ post) (length pre) = Inr (push_bit 1 ?c, length (pre @ ?t))"
      using read_write_varint [of pre "push_bit 1 ?c" "write_varint off @ write_varint len @ post"] by (simp add: w(3))
    have r2: "read_varint (pre @ bs @ post) (length (pre @ ?t)) = Inr (off, length (pre @ ?t @ write_varint off))"
      using read_write_varint [of "pre @ ?t" off "write_varint len @ post"] by (simp add: w(3))
    have r3: "read_varint (pre @ bs @ post) (length (pre @ ?t @ write_varint off)) = Inr (len, length pre + length bs)"
      using read_write_varint [of "pre @ ?t @ write_varint off" len post] by (simp add: w(3))
    show ?thesis unfolding read_value_def r1 and_then_Inr prod.case r2 r3 t(1) c p(1) w(1)
      using t(2) w(2) \<open>?c \<noteq> 1\<close> by (simp only: if_False ensure_True and_then_Inr simp_thms)
  qed
qed

text \<open>The bytes of a block: the first hash raw, the others as deltas.\<close>

fun enc_rest :: "u64 \<Rightarrow> entry list \<Rightarrow> bytes" where
  "enc_rest prev [] = []"
| "enc_rest prev ((h, v, l) # es) =
     write_varint (h - prev) @ (case write_value v l of Inr bs \<Rightarrow> bs | Inl _ \<Rightarrow> []) @ enc_rest h es"

fun enc_block :: "entry list \<Rightarrow> bytes" where
  "enc_block [] = []"
| "enc_block ((h, v, l) # es) = to_be_bytes h @ (case write_value v l of Inr bs \<Rightarrow> bs | Inl _ \<Rightarrow> []) @ enc_rest h es"

definition writable_entry :: "entry \<Rightarrow> bool" where
  "writable_entry e \<longleftrightarrow> (\<exists>bs. write_value (fst (snd e)) (snd (snd e)) = Inr bs)"

abbreviation hashes :: "entry list \<Rightarrow> u64 list" where "hashes es \<equiv> map fst es"

lemma write_value_ne: "write_value v l = Inr bs \<Longrightarrow> bs \<noteq> []"
  by (auto simp: write_value_def split: prod.splits if_splits)

lemma entry_loop_done [simp]: "entry_loop blk visit (length blk) hash s = Inr s"
  by (subst entry_loop.simps) simp

lemma word_less_diff: "(a :: u64) < b \<Longrightarrow> 0 < b - a \<and> checked_add a (b - a) = Some b"
proof -
  assume less: "a < b"
  then have "unat (b - a) = unat b - unat a" by (simp add: unat_sub less_imp_le)
  moreover have "unat a < unat b" using less by (simp add: word_less_nat_alt)
  ultimately have "unat a + unat (b - a) = unat b" "0 < unat (b - a)" by simp_all
  then show ?thesis using unat_lt64 [of b] by (simp add: checked_add_def word_less_nat_alt)
qed

lemma entry_loop_enc:
  "ascending (prev # hashes es) \<Longrightarrow> list_all writable_entry es \<Longrightarrow>
     entry_loop (pre @ enc_rest prev es) visit (length pre) prev s = visit_all (\<lambda>s (h, v, l). visit s h v l) s es"
proof (induction prev es arbitrary: pre s rule: enc_rest.induct)
  case (1 prev)
  then show ?case using entry_loop_done [of pre visit prev s] by simp
next
  case (2 prev h v l es)
  obtain bs where bs: "write_value v l = Inr bs" using "2.prems"(2) by (auto simp: writable_entry_def)
  let ?d = "write_varint (h - prev)" and ?blk = "pre @ enc_rest prev ((h, v, l) # es)"
  have blk: "?blk = pre @ ?d @ (bs @ enc_rest h es)" by (simp add: bs)
  have d: "0 < h - prev" "checked_add prev (h - prev) = Some h" using word_less_diff [of prev h] "2.prems"(1) by simp_all
  have r1: "read_varint ?blk (length pre) = Inr (h - prev, length (pre @ ?d))"
    unfolding blk using read_write_varint [of pre "h - prev"] by simp
  have r2: "read_value ?blk (length (pre @ ?d)) = Inr (v, l, length (pre @ ?d @ bs))"
    using read_write_value [OF bs, of "pre @ ?d" "enc_rest h es"] by (simp add: bs)
  have lt: "length pre < length ?blk" by (simp add: blk length_greater_0_conv [THEN iffD2])
  have nxt: "?blk = (pre @ ?d @ bs) @ enc_rest h es" by (simp add: bs)
  have IH: "entry_loop ?blk visit (length (pre @ ?d @ bs)) h s' = visit_all (\<lambda>s (h, v, l). visit s h v l) s' es" for s'
    unfolding nxt by (rule "2.IH") (use "2.prems" in auto)
  have "entry_loop ?blk visit (length pre) prev s = and_then (visit s h v l) (\<lambda>s'. entry_loop ?blk visit (length (pre @ ?d @ bs)) h s')"
    using lt d by (subst entry_loop.simps) (simp only: if_True r1 r2 and_then_Inr prod.case ensure_True context_of_simps)
  then show ?case unfolding IH by (simp add: visit_all_Cons del: enc_rest.simps visit_all.simps(2))
qed

lemma for_each_entry_enc:
  assumes "es \<noteq> []" "ascending (hashes es)" "list_all writable_entry es"
  shows "for_each_entry (enc_block es) visit s = visit_all (\<lambda>s (h, v, l). visit s h v l) s es"
proof -
  obtain h v l rest where es: "es = (h, v, l) # rest" using assms(1) by (cases es) auto
  obtain bs where bs: "write_value v l = Inr bs" using assms(3) by (auto simp: es writable_entry_def)
  have blk: "enc_block es = (to_be_bytes h @ bs) @ enc_rest h rest" by (simp add: es bs)
  have r: "read_value (enc_block es) 8 = Inr (v, l, length (to_be_bytes h @ bs))"
    unfolding blk using read_write_value [OF bs, of "to_be_bytes h" "enc_rest h rest"] by simp
  have "length (enc_block es) > 8" using write_value_ne [OF bs] by (simp add: blk)
  moreover have "from_be_bytes (take 8 (enc_block es)) = h" by (simp add: blk)
  moreover have "entry_loop (enc_block es) visit (length (to_be_bytes h @ bs)) h = (\<lambda>s'. visit_all (\<lambda>s (h, v, l). visit s h v l) s' rest)"
    unfolding blk by (rule ext, rule entry_loop_enc) (use assms in \<open>auto simp: es\<close>)
  ultimately have "for_each_entry (enc_block es) visit s =
      and_then (visit s h v l) (\<lambda>s'. visit_all (\<lambda>s (h, v, l). visit s h v l) s' rest)"
    by (simp add: for_each_entry_def Let_def r)
  then show ?thesis by (simp add: es visit_all_Cons del: enc_block.simps visit_all.simps(2))
qed

section \<open>What the writer has written\<close>

fun refs_of :: "(bytes \<Rightarrow> bytes) \<Rightarrow> nat \<Rightarrow> entry list list \<Rightarrow> sparse_block_ref list" where
  "refs_of sha off [] = []"
| "refs_of sha off (g # gs) = \<lparr>first_hash = fst (hd g), ref_offset = off, ref_len = length (enc_block g), ref_hash = sha (enc_block g)\<rparr>
     # refs_of sha (off + length (enc_block g)) gs"

definition block_fits :: "entry list \<Rightarrow> bool" where
  "block_fits g \<longleftrightarrow> g \<noteq> [] \<and> length (enc_block g) \<le> BLOCK_BYTES + 32"

text \<open>The inserts so far: full blocks \<open>gs\<close> and the open block \<open>cur\<close>.\<close>

definition sparse_inv :: "(bytes \<Rightarrow> bytes) \<Rightarrow> sparse_writer \<Rightarrow> entry list list \<Rightarrow> entry list \<Rightarrow> bool" where
  "sparse_inv sha w gs cur \<longleftrightarrow>
     sw_out w = SPARSE_TABLE_MAGIC @ concat (map enc_block gs) \<and> written w = length (sw_out w) \<and>
     sw_index w = refs_of sha (length SPARSE_TABLE_MAGIC) gs \<and> sw_block w = enc_block cur \<and>
     (cur \<noteq> [] \<longrightarrow> block_first_hash w = fst (hd cur)) \<and> length (enc_block cur) < BLOCK_BYTES \<and>
     last_hash w = (if concat gs @ cur = [] then None else Some (fst (last (concat gs @ cur)))) \<and>
     entry_count w = length (concat gs @ cur) \<and> list_all block_fits gs \<and>
     ascending (hashes (concat gs @ cur)) \<and> list_all writable_entry (concat gs @ cur)"

lemma refs_of_append: "refs_of sha off (gs @ hs) = refs_of sha off gs @ refs_of sha (off + length (concat (map enc_block gs))) hs"
  by (induction gs arbitrary: off) (simp_all add: add.assoc)

lemma length_refs_of [simp]: "length (refs_of sha off gs) = length gs"
  by (induction gs arbitrary: off) simp_all

lemma to_be_bytes_ne [simp]: "to_be_bytes h \<noteq> []"
  by (metis length_to_be_bytes list.size(3) zero_neq_numeral)

lemma enc_block_ne [simp]: "enc_block es = [] \<longleftrightarrow> es = []"
  by (cases es) auto

lemma enc_rest_snoc:
  "enc_rest prev (es @ [(h, v, l)]) =
     enc_rest prev es @ write_varint (h - (if es = [] then prev else fst (last es))) @ (case write_value v l of Inr bs \<Rightarrow> bs | Inl _ \<Rightarrow> [])"
  by (induction prev es rule: enc_rest.induct) auto

lemma enc_block_snoc:
  "es \<noteq> [] \<Longrightarrow> enc_block (es @ [(h, v, l)]) =
     enc_block es @ write_varint (h - fst (last es)) @ (case write_value v l of Inr bs \<Rightarrow> bs | Inl _ \<Rightarrow> [])"
  by (cases es) (auto simp: enc_rest_snoc)

lemma length_write_value: "write_value v l = Inr bs \<Longrightarrow> length bs \<le> 20"
proof -
  assume w: "write_value v l = Inr bs"
  obtain off count where u: "unpack_posting v = (off, count)" by (cases "unpack_posting v")
  note p = pack_unpack [OF u]
  have off: "unat off < 2 ^ 40" "unat count < 2 ^ 24" using p by simp_all
  have any: "length (write_varint x) \<le> 10" for x
    by (rule length_write_varint) (use unat_lt64 [of x] in simp_all)
  show ?thesis
  proof (cases "count = 1")
    case True
    with w u have "bs = write_varint (push_bit 1 off OR 1)" by (auto simp: write_value_def)
    with any [of "push_bit 1 off OR 1"] show ?thesis by simp
  next
    case False
    with w u obtain len where bs: "bs = write_varint (push_bit 1 (ucast count)) @ write_varint off @ write_varint len"
      by (auto simp: write_value_def)
    have "unat (push_bit 1 (ucast count :: u64)) = 2 * unat count"
      using off(2) by (subst unat_push_bit) (simp_all add: unat_ucast_up)
    then have "length (write_varint (push_bit 1 (ucast count))) \<le> 4" using off(2) by (intro length_write_varint) simp_all
    moreover have "length (write_varint off) \<le> 6" using off(1) by (intro length_write_varint) simp_all
    moreover note any [of len]
    ultimately show ?thesis by (simp add: bs)
  qed
qed

lemma ascending_snoc:
  "ascending (xs @ [x]) \<longleftrightarrow> ascending xs \<and> (xs = [] \<or> last xs < (x :: 'a::linorder))"
proof (cases "xs = []")
  case False
  then have "ascending xs \<Longrightarrow> last xs < x \<Longrightarrow> \<forall>y\<in>set xs. y < x" using ascending_last [of xs] by fastforce
  with False show ?thesis by (auto simp: sorted_wrt_append)
qed simp

lemma insert_sparse_inv:
  assumes "insert_sparse sha w e = Inr w'" "sparse_inv sha w gs cur"
  shows "\<exists>gs' cur'. sparse_inv sha w' gs' cur' \<and> concat gs' @ cur' = (concat gs @ cur) @ [e]"
proof -
  obtain h v l where e: "e = (h, v, l)" by (cases e)
  from assms(2) have inv: "sw_out w = SPARSE_TABLE_MAGIC @ concat (map enc_block gs)" "written w = length (sw_out w)"
    "sw_index w = refs_of sha (length SPARSE_TABLE_MAGIC) gs" "sw_block w = enc_block cur"
    "cur \<noteq> [] \<longrightarrow> block_first_hash w = fst (hd cur)" "length (enc_block cur) < BLOCK_BYTES"
    "last_hash w = (if concat gs @ cur = [] then None else Some (fst (last (concat gs @ cur))))"
    "entry_count w = length (concat gs @ cur)" "list_all block_fits gs"
    "ascending (hashes (concat gs @ cur))" "list_all writable_entry (concat gs @ cur)" by (auto simp: sparse_inv_def)
  from assms(1) obtain bs where bs: "write_value v l = Inr bs" by (auto simp: insert_sparse_def e)
  define w1 where "w1 = (if cur = [] then w\<lparr>block_first_hash := h, sw_block := to_be_bytes h\<rparr>
      else w\<lparr>sw_block := enc_block cur @ write_varint (h - fst (last cur))\<rparr>)"
  have asc: "case last_hash w of None \<Rightarrow> True | Some prev \<Rightarrow> h > prev" using assms(1) by (simp add: insert_sparse_def e)
  have start: "(if sw_block w = [] then Inr (w\<lparr>block_first_hash := h, sw_block := to_be_bytes h\<rparr>)
        else and_then (context_of (last_hash w) ''delta after the first entry'') (\<lambda>prev.
          Inr (w\<lparr>sw_block := sw_block w @ write_varint (h - prev)\<rparr>))) = Inr w1"
    by (cases "cur = []") (simp_all add: w1_def inv(4,7))
  define w2 where "w2 = w1\<lparr>sw_block := sw_block w1 @ bs, last_hash := Some h, entry_count := entry_count w1 + 1\<rparr>"
  have w': "w' = (if length (sw_block w2) \<ge> BLOCK_BYTES then flush_sparse sha w2 else w2)"
    using assms(1) unfolding insert_sparse_def e prod.case start bs and_then_Inr Let_def w2_def [symmetric] by auto
  note w1 = w1_def
  let ?cur = "cur @ [(h, v, l)]"
  have blk: "sw_block w2 = enc_block ?cur" by (auto simp: w2_def w1 bs enc_block_snoc)
  have asc': "ascending (hashes (concat gs @ ?cur))"
  proof -
    have "hashes (concat gs @ cur) = [] \<or> last (hashes (concat gs @ cur)) < h"
    proof (cases "concat gs @ cur = []")
      case False
      then have "last_hash w = Some (fst (last (concat gs @ cur)))" using inv(7) by (simp only: if_False)
      with asc False show ?thesis by (simp only: option.case last_map [OF False]) simp
    qed simp
    with inv(10) have "ascending (hashes (concat gs @ cur) @ [h])" unfolding ascending_snoc by (rule conjI)
    then show ?thesis by simp
  qed
  have wr: "list_all writable_entry (concat gs @ ?cur)" using inv(11) bs by (simp add: writable_entry_def)
  have len: "length (enc_block ?cur) \<le> BLOCK_BYTES + 32"
  proof (cases "cur = []")
    case True
    with length_write_value [OF bs] show ?thesis by (simp add: bs BLOCK_BYTES_def)
  next
    case False
    have "length (write_varint (h - fst (last cur))) \<le> 10"
      by (rule length_write_varint) (use unat_lt64 [of "h - fst (last cur)"] in simp_all)
    with False inv(6) length_write_value [OF bs] show ?thesis by (simp add: enc_block_snoc bs)
  qed
  have rest: "sw_out w2 = sw_out w" "written w2 = written w" "sw_index w2 = sw_index w" "block_first_hash w2 = fst (hd ?cur)"
    "entry_count w2 = length (concat gs @ ?cur)" "last_hash w2 = Some h"
    using inv(5,8) by (auto simp: w2_def w1 hd_append)
  show ?thesis
  proof (cases "length (enc_block ?cur) \<ge> BLOCK_BYTES")
    case True
    then have "w' = flush_sparse sha w2" using w' blk by simp
    then have "sparse_inv sha w' (gs @ [?cur]) []"
      using inv(1-3,9) rest blk asc' wr len
      by (simp add: sparse_inv_def flush_sparse_def refs_of_append block_fits_def BLOCK_BYTES_def)
    then show ?thesis by (intro exI [of _ "gs @ [?cur]"] exI [of _ "[]"]) (simp add: e)
  next
    case False
    then have "w' = w2" using w' blk by simp
    then have "sparse_inv sha w' gs ?cur"
      using inv(1-3,9) rest blk asc' wr False by (simp add: sparse_inv_def)
    then show ?thesis by (intro exI [of _ gs] exI [of _ ?cur]) (simp add: e)
  qed
qed

lemma new_sparse_inv: "sparse_inv sha new_sparse [] []"
  by (simp add: sparse_inv_def new_sparse_def BLOCK_BYTES_def)

lemma inserts_sparse_inv:
  "visit_all (insert_sparse sha) w es = Inr w' \<Longrightarrow> sparse_inv sha w gs cur \<Longrightarrow>
     \<exists>gs' cur'. sparse_inv sha w' gs' cur' \<and> concat gs' @ cur' = (concat gs @ cur) @ es"
proof (induction es arbitrary: w gs cur)
  case (Cons e es)
  then obtain w1 where w1: "insert_sparse sha w e = Inr w1" "visit_all (insert_sparse sha) w1 es = Inr w'"
    by (auto simp: visit_all_Cons simp del: visit_all.simps(2))
  from insert_sparse_inv [OF w1(1) Cons.prems(2)] obtain gs1 cur1 where
    1: "sparse_inv sha w1 gs1 cur1" "concat gs1 @ cur1 = (concat gs @ cur) @ [e]" by blast
  from Cons.IH [OF w1(2) 1(1)] 1(2) show ?case by fastforce
qed auto

text \<open>A finished table: its blocks \<open>gs\<close> hold the inserts in order.\<close>

lemma finish_sparse_blob:
  assumes "visit_all (insert_sparse sha) new_sparse es = Inr w" "finish_sparse sha w = (blob, tail_hash)"
  shows "\<exists>gs. concat gs = es \<and> list_all block_fits gs \<and> ascending (hashes es) \<and> list_all writable_entry es \<and>
    blob = SPARSE_TABLE_MAGIC @ concat (map enc_block gs) @ concat (map index_entry (refs_of sha (length SPARSE_TABLE_MAGIC) gs))
      @ to_le_bytes (of_nat (length es)) @ to_le_bytes (of_nat (length gs))
      @ to_le_bytes (of_nat (length SPARSE_TABLE_MAGIC + length (concat (map enc_block gs)))) @ SPARSE_TABLE_MAGIC"
proof -
  from inserts_sparse_inv [OF assms(1) new_sparse_inv] obtain gs cur where
    inv: "sparse_inv sha w gs cur" and es: "concat gs @ cur = es" by auto
  let ?gs = "if cur = [] then gs else gs @ [cur]"
  have "sparse_inv sha (flush_sparse sha w) ?gs []"
    using inv by (auto simp: sparse_inv_def flush_sparse_def refs_of_append block_fits_def BLOCK_BYTES_def)
  with assms(2) es show ?thesis
    by (intro exI [of _ ?gs]) (auto simp: finish_sparse_def Let_def sparse_inv_def)
qed

section \<open>Parsing the tail\<close>

lemma chunks_exact_concat:
  "0 < n \<Longrightarrow> \<forall>x\<in>set xs. length (f x) = n \<Longrightarrow> chunks_exact n (concat (map f xs)) = map f xs"
proof (induction xs)
  case Nil
  then show ?case by (subst chunks_exact.simps) simp
next
  case (Cons x xs)
  have "\<not> (n = 0 \<or> length (concat (map f (x # xs))) < n)" using Cons.prems by simp
  then show ?case using Cons by (subst chunks_exact.simps) simp
qed

lemma length_concat_uniform: "\<forall>x\<in>set xs. length (f x) = n \<Longrightarrow> length (concat (map f xs)) = length xs * n"
  by (induction xs) auto

lemma sub_slice_concat:
  assumes "\<forall>x\<in>set xs. length (f x) = n" "k < length xs" "a \<le> b" "b \<le> n"
  shows "sub_slice (concat (map f xs)) (k * n + a) (k * n + b) = sub_slice (f (xs ! k)) a b"
proof -
  have split: "concat (map f xs) = concat (map f (take k xs)) @ f (xs ! k) @ concat (map f (drop (Suc k) xs))"
    using arg_cong [OF id_take_nth_drop [OF assms(2)], of "\<lambda>xs. concat (map f xs)"] by simp
  have "\<forall>x\<in>set (take k xs). length (f x) = n" using assms(1) by (meson in_set_takeD)
  from length_concat_uniform [OF this] have "length (concat (map f (take k xs))) = k * n" using assms(2) by simp
  moreover have "length (f (xs ! k)) = n" using assms(1,2) by simp
  ultimately show ?thesis unfolding split using assms(3,4) by (simp add: sub_slice_def)
qed

definition group_offset :: "entry list list \<Rightarrow> nat \<Rightarrow> nat" where
  "group_offset gs k = length SPARSE_TABLE_MAGIC + length (concat (map enc_block (take k gs)))"

lemma nth_refs_of:
  "k < length gs \<Longrightarrow> refs_of sha off gs ! k = \<lparr>first_hash = fst (hd (gs ! k)),
     ref_offset = off + length (concat (map enc_block (take k gs))), ref_len = length (enc_block (gs ! k)), ref_hash = sha (enc_block (gs ! k))\<rparr>"
proof (induction gs arbitrary: k off)
  case (Cons g gs)
  then show ?case by (cases k) (simp_all add: add.assoc)
qed simp

lemma group_offset_Suc: "k < length gs \<Longrightarrow> group_offset gs (Suc k) = group_offset gs k + length (enc_block (gs ! k))"
  by (simp add: group_offset_def take_Suc_conv_app_nth)

lemma group_offset_mono: "j \<le> k \<Longrightarrow> group_offset gs j \<le> group_offset gs k"
proof -
  assume "j \<le> k"
  then have "take k gs = take j gs @ take (k - j) (drop j gs)" using take_add [of j "k - j" gs] by simp
  then show ?thesis by (simp add: group_offset_def)
qed

lemma length_index_entry: "\<forall>x. length (sha x) = 32 \<Longrightarrow> r \<in> set (refs_of sha off gs) \<Longrightarrow> length (index_entry r) = INDEX_ENTRY_BYTES"
  by (induction gs arbitrary: off) (auto simp: index_entry_def INDEX_ENTRY_BYTES_def)

lemma index_entry_fields:
  assumes "\<forall>x. length (sha x) = 32" "k < length gs" "group_offset gs k < 2 ^ 64"
  defines "r \<equiv> refs_of sha (length SPARSE_TABLE_MAGIC) gs ! k"
  shows "sub_slice (index_entry r) 0 8 = to_le_bytes (fst (hd (gs ! k)))" "read_u64 (sub_slice (index_entry r) 8 16) = group_offset gs k"
    "sub_slice (index_entry r) 16 48 = sha (enc_block (gs ! k))"
proof -
  have r: "first_hash r = fst (hd (gs ! k))" "ref_offset r = group_offset gs k" "ref_hash r = sha (enc_block (gs ! k))"
    by (simp_all add: r_def nth_refs_of assms(2) group_offset_def)
  have e: "index_entry r = to_le_bytes (fst (hd (gs ! k))) @ to_le_bytes (of_nat (group_offset gs k)) @ sha (enc_block (gs ! k))"
    by (simp add: index_entry_def r)
  show "sub_slice (index_entry r) 0 8 = to_le_bytes (fst (hd (gs ! k)))" by (simp add: e sub_slice_def)
  have "sub_slice (index_entry r) 8 16 = to_le_bytes (of_nat (group_offset gs k))" by (simp add: e sub_slice_def)
  then show "read_u64 (sub_slice (index_entry r) 8 16) = group_offset gs k" using assms(3) by (simp add: unat_of_nat)
  show "sub_slice (index_entry r) 16 48 = sha (enc_block (gs ! k))" using assms(1) by (simp add: e sub_slice_def)
qed

lemma enc_block_length: "g \<noteq> [] \<Longrightarrow> list_all writable_entry g \<Longrightarrow> 8 < length (enc_block g)"
proof -
  assume "g \<noteq> []" "list_all writable_entry g"
  then obtain h v l rest bs where "g = (h, v, l) # rest" "write_value v l = Inr bs" by (cases g) (auto simp: writable_entry_def)
  with write_value_ne show ?thesis by simp
qed

lemma parse_block_refs:
  assumes sha: "\<forall>x. length (sha x) = 32" and fits: "list_all block_fits gs" and wr: "list_all writable_entry (concat gs)"
    and small: "group_offset gs (length gs) < 2 ^ 64"
  defines "refs \<equiv> refs_of sha (length SPARSE_TABLE_MAGIC) gs"
  shows "k \<le> length gs \<Longrightarrow> visit_all (parse_block_ref (concat (map index_entry refs)) (length gs) (group_offset gs (length gs)))
    ([], length SPARSE_TABLE_MAGIC) (map index_entry (take k refs)) = Inr (take k refs, group_offset gs k)"
proof (induction k)
  case 0
  then show ?case by (simp add: group_offset_def)
next
  case (Suc k)
  then have k: "k < length gs" by simp
  have len: "length refs = length gs" by (simp add: refs_def)
  have off: "group_offset gs j < 2 ^ 64" if "j \<le> length gs" for j
    using group_offset_mono [OF that, of gs] small by simp
  note f = index_entry_fields [OF sha k off [OF less_imp_le [OF k]], folded refs_def]
  let ?nx = "if length (take k refs) + 1 < length gs
      then read_u64 (sub_slice (concat (map index_entry refs)) ((length (take k refs) + 1) * INDEX_ENTRY_BYTES + 8)
        ((length (take k refs) + 1) * INDEX_ENTRY_BYTES + 16)) else group_offset gs (length gs)"
  have nx: "?nx = group_offset gs (Suc k)"
  proof (cases "Suc k < length gs")
    case True
    have "sub_slice (concat (map index_entry refs)) (Suc k * INDEX_ENTRY_BYTES + 8) (Suc k * INDEX_ENTRY_BYTES + 16)
        = sub_slice (index_entry (refs ! Suc k)) 8 16"
      by (rule sub_slice_concat) (use True len length_index_entry [OF sha] in \<open>auto simp: refs_def INDEX_ENTRY_BYTES_def\<close>)
    with index_entry_fields(2) [OF sha True off [OF less_imp_le [OF True]], folded refs_def] True len k show ?thesis by simp
  next
    case False
    with k len have "Suc k = length gs" by simp
    with k len show ?thesis by simp
  qed
  have g: "gs ! k \<noteq> []" "length (enc_block (gs ! k)) \<le> BLOCK_BYTES + 32" "list_all writable_entry (gs ! k)"
    using fits wr nth_mem [OF k] by (auto simp: block_fits_def list_all_iff)
  have "parse_block_ref (concat (map index_entry refs)) (length gs) (group_offset gs (length gs)) (take k refs, group_offset gs k)
      (index_entry (refs ! k)) = Inr (take k refs @ [refs ! k], group_offset gs (Suc k))"
    unfolding parse_block_ref_def prod.case Let_def nx f
    using enc_block_length [OF g(1,3)] g(2) k
    by (simp add: checked_sub_def group_offset_Suc refs_def nth_refs_of) (simp add: group_offset_def)
  with Suc k len show ?case by (simp add: take_Suc_conv_app_nth visit_all_snoc)
qed

lemma heads_ascending:
  "ascending (hashes (concat gs)) \<Longrightarrow> \<forall>g\<in>set gs. g \<noteq> [] \<Longrightarrow> ascending (map (\<lambda>g. fst (hd g)) gs)"
proof (induction gs)
  case (Cons g gs)
  have "fst (hd g) < fst (hd g')" if g': "g' \<in> set gs" for g'
  proof -
    have "hd g \<in> set g" "hd g' \<in> set g'" using Cons.prems(2) g' by auto
    moreover have "\<forall>x\<in>set g. \<forall>y\<in>set gs. \<forall>z\<in>set y. fst x < fst z" using Cons.prems(1) by (simp add: sorted_wrt_append)
    ultimately show ?thesis using g' by blast
  qed
  with Cons show ?case by (auto simp: sorted_wrt_append)
qed simp

lemma map_first_hash_refs: "map first_hash (refs_of sha off gs) = map (\<lambda>g. fst (hd g)) gs"
  by (induction gs arbitrary: off) simp_all

lemma parse_finished:
  assumes sha: "\<forall>x. length (sha x) = 32" and es: "concat gs = es"
    and fits: "list_all block_fits gs" and asc: "ascending (hashes es)" and wr: "list_all writable_entry es"
    and blob: "blob = SPARSE_TABLE_MAGIC @ concat (map enc_block gs) @ concat (map index_entry (refs_of sha (length SPARSE_TABLE_MAGIC) gs))
      @ to_le_bytes (of_nat (length es)) @ to_le_bytes (of_nat (length gs))
      @ to_le_bytes (of_nat (length SPARSE_TABLE_MAGIC + length (concat (map enc_block gs)))) @ SPARSE_TABLE_MAGIC"
    and small: "length blob < 2 ^ 64" and t: "t \<le> group_offset gs (length gs)"
  shows "parse_sparse (length blob) (drop t blob) = Inr \<lparr>index_entries = length es, index_blocks = refs_of sha (length SPARSE_TABLE_MAGIC) gs\<rparr>"
proof -
  define refs where "refs = refs_of sha (length SPARSE_TABLE_MAGIC) gs"
  define A where "A = SPARSE_TABLE_MAGIC @ concat (map enc_block gs)"
  define I where "I = concat (map index_entry refs)"
  define F where "F = to_le_bytes (of_nat (length es)) @ to_le_bytes (of_nat (length gs)) @ to_le_bytes (of_nat (length A)) @ SPARSE_TABLE_MAGIC"
  have blob': "blob = A @ I @ F" by (simp add: blob A_def I_def F_def refs_def)
  have mag: "length SPARSE_TABLE_MAGIC = 8" by (simp add: SPARSE_TABLE_MAGIC_def)
  have F: "length F = 32" by (simp add: F_def mag)
  have A: "length A = group_offset gs (length gs)" by (simp add: A_def group_offset_def)
  have I: "length I = length gs * 48"
  proof -
    have "\<forall>r\<in>set refs. length (index_entry r) = 48"
      using length_index_entry [OF sha] unfolding refs_def INDEX_ENTRY_BYTES_def by simp
    from length_concat_uniform [OF this] show ?thesis by (simp add: I_def refs_def)
  qed
  have total: "length blob = length A + length I + 32" by (simp add: blob' F)
  have tA: "t \<le> length A" using t A by simp
  let ?tail = "drop t blob"
  have tl: "length ?tail = length A - t + length I + 32" using total tA by simp
  have footer: "drop (length ?tail - 32) ?tail = F"
    unfolding tl using tA by (simp add: blob' F)
  have small': "length es < 2 ^ 64" "length gs < 2 ^ 64" "length A < 2 ^ 64"
  proof -
    show "length A < 2 ^ 64" "length gs < 2 ^ 64" using small total I by simp_all
    have "length es \<le> length (concat (map enc_block gs))"
    proof -
      have "length g \<le> length (enc_block g)" for g
      proof -
        have "length r \<le> length (enc_rest p r)" for p r
        proof (induction p r rule: enc_rest.induct)
          case (2 p h v l es)
          have "1 \<le> length (write_varint (h - p))" by (simp add: Suc_le_eq)
          with 2 show ?case unfolding enc_rest.simps length_append length_Cons by linarith
        qed simp
        then show ?thesis by (cases g) (auto simp: add_increasing)
      qed
      then have "length (concat gs) \<le> length (concat (map enc_block gs))" by (induction gs) (auto intro: add_mono)
      then show ?thesis by (simp add: es)
    qed
    then show "length es < 2 ^ 64" using \<open>length A < 2 ^ 64\<close> by (simp add: A_def)
  qed
  have f: "sub_slice F 24 32 = SPARSE_TABLE_MAGIC" "sub_slice F 0 8 = to_le_bytes (of_nat (length es))"
    "sub_slice F 8 16 = to_le_bytes (of_nat (length gs))" "sub_slice F 16 24 = to_le_bytes (of_nat (length A))"
    by (simp_all add: F_def sub_slice_def mag)
  have n: "read_u64 (to_le_bytes (of_nat (length es))) = length es" "read_u64 (to_le_bytes (of_nat (length gs))) = length gs"
    "read_u64 (to_le_bytes (of_nat (length A))) = length A" using small' by (simp_all add: unat_of_nat)
  have mul: "mul_u64 (length gs) INDEX_ENTRY_BYTES = Some (length I)"
    using small total I by (simp add: mul_u64_def INDEX_ENTRY_BYTES_def)
  have abut: "(case add_u64 (length A) (length I) of None \<Rightarrow> None | Some e \<Rightarrow> add_u64 e FOOTER_BYTES) = Some (length blob)"
    using small total by (simp add: add_u64_def FOOTER_BYTES_def)
  have rng: "get_range ?tail (length A - (length blob - length ?tail)) (length ?tail - FOOTER_BYTES) = Some I"
  proof -
    have 1: "length A - (length blob - length ?tail) = length A - t" "length ?tail - FOOTER_BYTES = length A - t + length I"
      using tA total tl by (simp_all add: FOOTER_BYTES_def)
    have "sub_slice ?tail (length A - t) (length A - t + length I) = I" using tA by (simp add: sub_slice_def blob')
    with tl show ?thesis unfolding 1 get_range_def by simp
  qed
  have refs: "visit_all (parse_block_ref I (length gs) (length A)) ([], length SPARSE_TABLE_MAGIC) (chunks_exact INDEX_ENTRY_BYTES I)
      = Inr (refs, length A)"
  proof -
    have "chunks_exact INDEX_ENTRY_BYTES I = map index_entry refs"
      unfolding I_def by (rule chunks_exact_concat) (use length_index_entry [OF sha] in \<open>auto simp: refs_def INDEX_ENTRY_BYTES_def\<close>)
    moreover have off: "group_offset gs (length gs) < 2 ^ 64" using small'(3) unfolding A .
    have "list_all writable_entry (concat gs)" using wr unfolding es .
    from parse_block_refs [OF sha fits this off order_refl] have
      "visit_all (parse_block_ref I (length gs) (length A)) ([], length SPARSE_TABLE_MAGIC) (map index_entry refs) = Inr (refs, length A)"
      unfolding A I_def refs_def by (simp only: take_all length_refs_of order_refl)
    ultimately show ?thesis by (simp only:)
  qed
  have sorted: "successively (\<lambda>a b. first_hash a < first_hash b) refs"
  proof -
    have "ascending (map (\<lambda>g. fst (hd g)) gs)"
      by (rule heads_ascending) (use asc es fits in \<open>auto simp: block_fits_def list_all_iff\<close>)
    then have "ascending (map first_hash refs)" by (simp add: refs_def map_first_hash_refs)
    then have "successively (<) (map first_hash refs)" by simp
    then show ?thesis by (simp only: successively_map)
  qed
  have emp: "(length es = 0) = (refs = [])"
    unfolding es [symmetric] refs_def using fits by (cases gs) (auto simp: block_fits_def)
  have size: "length blob \<ge> length SPARSE_TABLE_MAGIC + FOOTER_BYTES \<and> length ?tail \<ge> FOOTER_BYTES \<and> length ?tail \<le> length blob"
  proof -
    have "8 \<le> length A" by (simp add: A_def mag)
    with total tl tA show ?thesis unfolding FOOTER_BYTES_def mag by linarith
  qed
  have start: "length blob - length ?tail \<le> length A" using tA total tl by linarith
  have foot: "drop (length ?tail - FOOTER_BYTES) ?tail = F" using footer by (simp add: FOOTER_BYTES_def)
  show ?thesis unfolding parse_sparse_def Let_def foot f n mul and_then_Inr context_of_simps abut rng refs prod.case
    using size start sorted emp I by (simp only: ensure_True refs_def simp_thms)
qed

section \<open>Which block holds a hash\<close>

lemma map_of_none: "h \<notin> set (hashes es) \<Longrightarrow> map_of es h = None"
  by (simp add: map_of_eq_None_iff)

lemma takeWhile_split:
  assumes "ascending (map f xs)" "k < length xs"
  shows "k < length (takeWhile (\<lambda>x. f x \<le> (h :: 'a::linorder)) xs) \<longleftrightarrow> f (xs ! k) \<le> h"
proof
  assume "k < length (takeWhile (\<lambda>x. f x \<le> h) xs)"
  then show "f (xs ! k) \<le> h" by (metis nth_mem set_takeWhileD takeWhile_nth)
next
  assume le: "f (xs ! k) \<le> h"
  show "k < length (takeWhile (\<lambda>x. f x \<le> h) xs)"
  proof (rule ccontr)
    let ?n = "length (takeWhile (\<lambda>x. f x \<le> h) xs)"
    assume "\<not> k < ?n"
    then have "?n \<le> k" "?n < length xs" using assms(2) by simp_all
    then have "f (xs ! ?n) \<le> f (xs ! k)"
      using assms by (cases "?n = k") (auto simp: sorted_wrt_iff_nth_less less_imp_le)
    moreover have "\<not> f (xs ! ?n) \<le> h" using \<open>?n < length xs\<close> by (rule nth_length_takeWhile)
    ultimately show False using le by simp
  qed
qed

lemma hash_in_group: "h \<in> set (hashes (concat gs)) \<Longrightarrow> \<exists>k<length gs. h \<in> set (hashes (gs ! k))"
proof -
  assume "h \<in> set (hashes (concat gs))"
  then obtain g where "g \<in> set gs" "h \<in> set (hashes g)" by auto
  then show ?thesis by (metis in_set_conv_nth)
qed

lemma nth_group_hash:
  assumes "ascending (hashes (concat gs))" "i < j" "j < length gs" "e \<in> set (gs ! i)" "e' \<in> set (gs ! j)"
  shows "fst e < fst e'"
proof -
  have split: "concat gs = concat (take j gs) @ concat (drop j gs)" by (metis append_take_drop_id concat_append)
  have "gs ! i = take j gs ! i" "i < length (take j gs)" using assms(2,3) by simp_all
  then have "gs ! i \<in> set (take j gs)" by (metis nth_mem)
  then have "e \<in> set (concat (take j gs))" using assms(4) by auto
  moreover have "gs ! j \<in> set (drop j gs)" using assms(3) by (metis Cons_nth_drop_Suc list.set_intros(1))
  then have "e' \<in> set (concat (drop j gs))" using assms(5) by auto
  ultimately show ?thesis using assms(1) unfolding split by (auto simp: sorted_wrt_append)
qed

lemma head_least: "ascending (hashes g) \<Longrightarrow> e \<in> set g \<Longrightarrow> fst (hd g) \<le> fst e"
  by (cases g) (auto simp: less_imp_le)

lemma block_for_group:
  assumes asc: "ascending (hashes (concat gs))" and ne: "\<forall>g\<in>set gs. g \<noteq> []"
    and refs: "map first_hash (index_blocks idx) = map (\<lambda>g. fst (hd g)) gs"
  shows "case block_for idx h of None \<Rightarrow> map_of (concat gs) h = None
    | Some j \<Rightarrow> j < length gs \<and> map_of (concat gs) h = map_of (gs ! j) h"
proof -
  let ?bs = "index_blocks idx" and ?n = "length (takeWhile (\<lambda>r. first_hash r \<le> h) (index_blocks idx))"
  have len: "length ?bs = length gs" using refs by (metis length_map)
  have fh: "first_hash (?bs ! k) = fst (hd (gs ! k))" if "k < length gs" for k
    using arg_cong [OF refs, of "\<lambda>xs. xs ! k"] that len by simp
  have heads: "ascending (map first_hash ?bs)" unfolding refs by (rule heads_ascending [OF asc ne])
  have before: "k < ?n \<longleftrightarrow> fst (hd (gs ! k)) \<le> h" if "k < length gs" for k
    using takeWhile_split [OF heads, of k h] that len fh by simp
  have n: "?n \<le> length gs" using length_takeWhile_le [of _ ?bs] len by metis
  have ascg: "ascending (hashes g)" if "g \<in> set gs" for g
  proof -
    from that obtain xs ys where "gs = xs @ g # ys" by (metis split_list)
    with asc show ?thesis by (simp add: sorted_wrt_append)
  qed
  have outside: "h \<notin> set (hashes (gs ! k))" if k: "k < length gs" "k \<noteq> ?n - 1 \<or> ?n = 0" for k
  proof
    assume "h \<in> set (hashes (gs ! k))"
    then obtain e where e: "e \<in> set (gs ! k)" "fst e = h" by auto
    have "fst (hd (gs ! k)) \<le> h" using head_least [OF ascg e(1)] e(2) k(1) by simp
    then have "k < ?n" using before [OF k(1)] by simp
    with k(2) have lt: "k < ?n - 1" "?n - 1 < length gs" using n by auto
    then have "gs ! (?n - 1) \<noteq> []" using ne by simp
    then have "fst e < fst (hd (gs ! (?n - 1)))" by (intro nth_group_hash [OF asc lt e(1)]) simp
    moreover have "fst (hd (gs ! (?n - 1))) \<le> h" using before [OF lt(2)] lt by linarith
    ultimately show False using e(2) by simp
  qed
  have map_concat: "map_of (concat gs) h = (if h \<in> set (hashes (concat gs)) then map_of (concat gs) h else None)"
    using map_of_none by auto
  show ?thesis
  proof (cases "?n = 0")
    case True
    then have "h \<notin> set (hashes (concat gs))" using outside hash_in_group [of h gs] by blast
    with True show ?thesis using map_of_none by (simp add: block_for_def checked_sub_def)
  next
    case False
    let ?j = "?n - 1"
    have j: "?j < length gs" using False n by linarith
    have split: "concat gs = concat (take ?j gs) @ gs ! ?j @ concat (drop (Suc ?j) gs)"
      using arg_cong [OF id_take_nth_drop [OF j], of concat] by simp
    have "h \<notin> set (hashes (concat (take ?j gs)))"
    proof
      assume "h \<in> set (hashes (concat (take ?j gs)))"
      from hash_in_group [OF this] obtain k where k: "k < length (take ?j gs)" "h \<in> set (hashes (take ?j gs ! k))" by blast
      then have "k < ?j" by simp
      moreover from this k(2) have "h \<in> set (hashes (gs ! k))" by (simp only: nth_take)
      ultimately have "k < ?j" "h \<in> set (hashes (gs ! k))" by blast+
      with outside [of k] j show False by simp
    qed
    moreover have "h \<notin> set (hashes (concat (drop (Suc ?j) gs)))"
    proof
      assume "h \<in> set (hashes (concat (drop (Suc ?j) gs)))"
      from hash_in_group [OF this] obtain i where i: "i < length (drop (Suc ?j) gs)" "h \<in> set (hashes (drop (Suc ?j) gs ! i))" by blast
      then have "Suc ?j + i < length gs" by simp
      moreover from i(2) have "h \<in> set (hashes (gs ! (Suc ?j + i)))" using \<open>?j < length gs\<close> by (simp only: nth_drop Suc_leI)
      ultimately have "Suc ?j + i < length gs" "h \<in> set (hashes (gs ! (Suc ?j + i)))" by blast+
      with outside [of "Suc ?j + i"] show False by simp
    qed
    ultimately have "map_of (concat gs) h = map_of (gs ! ?j) h"
      by (subst split) (simp add: map_of_none map_add_def split: option.split)
    moreover have "1 \<le> ?n" using False by linarith
    then have "block_for idx h = Some ?j" unfolding block_for_def checked_sub_def by (simp only: if_True)
    ultimately show ?thesis using j by simp
  qed
qed

end
