(* ===== verification/Terms.thy ===== *)
theory Terms
  imports Sparse_Table Sparse_Grams
begin

text \<open>
  The term dictionary of a segment, \<open>crates/index/src/terms.rs\<close>: one finite-state map, 256 of them sharded by the first
  byte of a trigram, or a sparse table. The \<open>fst\<close> crate is the parameter \<open>F\<close>: a builder is the pairs
  inserted so far, a map is its pairs in order, and \<open>fst_laws\<close> states what the crate documents.
  The theorem is that a dictionary returns exactly what was inserted, for every strategy.
\<close>

section \<open>The finite-state map crate\<close>

type_synonym pairs = "(bytes \<times> u64) list"

record fst_crate =
  fst_insert :: "pairs \<Rightarrow> bytes \<times> u64 \<Rightarrow> pairs result"
  fst_finish :: "pairs \<Rightarrow> bytes result"
  fst_open :: "bytes \<Rightarrow> pairs result"

definition TRIGRAM_MAGIC :: bytes where "TRIGRAM_MAGIC = [0x53, 0x47, 0x54, 0x45, 0x52, 0x4d, 0x30, 0x31]"

text \<open>
  \<open>MapBuilder::insert\<close> takes keys in lexicographic order and fails otherwise; \<open>into_inner\<close> gives the bytes of a map, which are
  never empty and start with a version number; \<open>Map::new\<close> on them gives the map back.
\<close>

definition fst_laws :: "fst_crate \<Rightarrow> bool" where
  "fst_laws F \<longleftrightarrow>
     (\<forall>kvs k v kvs'. fst_insert F kvs (k, v) = Inr kvs' \<longrightarrow> kvs' = kvs @ [(k, v)] \<and> k \<notin> set (map fst kvs)) \<and>
     (\<forall>kvs bs. fst_finish F kvs = Inr bs \<longrightarrow> bs \<noteq> [] \<and> take 8 bs \<noteq> TRIGRAM_MAGIC \<and> fst_open F bs = Inr kvs)"

section \<open>The builder\<close>

definition TRIGRAM_SHARDS :: nat where "TRIGRAM_SHARDS = 256"
definition TRIGRAM_OFFSETS :: nat where "TRIGRAM_OFFSETS = TRIGRAM_SHARDS + 1"
definition TRIGRAM_FOOTER_LEN :: nat where "TRIGRAM_FOOTER_LEN = TRIGRAM_OFFSETS * 8"

text \<open>A \<open>CountingWriter\<close> is the bytes written through it; its length is their count and must fit.\<close>

definition write_counting :: "bytes \<Rightarrow> bytes \<Rightarrow> bytes result" where
  "write_counting out bs = ensure (length (out @ bs) < 2 ^ 64) ''term map length overflows u64'' (Inr (out @ bs))"

text \<open>The writer is absent exactly while a shard's builder owns it, so \<open>tb_out\<close> is what was written before that shard.\<close>

record trigram_builder =
  tb_out :: bytes
  tb_builder :: "pairs option"
  tb_shard :: nat
  tb_offsets :: "nat list"
  tb_empty :: bytes

definition new_trigram :: "fst_crate \<Rightarrow> trigram_builder result" where
  "new_trigram F =
     and_then (write_counting [] TRIGRAM_MAGIC) (\<lambda>out.
     and_then (fst_finish F []) (\<lambda>no_terms.
       Inr \<lparr>tb_out = out, tb_builder = None, tb_shard = 0, tb_offsets = [length TRIGRAM_MAGIC], tb_empty = no_terms\<rparr>))"

definition close_shard :: "fst_crate \<Rightarrow> trigram_builder \<Rightarrow> trigram_builder result" where
  "close_shard F b =
     and_then (case tb_builder b of
         Some kvs \<Rightarrow> and_then (fst_finish F kvs) (write_counting (tb_out b))
       | None \<Rightarrow> write_counting (tb_out b) (tb_empty b)) (\<lambda>out.
       Inr (b\<lparr>tb_out := out, tb_builder := None, tb_offsets := tb_offsets b @ [length out], tb_shard := tb_shard b + 1\<rparr>))"

text \<open>\<open>while self.shard < shard { self.close_shard()?; }\<close>\<close>

definition close_until :: "fst_crate \<Rightarrow> trigram_builder \<Rightarrow> nat \<Rightarrow> trigram_builder result" where
  "close_until F b shard = visit_all (\<lambda>b _. close_shard F b) b [tb_shard b..<shard]"

abbreviation open_pairs :: "trigram_builder \<Rightarrow> pairs" where
  "open_pairs b \<equiv> (case tb_builder b of Some kvs \<Rightarrow> kvs | None \<Rightarrow> [])"

definition insert_trigram :: "fst_crate \<Rightarrow> trigram_builder \<Rightarrow> bytes \<Rightarrow> u64 \<Rightarrow> trigram_builder result" where
  "insert_trigram F b gram v =
     ensure (length gram = 3) ''trigram term has invalid length''
     (let shard = unat (gram ! 0)
      in ensure (shard \<ge> tb_shard b) ''trigram terms are not sorted''
         (and_then (close_until F b shard) (\<lambda>b.
          and_then (fst_insert F (open_pairs b) (drop 1 gram, v)) (\<lambda>kvs.
            Inr (b\<lparr>tb_builder := Some kvs\<rparr>)))))"

definition finish_trigram :: "fst_crate \<Rightarrow> trigram_builder \<Rightarrow> bytes result" where
  "finish_trigram F b =
     and_then (close_until F b TRIGRAM_SHARDS) (\<lambda>b.
     ensure (length (tb_offsets b) = TRIGRAM_OFFSETS) ''trigram term offsets are incomplete''
     (visit_all (\<lambda>out off. write_counting out (to_le_bytes (of_nat off))) (tb_out b) (tb_offsets b)))"

datatype term_builder =
    SingleBuilder pairs
  | SparseBuilder sparse_writer
  | TrigramBuilder trigram_builder

definition new_terms :: "fst_crate \<Rightarrow> strategy \<Rightarrow> bool \<Rightarrow> term_builder result" where
  "new_terms F strat is_sharded =
     ensure (\<not> is_sharded \<or> strat = Trigram) ''only trigram term maps can be sharded''
     (case strat of
        Trigram \<Rightarrow> if is_sharded then and_then (new_trigram F) (\<lambda>b. Inr (TrigramBuilder b)) else Inr (SingleBuilder [])
      | Sparse \<Rightarrow> Inr (SparseBuilder new_sparse))"

fun insert_term :: "fst_crate \<Rightarrow> (bytes \<Rightarrow> bytes) \<Rightarrow> term_builder \<Rightarrow> bytes \<times> u64 \<times> u64 option \<Rightarrow> term_builder result" where
  "insert_term F sha (SingleBuilder kvs) (gram, v, l) =
     ensure (l = None) ''trigram lengths derive from counts''
     (and_then (fst_insert F kvs (gram, v)) (\<lambda>kvs. Inr (SingleBuilder kvs)))"
| "insert_term F sha (SparseBuilder w) (gram, v, l) =
     ensure (length gram = 8) ''sparse term key must be an 8-byte hash''
     (and_then (insert_sparse sha w (from_be_bytes gram, v, l)) (\<lambda>w. Inr (SparseBuilder w)))"
| "insert_term F sha (TrigramBuilder b) (gram, v, l) =
     ensure (l = None) ''trigram lengths derive from counts''
     (and_then (insert_trigram F b gram v) (\<lambda>b. Inr (TrigramBuilder b)))"

fun finish_terms :: "fst_crate \<Rightarrow> (bytes \<Rightarrow> bytes) \<Rightarrow> term_builder \<Rightarrow> (bytes \<times> string option) result" where
  "finish_terms F sha (SingleBuilder kvs) = and_then (fst_finish F kvs) (\<lambda>bs. Inr (bs, None))"
| "finish_terms F sha (SparseBuilder w) = (let (bs, tail_hash) = finish_sparse sha w in Inr (bs, Some tail_hash))"
| "finish_terms F sha (TrigramBuilder b) = and_then (finish_trigram F b) (\<lambda>bs. Inr (bs, None))"

section \<open>The map\<close>

datatype term_map =
    SingleMap pairs
  | SparseMap sparse_table_index bytes
  | SparseRemote sparse_table_index
  | TrigramMap "pairs list"

definition open_trigram :: "fst_crate \<Rightarrow> bytes \<Rightarrow> term_map result" where
  "open_trigram F bs =
     ensure (length bs \<ge> length TRIGRAM_MAGIC + TRIGRAM_FOOTER_LEN) ''trigram term map footer is truncated''
     (let footer = length bs - TRIGRAM_FOOTER_LEN;
          offsets = map read_u64 (chunks_exact 8 (drop footer bs))
      in ensure (length offsets = TRIGRAM_OFFSETS \<and> offsets ! 0 = length TRIGRAM_MAGIC \<and> last offsets = footer \<and> ascending offsets)
           ''trigram term map offsets are invalid''
         (and_then (visit_all (\<lambda>maps (a, b). and_then (fst_open F (sub_slice bs a b)) (\<lambda>m. Inr (maps @ [m]))) []
             (zip offsets (tl offsets))) (\<lambda>maps. Inr (TrigramMap maps))))"

definition open_terms :: "fst_crate \<Rightarrow> bytes \<Rightarrow> strategy \<Rightarrow> term_map result" where
  "open_terms F bs strat =
     (if strat = Trigram \<and> length bs \<ge> length TRIGRAM_MAGIC \<and> take (length TRIGRAM_MAGIC) bs = TRIGRAM_MAGIC
      then open_trigram F bs
      else case strat of
             Sparse \<Rightarrow> and_then (parse_sparse (length bs) bs) (\<lambda>idx. Inr (SparseMap idx bs))
           | Trigram \<Rightarrow> and_then (fst_open F bs) (\<lambda>m. Inr (SingleMap m)))"

text \<open>
  The decoded blocks are a cache behind a mutex, threaded through the lookups. The entries of a
  block are strictly ascending, where a binary search by key finds the entry with that key.
\<close>

type_synonym decoded_blocks = "nat \<rightharpoonup> entry list"

definition binary_search_by_hash :: "entry list \<Rightarrow> u64 \<Rightarrow> entry option" where
  "binary_search_by_hash es hash = find (\<lambda>e. fst e = hash) es"

definition decode_block :: "bytes \<Rightarrow> sparse_block_ref \<Rightarrow> entry list result" where
  "decode_block bs r =
     and_then (context_of (add_u64 (ref_offset r) (ref_len r)) ''sparse block extent overflows'') (\<lambda>stop.
     and_then (context_of (get_range bs (ref_offset r) stop) ''sparse block extends beyond the dictionary'') (\<lambda>raw.
       for_each_entry raw (\<lambda>es h v l. Inr (es @ [(h, v, l)])) []))"

definition term_value_of :: "entry \<Rightarrow> term_value" where
  "term_value_of = (\<lambda>(h, v, l). \<lparr>packed = v, tv_len = l\<rparr>)"

fun get_term :: "crates \<Rightarrow> term_map \<Rightarrow> decoded_blocks \<Rightarrow> bytes \<Rightarrow> (term_value option \<times> decoded_blocks) result" where
  "get_term X (SingleMap m) cache gram = Inr (map_option (\<lambda>v. \<lparr>packed = v, tv_len = None\<rparr>) (map_of m gram), cache)"
| "get_term X (SparseMap idx bs) cache gram =
     (let hash = hash_ngram X gram
      in case block_for idx hash of
           None \<Rightarrow> Inr (None, cache)
         | Some block_id \<Rightarrow>
             and_then (case cache block_id of
                 Some es \<Rightarrow> Inr (es, cache)
               | None \<Rightarrow> and_then (or_panic (get (index_blocks idx) block_id)) (\<lambda>r.
                   and_then (decode_block bs r) (\<lambda>es. Inr (es, cache(block_id \<mapsto> es))))) (\<lambda>(es, cache).
             Inr (map_option term_value_of (binary_search_by_hash es hash), cache)))"
| "get_term X (SparseRemote idx) cache gram = Inl Panic"
| "get_term X (TrigramMap maps) cache gram =
     (if length gram = 3
      then and_then (or_panic (get maps (unat (gram ! 0)))) (\<lambda>m.
        Inr (map_option (\<lambda>v. \<lparr>packed = v, tv_len = None\<rparr>) (map_of m (drop 1 gram)), cache))
      else Inr (None, cache))"

fun terms_len :: "term_map \<Rightarrow> nat" where
  "terms_len (SingleMap m) = length m"
| "terms_len (SparseMap idx bs) = index_entries idx"
| "terms_len (SparseRemote idx) = index_entries idx"
| "terms_len (TrigramMap maps) = sum_list (map length maps)"

type_synonym 's term_visitor = "'s \<Rightarrow> bytes \<Rightarrow> u64 \<Rightarrow> u64 option \<Rightarrow> 's result"

definition visit_sparse_block :: "bytes \<Rightarrow> 's term_visitor \<Rightarrow> 's \<Rightarrow> sparse_block_ref \<Rightarrow> 's result" where
  "visit_sparse_block bs visit s r =
     and_then (context_of (add_u64 (ref_offset r) (ref_len r)) ''sparse table block range overflows'') (\<lambda>stop.
     and_then (context_of (get_range bs (ref_offset r) stop) ''sparse table block is out of bounds'') (\<lambda>raw.
       for_each_entry raw (\<lambda>s h v l. visit s (to_be_bytes h) v l) s))"

fun visit_terms :: "term_map \<Rightarrow> 's term_visitor \<Rightarrow> 's \<Rightarrow> 's result" where
  "visit_terms (SingleMap m) visit s = visit_all (\<lambda>s (k, v). visit s k v None) s m"
| "visit_terms (SparseRemote idx) visit s = Inl (Bail ''remote sparse dictionaries do not support iteration'')"
| "visit_terms (SparseMap idx bs) visit s = visit_all (visit_sparse_block bs visit) s (index_blocks idx)"
| "visit_terms (TrigramMap maps) visit s =
     visit_all (\<lambda>s (shard, m).
       visit_all (\<lambda>s (suffix, v).
         ensure (length suffix = 2) ''trigram suffix has invalid length'' (visit s (of_nat shard # suffix) v None)) s m)
       s (enumerate 0 maps)"

section \<open>The sparse dictionary\<close>

definition entry_of :: "bytes \<times> u64 \<times> u64 option \<Rightarrow> entry" where
  "entry_of = (\<lambda>(k, v, l). (from_be_bytes k, v, l))"

lemma insert_terms_sparse:
  "visit_all (insert_term F sha) (SparseBuilder w) ents = Inr b \<Longrightarrow>
     \<exists>w'. b = SparseBuilder w' \<and> visit_all (insert_sparse sha) w (map entry_of ents) = Inr w' \<and> (\<forall>e\<in>set ents. length (fst e) = 8)"
proof (induction ents arbitrary: w)
  case (Cons e ents)
  obtain k v l where e: "e = (k, v, l)" by (cases e)
  from Cons.prems obtain w1 where
    1: "length k = 8" "insert_sparse sha w (from_be_bytes k, v, l) = Inr w1" "visit_all (insert_term F sha) (SparseBuilder w1) ents = Inr b"
    by (auto simp: e visit_all_Cons simp del: visit_all.simps(2))
  from Cons.IH [OF 1(3)] 1(1,2) show ?case by (auto simp: e entry_of_def)
qed auto

text \<open>An open sparse dictionary: the table of the groups \<open>gs\<close> inside the bytes.\<close>

definition holds_groups :: "(bytes \<Rightarrow> bytes) \<Rightarrow> sparse_table_index \<Rightarrow> bytes \<Rightarrow> entry list list \<Rightarrow> bool" where
  "holds_groups sha idx bs gs \<longleftrightarrow>
     index_blocks idx = refs_of sha (length SPARSE_TABLE_MAGIC) gs \<and> index_entries idx = length (concat gs) \<and>
     (\<forall>g\<in>set gs. g \<noteq> []) \<and> ascending (hashes (concat gs)) \<and> list_all writable_entry (concat gs) \<and> length bs < 2 ^ 64 \<and>
     (\<exists>rest. bs = SPARSE_TABLE_MAGIC @ concat (map enc_block gs) @ rest)"

lemma visit_push: "visit_all (\<lambda>s (h, v, l). Inr (s @ [(h, v, l)])) acc es = Inr (acc @ es)"
  by (induction es arbitrary: acc) auto

lemma group_bytes:
  assumes "holds_groups sha idx bs gs" "k < length gs"
  shows "get_range bs (ref_offset (index_blocks idx ! k)) (ref_offset (index_blocks idx ! k) + ref_len (index_blocks idx ! k)) = Some (enc_block (gs ! k))"
    "ref_offset (index_blocks idx ! k) + ref_len (index_blocks idx ! k) < 2 ^ 64" "k < length (index_blocks idx)"
proof -
  from assms(1) obtain rest where bs: "bs = SPARSE_TABLE_MAGIC @ concat (map enc_block gs) @ rest" "length bs < 2 ^ 64"
    "index_blocks idx = refs_of sha (length SPARSE_TABLE_MAGIC) gs" by (auto simp: holds_groups_def)
  let ?pre = "SPARSE_TABLE_MAGIC @ concat (map enc_block (take k gs))"
  have "concat (map enc_block gs) = concat (map enc_block (take k gs)) @ enc_block (gs ! k) @ concat (map enc_block (drop (Suc k) gs))"
    using arg_cong [OF id_take_nth_drop [OF assms(2)], of "\<lambda>gs. concat (map enc_block gs)"] by simp
  then have split: "bs = ?pre @ enc_block (gs ! k) @ (concat (map enc_block (drop (Suc k) gs)) @ rest)" by (simp add: bs(1))
  have r: "ref_offset (index_blocks idx ! k) = length ?pre" "ref_len (index_blocks idx ! k) = length (enc_block (gs ! k))"
    using assms(2) by (simp_all add: bs(3) nth_refs_of)
  have tot: "length ?pre + length (enc_block (gs ! k)) \<le> length bs" by (simp add: split)
  have "sub_slice bs (length ?pre) (length ?pre + length (enc_block (gs ! k))) = enc_block (gs ! k)"
    unfolding split by (rule sub_slice_append_middle) simp_all
  with tot show "get_range bs (ref_offset (index_blocks idx ! k)) (ref_offset (index_blocks idx ! k) + ref_len (index_blocks idx ! k))
      = Some (enc_block (gs ! k))" by (simp only: r get_range_eq_Some) simp
  show "ref_offset (index_blocks idx ! k) + ref_len (index_blocks idx ! k) < 2 ^ 64" unfolding r using tot bs(2) by linarith
  show "k < length (index_blocks idx)" using assms(2) bs(3) by simp
qed

lemma group_visit:
  assumes "holds_groups sha idx bs gs" "k < length gs"
  shows "for_each_entry (enc_block (gs ! k)) visit s = visit_all (\<lambda>s (h, v, l). visit s h v l) s (gs ! k)"
proof (rule for_each_entry_enc)
  from assms(1) have h: "\<forall>g\<in>set gs. g \<noteq> []" "ascending (hashes (concat gs))" "list_all writable_entry (concat gs)"
    by (auto simp: holds_groups_def)
  show "gs ! k \<noteq> []" using h(1) assms(2) by simp
  have split: "concat gs = concat (take k gs) @ gs ! k @ concat (drop (Suc k) gs)"
    using arg_cong [OF id_take_nth_drop [OF assms(2)], of concat] by simp
  show "ascending (hashes (gs ! k))" using h(2) unfolding split by (simp add: sorted_wrt_append)
  show "list_all writable_entry (gs ! k)" using h(3) unfolding split by simp
qed

lemma decode_group:
  assumes "holds_groups sha idx bs gs" "k < length gs"
  shows "decode_block bs (index_blocks idx ! k) = Inr (gs ! k)"
  unfolding decode_block_def add_u64_def group_bytes(1) [OF assms]
  using group_bytes(2) [OF assms] by (simp add: group_visit [OF assms] group_bytes(1) [OF assms] visit_push)

text \<open>The cache holds decoded blocks of the table.\<close>

definition cache_ok :: "entry list list \<Rightarrow> decoded_blocks \<Rightarrow> bool" where
  "cache_ok gs cache \<longleftrightarrow> (\<forall>k es. cache k = Some es \<longrightarrow> k < length gs \<longrightarrow> es = gs ! k)"

lemma find_map_of: "map_option term_value_of (find (\<lambda>e. fst e = h) es) = map_option (\<lambda>(v, l). \<lparr>packed = v, tv_len = l\<rparr>) (map_of es h)"
  by (induction es) (auto simp: term_value_of_def)

lemma get_sparse:
  assumes "holds_groups sha idx bs gs" "cache_ok gs cache"
  shows "\<exists>cache'. get_term X (SparseMap idx bs) cache gram =
      Inr (map_option (\<lambda>(v, l). \<lparr>packed = v, tv_len = l\<rparr>) (map_of (concat gs) (hash_ngram X gram)), cache') \<and> cache_ok gs cache'"
proof -
  let ?h = "hash_ngram X gram"
  from assms(1) have h: "ascending (hashes (concat gs))" "\<forall>g\<in>set gs. g \<noteq> []"
    "map first_hash (index_blocks idx) = map (\<lambda>g. fst (hd g)) gs" by (auto simp: holds_groups_def map_first_hash_refs)
  note bf = block_for_group [OF h, of ?h]
  show ?thesis
  proof (cases "block_for idx ?h")
    case None
    with bf assms(2) show ?thesis by simp
  next
    case (Some k)
    with bf have k: "k < length gs" "map_of (concat gs) ?h = map_of (gs ! k) ?h" by simp_all
    show ?thesis
    proof (cases "cache k")
      case None
      have "cache_ok gs (cache(k \<mapsto> gs ! k))" using assms(2) by (auto simp: cache_ok_def)
      with None Some k decode_group [OF assms(1) k(1)] group_bytes(3) [OF assms(1) k(1)] show ?thesis
        by (simp add: get_def binary_search_by_hash_def find_map_of)
    next
      case (Some es)
      with assms(2) k(1) have "es = gs ! k" by (auto simp: cache_ok_def)
      with Some \<open>block_for idx ?h = Some k\<close> k assms(2) show ?thesis by (simp add: binary_search_by_hash_def find_map_of)
    qed
  qed
qed

lemma open_sparse:
  assumes "\<forall>x. length (sha x) = 32" "visit_all (insert_sparse sha) new_sparse es = Inr w" "finish_sparse sha w = (bs, th)"
    and "length bs < 2 ^ 64"
  shows "\<exists>idx gs. open_terms F bs Sparse = Inr (SparseMap idx bs) \<and> holds_groups sha idx bs gs \<and> concat gs = es"
proof -
  from finish_sparse_blob [OF assms(2,3)] obtain gs where g: "concat gs = es" "list_all block_fits gs" "ascending (hashes es)"
    "list_all writable_entry es"
    "bs = SPARSE_TABLE_MAGIC @ concat (map enc_block gs) @ concat (map index_entry (refs_of sha (length SPARSE_TABLE_MAGIC) gs))
      @ to_le_bytes (of_nat (length es)) @ to_le_bytes (of_nat (length gs))
      @ to_le_bytes (of_nat (length SPARSE_TABLE_MAGIC + length (concat (map enc_block gs)))) @ SPARSE_TABLE_MAGIC" by blast
  from parse_finished [OF assms(1) g assms(4), of 0] have
    "parse_sparse (length bs) bs = Inr \<lparr>index_entries = length es, index_blocks = refs_of sha (length SPARSE_TABLE_MAGIC) gs\<rparr>" by simp
  moreover have "holds_groups sha \<lparr>index_entries = length es, index_blocks = refs_of sha (length SPARSE_TABLE_MAGIC) gs\<rparr> bs gs"
    unfolding holds_groups_def
  proof (intro conjI)
    show "\<exists>rest. bs = SPARSE_TABLE_MAGIC @ concat (map enc_block gs) @ rest" using g(5) by blast
    show "\<forall>g\<in>set gs. g \<noteq> []" using g(2) by (auto simp: block_fits_def list_all_iff)
  qed (use g(1-4) assms(4) in simp_all)
  ultimately show ?thesis using g(1) by (auto simp: open_terms_def)
qed

lemma visit_groups:
  assumes h: "holds_groups sha idx bs gs"
  shows "visit_terms (SparseMap idx bs) visit s = visit_all (\<lambda>s (h, v, l). visit s (to_be_bytes h) v l) s (concat gs)"
proof -
  have blocks: "length (index_blocks idx) = length gs" using h by (simp add: holds_groups_def)
  have one: "visit_sparse_block bs visit s (index_blocks idx ! k) = visit_all (\<lambda>s (h, v, l). visit s (to_be_bytes h) v l) s (gs ! k)"
    if "k < length gs" for k s
    unfolding visit_sparse_block_def add_u64_def group_bytes(1) [OF h that]
    using group_bytes(2) [OF h that] by (simp add: group_visit [OF h that] group_bytes(1) [OF h that])
  have "visit_all (visit_sparse_block bs visit) s (drop k (index_blocks idx)) =
      visit_all (\<lambda>s (h, v, l). visit s (to_be_bytes h) v l) s (concat (drop k gs))" if "k \<le> length gs" for k s
    using that
  proof (induction "length gs - k" arbitrary: k s)
    case 0
    then show ?case using blocks by simp
  next
    case (Suc n)
    then have k: "k < length gs" "n = length gs - Suc k" "Suc k \<le> length gs" by linarith+
    have "drop k (index_blocks idx) = index_blocks idx ! k # drop (Suc k) (index_blocks idx)" "drop k gs = gs ! k # drop (Suc k) gs"
      using k(1) blocks by (simp_all add: Cons_nth_drop_Suc)
    then show ?case using Suc.hyps(1) [OF k(2,3)] one [OF k(1)] by (simp add: visit_all_append split: sum.split)
  qed
  from this [of 0] show ?thesis by simp
qed

section \<open>The sharded dictionary\<close>

definition keyed :: "nat \<Rightarrow> pairs \<Rightarrow> (bytes \<times> u64 \<times> u64 option) list" where
  "keyed k m = map (\<lambda>(suffix, v). (of_nat k # suffix, v, None)) m"

definition keyed_all :: "pairs list \<Rightarrow> (bytes \<times> u64 \<times> u64 option) list" where
  "keyed_all ms = concat (map (\<lambda>(k, m). keyed k m) (enumerate 0 ms))"

definition shard_ends :: "bytes list \<Rightarrow> nat list" where
  "shard_ends bls = map (\<lambda>k. length (TRIGRAM_MAGIC @ concat (take k bls))) [0..<Suc (length bls)]"

definition tri_inv :: "fst_crate \<Rightarrow> trigram_builder \<Rightarrow> (bytes \<times> u64 \<times> u64 option) list \<Rightarrow> pairs list \<Rightarrow> bytes list \<Rightarrow> bool" where
  "tri_inv F b ents ms bls \<longleftrightarrow>
     list_all2 (\<lambda>m bl. fst_finish F m = Inr bl) ms bls \<and> tb_shard b = length ms \<and> fst_finish F [] = Inr (tb_empty b) \<and>
     tb_out b = TRIGRAM_MAGIC @ concat bls \<and> length (tb_out b) < 2 ^ 64 \<and> tb_offsets b = shard_ends bls \<and>
     ents = keyed_all (ms @ [open_pairs b]) \<and> (\<forall>m\<in>set (ms @ [open_pairs b]). \<forall>kv\<in>set m. length (fst kv) = 2)"

lemma shard_ends_snoc: "shard_ends (bls @ [bl]) = shard_ends bls @ [length (TRIGRAM_MAGIC @ concat bls @ bl)]"
proof -
  have "map (\<lambda>k. length (TRIGRAM_MAGIC @ concat (take k (bls @ [bl])))) [0..<Suc (length bls)] = shard_ends bls"
    unfolding shard_ends_def by (rule map_cong) auto
  then show ?thesis unfolding shard_ends_def by simp
qed

lemma keyed_all_snoc: "keyed_all (ms @ [m]) = keyed_all ms @ keyed (length ms) m"
  by (simp add: keyed_all_def enumerate_append_eq)

lemma keyed_all_open: "keyed_all (ms @ [m, []]) = keyed_all ms @ keyed (length ms) m"
  by (simp add: keyed_all_def enumerate_append_eq) (simp add: keyed_def)

lemma close_shard_inv:
  assumes "tri_inv F b ents ms bls" "close_shard F b = Inr b'"
  shows "\<exists>bl. tri_inv F b' ents (ms @ [open_pairs b]) (bls @ [bl]) \<and> tb_builder b' = None"
proof -
  from assms obtain bl where bl: "fst_finish F (open_pairs b) = Inr bl" "length (tb_out b @ bl) < 2 ^ 64"
    "b' = b\<lparr>tb_out := tb_out b @ bl, tb_builder := None, tb_offsets := tb_offsets b @ [length (tb_out b @ bl)], tb_shard := tb_shard b + 1\<rparr>"
    by (cases "tb_builder b") (auto simp: close_shard_def tri_inv_def write_counting_def)
  from assms(1) bl have "tri_inv F b' ents (ms @ [open_pairs b]) (bls @ [bl])"
    by (auto simp: tri_inv_def shard_ends_snoc keyed_all_snoc keyed_all_open keyed_def intro: list_all2_appendI)
  with bl(3) show ?thesis by auto
qed

lemma close_until_inv:
  assumes "tri_inv F b ents ms bls" "close_until F b shard = Inr b'" "tb_shard b \<le> shard"
  shows "\<exists>ms' bls'. tri_inv F b' ents ms' bls' \<and> length ms' = shard \<and> (tb_shard b < shard \<longrightarrow> tb_builder b' = None)"
  using assms
proof (induction "shard - tb_shard b" arbitrary: b ms bls)
  case 0
  then show ?case by (auto simp: close_until_def tri_inv_def intro!: exI [of _ ms] exI [of _ bls])
next
  case (Suc n)
  then have lt: "tb_shard b < shard" by linarith
  from Suc.prems(2) lt obtain b1 where b1: "close_shard F b = Inr b1"
    "visit_all (\<lambda>b _. close_shard F b) b1 [Suc (tb_shard b)..<shard] = Inr b'"
    by (auto simp: close_until_def upt_rec visit_all_Cons simp del: visit_all.simps(2))
  from close_shard_inv [OF Suc.prems(1) b1(1)] obtain bl where
    inv: "tri_inv F b1 ents (ms @ [open_pairs b]) (bls @ [bl])" "tb_builder b1 = None" by auto
  have sh: "tb_shard b1 = Suc (tb_shard b)" using inv(1) Suc.prems(1) by (simp add: tri_inv_def)
  have n: "n = shard - tb_shard b1" "tb_shard b1 \<le> shard" using Suc.hyps(2) lt sh by linarith+
  have until: "close_until F b1 shard = Inr b'" using b1(2) by (simp add: close_until_def sh)
  from Suc.hyps(1) [OF n(1) inv(1) until n(2)] obtain ms' bls' where
    r: "tri_inv F b' ents ms' bls'" "length ms' = shard" "tb_shard b1 < shard \<longrightarrow> tb_builder b' = None" by auto
  have "tb_builder b' = None"
  proof (cases "tb_shard b1 < shard")
    case False
    then have "b' = b1" using until n(2) by (simp add: close_until_def)
    then show ?thesis using inv(2) by simp
  qed (use r(3) in simp)
  with r show ?case by blast
qed

lemma insert_trigram_inv:
  assumes F: "fst_laws F" and "tri_inv F b ents ms bls" "insert_trigram F b gram v = Inr b'"
  shows "length gram = 3 \<and> (\<exists>ms' bls'. tri_inv F b' (ents @ [(gram, v, None)]) ms' bls' \<and> length ms' < TRIGRAM_SHARDS)"
proof -
  from assms(3) obtain b1 kvs where 1: "length gram = 3" "unat (gram ! 0) \<ge> tb_shard b" "close_until F b (unat (gram ! 0)) = Inr b1"
    "fst_insert F (open_pairs b1) (drop 1 gram, v) = Inr kvs" "b' = b1\<lparr>tb_builder := Some kvs\<rparr>"
    by (auto simp: insert_trigram_def Let_def)
  from close_until_inv [OF assms(2) 1(3,2)] obtain ms' bls' where
    inv: "tri_inv F b1 ents ms' bls'" "length ms' = unat (gram ! 0)" by auto
  have kvs: "kvs = open_pairs b1 @ [(drop 1 gram, v)]" using F 1(4) unfolding fst_laws_def by blast
  obtain x y z where g: "gram = [x, y, z]" using 1(1) by (auto simp: numeral_3_eq_3 length_Suc_conv)
  have "tri_inv F b' (ents @ [(gram, v, None)]) ms' bls'"
    using inv by (auto simp: tri_inv_def 1(5) kvs keyed_all_snoc keyed_def g)
  with 1(1) inv(2) unat_lt8 [of "gram ! 0"] show ?thesis by (auto simp: TRIGRAM_SHARDS_def)
qed

lemma insert_terms_trigram:
  assumes F: "fst_laws F" and "visit_all (insert_term F sha) (TrigramBuilder b) ents = Inr t" "tri_inv F b sofar ms bls" "length ms < TRIGRAM_SHARDS"
  shows "\<exists>b' ms' bls'. t = TrigramBuilder b' \<and> tri_inv F b' (sofar @ ents) ms' bls' \<and> length ms' < TRIGRAM_SHARDS \<and> (\<forall>e\<in>set ents. length (fst e) = 3)"
  using assms(2-4)
proof (induction ents arbitrary: b sofar ms bls)
  case (Cons e ents)
  obtain k v l where e: "e = (k, v, l)" by (cases e)
  from Cons.prems(1) obtain b1 where 1: "l = None" "insert_trigram F b k v = Inr b1"
    "visit_all (insert_term F sha) (TrigramBuilder b1) ents = Inr t"
    by (auto simp: e visit_all_Cons simp del: visit_all.simps(2))
  from insert_trigram_inv [OF F Cons.prems(2) 1(2)] obtain ms' bls' where
    inv: "length k = 3" "tri_inv F b1 (sofar @ [(k, v, None)]) ms' bls'" "length ms' < TRIGRAM_SHARDS" by auto
  from Cons.IH [OF 1(3) inv(2,3)] show ?case using inv(1) by (auto simp: e 1(1))
qed auto

lemma finish_trigram_blob:
  assumes "tri_inv F b ents ms bls" "finish_trigram F b = Inr bs" "length ms < TRIGRAM_SHARDS"
  shows "\<exists>ms bls. list_all2 (\<lambda>m bl. fst_finish F m = Inr bl) ms bls \<and> length ms = TRIGRAM_SHARDS \<and> ents = keyed_all ms \<and>
    (\<forall>m\<in>set ms. \<forall>kv\<in>set m. length (fst kv) = 2) \<and> length bs < 2 ^ 64 \<and>
    bs = TRIGRAM_MAGIC @ concat bls @ concat (map (\<lambda>off. to_le_bytes (of_nat off)) (shard_ends bls))"
proof -
  from assms(2) obtain b1 where b1: "close_until F b TRIGRAM_SHARDS = Inr b1"
    "visit_all (\<lambda>out off. write_counting out (to_le_bytes (of_nat off))) (tb_out b1) (tb_offsets b1) = Inr bs"
    by (auto simp: finish_trigram_def)
  have "tb_shard b \<le> TRIGRAM_SHARDS" using assms(1,3) by (simp add: tri_inv_def)
  from close_until_inv [OF assms(1) b1(1) this] obtain ms' bls' where
    inv: "tri_inv F b1 ents ms' bls'" "length ms' = TRIGRAM_SHARDS" "tb_shard b < TRIGRAM_SHARDS \<longrightarrow> tb_builder b1 = None" by auto
  have none: "tb_builder b1 = None" using inv(3) assms(1,3) by (simp add: tri_inv_def)
  have w: "bs = out @ concat (map (\<lambda>off. to_le_bytes (of_nat off)) offs) \<and> length bs < 2 ^ 64"
    if "visit_all (\<lambda>out off. write_counting out (to_le_bytes (of_nat off))) out offs = Inr bs" "length out < 2 ^ 64" for out offs
    using that
  proof (induction offs arbitrary: out)
    case (Cons off offs)
    from Cons.prems(1) have "length (out @ to_le_bytes (of_nat off)) < 2 ^ 64"
      "visit_all (\<lambda>out off. write_counting out (to_le_bytes (of_nat off))) (out @ to_le_bytes (of_nat off)) offs = Inr bs"
      by (auto simp: visit_all_Cons write_counting_def simp del: visit_all.simps(2))
    from Cons.IH [OF this(2,1)] show ?case unfolding append.assoc list.map concat.simps by blast
  qed auto
  have "ents = keyed_all ms'" using inv(1) none by (simp add: tri_inv_def keyed_all_snoc keyed_def)
  with inv(1,2) w [OF b1(2)] none show ?thesis by (auto simp: tri_inv_def intro!: exI [of _ ms'] exI [of _ bls'])
qed

lemma map_of_keyed: "k < 256 \<Longrightarrow> map_of (keyed k m) (x # suffix) = (if unat x = k then map_option (\<lambda>v. (v, None)) (map_of m suffix) else None)"
  by (induction m) (auto simp: keyed_def unat_of_nat word_unat_eq_iff)

lemma map_of_keyed_all:
  "length ms \<le> 256 \<Longrightarrow> map_of (keyed_all ms) (x # suffix) =
     (if unat x < length ms then map_option (\<lambda>v. (v, None)) (map_of (ms ! unat x) suffix) else None)"
proof (induction ms rule: rev_induct)
  case Nil
  then show ?case by (simp add: keyed_all_def)
next
  case (snoc m ms)
  then show ?case
    by (auto simp: keyed_all_snoc map_of_keyed nth_append map_add_def less_Suc_eq split: option.split)
qed

lemma visit_keyed:
  "\<forall>kv\<in>set m. length (fst kv) = 2 \<Longrightarrow>
   visit_all (\<lambda>s (suffix, v). ensure (length suffix = 2) msg (visit s (of_nat k # suffix) v None)) s m =
   visit_all (\<lambda>s (g, v, l). visit s g v l) s (keyed k m)"
  by (induction m arbitrary: s) (auto simp: keyed_def split: sum.split)

lemma visit_trigram:
  "\<forall>m\<in>set ms. \<forall>kv\<in>set m. length (fst kv) = 2 \<Longrightarrow>
   visit_terms (TrigramMap ms) visit s = visit_all (\<lambda>s (g, v, l). visit s g v l) s (keyed_all ms)"
proof (induction ms rule: rev_induct)
  case Nil
  then show ?case by (simp add: keyed_all_def)
next
  case (snoc m ms)
  then have "\<forall>kv\<in>set m. length (fst kv) = 2" "\<forall>m\<in>set ms. \<forall>kv\<in>set m. length (fst kv) = 2" by auto
  with snoc.IH visit_keyed [of m "''trigram suffix has invalid length''" visit] show ?case
    by (simp add: keyed_all_snoc visit_all_append enumerate_append_eq split: sum.split)
qed

lemma open_shards:
  assumes "list_all2 (\<lambda>m bl. fst_open F bl = Inr m) ms bls"
    and "\<And>k. k < length bls \<Longrightarrow> sub_slice bs (offs ! k) (offs ! Suc k) = bls ! k" "length offs = Suc (length bls)"
  shows "visit_all (\<lambda>maps (a, b). and_then (fst_open F (sub_slice bs a b)) (\<lambda>m. Inr (maps @ [m]))) [] (zip offs (tl offs)) = Inr ms"
proof -
  have len: "length ms = length bls" using assms(1) by (rule list_all2_lengthD)
  have z: "zip offs (tl offs) = map (\<lambda>k. (offs ! k, offs ! Suc k)) [0..<length bls]"
    by (rule nth_equalityI) (auto simp: assms(3) nth_tl)
  have "visit_all (\<lambda>maps (a, b). and_then (fst_open F (sub_slice bs a b)) (\<lambda>m. Inr (maps @ [m]))) []
      (map (\<lambda>k. (offs ! k, offs ! Suc k)) [0..<n]) = Inr (take n ms)" if "n \<le> length bls" for n
    using that
  proof (induction n)
    case (Suc n)
    then have "fst_open F (bls ! n) = Inr (ms ! n)" using assms(1) len by (simp add: list_all2_conv_all_nth)
    with Suc assms(2) [of n] len show ?case by (simp add: visit_all_snoc take_Suc_conv_app_nth)
  qed simp
  from this [of "length bls"] show ?thesis by (simp add: z len)
qed

lemma shard_ends_props:
  assumes "\<forall>bl\<in>set bls. bl \<noteq> []"
  shows "length (shard_ends bls) = Suc (length bls)" "shard_ends bls ! 0 = length TRIGRAM_MAGIC"
    "last (shard_ends bls) = length TRIGRAM_MAGIC + length (concat bls)" "ascending (shard_ends bls)"
    "\<And>k. k < length bls \<Longrightarrow> sub_slice (TRIGRAM_MAGIC @ concat bls @ rest) (shard_ends bls ! k) (shard_ends bls ! Suc k) = bls ! k"
    "\<forall>off\<in>set (shard_ends bls). off \<le> length TRIGRAM_MAGIC + length (concat bls)"
proof -
  have nth: "shard_ends bls ! k = length (TRIGRAM_MAGIC @ concat (take k bls))" if "k \<le> length bls" for k
    using that unfolding shard_ends_def by (subst nth_map) (simp_all del: upt_Suc)
  show len: "length (shard_ends bls) = Suc (length bls)" by (simp add: shard_ends_def)
  show "shard_ends bls ! 0 = length TRIGRAM_MAGIC" by (simp add: nth)
  have "shard_ends bls \<noteq> []" using len by auto
  then show "last (shard_ends bls) = length TRIGRAM_MAGIC + length (concat bls)" by (simp add: last_conv_nth len nth)
  show "ascending (shard_ends bls)"
    unfolding sorted_wrt_iff_nth_less
  proof (intro allI impI)
    fix i j assume ij: "i < j" "j < length (shard_ends bls)"
    then have i: "i < length bls" "j \<le> length bls" by (simp_all add: len)
    have "take j bls = take i bls @ bls ! i # drop (Suc i) (take j bls)"
      using id_take_nth_drop [of i "take j bls"] ij(1) i by (simp add: min_def)
    then have "length (concat (take j bls)) = length (concat (take i bls)) + length (bls ! i) + length (concat (drop (Suc i) (take j bls)))"
      by (metis add.assoc concat.simps(2) concat_append length_append)
    moreover have "bls ! i \<noteq> []" using assms i(1) by simp
    ultimately show "shard_ends bls ! i < shard_ends bls ! j" using i ij(1) by (simp add: nth)
  qed
  show "\<And>k. k < length bls \<Longrightarrow> sub_slice (TRIGRAM_MAGIC @ concat bls @ rest) (shard_ends bls ! k) (shard_ends bls ! Suc k) = bls ! k"
  proof -
    fix k assume k: "k < length bls"
    have c: "concat bls = concat (take k bls) @ bls ! k @ concat (drop (Suc k) bls)"
      using arg_cong [OF id_take_nth_drop [OF k], of concat] by simp
    have e: "shard_ends bls ! k = length (TRIGRAM_MAGIC @ concat (take k bls))"
      "shard_ends bls ! Suc k = length (TRIGRAM_MAGIC @ concat (take k bls)) + length (bls ! k)"
      using k by (simp_all add: nth take_Suc_conv_app_nth)
    have "TRIGRAM_MAGIC @ concat bls @ rest = (TRIGRAM_MAGIC @ concat (take k bls)) @ bls ! k @ (concat (drop (Suc k) bls) @ rest)"
      by (simp add: c)
    then show "sub_slice (TRIGRAM_MAGIC @ concat bls @ rest) (shard_ends bls ! k) (shard_ends bls ! Suc k) = bls ! k"
      by (simp only: e sub_slice_append_middle)
  qed
  show "\<forall>off\<in>set (shard_ends bls). off \<le> length TRIGRAM_MAGIC + length (concat bls)"
  proof
    fix off assume "off \<in> set (shard_ends bls)"
    then obtain k where "off = length (TRIGRAM_MAGIC @ concat (take k bls))" unfolding shard_ends_def by (auto simp del: upt_Suc)
    moreover have "length (concat bls) = length (concat (take k bls)) + length (concat (drop k bls))"
      by (metis append_take_drop_id concat_append length_append)
    ultimately show "off \<le> length TRIGRAM_MAGIC + length (concat bls)" by simp
  qed
qed

lemma open_trigram_blob:
  assumes F: "fst_laws F" and "list_all2 (\<lambda>m bl. fst_finish F m = Inr bl) ms bls" "length ms = TRIGRAM_SHARDS"
    and bs: "bs = TRIGRAM_MAGIC @ concat bls @ concat (map (\<lambda>off. to_le_bytes (of_nat off)) (shard_ends bls))" "length bs < 2 ^ 64"
  shows "open_terms F bs Trigram = Inr (TrigramMap ms)"
proof -
  have n: "length bls = 256" using list_all2_lengthD [OF assms(2)] assms(3) by (simp add: TRIGRAM_SHARDS_def)
  have laws: "\<And>kvs bl. fst_finish F kvs = Inr bl \<Longrightarrow> bl \<noteq> [] \<and> fst_open F bl = Inr kvs" using F unfolding fst_laws_def by blast
  have "\<forall>bl\<in>set bls. bl \<noteq> []"
    using assms(2) laws by (fastforce simp: list_all2_conv_all_nth in_set_conv_nth)
  note ends = shard_ends_props [OF this]
  let ?tail = "concat (map (\<lambda>off. to_le_bytes (of_nat off)) (shard_ends bls)) :: bytes"
  have tail: "length ?tail = TRIGRAM_FOOTER_LEN"
    by (subst length_concat_uniform [of _ _ 8])
      (simp_all add: ends(1) n TRIGRAM_FOOTER_LEN_def TRIGRAM_OFFSETS_def TRIGRAM_SHARDS_def)
  then have footer: "length bs - TRIGRAM_FOOTER_LEN = length TRIGRAM_MAGIC + length (concat bls)"
    "length TRIGRAM_MAGIC + TRIGRAM_FOOTER_LEN \<le> length bs" by (simp_all add: bs(1))
  have drop: "drop (length TRIGRAM_MAGIC + length (concat bls)) bs = ?tail" by (simp add: bs(1))
  have fits: "off < 2 ^ 64" if "off \<in> set (shard_ends bls)" for off
    using bspec [OF ends(6) that] footer bs(2) by linarith
  have "map read_u64 (chunks_exact 8 ?tail) = map (\<lambda>off. read_u64 (to_le_bytes (of_nat off))) (shard_ends bls)"
    by (subst chunks_exact_concat) simp_all
  also have "\<dots> = shard_ends bls" using fits by (intro map_idI) (simp add: unat_of_nat)
  finally have offs: "map read_u64 (chunks_exact 8 ?tail) = shard_ends bls" .
  have opened: "list_all2 (\<lambda>m bl. fst_open F bl = Inr m) ms bls"
    using assms(2) laws by (auto simp: list_all2_conv_all_nth)
  have "visit_all (\<lambda>maps (a, b). and_then (fst_open F (sub_slice bs a b)) (\<lambda>m. Inr (maps @ [m]))) []
      (zip (shard_ends bls) (tl (shard_ends bls))) = Inr ms"
    using open_shards [OF opened, of bs "shard_ends bls"] ends(1,5) by (simp add: bs(1))
  moreover have "length (shard_ends bls) = TRIGRAM_OFFSETS" by (simp add: ends(1) n TRIGRAM_OFFSETS_def TRIGRAM_SHARDS_def)
  ultimately have "open_trigram F bs = Inr (TrigramMap ms)"
    unfolding open_trigram_def Let_def footer(1) drop offs using footer(2) ends(2,3,4) by simp
  moreover have "take (length TRIGRAM_MAGIC) bs = TRIGRAM_MAGIC" "length TRIGRAM_MAGIC \<le> length bs" by (simp_all add: bs(1))
  ultimately show ?thesis by (simp add: open_terms_def)
qed

section \<open>A dictionary returns what was inserted\<close>

text \<open>Building a dictionary of the entries in order, and looking up grams one after the other with the cache threaded.\<close>

definition build_terms ::
    "fst_crate \<Rightarrow> (bytes \<Rightarrow> bytes) \<Rightarrow> strategy \<Rightarrow> bool \<Rightarrow> (bytes \<times> u64 \<times> u64 option) list \<Rightarrow> (bytes \<times> string option) result" where
  "build_terms F sha strat is_sharded ents =
     and_then (new_terms F strat is_sharded) (\<lambda>b. and_then (visit_all (insert_term F sha) b ents) (finish_terms F sha))"

definition get_all :: "crates \<Rightarrow> term_map \<Rightarrow> bytes list \<Rightarrow> (term_value option list \<times> decoded_blocks) result" where
  "get_all X m grams = visit_all (\<lambda>(vs, cache) gram. and_then (get_term X m cache gram) (\<lambda>(v, cache). Inr (vs @ [v], cache))) ([], Map.empty) grams"

definition term_key :: "crates \<Rightarrow> strategy \<Rightarrow> bytes \<Rightarrow> bytes" where
  "term_key X strat gram = (case strat of Trigram \<Rightarrow> gram | Sparse \<Rightarrow> to_be_bytes (hash_ngram X gram))"

definition value_at :: "(bytes \<times> u64 \<times> u64 option) list \<Rightarrow> bytes \<Rightarrow> term_value option" where
  "value_at ents key = map_option (\<lambda>(v, l). \<lparr>packed = v, tv_len = l\<rparr>) (map_of ents key)"

lemma get_all_lookup:
  assumes "\<And>cache gram. ok cache \<Longrightarrow> \<exists>cache'. get_term X m cache gram = Inr (look gram, cache') \<and> ok cache'" "ok Map.empty"
  shows "\<exists>cache. get_all X m grams = Inr (map look grams, cache)"
proof -
  have "\<exists>cache. get_all X m grams = Inr (map look grams, cache) \<and> ok cache"
  proof (induction grams rule: rev_induct)
    case Nil
    then show ?case using assms(2) by (simp add: get_all_def)
  next
    case (snoc g grams)
    then obtain c where c: "get_all X m grams = Inr (map look grams, c)" "ok c" by auto
    from assms(1) [OF c(2), of g] c(1) show ?case by (auto simp: get_all_def visit_all_snoc)
  qed
  then show ?thesis by blast
qed

lemma map_of_entries:
  "\<forall>e\<in>set ents. length (fst e) = 8 \<Longrightarrow> map_of (map entry_of ents) h = map_of ents (to_be_bytes h)"
proof (induction ents)
  case (Cons e ents)
  obtain k v l where e: "e = (k, v, l)" by (cases e)
  have "from_be_bytes k = h \<longleftrightarrow> k = to_be_bytes h" using Cons.prems by (auto simp: e to_from_be_bytes)
  with Cons show ?case by (auto simp: e entry_of_def)
qed simp

lemma visit_entries:
  "\<forall>e\<in>set ents. length (fst e) = 8 \<Longrightarrow>
   visit_all (\<lambda>s (h, v, l). visit s (to_be_bytes h) v l) s (map entry_of ents) = visit_all (\<lambda>s (k, v, l). visit s k v l) s ents"
  by (induction ents arbitrary: s) (auto simp: entry_of_def to_from_be_bytes split: sum.split)

lemma insert_terms_single:
  assumes F: "fst_laws F" and "visit_all (insert_term F sha) (SingleBuilder kvs) ents = Inr t"
  shows "t = SingleBuilder (kvs @ map (\<lambda>(k, v, l). (k, v)) ents) \<and> (\<forall>(k, v, l)\<in>set ents. l = None)"
  using assms(2)
proof (induction ents arbitrary: kvs)
  case (Cons e ents)
  obtain k v l where e: "e = (k, v, l)" by (cases e)
  from Cons.prems obtain kvs1 where 1: "l = None" "fst_insert F kvs (k, v) = Inr kvs1"
    "visit_all (insert_term F sha) (SingleBuilder kvs1) ents = Inr t"
    by (auto simp: e visit_all_Cons simp del: visit_all.simps(2))
  have "kvs1 = kvs @ [(k, v)]" using F 1(2) unfolding fst_laws_def by blast
  with Cons.IH [OF 1(3)] show ?case by (auto simp: e 1(1))
qed auto

lemma single_lookup:
  assumes "\<forall>(k, v, l)\<in>set ents. l = None"
  shows "map_option (\<lambda>v. \<lparr>packed = v, tv_len = None\<rparr>) (map_of (map (\<lambda>(k, v, l). (k, v)) ents) key) = value_at ents key"
    "visit_all (\<lambda>s (k, v). visit s k v None) s (map (\<lambda>(k, v, l). (k, v)) ents) = visit_all (\<lambda>s (k, v, l). visit s k v l) s ents"
  using assms by (induction ents arbitrary: s) (auto simp: value_at_def split: sum.split)

text \<open>What it means that the map \<open>m\<close> of the strategy holds the entries.\<close>

definition serves_terms :: "crates \<Rightarrow> strategy \<Rightarrow> (bytes \<times> u64 \<times> u64 option) list \<Rightarrow> 's term_visitor \<Rightarrow> 's \<Rightarrow> bytes list \<Rightarrow> term_map \<Rightarrow> bool" where
  "serves_terms X strat ents visit s grams m \<longleftrightarrow>
     terms_len m = length ents \<and>
     (\<exists>cache. get_all X m grams = Inr (map (\<lambda>gram. value_at ents (term_key X strat gram)) grams, cache)) \<and>
     visit_terms m visit s = visit_all (\<lambda>s (k, v, l). visit s k v l) s ents"

lemma serves_single:
  assumes F: "fst_laws F" and "visit_all (insert_term F sha) (SingleBuilder []) ents = Inr b" "finish_terms F sha b = Inr (bs, th)"
  shows "\<exists>m. open_terms F bs Trigram = Inr m \<and> serves_terms X Trigram ents visit s grams m"
proof -
  note ins = insert_terms_single [OF F assms(2)]
  let ?m = "map (\<lambda>(k, v, l). (k, v)) ents"
  have fin: "fst_finish F ?m = Inr bs" using assms(3) ins by simp
  then have f: "take 8 bs \<noteq> TRIGRAM_MAGIC" "fst_open F bs = Inr ?m" using F unfolding fst_laws_def by blast+
  have magic: "length TRIGRAM_MAGIC = 8" by (simp add: TRIGRAM_MAGIC_def)
  have op: "open_terms F bs Trigram = Inr (SingleMap ?m)" using f by (simp add: open_terms_def magic)
  note look = single_lookup [OF conjunct2 [OF ins]]
  have "\<exists>cache. get_all X (SingleMap ?m) grams = Inr (map (\<lambda>gram. value_at ents (term_key X Trigram gram)) grams, cache)"
    by (rule get_all_lookup [of "\<lambda>_. True"]) (simp_all add: look(1) term_key_def)
  with op look(2) show ?thesis by (auto simp: serves_terms_def)
qed

lemma serves_sparse:
  assumes "\<forall>x. length (sha x) = 32" "visit_all (insert_term F sha) (SparseBuilder new_sparse) ents = Inr b"
    and "finish_terms F sha b = Inr (bs, th)" "length bs < 2 ^ 64"
  shows "\<exists>m. open_terms F bs Sparse = Inr m \<and> serves_terms X Sparse ents visit s grams m"
proof -
  from insert_terms_sparse [OF assms(2)] obtain w where w: "b = SparseBuilder w"
    "visit_all (insert_sparse sha) new_sparse (map entry_of ents) = Inr w" "\<forall>e\<in>set ents. length (fst e) = 8" by auto
  obtain th' where fin: "finish_sparse sha w = (bs, th')" using assms(3) by (cases "finish_sparse sha w") (auto simp: w(1))
  from open_sparse [OF assms(1) w(2) fin assms(4), of F] obtain idx gs where
    o: "open_terms F bs Sparse = Inr (SparseMap idx bs)" "holds_groups sha idx bs gs" "concat gs = map entry_of ents" by auto
  have "\<exists>cache. get_all X (SparseMap idx bs) grams = Inr (map (\<lambda>gram. value_at ents (term_key X Sparse gram)) grams, cache)"
  proof (rule get_all_lookup [of "cache_ok gs"])
    fix cache gram assume "cache_ok gs cache"
    from get_sparse [OF o(2) this] show "\<exists>cache'. get_term X (SparseMap idx bs) cache gram = Inr (value_at ents (term_key X Sparse gram), cache') \<and> cache_ok gs cache'"
      unfolding o(3) by (simp only: map_of_entries [OF w(3)] value_at_def term_key_def strategy.case)
  qed (simp add: cache_ok_def)
  moreover have "index_entries idx = length ents" using o(2,3) by (simp add: holds_groups_def)
  moreover have "visit_terms (SparseMap idx bs) visit s = visit_all (\<lambda>s (k, v, l). visit s k v l) s ents"
    unfolding visit_groups [OF o(2)] o(3) by (rule visit_entries [OF w(3)])
  ultimately show ?thesis using o(1) unfolding serves_terms_def by (metis terms_len.simps(2))
qed

lemma new_trigram_inv: "new_trigram F = Inr b \<Longrightarrow> tri_inv F b [] [] []"
  by (auto simp: new_trigram_def tri_inv_def shard_ends_def keyed_all_def keyed_def write_counting_def)

lemma length_keyed_all: "length (keyed_all ms) = sum_list (map length ms)"
  by (induction ms rule: rev_induct) (simp_all add: keyed_all_snoc, simp_all add: keyed_all_def keyed_def)

lemma serves_sharded:
  assumes F: "fst_laws F" and "new_trigram F = Inr b0" "visit_all (insert_term F sha) (TrigramBuilder b0) ents = Inr b"
    and "finish_terms F sha b = Inr (bs, th)"
  shows "\<exists>m. open_terms F bs Trigram = Inr m \<and> serves_terms X Trigram ents visit s grams m"
proof -
  from insert_terms_trigram [OF F assms(3) new_trigram_inv [OF assms(2)]] obtain b' ms' bls' where
    b: "b = TrigramBuilder b'" "tri_inv F b' ents ms' bls'" "length ms' < TRIGRAM_SHARDS" "\<forall>e\<in>set ents. length (fst e) = 3"
    by (auto simp: TRIGRAM_SHARDS_def)
  have "finish_trigram F b' = Inr bs" using assms(4) by (simp add: b(1))
  from finish_trigram_blob [OF b(2) this b(3)] obtain ms bls where
    m: "list_all2 (\<lambda>m bl. fst_finish F m = Inr bl) ms bls" "length ms = TRIGRAM_SHARDS" "ents = keyed_all ms"
      "\<forall>m\<in>set ms. \<forall>kv\<in>set m. length (fst kv) = 2" "length bs < 2 ^ 64"
      "bs = TRIGRAM_MAGIC @ concat bls @ concat (map (\<lambda>off. to_le_bytes (of_nat off)) (shard_ends bls))" by blast
  have look: "get_term X (TrigramMap ms) cache gram = Inr (value_at ents gram, cache)" for cache gram
  proof (cases "length gram = 3")
    case True
    then obtain x y z where g: "gram = [x, y, z]" by (auto simp: numeral_3_eq_3 length_Suc_conv)
    have n: "length ms = 256" using m(2) by (simp add: TRIGRAM_SHARDS_def)
    then have "value_at ents gram = map_option (\<lambda>v. \<lparr>packed = v, tv_len = None\<rparr>) (map_of (ms ! unat x) [y, z])"
      using unat_lt8 [of x] by (simp add: value_at_def m(3) g map_of_keyed_all option.map_comp comp_def)
    with n unat_lt8 [of x] show ?thesis by (simp add: g get_def)
  next
    case False
    then have "map_of ents gram = None" using b(4) by (auto simp: map_of_eq_None_iff)
    with False show ?thesis by (simp add: value_at_def)
  qed
  have "\<exists>cache. get_all X (TrigramMap ms) grams = Inr (map (\<lambda>gram. value_at ents (term_key X Trigram gram)) grams, cache)"
    by (rule get_all_lookup [of "\<lambda>_. True"]) (simp_all add: look term_key_def del: get_term.simps)
  moreover have "terms_len (TrigramMap ms) = length ents" by (simp add: m(3) length_keyed_all)
  moreover have "visit_terms (TrigramMap ms) visit s = visit_all (\<lambda>s (k, v, l). visit s k v l) s ents"
    unfolding m(3) by (rule visit_trigram [OF m(4)])
  ultimately show ?thesis using open_trigram_blob [OF F m(1,2,6,5)] unfolding serves_terms_def by blast
qed

lemma dictionary_serves:
  assumes "fst_laws F" "\<forall>x. length (sha x) = 32" "build_terms F sha strat is_sharded ents = Inr (bs, tail_hash)" "length bs < 2 ^ 64"
  shows "\<exists>m. open_terms F bs strat = Inr m \<and> serves_terms X strat ents visit s grams m"
proof -
  from assms(3) obtain b0 b where b: "new_terms F strat is_sharded = Inr b0" "visit_all (insert_term F sha) b0 ents = Inr b"
    "finish_terms F sha b = Inr (bs, tail_hash)" by (auto simp: build_terms_def)
  show ?thesis
  proof (cases strat)
    case Sparse
    then have "b0 = SparseBuilder new_sparse" using b(1) by (simp add: new_terms_def)
    with serves_sparse [OF assms(2) _ b(3) assms(4)] b(2) Sparse show ?thesis by simp
  next
    case Trigram
    show ?thesis
    proof (cases is_sharded)
      case True
      with b(1) Trigram obtain t where t: "new_trigram F = Inr t" "b0 = TrigramBuilder t" by (auto simp: new_terms_def)
      from serves_sharded [OF assms(1) t(1) b(2) [unfolded t(2)] b(3)] Trigram show ?thesis by simp
    next
      case False
      with b(1) Trigram have "b0 = SingleBuilder []" by (simp add: new_terms_def)
      with serves_single [OF assms(1) _ b(3)] b(2) Trigram show ?thesis by simp
    qed
  qed
qed

text \<open>
  C18: A term dictionary returns exactly what was inserted into it. For every strategy, sharded or not, when the builder
  accepts the entries and writes a file of less than \<open>2 ^ 64\<close> bytes, opening that file succeeds; the map has as many terms as were inserted; looking up any grams one after
  the other, with the decoded blocks cached in between, gives the value and length inserted under the gram (under its big-endian hash for a sparse dictionary)
  and nothing for every other key; and visiting the map replays the inserted entries in order, so that compaction may feed them to a new builder.
\<close>

theorem dictionary_round_trip:
  assumes "fst_laws F" "\<forall>x. length (sha x) = 32" "build_terms F sha strat is_sharded ents = Inr (bs, tail_hash)" "length bs < 2 ^ 64"
  shows "\<exists>m. open_terms F bs strat = Inr m \<and> serves_terms X strat ents visit s grams m"
  by (rule dictionary_serves [OF assms])

text \<open>A small map format for the witness: a zero byte, then each pair with the length of its key first.\<close>

definition list_pairs :: "pairs \<Rightarrow> bytes" where
  "list_pairs kvs = concat (map (\<lambda>(k, v). of_nat (length k) # k @ to_le_bytes v) kvs)"

fun scan_pairs :: "nat \<Rightarrow> bytes \<Rightarrow> pairs" where
  "scan_pairs 0 bs = []"
| "scan_pairs (Suc n) [] = []"
| "scan_pairs (Suc n) (b # bs) =
     (take (unat b) bs, from_le_bytes (take 8 (drop (unat b) bs))) # scan_pairs n (drop (unat b + 8) bs)"

definition list_crate :: fst_crate where
  "list_crate = \<lparr>
     fst_insert = (\<lambda>kvs (k, v). ensure (k \<notin> fst ` set kvs) ''out of order'' (Inr (kvs @ [(k, v)]))),
     fst_finish = (\<lambda>kvs. ensure (list_all (\<lambda>(k, v). length k < 256) kvs) ''long key'' (Inr (0 # list_pairs kvs))),
     fst_open = (\<lambda>bs. Inr (scan_pairs (length bs) (tl bs)))\<rparr>"

lemma scan_list_pairs:
  "list_all (\<lambda>(k, v). length k < 256) kvs \<Longrightarrow> length (list_pairs kvs) \<le> n \<Longrightarrow> scan_pairs (Suc n) (list_pairs kvs) = kvs"
proof (induction kvs arbitrary: n)
  case (Cons kv kvs)
  obtain k v where kv: "kv = (k, v)" by (cases kv)
  from Cons.prems have k: "length k < 256" by (simp add: kv)
  from Cons.prems(2) obtain m where m: "n = Suc m" "length (list_pairs kvs) \<le> m" by (cases n) (auto simp: kv list_pairs_def)
  have "scan_pairs (Suc m) (list_pairs kvs) = kvs" using Cons.IH [OF _ m(2)] Cons.prems(1) by simp
  with k show ?case by (simp add: kv m(1) list_pairs_def unat_of_nat)
qed (simp add: list_pairs_def)

lemma list_crate_laws: "fst_laws list_crate"
  unfolding fst_laws_def
proof (intro conjI allI impI)
  fix kvs bs assume "fst_finish list_crate kvs = Inr bs"
  then have f: "list_all (\<lambda>(k, v). length k < 256) kvs" "bs = 0 # list_pairs kvs" by (auto simp: list_crate_def)
  show "bs \<noteq> []" "take 8 bs \<noteq> TRIGRAM_MAGIC" by (simp_all add: f(2) TRIGRAM_MAGIC_def take_Cons')
  show "fst_open list_crate bs = Inr kvs" using scan_list_pairs [OF f(1)] by (simp add: list_crate_def f(2))
qed (auto simp: list_crate_def)

definition sample_terms :: "(bytes \<times> u64 \<times> u64 option) list" where
  "sample_terms = [(to_be_bytes 7, push_bit 40 1 OR 5, None), (to_be_bytes 900, push_bit 40 3 OR 12, Some 4)]"

theorem dictionary_round_trip_witness:
  "\<exists>bs tail_hash m. build_terms list_crate (\<lambda>_. replicate 32 0) Sparse False sample_terms = Inr (bs, tail_hash) \<and>
     open_terms list_crate bs Sparse = Inr m \<and>
     serves_terms sample_crates Sparse sample_terms (\<lambda>keys k v l. Inr (keys @ [k])) [] [[97, 98, 99]] m"
proof -
  have "case build_terms list_crate (\<lambda>_. replicate 32 0) Sparse False sample_terms of Inr (bs, _) \<Rightarrow> length bs < 2 ^ 64 | Inl _ \<Rightarrow> False"
    by (simp add: build_terms_def new_terms_def sample_terms_def insert_sparse_def new_sparse_def write_value_def unpack_posting_def
      OFFSET_BITS_def BLOCK_BYTES_def finish_sparse_def flush_sparse_def index_entry_def SPARSE_TABLE_MAGIC_def write_varint.simps Let_def)
  then obtain bs th where b: "build_terms list_crate (\<lambda>_. replicate 32 0) Sparse False sample_terms = Inr (bs, th)" "length bs < 2 ^ 64"
    by (auto split: sum.splits)
  have "\<forall>x. length ((\<lambda>_. replicate 32 0) x :: bytes) = 32" by simp
  from dictionary_round_trip [where X = sample_crates and visit = "\<lambda>keys k v l. Inr (keys @ [k])" and s = "[]" and grams = "[[97, 98, 99]]",
      OF list_crate_laws this b] b(1)
  show ?thesis by blast
qed

end
