(* ===== verification/Postings_Table.thy ===== *)
theory Postings_Table
  imports Sparse_Table
begin

text \<open>
  The verification table of a postings file, \<open>crates/index/src/postings_table.rs\<close>: the writer that hashes every 64 KiB
  block of what streams through it, the table and footer it appends, their parser, and the
  check of one fetched block. A running hash is the bytes fed to it.
\<close>

section \<open>The writer\<close>

definition POSTINGS_MAGIC :: bytes where "POSTINGS_MAGIC = [0x53, 0x47, 0x50, 0x4f, 0x53, 0x54, 0x30, 0x31]"
definition VERIFY_BLOCK_BYTES :: nat where "VERIFY_BLOCK_BYTES = 64 * 1024"
definition POSTINGS_FOOTER_BYTES :: nat where "POSTINGS_FOOTER_BYTES = 8 + 8 + 8"

record postings_writer =
  pw_out :: bytes
  pw_hasher :: bytes
  block_fill :: nat
  pw_hashes :: "bytes list"
  pw_data_len :: nat

definition new_postings :: postings_writer where
  "new_postings = \<lparr>pw_out = [], pw_hasher = [], block_fill = 0, pw_hashes = [], pw_data_len = 0\<rparr>"

definition close_block :: "(bytes \<Rightarrow> bytes) \<Rightarrow> postings_writer \<Rightarrow> postings_writer" where
  "close_block sha w = w\<lparr>pw_hashes := pw_hashes w @ [sha (pw_hasher w)], pw_hasher := [], block_fill := 0\<rparr>"

text \<open>The hashing loop of \<open>write\<close>. A full block is closed at once, so the subtraction never fails.\<close>

function hash_loop :: "(bytes \<Rightarrow> bytes) \<Rightarrow> postings_writer \<Rightarrow> bytes \<Rightarrow> postings_writer result" where
  "hash_loop sha w rest =
     (if rest = [] then Inr w
      else if VERIFY_BLOCK_BYTES \<le> block_fill w then Inl Panic
      else let n = min (length rest) (VERIFY_BLOCK_BYTES - block_fill w);
               w = w\<lparr>pw_hasher := pw_hasher w @ take n rest, block_fill := block_fill w + n\<rparr>
           in hash_loop sha (if block_fill w = VERIFY_BLOCK_BYTES then close_block sha w else w) (drop n rest))"
  by pat_completeness auto
termination by (relation "measure (\<lambda>(sha, w, rest). length rest)") auto

declare hash_loop.simps [simp del]

definition write_postings :: "(bytes \<Rightarrow> bytes) \<Rightarrow> postings_writer \<Rightarrow> bytes \<Rightarrow> postings_writer result" where
  "write_postings sha w bs =
     and_then (hash_loop sha (w\<lparr>pw_out := pw_out w @ bs\<rparr>) bs) (\<lambda>w. Inr (w\<lparr>pw_data_len := pw_data_len w + length bs\<rparr>))"

definition finish_postings :: "(bytes \<Rightarrow> bytes) \<Rightarrow> postings_writer \<Rightarrow> bytes \<times> nat \<times> string" where
  "finish_postings sha w =
     (let w = (if block_fill w > 0 then close_block sha w else w);
          tail = concat (pw_hashes w) @ to_le_bytes (of_nat (pw_data_len w)) @ to_le_bytes (of_nat (length (pw_hashes w)))
            @ POSTINGS_MAGIC
      in (pw_out w @ tail, pw_data_len w, hex (sha tail)))"

section \<open>The table\<close>

record postings_table =
  table_data_len :: nat
  table_hashes :: "bytes list"

definition parse_postings :: "nat \<Rightarrow> bytes \<Rightarrow> postings_table result" where
  "parse_postings blob_len tail =
     ensure (length tail \<ge> POSTINGS_FOOTER_BYTES \<and> length tail \<le> blob_len) ''postings table tail is truncated''
     (let footer = drop (length tail - POSTINGS_FOOTER_BYTES) tail
      in ensure (sub_slice footer 16 24 = POSTINGS_MAGIC) ''postings table footer magic mismatch''
         (let data_len = read_u64 (sub_slice footer 0 8); block_count = read_u64 (sub_slice footer 8 16)
          in ensure (block_count = div_ceil data_len VERIFY_BLOCK_BYTES) ''postings table block count does not match its data length''
             (and_then (context_of (mul_u64 block_count 32) ''postings table length overflows'') (\<lambda>table_len.
              ensure ((case add_u64 data_len table_len of None \<Rightarrow> None | Some e \<Rightarrow> add_u64 e POSTINGS_FOOTER_BYTES) = Some blob_len)
                ''postings table does not abut its data region''
              (and_then (context_of (checked_sub (length tail) (POSTINGS_FOOTER_BYTES + table_len))
                  ''postings table tail does not include the full table'') (\<lambda>table_in_tail.
                Inr \<lparr>table_data_len = data_len,
                  table_hashes = chunks_exact 32 (sub_slice tail table_in_tail (length tail - POSTINGS_FOOTER_BYTES))\<rparr>))))))"

definition block_range :: "postings_table \<Rightarrow> nat \<Rightarrow> (nat \<times> nat) result" where
  "block_range t idx =
     and_then (or_panic (checked_sub (table_data_len t) (idx * VERIFY_BLOCK_BYTES))) (\<lambda>rest.
       Inr (idx * VERIFY_BLOCK_BYTES, min VERIFY_BLOCK_BYTES rest))"

definition blocks_covering :: "postings_table \<Rightarrow> nat \<Rightarrow> nat \<Rightarrow> nat list result" where
  "blocks_covering t off len =
     and_then (context_of (add_u64 off len) ''postings range overflows'') (\<lambda>stop.
     ensure (stop \<le> table_data_len t \<and> len > 0) ''postings range is outside the data region''
     (Inr [off div VERIFY_BLOCK_BYTES..<div_ceil stop VERIFY_BLOCK_BYTES]))"

definition verify_block :: "(bytes \<Rightarrow> bytes) \<Rightarrow> postings_table \<Rightarrow> nat \<Rightarrow> bytes \<Rightarrow> unit result" where
  "verify_block sha t idx payload =
     and_then (block_range t idx) (\<lambda>(_, len).
     and_then (or_panic (get (table_hashes t) idx)) (\<lambda>hash.
     ensure (length payload = len \<and> sha payload = hash) ''postings block failed verification'' (Inr ())))"

section \<open>What the writer keeps\<close>

definition data_block :: "bytes \<Rightarrow> nat \<Rightarrow> bytes" where
  "data_block data k = take VERIFY_BLOCK_BYTES (drop (k * VERIFY_BLOCK_BYTES) data)"

definition data_blocks :: "bytes \<Rightarrow> bytes list" where
  "data_blocks data = map (data_block data) [0..<div_ceil (length data) VERIFY_BLOCK_BYTES]"

definition pw_inv :: "(bytes \<Rightarrow> bytes) \<Rightarrow> postings_writer \<Rightarrow> bytes \<Rightarrow> bool" where
  "pw_inv sha w data \<longleftrightarrow>
     (\<exists>m. pw_hashes w = map (\<lambda>k. sha (data_block data k)) [0..<m] \<and> length data = m * VERIFY_BLOCK_BYTES + block_fill w \<and>
        pw_hasher w = drop (m * VERIFY_BLOCK_BYTES) data) \<and> block_fill w < VERIFY_BLOCK_BYTES"

lemma V_pos: "0 < VERIFY_BLOCK_BYTES"
  by (simp add: VERIFY_BLOCK_BYTES_def)

lemma new_postings_inv: "pw_inv sha new_postings []"
  using V_pos by (simp add: pw_inv_def new_postings_def)

lemma data_block_append: "(k + 1) * VERIFY_BLOCK_BYTES \<le> length data \<Longrightarrow> data_block (data @ xs) k = data_block data k"
  by (simp add: data_block_def)

lemma hash_loop_inv:
  assumes "pw_inv sha w data"
  shows "\<exists>w'. hash_loop sha w rest = Inr w' \<and> pw_inv sha w' (data @ rest) \<and> pw_out w' = pw_out w \<and> pw_data_len w' = pw_data_len w"
  using assms
proof (induction sha w rest arbitrary: data rule: hash_loop.induct)
  case (1 sha w rest)
  show ?case
  proof (cases "rest = []")
    case True
    with "1.prems" show ?thesis by (simp add: hash_loop.simps)
  next
    case False
    from "1.prems" obtain m where inv: "block_fill w < VERIFY_BLOCK_BYTES" "pw_hashes w = map (\<lambda>k. sha (data_block data k)) [0..<m]"
      "length data = m * VERIFY_BLOCK_BYTES + block_fill w" "pw_hasher w = drop (m * VERIFY_BLOCK_BYTES) data" by (auto simp: pw_inv_def)
    define n where "n = min (length rest) (VERIFY_BLOCK_BYTES - block_fill w)"
    define w1 where "w1 = w\<lparr>pw_hasher := pw_hasher w @ take n rest, block_fill := block_fill w + n\<rparr>"
    define w2 where "w2 = (if block_fill w1 = VERIFY_BLOCK_BYTES then close_block sha w1 else w1)"
    let ?data = "data @ take n rest"
    have n: "length (take n rest) = n" "n \<le> VERIFY_BLOCK_BYTES - block_fill w" by (simp_all add: n_def)
    have loop: "hash_loop sha w rest = hash_loop sha w2 (drop n rest)"
      using False inv(1) by (subst hash_loop.simps) (simp add: Let_def n_def w1_def w2_def)
    have hashes: "map (\<lambda>k. sha (data_block data k)) [0..<m] = map (\<lambda>k. sha (data_block ?data k)) [0..<m]"
    proof (rule map_cong [OF refl])
      fix k assume "k \<in> set [0..<m]"
      then have "(k + 1) * VERIFY_BLOCK_BYTES \<le> m * VERIFY_BLOCK_BYTES" by (intro mult_right_mono) auto
      with inv(3) show "sha (data_block data k) = sha (data_block ?data k)" by (simp add: data_block_append)
    qed
    have len: "length ?data = m * VERIFY_BLOCK_BYTES + block_fill w1" using inv(3) n(1) by (simp add: w1_def)
    have hasher: "pw_hasher w1 = drop (m * VERIFY_BLOCK_BYTES) ?data" using inv(3,4) by (simp add: w1_def)
    have "pw_inv sha w2 ?data"
    proof (cases "block_fill w1 = VERIFY_BLOCK_BYTES")
      case True
      have "data_block ?data m = pw_hasher w1" using len hasher True by (simp add: data_block_def)
      then have "pw_hashes w2 = map (\<lambda>k. sha (data_block ?data k)) [0..<Suc m]"
        using True hashes inv(2) by (simp add: w2_def close_block_def) (simp add: w1_def)
      moreover have "length ?data = Suc m * VERIFY_BLOCK_BYTES + block_fill w2" using len True by (simp add: w2_def close_block_def)
      moreover have "pw_hasher w2 = drop (Suc m * VERIFY_BLOCK_BYTES) ?data" using len True by (simp add: w2_def close_block_def)
      moreover have "block_fill w2 < VERIFY_BLOCK_BYTES" using True V_pos by (simp add: w2_def close_block_def)
      ultimately show ?thesis unfolding pw_inv_def by blast
    next
      case False
      have "pw_hashes w2 = map (\<lambda>k. sha (data_block ?data k)) [0..<m]" using False hashes inv(2) by (simp add: w2_def) (simp add: w1_def)
      moreover have "block_fill w2 < VERIFY_BLOCK_BYTES" using False n(2) inv(1) by (simp add: w2_def) (simp add: w1_def)
      moreover have "w2 = w1" using False by (simp add: w2_def)
      ultimately show ?thesis unfolding pw_inv_def using len hasher by auto
    qed
    from "1.IH" [OF False _ n_def w1_def this [unfolded w2_def]] inv(1)
    show ?thesis unfolding loop by (auto simp: w2_def w1_def close_block_def)
  qed
qed

lemma write_postings_inv:
  assumes "pw_inv sha w data" "pw_out w = data" "pw_data_len w = length data"
  shows "\<exists>w'. write_postings sha w bs = Inr w' \<and> pw_inv sha w' (data @ bs) \<and> pw_out w' = data @ bs \<and> pw_data_len w' = length (data @ bs)"
proof -
  have "pw_inv sha (w\<lparr>pw_out := pw_out w @ bs\<rparr>) data" using assms(1) by (simp add: pw_inv_def)
  from hash_loop_inv [OF this, of bs] obtain w' where
    w': "hash_loop sha (w\<lparr>pw_out := pw_out w @ bs\<rparr>) bs = Inr w'" "pw_inv sha w' (data @ bs)" "pw_out w' = pw_out w @ bs"
    "pw_data_len w' = pw_data_len w" by auto
  have "pw_inv sha (w'\<lparr>pw_data_len := pw_data_len w' + length bs\<rparr>) (data @ bs)" using w'(2) by (simp add: pw_inv_def)
  with w' assms(2,3) show ?thesis by (auto simp: write_postings_def)
qed

definition postings_tail :: "(bytes \<Rightarrow> bytes) \<Rightarrow> bytes \<Rightarrow> bytes" where
  "postings_tail sha data = concat (map sha (data_blocks data)) @ to_le_bytes (of_nat (length data))
     @ to_le_bytes (of_nat (length (data_blocks data))) @ POSTINGS_MAGIC"

lemma div_ceil_split:
  assumes "r < b"
  shows "div_ceil (m * b + r) b = (if r = 0 then m else Suc m)"
proof -
  have b: "0 < b" using assms by simp
  have "m * b + r + b - 1 = (if r = 0 then b - 1 + m * b else (r - 1) + Suc m * b)" using b by auto
  moreover have d: "(x + k * b) div b = k" if "x < b" for x k using that b by simp
  have "b - 1 < b" "r - 1 < b" using assms b by linarith+
  then have "(b - 1 + m * b) div b = m" "((r - 1) + Suc m * b) div b = Suc m" by (simp_all only: d)
  ultimately show ?thesis unfolding div_ceil_def by (simp split: if_splits)
qed

lemma finish_postings_blob:
  assumes "pw_inv sha w data" "pw_out w = data" "pw_data_len w = length data"
  shows "finish_postings sha w = (data @ postings_tail sha data, length data, hex (sha (postings_tail sha data)))"
proof -
  from assms(1) obtain m where inv: "pw_hashes w = map (\<lambda>k. sha (data_block data k)) [0..<m]"
    "length data = m * VERIFY_BLOCK_BYTES + block_fill w" "pw_hasher w = drop (m * VERIFY_BLOCK_BYTES) data"
    "block_fill w < VERIFY_BLOCK_BYTES" by (auto simp: pw_inv_def)
  let ?w = "if block_fill w > 0 then close_block sha w else w"
  have "pw_hashes ?w = map sha (data_blocks data)"
  proof (cases "block_fill w = 0")
    case True
    then show ?thesis using inv(1) div_ceil_split [OF inv(4), of m] by (simp add: data_blocks_def inv(2))
  next
    case False
    have "pw_hasher w = data_block data m" using inv(2,4) by (simp add: inv(3) data_block_def)
    then show ?thesis using False inv(1) div_ceil_split [OF inv(4), of m] by (simp add: data_blocks_def inv(2) close_block_def)
  qed
  moreover have "pw_out ?w = data" "pw_data_len ?w = length data" using assms(2,3) by (simp_all add: close_block_def)
  ultimately show ?thesis
    by (simp only: finish_postings_def Let_def postings_tail_def length_map)
qed

lemma parse_finished_postings:
  assumes sha: "\<forall>x. length (sha x) = 32" and small: "length (data @ postings_tail sha data) < 2 ^ 64"
  shows "parse_postings (length (data @ postings_tail sha data)) (postings_tail sha data) =
    Inr \<lparr>table_data_len = length data, table_hashes = map sha (data_blocks data)\<rparr>"
proof -
  define T where "T = concat (map sha (data_blocks data))"
  define n where "n = length (data_blocks data)"
  define F where "F = to_le_bytes (of_nat (length data)) @ to_le_bytes (of_nat n) @ POSTINGS_MAGIC"
  have tail: "postings_tail sha data = T @ F" by (simp add: postings_tail_def T_def F_def n_def)
  have F: "length F = 24" by (simp add: F_def POSTINGS_MAGIC_def)
  have T: "length T = n * 32" unfolding T_def n_def by (rule length_concat_uniform) (simp add: sha)
  have tot: "length data + n * 32 + 24 < 2 ^ 64" using small unfolding tail by (simp add: T F)
  then have d: "unat (of_nat (length data) :: u64) = length data" "unat (of_nat n :: u64) = n"
    by (simp_all add: unat_of_nat)
  have footer: "drop (length (T @ F) - POSTINGS_FOOTER_BYTES) (T @ F) = F" by (simp add: F POSTINGS_FOOTER_BYTES_def)
  have sl: "sub_slice F 16 24 = POSTINGS_MAGIC" "sub_slice F 0 8 = to_le_bytes (of_nat (length data))" "sub_slice F 8 16 = to_le_bytes (of_nat n)"
    by (simp_all add: sub_slice_def F_def POSTINGS_MAGIC_def)
  have chunks: "chunks_exact 32 (sub_slice (T @ F) 0 (length (T @ F) - POSTINGS_FOOTER_BYTES)) = map sha (data_blocks data)"
  proof -
    have "sub_slice (T @ F) 0 (length (T @ F) - POSTINGS_FOOTER_BYTES) = T" by (simp add: sub_slice_def F POSTINGS_FOOTER_BYTES_def)
    then show ?thesis unfolding T_def using chunks_exact_concat [of 32 "data_blocks data" sha] sha by simp
  qed
  have n': "n = div_ceil (length data) VERIFY_BLOCK_BYTES" by (simp add: n_def data_blocks_def)
  have len: "length (data @ T @ F) = length data + n * 32 + 24" "length (T @ F) = n * 32 + 24" by (simp_all add: T F)
  show ?thesis
    unfolding parse_postings_def tail Let_def footer sl from_to_le_bytes d
    using tot n' chunks
    by (simp add: POSTINGS_FOOTER_BYTES_def T F mul_u64_def add_u64_def checked_sub_def)
qed

end
