(* ===== verification/Run_Merge.thy ===== *)
theory Run_Merge
  imports Wire Grams "HOL-Library.Product_Lexorder" "HOL-Library.Multiset"
begin

text \<open>
  Posting runs, \<open>crates/index/src/build/runs.rs\<close>: the fixed-width records of a temporary run, the merge
  of sorted runs with a binary heap, and the collapse of many runs into at most 64. A temporary file is its
  bytes, a reader what is left of them, and a min-heap an ascending list. The lemma every client
  uses is \<open>merge_loop_visits\<close>: the loop visits the records of all runs in ascending order.
\<close>

section \<open>Records\<close>

definition key_bytes :: "strategy \<Rightarrow> nat" where
  "key_bytes strat = (case strat of Trigram \<Rightarrow> 3 | Sparse \<Rightarrow> 8)"

definition record_bytes :: "strategy \<Rightarrow> nat" where
  "record_bytes strat = key_bytes strat + 4"

text \<open>\<open>to_be_bytes\<close> and \<open>from_be_bytes\<close> of a \<open>DocId\<close>, which is a \<open>u32\<close>.\<close>

definition id_to_be_bytes :: "doc_id \<Rightarrow> bytes" where
  "id_to_be_bytes v = rev (map (\<lambda>k. ucast (drop_bit (8 * k) v)) [0..<4])"

definition id_from_be_bytes :: "bytes \<Rightarrow> doc_id" where
  "id_from_be_bytes bs = of_nat (horner_sum unat 256 (rev bs))"

definition write_posting_record :: "strategy \<Rightarrow> u64 \<Rightarrow> doc_id \<Rightarrow> bytes" where
  "write_posting_record strat key i = drop (8 - key_bytes strat) (to_be_bytes key) @ id_to_be_bytes i"

text \<open>A reader is the rest of the file: nothing is left, or a whole record is.\<close>

definition read_record :: "strategy \<Rightarrow> bytes \<Rightarrow> ((u64 \<times> doc_id) \<times> bytes) option result" where
  "read_record strat run =
     (if run = [] then Inr None
      else ensure (record_bytes strat \<le> length run) ''truncated temporary posting run''
        (let rec = take (record_bytes strat) run; key = take (key_bytes strat) rec
         in Inr (Some ((from_be_bytes (replicate (8 - length key) 0 @ key), id_from_be_bytes (drop (key_bytes strat) rec)),
              drop (record_bytes strat) run))))"

section \<open>The heap and the merge\<close>

type_synonym run_heap = "(u64 \<times> doc_id \<times> nat) list"

definition refill :: "strategy \<Rightarrow> run_heap \<Rightarrow> bytes list \<Rightarrow> nat \<Rightarrow> (run_heap \<times> bytes list) result" where
  "refill strat heap runs run_idx =
     and_then (or_panic (get runs run_idx)) (\<lambda>run.
     and_then (read_record strat run) (\<lambda>nxt.
       case nxt of
         None \<Rightarrow> Inr (heap, runs)
       | Some ((key, i), rest) \<Rightarrow> Inr (insort (key, i, run_idx) heap, runs[run_idx := rest])))"

definition start_heap :: "strategy \<Rightarrow> bytes list \<Rightarrow> (run_heap \<times> bytes list) result" where
  "start_heap strat runs = visit_all (\<lambda>(heap, runs) run_idx. refill strat heap runs run_idx) ([], runs) [0..<length runs]"

lemma refill_measure:
  assumes "refill strat heap runs i = Inr (heap', runs')"
  shows "length heap' + sum_list (map length runs') \<le> length heap + sum_list (map length runs)"
proof -
  from assms obtain r0 where n: "i < length runs" "read_record strat (runs ! i) = Inr r0"
    "(case r0 of None \<Rightarrow> Inr (heap, runs) | Some ((key, d), rest) \<Rightarrow> Inr (insort (key, d, i) heap, runs[i := rest])) =
       (Inr (heap', runs') :: (run_heap \<times> bytes list) result)"
    by (auto simp: refill_def)
  show ?thesis
  proof (cases r0)
    case None
    with n(3) show ?thesis by simp
  next
    case (Some a)
    obtain key d rest where a: "a = ((key, d), rest)" by (metis surj_pair)
    from n(2) Some a have "length rest < length (runs ! i)"
      by (auto simp: read_record_def record_bytes_def key_bytes_def Let_def split: if_splits strategy.splits)
    moreover have "sum_list (map length (runs[i := rest])) + length (runs ! i) = sum_list (map length runs) + length rest"
      using n(1) member_le_sum_list [of "length (runs ! i)" "map length runs"] by (simp add: map_update sum_list_update)
    moreover have "heap' = insort (key, d, i) heap" "runs' = runs[i := rest]" using n(3) Some a by simp_all
    ultimately show ?thesis by simp
  qed
qed

text \<open>\<open>while let Some(Reverse((key, id, run_idx))) = heap.pop()\<close>, whose body runs before the run is read again.\<close>

function merge_loop ::
    "strategy \<Rightarrow> ('s \<Rightarrow> u64 \<Rightarrow> doc_id \<Rightarrow> 's result) \<Rightarrow> 's \<Rightarrow> run_heap \<Rightarrow> bytes list \<Rightarrow> 's result" where
  "merge_loop strat visit s [] runs = Inr s"
| "merge_loop strat visit s ((key, i, run_idx) # heap) runs =
     and_then (visit s key i) (\<lambda>s.
     and_then (refill strat heap runs run_idx) (\<lambda>(heap, runs).
       merge_loop strat visit s heap runs))"
  by pat_completeness auto
termination
  by (relation "measure (\<lambda>(strat, visit, s, heap, runs). length heap + sum_list (map length runs))")
    (auto dest!: refill_measure)

definition group_step_run :: "strategy \<Rightarrow> bytes \<times> (u64 \<times> doc_id) option \<Rightarrow> u64 \<Rightarrow> doc_id \<Rightarrow> (bytes \<times> (u64 \<times> doc_id) option) result" where
  "group_step_run strat = (\<lambda>(out, previous) key i.
     Inr (if previous \<noteq> Some (key, i) then (out @ write_posting_record strat key i, Some (key, i)) else (out, previous)))"

definition merge_run_group :: "strategy \<Rightarrow> bytes list \<Rightarrow> bytes result" where
  "merge_run_group strat paths =
     and_then (start_heap strat paths) (\<lambda>(heap, runs).
     and_then (merge_loop strat (group_step_run strat) ([], None) heap runs) (\<lambda>(out, _). Inr out))"

definition MAX_OPEN_POSTING_RUNS :: nat where "MAX_OPEN_POSTING_RUNS = 64"

function run_groups :: "bytes list \<Rightarrow> bytes list list" where
  "run_groups runs = (if runs = [] then [] else take MAX_OPEN_POSTING_RUNS runs # run_groups (drop MAX_OPEN_POSTING_RUNS runs))"
  by pat_completeness auto
termination by (relation "measure length") (auto simp: MAX_OPEN_POSTING_RUNS_def)

declare run_groups.simps [simp del]

definition merge_groups :: "strategy \<Rightarrow> bytes list \<Rightarrow> bytes list result" where
  "merge_groups strat runs =
     visit_all (\<lambda>nxt group.
       if length group = 1 then Inr (nxt @ group)
       else and_then (merge_run_group strat group) (\<lambda>run. Inr (nxt @ [run]))) [] (run_groups runs)"

lemma length_run_groups: "length (run_groups runs) = div_ceil (length runs) MAX_OPEN_POSTING_RUNS"
proof (induction runs rule: run_groups.induct)
  case (1 runs)
  show ?case
  proof (cases "runs = []")
    case True
    then show ?thesis by (simp add: run_groups.simps div_ceil_def MAX_OPEN_POSTING_RUNS_def)
  next
    case False
    then obtain m where m: "length runs = Suc m" by (cases runs) auto
    have "Suc ((63 + (length runs - 64)) div 64) = (63 + length runs) div 64"
      by (cases "64 \<le> length runs") (simp_all add: m)
    with False "1" show ?thesis by (subst run_groups.simps) (simp add: div_ceil_def MAX_OPEN_POSTING_RUNS_def)
  qed
qed

lemma length_merge_groups: "merge_groups strat runs = Inr nxt \<Longrightarrow> length nxt = div_ceil (length runs) MAX_OPEN_POSTING_RUNS"
proof -
  have "visit_all (\<lambda>nxt group. if length group = 1 then Inr (nxt @ group)
       else and_then (merge_run_group strat group) (\<lambda>run. Inr (nxt @ [run]))) acc gs = Inr nxt \<Longrightarrow> length nxt = length acc + length gs" for acc gs
    by (induction gs arbitrary: acc) (auto split: sum.splits if_splits)
  then show "merge_groups strat runs = Inr nxt \<Longrightarrow> length nxt = div_ceil (length runs) MAX_OPEN_POSTING_RUNS"
    by (fastforce simp: merge_groups_def length_run_groups)
qed

function collapse_posting_runs :: "bytes list \<Rightarrow> strategy \<Rightarrow> bytes list result" where
  "collapse_posting_runs runs strat =
     (if length runs > MAX_OPEN_POSTING_RUNS
      then and_then (merge_groups strat runs) (\<lambda>nxt. collapse_posting_runs nxt strat)
      else Inr runs)"
  by pat_completeness auto
termination
  by (relation "measure (\<lambda>(runs, strat). length runs)")
    (auto dest!: length_merge_groups simp: div_ceil_def MAX_OPEN_POSTING_RUNS_def)

declare collapse_posting_runs.simps [simp del]

section \<open>Records read back\<close>

definition good_key :: "strategy \<Rightarrow> u64 \<Rightarrow> bool" where
  "good_key strat key \<longleftrightarrow> unat key < 256 ^ key_bytes strat"

lemma length_id_to_be_bytes [simp]: "length (id_to_be_bytes i) = 4"
  by (simp add: id_to_be_bytes_def)

lemma length_write_record [simp]: "length (write_posting_record strat key i) = record_bytes strat"
  by (simp add: write_posting_record_def record_bytes_def key_bytes_def split: strategy.split)

lemma write_record_ne [simp]: "write_posting_record strat key i \<noteq> []"
proof
  assume "write_posting_record strat key i = []"
  then have "length (write_posting_record strat key i) = 0" by (simp only: list.size)
  then show False unfolding length_write_record by (simp add: record_bytes_def)
qed

lemma id_from_to_be_bytes [simp]: "id_from_be_bytes (id_to_be_bytes i) = i"
proof -
  let ?bs = "map (\<lambda>k. ucast (drop_bit (8 * k) i)) [0..<4] :: bytes"
  have "map unat ?bs = base_digits 256 4 (unat i)"
  proof (rule nth_equalityI)
    fix k assume "k < length (map unat ?bs)"
    then have k: "k < 4" by simp
    have "(2 :: nat) ^ (8 * k) = 256 ^ k" by (simp add: power_mult)
    with k show "map unat ?bs ! k = base_digits 256 4 (unat i) ! k"
      by (simp add: nth_base_digits unat_ucast_down unat_drop_bit)
  qed simp
  then have "horner_sum unat 256 ?bs = unat i mod 256 ^ 4"
    by (subst horner_sum_map) (simp only: horner_base_digits)
  also have "\<dots> = unat i" using unat_lt32 [of i] by simp
  finally show ?thesis by (simp add: id_from_be_bytes_def id_to_be_bytes_def)
qed

lemma key_padding:
  assumes "good_key strat key"
  shows "replicate (8 - key_bytes strat) 0 @ drop (8 - key_bytes strat) (to_be_bytes key) = to_be_bytes key"
proof -
  let ?n = "8 - key_bytes strat"
  have n: "?n \<le> 8" "8 - ?n = key_bytes strat" by (simp_all add: key_bytes_def split: strategy.split)
  have "take ?n (to_be_bytes key) = replicate ?n 0"
  proof (rule nth_equalityI)
    fix j assume "j < length (take ?n (to_be_bytes key))"
    then have j: "j < ?n" by simp
    then have "unat key < 256 ^ (7 - j)"
      using assms n order_less_le_trans [of "unat key" "256 ^ key_bytes strat" "256 ^ (7 - j)"] by (simp add: good_key_def)
    then have "unat key div 2 ^ (8 * (7 - j)) = 0" by (simp add: power_mult)
    then have "drop_bit (8 * (7 - j)) key = 0" by (simp add: word_unat_eq_iff unat_drop_bit)
    with j n show "take ?n (to_be_bytes key) ! j = replicate ?n 0 ! j"
      by (simp add: to_be_bytes_def to_le_bytes_def rev_nth)
  qed (use n in simp)
  then show ?thesis by (metis append_take_drop_id)
qed

lemma read_write_record:
  assumes "good_key strat key"
  shows "read_record strat (write_posting_record strat key i @ rest) = Inr (Some ((key, i), rest))"
proof -
  let ?k = "drop (8 - key_bytes strat) (to_be_bytes key)"
  have len: "length ?k = key_bytes strat" by (simp add: key_bytes_def split: strategy.split)
  have "take (record_bytes strat) (write_posting_record strat key i @ rest) = write_posting_record strat key i"
    "drop (record_bytes strat) (write_posting_record strat key i @ rest) = rest" by simp_all
  moreover have "take (key_bytes strat) (write_posting_record strat key i) = ?k" "drop (key_bytes strat) (write_posting_record strat key i) = id_to_be_bytes i"
    unfolding write_posting_record_def using len by (simp_all del: length_drop)
  ultimately show ?thesis
    unfolding read_record_def Let_def by (simp add: len key_padding [OF assms] del: length_drop)
qed

definition records :: "strategy \<Rightarrow> (u64 \<times> doc_id) list \<Rightarrow> bytes" where
  "records strat rs = concat (map (\<lambda>(key, i). write_posting_record strat key i) rs)"

lemma read_record_records:
  "list_all (\<lambda>(key, i). good_key strat key) rs \<Longrightarrow>
   read_record strat (records strat rs) = Inr (case rs of [] \<Rightarrow> None | r # rs' \<Rightarrow> Some (r, records strat rs'))"
proof (cases rs)
  case Nil
  then show ?thesis by (simp add: records_def read_record_def)
next
  case (Cons r rs')
  assume "list_all (\<lambda>(key, i). good_key strat key) rs"
  with Cons show ?thesis by (cases r) (simp add: records_def read_write_record)
qed

definition is_run :: "strategy \<Rightarrow> (u64 \<times> doc_id) list \<Rightarrow> bytes \<Rightarrow> bool" where
  "is_run strat rs run \<longleftrightarrow> run = records strat rs \<and> sorted rs \<and> list_all (\<lambda>(key, i). good_key strat key) rs"

section \<open>The merge visits all records in order\<close>

definition head_of :: "(u64 \<times> doc_id) list list \<Rightarrow> nat \<Rightarrow> run_heap" where
  "head_of pss k = (case pss ! k of [] \<Rightarrow> [] | (key, i) # _ \<Rightarrow> [(key, i, k)])"

definition heads :: "(u64 \<times> doc_id) list list \<Rightarrow> (u64 \<times> doc_id \<times> nat) multiset" where
  "heads pss = mset (concat (map (head_of pss) [0..<length pss]))"

text \<open>What the loop keeps: \<open>pss\<close> are the records still to visit, run by run, and the heap holds the first of each.\<close>

definition merge_inv :: "strategy \<Rightarrow> (u64 \<times> doc_id) list list \<Rightarrow> run_heap \<Rightarrow> bytes list \<Rightarrow> bool" where
  "merge_inv strat pss heap runs \<longleftrightarrow>
     sorted heap \<and> mset heap = heads pss \<and> runs = map (\<lambda>ps. records strat (tl ps)) pss \<and>
     (\<forall>ps\<in>set pss. sorted ps \<and> list_all (\<lambda>(key, i). good_key strat key) ps)"

lemma heads_update:
  assumes "k < length pss"
  shows "heads (pss[k := ps]) + mset (head_of pss k) = heads pss + mset (head_of (pss[k := ps]) k)"
proof -
  have split: "[0..<length pss] = [0..<k] @ k # [Suc k..<length pss]"
    using assms upt_add_eq_append [of 0 k "length pss - k"] by (simp add: upt_conv_Cons)
  have "map (head_of (pss[k := ps])) [0..<k] = map (head_of pss) [0..<k]"
    "map (head_of (pss[k := ps])) [Suc k..<length pss] = map (head_of pss) [Suc k..<length pss]"
    by (auto simp: head_of_def)
  then show ?thesis unfolding heads_def length_list_update split
    by (simp only: map_append list.map concat_append concat.simps mset_append ac_simps)
qed

lemma heads_member: "(key, i, k) \<in># heads pss \<longleftrightarrow> k < length pss \<and> (\<exists>t. pss ! k = (key, i) # t)"
proof
  assume "(key, i, k) \<in># heads pss"
  then show "k < length pss \<and> (\<exists>t. pss ! k = (key, i) # t)" by (auto simp: heads_def head_of_def split: list.splits dest: sym)
next
  assume "k < length pss \<and> (\<exists>t. pss ! k = (key, i) # t)"
  then show "(key, i, k) \<in># heads pss" by (auto simp: heads_def head_of_def split: list.splits intro!: bexI [of _ k])
qed

lemma refill_inv:
  assumes "merge_inv strat pss ((key, i, k) # heap) runs"
  shows "\<exists>heap' runs' t. refill strat heap runs k = Inr (heap', runs') \<and> pss ! k = (key, i) # t \<and> k < length pss \<and>
     merge_inv strat (pss[k := t]) heap' runs'"
proof -
  from assms have inv: "sorted heap" "add_mset (key, i, k) (mset heap) = heads pss" "runs = map (\<lambda>ps. records strat (tl ps)) pss"
    "\<forall>ps\<in>set pss. sorted ps \<and> list_all (\<lambda>(key, i). good_key strat key) ps" by (auto simp: merge_inv_def)
  from inv(2) have "(key, i, k) \<in># heads pss" by (metis union_single_eq_member)
  then obtain t where k: "k < length pss" "pss ! k = (key, i) # t" by (auto simp: heads_member)
  then have "(key, i) # t \<in> set pss" by (metis nth_mem)
  with inv(4) have t: "sorted t" "list_all (\<lambda>(key, i). good_key strat key) t" by auto
  have run: "runs ! k = records strat t" "k < length runs" using k by (simp_all add: inv(3))
  have upd: "heads (pss[k := t]) = mset heap + mset (head_of (pss[k := t]) k)"
  proof -
    have h: "mset (head_of pss k) = {#(key, i, k)#}" by (simp add: head_of_def k(2))
    have "heads (pss[k := t]) + {#(key, i, k)#} = heads pss + mset (head_of (pss[k := t]) k)"
      using heads_update [OF k(1), of t] unfolding h .
    also have "\<dots> = (mset heap + mset (head_of (pss[k := t]) k)) + {#(key, i, k)#}" unfolding inv(2) [symmetric] by simp
    finally show ?thesis by (rule add_right_imp_eq)
  qed
  have all: "\<forall>ps\<in>set (pss[k := t]). sorted ps \<and> list_all (\<lambda>(key, i). good_key strat key) ps"
    using inv(4) t set_update_subset_insert [of pss k t] by blast
  show ?thesis
  proof (cases t)
    case Nil
    then have "refill strat heap runs k = Inr (heap, runs)"
      using read_record_records [OF t(2)] run by (simp add: refill_def get_def)
    moreover have "runs = map (\<lambda>ps. records strat (tl ps)) (pss[k := t])"
      using k by (simp add: inv(3) map_update Nil) (metis (no_types, lifting) Nil k(2) list.sel(3) list_update_id map_update nth_map)
    ultimately show ?thesis using inv(1) upd all k Nil by (auto simp: merge_inv_def head_of_def)
  next
    case (Cons r t')
    obtain key' i' where r: "r = (key', i')" by (cases r)
    have "refill strat heap runs k = Inr (insort (key', i', k) heap, runs[k := records strat t'])"
      using read_record_records [OF t(2)] run by (simp add: refill_def get_def Cons r)
    moreover have "runs[k := records strat t'] = map (\<lambda>ps. records strat (tl ps)) (pss[k := t])" by (simp add: inv(3) map_update Cons)
    moreover have "mset (insort (key', i', k) heap) = heads (pss[k := t])" using upd k(1) by (simp add: head_of_def Cons r)
    moreover have "sorted (insort (key', i', k) heap)" using inv(1) by (simp add: sorted_insort)
    ultimately show ?thesis using all k by (auto simp: merge_inv_def)
  qed
qed

lemma concat_update:
  assumes "k < length pss" "pss ! k = x # t"
  shows "mset (concat pss) = add_mset x (mset (concat (pss[k := t])))"
proof -
  have "concat pss = concat (take k pss) @ (x # t) @ concat (drop (Suc k) pss)"
    using arg_cong [OF id_take_nth_drop [OF assms(1)], of concat] by (simp add: assms(2))
  moreover have "concat (pss[k := t]) = concat (take k pss) @ t @ concat (drop (Suc k) pss)"
    by (simp add: upd_conv_take_nth_drop [OF assms(1)])
  ultimately show ?thesis by simp
qed

lemma merge_head_least:
  assumes "merge_inv strat pss ((key, i, k) # heap) runs" "x \<in> set (concat pss)"
  shows "(key, i) \<le> x"
proof -
  from assms(2) obtain j where j: "j < length pss" "x \<in> set (pss ! j)" by (metis UN_E in_set_conv_nth set_concat)
  then obtain y t where y: "pss ! j = y # t" by (cases "pss ! j") auto
  obtain key' i' where p: "y = (key', i')" by (cases y)
  have "sorted (pss ! j)" using assms(1) j(1) by (auto simp: merge_inv_def)
  then have "y \<le> x" using j(2) y by auto
  moreover have "(key', i', j) \<in> set ((key, i, k) # heap)"
    using assms(1) heads_member [of key' i' j pss] j(1) y p by (metis merge_inv_def set_mset_mset)
  then have "(key, i, k) \<le> (key', i', j)" using assms(1) by (auto simp: merge_inv_def)
  then have "(key, i) \<le> y" using p by (auto simp: less_eq_prod_def)
  ultimately show ?thesis by (rule order.trans [rotated])
qed

lemma merge_loop_visits:
  "merge_inv strat pss heap runs \<Longrightarrow>
   merge_loop strat visit s heap runs = visit_all (\<lambda>s (key, i). visit s key i) s (sort (concat pss))"
proof (induction "length (concat pss)" arbitrary: pss heap runs s)
  case 0
  then have empty: "\<forall>ps\<in>set pss. ps = []" by simp
  have "heads pss = {#}"
  proof (rule ccontr)
    assume "heads pss \<noteq> {#}"
    then obtain key i k where "(key, i, k) \<in># heads pss" by (metis multiset_nonemptyE prod_cases3)
    then show False using empty by (metis heads_member list.distinct(1) nth_mem)
  qed
  then have "heap = []" using "0.prems" by (simp add: merge_inv_def)
  moreover have "concat pss = []" using empty by simp
  ultimately show ?case by (simp only: merge_loop.simps sort_key_simps visit_all.simps)
next
  case (Suc n)
  have "heap \<noteq> []"
  proof
    assume "heap = []"
    then have none: "heads pss = {#}" using Suc.prems by (simp add: merge_inv_def)
    from Suc.hyps(2) obtain ps where "ps \<in> set pss" "ps \<noteq> []" by (metis concat_eq_Nil_conv length_0_conv nat.distinct(1))
    then obtain k key i t where "k < length pss" "pss ! k = (key, i) # t" by (metis in_set_conv_nth list.exhaust surj_pair)
    then show False using none heads_member [of key i k pss] by auto
  qed
  then obtain key i k heap0 where heap: "heap = (key, i, k) # heap0" by (metis list.exhaust prod_cases3)
  from refill_inv [OF Suc.prems [unfolded heap]] obtain heap' runs' t where
    r: "refill strat heap0 runs k = Inr (heap', runs')" "pss ! k = (key, i) # t" "k < length pss"
      "merge_inv strat (pss[k := t]) heap' runs'" by blast
  note m = concat_update [OF r(3,2)]
  have n: "n = length (concat (pss[k := t]))" using Suc.hyps(2) arg_cong [OF m, of size] by simp
  have "sort (concat pss) = (key, i) # sort (concat (pss[k := t]))"
  proof (rule properties_for_sort)
    show "mset ((key, i) # sort (concat (pss[k := t]))) = mset (concat pss)" using m by simp
    have "\<forall>x\<in>set (concat (pss[k := t])). (key, i) \<le> x"
      using merge_head_least [OF Suc.prems [unfolded heap]] m by (metis insert_iff set_mset_add_mset_insert set_mset_mset)
    then show "sorted ((key, i) # sort (concat (pss[k := t])))" by simp
  qed
  then show ?case using Suc.hyps(1) [OF n r(4)] r(1) by (simp add: heap and_then_def split: sum.split)
qed

lemma start_heap_inv:
  assumes "list_all2 (is_run strat) rss runs"
  shows "\<exists>heap runs'. start_heap strat runs = Inr (heap, runs') \<and> merge_inv strat rss heap runs'"
proof -
  have len: "length runs = length rss" using assms by (simp add: list_all2_lengthD)
  have run: "runs ! k = records strat (rss ! k)" "sorted (rss ! k)" "list_all (\<lambda>(key, i). good_key strat key) (rss ! k)"
    if "k < length rss" for k
    using list_all2_nthD [OF assms that] by (auto simp: is_run_def)
  define opened where "opened m = map (\<lambda>k. records strat (if k < m then tl (rss ! k) else rss ! k)) [0..<length rss]" for m
  have runs: "runs = opened 0" unfolding opened_def by (rule nth_equalityI) (simp_all add: len run)
  have "\<exists>heap. visit_all (\<lambda>(heap, runs) k. refill strat heap runs k) ([], runs) [0..<m] = Inr (heap, opened m) \<and>
      sorted heap \<and> mset heap = mset (concat (map (head_of rss) [0..<m]))" if "m \<le> length rss" for m
    using that
  proof (induction m)
    case 0
    then show ?case by (simp add: runs)
  next
    case (Suc m)
    then obtain heap where h: "visit_all (\<lambda>(heap, runs) k. refill strat heap runs k) ([], runs) [0..<m] = Inr (heap, opened m)"
      "sorted heap" "mset heap = mset (concat (map (head_of rss) [0..<m]))" by auto
    have m: "m < length rss" using Suc.prems by simp
    have get: "get (opened m) m = Some (records strat (rss ! m))" using m by (simp add: get_def opened_def)
    have upd: "(opened m)[m := records strat (tl (rss ! m))] = opened (Suc m)"
      unfolding opened_def by (rule nth_equalityI) (auto simp: nth_list_update less_Suc_eq m)
    note rd = read_record_records [OF run(3) [OF m]]
    show ?case
    proof (cases "rss ! m")
      case Nil
      have "opened (Suc m) = opened m" unfolding opened_def by (rule nth_equalityI) (auto simp: Nil less_Suc_eq)
      moreover have "refill strat heap (opened m) m = Inr (heap, opened m)" using rd unfolding refill_def get by (simp add: Nil)
      moreover have "head_of rss m = []" by (simp add: head_of_def Nil)
      ultimately show ?thesis using h by (simp add: visit_all_snoc)
    next
      case (Cons r t)
      obtain key i where r: "r = (key, i)" by (cases r)
      have "refill strat heap (opened m) m = Inr (insort (key, i, m) heap, opened (Suc m))"
        using rd upd unfolding refill_def get by (simp add: Cons r)
      moreover have "head_of rss m = [(key, i, m)]" by (simp add: head_of_def Cons r)
      ultimately show ?thesis using h by (simp add: visit_all_snoc sorted_insort)
    qed
  qed
  from this [of "length rss"] obtain heap where
    h: "start_heap strat runs = Inr (heap, opened (length rss))" "sorted heap" "mset heap = heads rss"
    by (auto simp: start_heap_def len heads_def)
  have "opened (length rss) = map (\<lambda>ps. records strat (tl ps)) rss"
    unfolding opened_def by (rule nth_equalityI) simp_all
  moreover have "\<forall>ps\<in>set rss. sorted ps \<and> list_all (\<lambda>(key, i). good_key strat key) ps"
    using run(2,3) by (metis in_set_conv_nth)
  ultimately show ?thesis using h by (auto simp: merge_inv_def)
qed

lemma records_append [simp]: "records strat (xs @ ys) = records strat xs @ records strat ys"
  by (simp add: records_def)

lemma group_steps:
  "\<exists>previous'. visit_all (\<lambda>s (key, i). group_step_run strat s key i) (out, previous) ps =
     Inr (out @ records strat (remdups_adj (case previous of None \<Rightarrow> ps | Some p \<Rightarrow> dropWhile (\<lambda>q. q = p) ps)), previous')"
proof (induction ps arbitrary: out previous)
  case Nil
  then show ?case by (simp add: records_def split: option.split)
next
  case (Cons p ps)
  obtain key i where p: "p = (key, i)" by (cases p)
  show ?case
  proof (cases "previous = Some p")
    case True
    with Cons.IH [of out previous] show ?thesis by (simp add: p group_step_run_def)
  next
    case False
    have "remdups_adj (case previous of None \<Rightarrow> p # ps | Some q \<Rightarrow> dropWhile (\<lambda>x. x = q) (p # ps)) =
        p # remdups_adj (dropWhile (\<lambda>x. x = p) ps)"
      using False by (auto simp: remdups_adj_Cons' split: option.split)
    with Cons.IH [of "out @ write_posting_record strat key i" "Some p"] False show ?thesis
      by (simp add: p group_step_run_def records_def)
  qed
qed

lemma merge_run_group_run:
  assumes "list_all2 (is_run strat) rss paths"
  shows "\<exists>out. merge_run_group strat paths = Inr out \<and> is_run strat (remdups_adj (sort (concat rss))) out"
proof -
  from start_heap_inv [OF assms] obtain heap runs where h: "start_heap strat paths = Inr (heap, runs)" "merge_inv strat rss heap runs" by blast
  have "merge_run_group strat paths = Inr (records strat (remdups_adj (sort (concat rss))))"
    using group_steps [of strat "[]" None "sort (concat rss)"] by (auto simp: merge_run_group_def h(1) merge_loop_visits [OF h(2)])
  moreover have "list_all (\<lambda>(key, i). good_key strat key) (remdups_adj (sort (concat rss)))"
    using h(2) by (fastforce simp: merge_inv_def list_all_iff)
  ultimately show ?thesis by (simp add: is_run_def sorted_remdups_adj)
qed

lemma concat_run_groups: "concat (run_groups runs) = runs"
proof (induction runs rule: run_groups.induct)
  case (1 runs)
  then show ?case by (subst run_groups.simps) auto
qed

lemma merge_groups_runs:
  assumes "list_all2 (is_run strat) rss runs"
  shows "\<exists>nxt rss'. merge_groups strat runs = Inr nxt \<and> list_all2 (is_run strat) rss' nxt \<and> set (concat rss') = set (concat rss)"
proof -
  have "\<exists>nxt rss'. visit_all (\<lambda>nxt group. if length group = 1 then Inr (nxt @ group)
       else and_then (merge_run_group strat group) (\<lambda>run. Inr (nxt @ [run]))) acc gs = Inr nxt \<and>
     list_all2 (is_run strat) rss' nxt \<and> set (concat rss') = set (concat ass) \<union> set (concat rss)"
    if "list_all2 (is_run strat) rss (concat gs)" "list_all2 (is_run strat) ass acc" for gs acc ass rss
    using that
  proof (induction gs arbitrary: acc ass rss)
    case Nil
    then show ?case by auto
  next
    case (Cons g gs)
    from Cons.prems(1) obtain gss rest where split: "rss = gss @ rest" "list_all2 (is_run strat) gss g" "list_all2 (is_run strat) rest (concat gs)"
      by (auto simp: list_all2_append2)
    show ?case
    proof (cases "length g = 1")
      case True
      have "list_all2 (is_run strat) (ass @ gss) (acc @ g)" using Cons.prems(2) split(2) by (rule list_all2_appendI)
      from Cons.IH [OF split(3) this] True show ?thesis by (simp add: split(1) Un_assoc)
    next
      case False
      from merge_run_group_run [OF split(2)] obtain out where
        out: "merge_run_group strat g = Inr out" "is_run strat (remdups_adj (sort (concat gss))) out" by blast
      have "list_all2 (is_run strat) (ass @ [remdups_adj (sort (concat gss))]) (acc @ [out])"
        using Cons.prems(2) out(2) by (simp add: list_all2_appendI)
      from Cons.IH [OF split(3) this] False out(1) show ?thesis by (simp add: split(1) Un_assoc)
    qed
  qed
  from this [of rss "run_groups runs" "[]" "[]"] assms show ?thesis by (simp add: merge_groups_def concat_run_groups)
qed

lemma collapse_runs:
  "list_all2 (is_run strat) rss runs \<Longrightarrow>
   \<exists>out rss'. collapse_posting_runs runs strat = Inr out \<and> list_all2 (is_run strat) rss' out \<and>
     set (concat rss') = set (concat rss) \<and> length out \<le> MAX_OPEN_POSTING_RUNS"
proof (induction "length runs" arbitrary: runs rss rule: less_induct)
  case less
  show ?case
  proof (cases "length runs > MAX_OPEN_POSTING_RUNS")
    case True
    from merge_groups_runs [OF less.prems] obtain nxt rss' where
      n: "merge_groups strat runs = Inr nxt" "list_all2 (is_run strat) rss' nxt" "set (concat rss') = set (concat rss)" by blast
    have "length nxt < length runs"
      using length_merge_groups [OF n(1)] True by (simp add: div_ceil_def MAX_OPEN_POSTING_RUNS_def)
    from less.hyps [OF this n(2)] n(1,3) True show ?thesis by (subst collapse_posting_runs.simps) auto
  next
    case False
    with less.prems show ?thesis by (subst collapse_posting_runs.simps) auto
  qed
qed

section \<open>Properties\<close>

text \<open>
  C22: Collapsing posting runs is bounded and loses nothing. From any number of sorted runs it returns, without an error, at most
  \<open>MAX_OPEN_POSTING_RUNS\<close> runs; each is again the byte image of sorted records with keys of the width of the strategy, and together they hold exactly
  the records of the runs it was given.
\<close>

theorem posting_runs_collapse:
  assumes "list_all2 (is_run strat) rss runs"
  shows "\<exists>out rss'. collapse_posting_runs runs strat = Inr out \<and> list_all2 (is_run strat) rss' out \<and>
     set (concat rss') = set (concat rss) \<and> length out \<le> MAX_OPEN_POSTING_RUNS"
  by (rule collapse_runs [OF assms])

theorem posting_runs_collapse_witness:
  "\<exists>out rss'. collapse_posting_runs (replicate 65 (records Trigram [(1, 7), (1, 9)])) Trigram = Inr out \<and>
     list_all2 (is_run Trigram) rss' out \<and> set (concat rss') = {(1, 7), (1, 9)} \<and> length out \<le> MAX_OPEN_POSTING_RUNS"
proof -
  have "is_run Trigram [(1, 7), (1, 9)] (records Trigram [(1, 7), (1, 9)])"
    by (simp add: is_run_def good_key_def key_bytes_def less_eq_prod_def)
  then have "list_all2 (is_run Trigram) (replicate 65 [(1, 7), (1, 9)]) (replicate 65 (records Trigram [(1, 7), (1, 9)]))"
    by (simp add: list_all2_conv_all_nth)
  from posting_runs_collapse [OF this] show ?thesis by simp
qed

end
