(* ===== verification/Index_Build.thy ===== *)
theory Index_Build
  imports Terms Postings_Table Run_Merge
begin

text \<open>
  Building the dictionary and the postings of a segment from sorted runs, \<open>insert_posting_file\<close> and
  \<open>merge_posting_runs\<close> of \<open>crates/index/src/build/runs.rs\<close>. A streaming upload is the bytes sent; buffering and
  reader sizes are left out. The result holds, for every gram, the ascending list of the ids recorded for its key.
\<close>

section \<open>Definitions\<close>

definition TRIGRAM_SHARD_RUN_BYTES :: nat where "TRIGRAM_SHARD_RUN_BYTES = 7 * 1024 * 1024"

definition uses_sharded_terms :: "strategy \<Rightarrow> nat \<Rightarrow> bool" where
  "uses_sharded_terms strat run_bytes \<longleftrightarrow> strat = Trigram \<and> run_bytes \<ge> TRIGRAM_SHARD_RUN_BYTES"

record index_writer =
  ix_builder :: term_builder
  ix_postings :: postings_writer
  ix_offset :: u64

text \<open>The encoded list and, for delta blocks, its length.\<close>

definition encode_list :: "strategy \<Rightarrow> u32 \<Rightarrow> doc_id list \<Rightarrow> bytes \<times> u64 option" where
  "encode_list strat doc_count ids =
     (case strat of
        Sparse \<Rightarrow> (encode_delta_blocks ids, Some (of_nat (length (encode_delta_blocks ids))))
      | Trigram \<Rightarrow> (encode_posting_block ids doc_count, None))"

definition insert_posting_file ::
    "fst_crate \<Rightarrow> (bytes \<Rightarrow> bytes) \<Rightarrow> strategy \<Rightarrow> u32 \<Rightarrow> index_writer \<Rightarrow> u64 \<Rightarrow> doc_id list \<Rightarrow> index_writer result" where
  "insert_posting_file F sha strat doc_count w key ids =
     (let ids = remdups_adj (sort ids); gram = drop (8 - key_bytes strat) (to_be_bytes key)
      in case ids of
           [] \<Rightarrow> Inr w
         | [i] \<Rightarrow> and_then (pack_posting (ucast i) 1) (\<lambda>v.
             and_then (insert_term F sha (ix_builder w) (gram, v, None)) (\<lambda>b. Inr (w\<lparr>ix_builder := b\<rparr>)))
         | _ \<Rightarrow> (case encode_list strat doc_count ids of (blk, len) \<Rightarrow>
             and_then (pack_posting (ix_offset w) (length ids)) (\<lambda>v.
             and_then (insert_term F sha (ix_builder w) (gram, v, len)) (\<lambda>b.
             and_then (write_postings sha (ix_postings w) blk) (\<lambda>p.
               Inr \<lparr>ix_builder = b, ix_postings = p, ix_offset = ix_offset w + of_nat (length blk)\<rparr>)))))"

definition posting_step ::
    "fst_crate \<Rightarrow> (bytes \<Rightarrow> bytes) \<Rightarrow> strategy \<Rightarrow> u32 \<Rightarrow> index_writer \<times> u64 option \<times> doc_id list \<Rightarrow> u64 \<Rightarrow> doc_id \<Rightarrow>
     (index_writer \<times> u64 option \<times> doc_id list) result" where
  "posting_step F sha strat doc_count = (\<lambda>(w, current_key, ids) key i.
     and_then (if current_key \<noteq> Some key
       then (case current_key of
               Some cur \<Rightarrow> and_then (insert_posting_file F sha strat doc_count w cur ids) (\<lambda>w. Inr (w, []))
             | None \<Rightarrow> Inr (w, ids))
       else Inr (w, ids)) (\<lambda>(w, ids).
     Inr (w, Some key, if ids \<noteq> [] \<and> last ids = i then ids else ids @ [i])))"

record merged_blob =
  blob_len :: nat
  blob_sha :: string

text \<open>What the two uploads received, and what is returned about them.\<close>

record merged_index =
  terms_file :: bytes
  postings_file :: bytes
  terms_blob :: merged_blob
  postings_blob :: merged_blob
  terms_tail :: string
  postings_data_len :: nat
  postings_tail_hash :: string

definition merge_posting_runs ::
    "fst_crate \<Rightarrow> (bytes \<Rightarrow> bytes) \<Rightarrow> bytes list \<Rightarrow> strategy \<Rightarrow> u32 \<Rightarrow> merged_index result" where
  "merge_posting_runs F sha runs strat doc_count =
     and_then (collapse_posting_runs runs strat) (\<lambda>paths.
     and_then (start_heap strat paths) (\<lambda>(heap, rs).
     and_then (visit_all (\<lambda>n path. context_of (add_u64 n (length path)) ''posting run bytes overflow u64'') 0 paths) (\<lambda>run_bytes.
     and_then (new_terms F strat (uses_sharded_terms strat run_bytes)) (\<lambda>builder.
     and_then (merge_loop strat (posting_step F sha strat doc_count)
         (\<lparr>ix_builder = builder, ix_postings = new_postings, ix_offset = 0\<rparr>, None, []) heap rs) (\<lambda>(w, current_key, ids).
     and_then (case current_key of None \<Rightarrow> Inr w | Some cur \<Rightarrow> insert_posting_file F sha strat doc_count w cur ids) (\<lambda>w.
     and_then (finish_terms F sha (ix_builder w)) (\<lambda>(terms, tail_hash).
       case finish_postings sha (ix_postings w) of (postings, data_len, ptail_hash) \<Rightarrow>
         ensure (ix_offset w = of_nat data_len) ''postings writer tracked other data bytes than it streamed''
         (Inr \<lparr>terms_file = terms, postings_file = postings,
               terms_blob = \<lparr>blob_len = length terms, blob_sha = hex (sha terms)\<rparr>,
               postings_blob = \<lparr>blob_len = length postings, blob_sha = hex (sha postings)\<rparr>,
               terms_tail = (case tail_hash of None \<Rightarrow> '''' | Some h \<Rightarrow> h),
               postings_data_len = data_len, postings_tail_hash = ptail_hash\<rparr>))))))))"

section \<open>Records by key\<close>

function groups :: "(u64 \<times> doc_id) list \<Rightarrow> (u64 \<times> doc_id list) list" where
  "groups [] = []"
| "groups ((key, i) # ps) =
     (key, sorted_list_of_set (insert i (snd ` set (takeWhile (\<lambda>p. fst p = key) ps)))) # groups (dropWhile (\<lambda>p. fst p = key) ps)"
  by pat_completeness auto
termination by (relation "measure length") (auto simp: le_imp_less_Suc length_dropWhile_le)

lemma sort_remdups_set: "remdups_adj (sort ids) = sorted_list_of_set (set ids)" for ids :: "'a::linorder list"
proof (rule ascending_eqI)
  have "ascending (remdups_adj xs)" if "sorted xs" for xs :: "'a list"
    using that by (induction xs rule: remdups_adj.induct) (auto simp: order.strict_iff_order)
  then show "ascending (remdups_adj (sort ids))" by simp
qed simp_all

lemma insert_posting_set: "insert_posting_file F sha strat n w key ids = insert_posting_file F sha strat n w key (sorted_list_of_set (set ids))"
  by (simp add: insert_posting_file_def sort_remdups_set Let_def)

definition flush_key where
  "flush_key F sha strat n = (\<lambda>(w, current_key, ids).
     case current_key of None \<Rightarrow> Inr w | Some cur \<Rightarrow> insert_posting_file F sha strat n w cur ids)"

abbreviation posting_steps where
  "posting_steps F sha strat n s ps \<equiv> visit_all (\<lambda>s (key, i). posting_step F sha strat n s key i) s ps"

lemma steps_same_key:
  "\<forall>p\<in>set ps. fst p = cur \<Longrightarrow>
   \<exists>ids'. posting_steps F sha strat n (w, Some cur, ids) ps = Inr (w, Some cur, ids') \<and> set ids' = set ids \<union> snd ` set ps"
proof (induction ps arbitrary: ids)
  case (Cons p ps)
  obtain i where p: "p = (cur, i)" using Cons.prems by (cases p) auto
  let ?ids = "if ids \<noteq> [] \<and> last ids = i then ids else ids @ [i]"
  have "set ?ids = insert i (set ids)" by (auto simp: insert_absorb)
  with Cons.IH [of ?ids] Cons.prems show ?case by (auto simp: p posting_step_def)
qed simp

lemma steps_next_key:
  assumes "\<forall>p\<in>set (take 1 ps). fst p \<noteq> cur"
  shows "and_then (posting_steps F sha strat n (w, Some cur, ids) ps) (flush_key F sha strat n) =
     and_then (insert_posting_file F sha strat n w cur ids) (\<lambda>w. and_then (posting_steps F sha strat n (w, None, []) ps) (flush_key F sha strat n))"
proof (cases ps)
  case Nil
  then show ?thesis by (auto simp: flush_key_def and_then_def split: sum.split)
next
  case (Cons p ps')
  obtain key i where p: "p = (key, i)" by (cases p)
  with assms Cons have "key \<noteq> cur" by simp
  then show ?thesis by (auto simp: Cons p posting_step_def and_then_def split: sum.split)
qed

lemma steps_groups:
  "and_then (posting_steps F sha strat n (w, None, []) ps) (flush_key F sha strat n) =
   visit_all (\<lambda>w (key, ids). insert_posting_file F sha strat n w key ids) w (groups ps)"
proof (induction ps arbitrary: w rule: groups.induct)
  case 1
  then show ?case by (simp add: flush_key_def)
next
  case (2 key i ps)
  let ?same = "takeWhile (\<lambda>p. fst p = key) ps" and ?rest = "dropWhile (\<lambda>p. fst p = key) ps"
  have "\<forall>p\<in>set ?same. fst p = key" by (auto dest: set_takeWhileD)
  from steps_same_key [OF this, of F sha strat n w "[i]"] obtain ids' where
    ids': "posting_steps F sha strat n (w, Some key, [i]) ?same = Inr (w, Some key, ids')" "set ids' = insert i (snd ` set ?same)" by auto
  have rest: "\<forall>p\<in>set (take 1 ?rest). fst p \<noteq> key"
  proof (cases ?rest)
    case (Cons p ps')
    then have "fst p \<noteq> key" using hd_dropWhile [of "\<lambda>p. fst p = key" ps] by (metis list.distinct(1) list.sel(1))
    with Cons show ?thesis by simp
  qed (simp only: take_Nil list.set ball_simps)
  have "posting_steps F sha strat n (w, None, []) ((key, i) # ps) = posting_steps F sha strat n (w, Some key, [i]) (?same @ ?rest)"
    by (simp add: posting_step_def)
  also have "\<dots> = posting_steps F sha strat n (w, Some key, ids') ?rest" by (simp only: visit_all_append ids'(1) sum.case)
  finally have "posting_steps F sha strat n (w, None, []) ((key, i) # ps) = posting_steps F sha strat n (w, Some key, ids') ?rest" .
  then show ?case unfolding groups.simps visit_all_Cons prod.case
    by (simp only: steps_next_key [OF rest] insert_posting_set [of F sha strat n w key ids'] ids'(2) "2.IH")
qed

text \<open>The posting list of a key among the records \<open>R\<close>.\<close>

definition postings_of :: "(u64 \<times> doc_id) set \<Rightarrow> u64 \<Rightarrow> doc_id list" where
  "postings_of R key = sorted_list_of_set {i. (key, i) \<in> R}"

lemma finite_postings: "finite {i. (key, i) \<in> R}" for R :: "(u64 \<times> doc_id) set"
  by (rule finite_subset [of _ UNIV]) simp_all

lemma set_postings_of [simp]: "set (postings_of R key) = {i. (key, i) \<in> R}"
  by (simp add: postings_of_def finite_postings)

lemma ascending_postings_of [simp]: "ascending (postings_of R key)"
  by (simp add: postings_of_def)

lemma postings_of_empty: "postings_of R key = [] \<longleftrightarrow> (\<forall>i. (key, i) \<notin> R)"
  using set_postings_of [of R key] by (metis Collect_empty_eq set_empty)

lemma sorted_split:
  assumes "sorted ((key, i) # ps)"
  shows "(key', j) \<in> set (dropWhile (\<lambda>p. fst p = key) ps) \<longleftrightarrow> key' \<noteq> key \<and> (key', j) \<in> set ps"
    and "(\<exists>j. (key', j) \<in> set (dropWhile (\<lambda>p. fst p = key) ps)) \<Longrightarrow> key < key'"
proof -
  have less: "key < fst p" if p: "p \<in> set (dropWhile (\<lambda>p. fst p = key) ps)" for p
  proof -
    define rest where "rest = dropWhile (\<lambda>p. fst p = key) ps"
    have pr: "p \<in> set rest" unfolding rest_def by (rule p)
    then obtain q qs where q: "rest = q # qs" by (cases rest) auto
    then have "rest \<noteq> []" by simp
    then have "fst (hd rest) \<noteq> key" unfolding rest_def by (rule hd_dropWhile)
    then have ne: "fst q \<noteq> key" by (simp add: q)
    have "q \<in> set rest" by (simp add: q)
    then have "q \<in> set ps" unfolding rest_def by (rule set_dropWhileD)
    with ne have "key < fst q" using assms by (auto simp: less_eq_prod_def)
    moreover have "sorted rest" unfolding rest_def using assms by (simp add: sorted_dropWhile)
    then have "fst q \<le> fst p" using pr by (auto simp: q less_eq_prod_def)
    ultimately show ?thesis by (rule order_less_le_trans)
  qed
  then show "(\<exists>j. (key', j) \<in> set (dropWhile (\<lambda>p. fst p = key) ps)) \<Longrightarrow> key < key'" by fastforce
  have "set ps = set (takeWhile (\<lambda>p. fst p = key) ps) \<union> set (dropWhile (\<lambda>p. fst p = key) ps)"
    by (metis set_append takeWhile_dropWhile_id)
  then show "(key', j) \<in> set (dropWhile (\<lambda>p. fst p = key) ps) \<longleftrightarrow> key' \<noteq> key \<and> (key', j) \<in> set ps"
    using less [of "(key', j)"] set_takeWhileD [of "(key', j)" "\<lambda>p. fst p = key" ps] by auto
qed

lemma groups_by_key:
  "sorted ps \<Longrightarrow> ascending (map fst (groups ps)) \<and>
     (\<forall>key ids. (key, ids) \<in> set (groups ps) \<longleftrightarrow> ids = postings_of (set ps) key \<and> ids \<noteq> [])"
proof (induction ps rule: groups.induct)
  case 1
  then show ?case by (simp add: postings_of_def)
next
  case (2 key i ps)
  let ?same = "takeWhile (\<lambda>p. fst p = key) ps" and ?rest = "dropWhile (\<lambda>p. fst p = key) ps"
  note split = sorted_split [OF "2.prems"]
  have "sorted ?rest" using "2.prems" by (simp add: sorted_dropWhile)
  note IH = "2.IH" [OF this]
  have same: "insert i (snd ` set ?same) = {j. (key, j) \<in> set ((key, i) # ps)}"
  proof -
    have "set ps = set ?same \<union> set ?rest" by (metis set_append takeWhile_dropWhile_id)
    then show ?thesis using split(1) [of key] set_takeWhileD [of _ "\<lambda>p. fst p = key" ps] by (force simp: image_iff)
  qed
  have other: "postings_of (set ?rest) key' = postings_of (set ((key, i) # ps)) key'" if "key' \<noteq> key" for key'
    using that split(1) by (simp add: postings_of_def)
  have none: "postings_of (set ?rest) key = []" using split(1) [of key] by (simp add: postings_of_def)
  have keys: "\<forall>key'\<in>set (map fst (groups ?rest)). key < key'"
  proof
    fix key' assume "key' \<in> set (map fst (groups ?rest))"
    then obtain ids where "(key', ids) \<in> set (groups ?rest)" by auto
    then have "postings_of (set ?rest) key' \<noteq> []" using IH by (metis (no_types, lifting))
    then obtain j where "(key', j) \<in> set ?rest" using postings_of_empty [of "set ?rest" key'] by metis
    then show "key < key'" using split(2) [of key'] by blast
  qed
  have head: "sorted_list_of_set (insert i (snd ` set ?same)) = postings_of (set ((key, i) # ps)) key"
    by (simp only: same postings_of_def)
  have ne: "postings_of (set ((key, i) # ps)) key \<noteq> []" unfolding postings_of_empty by auto
  have "(key', ids) \<in> set (groups ((key, i) # ps)) \<longleftrightarrow> ids = postings_of (set ((key, i) # ps)) key' \<and> ids \<noteq> []" for key' ids
  proof (cases "key' = key")
    case True
    have "(key, ids) \<notin> set (groups ?rest)" using IH none by auto
    then show ?thesis using True head ne by auto
  next
    case False
    then have "(key', ids) \<in> set (groups ((key, i) # ps)) \<longleftrightarrow> (key', ids) \<in> set (groups ?rest)"
      unfolding groups.simps list.set by blast
    also have "\<dots> \<longleftrightarrow> ids = postings_of (set ?rest) key' \<and> ids \<noteq> []" using IH by blast
    finally show ?thesis unfolding other [OF False] .
  qed
  moreover have "ascending (map fst (groups ((key, i) # ps)))" using IH keys by simp
  ultimately show ?case by blast
qed

section \<open>Inserting the lists\<close>

definition ix_inv :: "(bytes \<Rightarrow> bytes) \<Rightarrow> index_writer \<Rightarrow> bytes \<Rightarrow> bool" where
  "ix_inv sha w data \<longleftrightarrow> pw_inv sha (ix_postings w) data \<and> pw_out (ix_postings w) = data \<and> pw_data_len (ix_postings w) = length data \<and>
     ix_offset w = of_nat (length data)"

text \<open>
  What a list adds to the data, and its dictionary entry: a single id is inline and adds nothing, any other list
  is at the offset where its bytes were written.
\<close>

definition list_bytes :: "strategy \<Rightarrow> u32 \<Rightarrow> u64 \<times> doc_id list \<Rightarrow> bytes" where
  "list_bytes strat n = (\<lambda>(key, ids). if length ids = 1 then [] else fst (encode_list strat n ids))"

definition lists_data :: "strategy \<Rightarrow> u32 \<Rightarrow> (u64 \<times> doc_id list) list \<Rightarrow> bytes" where
  "lists_data strat n gs = concat (map (list_bytes strat n) gs)"

definition entry_at :: "strategy \<Rightarrow> u32 \<Rightarrow> nat \<Rightarrow> u64 \<times> doc_id list \<Rightarrow> bytes \<times> u64 \<times> u64 option \<Rightarrow> bool" where
  "entry_at strat n off = (\<lambda>(key, ids) (gram, v, l).
     gram = drop (8 - key_bytes strat) (to_be_bytes key) \<and>
     (if length ids = 1 then pack_posting (ucast (hd ids)) 1 = Inr v \<and> l = None
      else pack_posting (of_nat off) (length ids) = Inr v \<and> l = snd (encode_list strat n ids)))"

definition entries_at :: "strategy \<Rightarrow> u32 \<Rightarrow> nat \<Rightarrow> (u64 \<times> doc_id list) list \<Rightarrow> (bytes \<times> u64 \<times> u64 option) list \<Rightarrow> bool" where
  "entries_at strat n off gs ents \<longleftrightarrow> length ents = length gs \<and>
     (\<forall>j<length gs. entry_at strat n (off + length (lists_data strat n (take j gs))) (gs ! j) (ents ! j))"

lemma entries_at_Cons:
  "entry_at strat n off g e \<Longrightarrow> entries_at strat n (off + length (list_bytes strat n g)) gs ents \<Longrightarrow> entries_at strat n off (g # gs) (e # ents)"
  by (auto simp: entries_at_def lists_data_def nth_Cons add.assoc split: nat.split)

lemma sorted_dedup_id: "ascending ids \<Longrightarrow> remdups_adj (sort ids) = ids"
  using sort_remdups_set [of ids] by (simp add: strict_sorted_iff sorted_list_of_set.idem_if_sorted_distinct)

lemma insert_list_entry:
  assumes "ix_inv sha w data" "ascending ids" "ids \<noteq> []" "insert_posting_file F sha strat n w key ids = Inr w'"
  shows "\<exists>e. insert_term F sha (ix_builder w) e = Inr (ix_builder w') \<and> entry_at strat n (length data) (key, ids) e \<and>
    ix_inv sha w' (data @ list_bytes strat n (key, ids))"
proof (cases "length ids = 1")
  case True
  then obtain i where i: "ids = [i]" by (auto simp: length_Suc_conv)
  from assms(4) obtain v b where v: "pack_posting (ucast i) 1 = Inr v" "w' = w\<lparr>ix_builder := b\<rparr>"
    "insert_term F sha (ix_builder w) (drop (8 - key_bytes strat) (to_be_bytes key), v, None) = Inr b"
    by (auto simp: insert_posting_file_def i)
  have "entry_at strat n (length data) (key, ids) (drop (8 - key_bytes strat) (to_be_bytes key), v, None)"
    using v(1) by (simp add: entry_at_def i)
  moreover have "ix_inv sha w' (data @ list_bytes strat n (key, ids))" using assms(1) by (simp add: ix_inv_def v(2) list_bytes_def i)
  ultimately show ?thesis using v(2,3) by auto
next
  case False
  with assms(3) obtain i j js where ids: "ids = i # j # js" by (cases ids rule: remdups_adj.cases) auto
  obtain blk len where enc: "encode_list strat n ids = (blk, len)" by (cases "encode_list strat n ids")
  from assms(1) have inv: "pw_inv sha (ix_postings w) data" "pw_out (ix_postings w) = data" "pw_data_len (ix_postings w) = length data"
    "ix_offset w = of_nat (length data)" by (simp_all add: ix_inv_def)
  have "remdups_adj (sort ids) = i # j # js" using sorted_dedup_id [OF assms(2)] by (simp add: ids)
  with assms(4) enc obtain v b p where v: "pack_posting (ix_offset w) (length ids) = Inr v"
    "insert_term F sha (ix_builder w) (drop (8 - key_bytes strat) (to_be_bytes key), v, len) = Inr b"
    "write_postings sha (ix_postings w) blk = Inr p" "w' = \<lparr>ix_builder = b, ix_postings = p, ix_offset = ix_offset w + of_nat (length blk)\<rparr>"
    unfolding insert_posting_file_def Let_def by (auto simp: ids)
  from write_postings_inv [OF inv(1-3), of blk] v(3) have p: "pw_inv sha p (data @ blk)" "pw_out p = data @ blk" "pw_data_len p = length (data @ blk)"
    by auto
  have "list_bytes strat n (key, ids) = blk" using False enc by (simp add: list_bytes_def)
  then have "ix_inv sha w' (data @ list_bytes strat n (key, ids))" using p inv(4) by (simp add: ix_inv_def v(4))
  moreover have "entry_at strat n (length data) (key, ids) (drop (8 - key_bytes strat) (to_be_bytes key), v, len)"
    using False enc v(1) inv(4) by (simp add: entry_at_def)
  ultimately show ?thesis using v(2,4) by auto
qed

lemma insert_lists_entries:
  assumes "ix_inv sha w data" "\<forall>(key, ids)\<in>set gs. ascending ids \<and> ids \<noteq> []"
    and "visit_all (\<lambda>w (key, ids). insert_posting_file F sha strat n w key ids) w gs = Inr w'"
  shows "\<exists>ents. visit_all (insert_term F sha) (ix_builder w) ents = Inr (ix_builder w') \<and>
    entries_at strat n (length data) gs ents \<and> ix_inv sha w' (data @ lists_data strat n gs)"
  using assms
proof (induction gs arbitrary: w data)
  case Nil
  then show ?case by (auto simp: entries_at_def lists_data_def intro!: exI [of _ "[]"])
next
  case (Cons g gs)
  obtain key ids where g: "g = (key, ids)" by (cases g)
  from Cons.prems(3) obtain w1 where w1: "insert_posting_file F sha strat n w key ids = Inr w1"
    "visit_all (\<lambda>w (key, ids). insert_posting_file F sha strat n w key ids) w1 gs = Inr w'"
    by (auto simp: g visit_all_Cons simp del: visit_all.simps(2))
  from Cons.prems(2) have ids: "ascending ids" "ids \<noteq> []" by (auto simp: g)
  from insert_list_entry [OF Cons.prems(1) ids w1(1)] obtain e where
    e: "insert_term F sha (ix_builder w) e = Inr (ix_builder w1)" "entry_at strat n (length data) g e" "ix_inv sha w1 (data @ list_bytes strat n g)"
    unfolding g by blast
  from Cons.IH [OF e(3) _ w1(2)] Cons.prems(2) obtain ents where
    IH: "visit_all (insert_term F sha) (ix_builder w1) ents = Inr (ix_builder w')"
      "entries_at strat n (length (data @ list_bytes strat n g)) gs ents" "ix_inv sha w' ((data @ list_bytes strat n g) @ lists_data strat n gs)" by auto
  have "entries_at strat n (length data) (g # gs) (e # ents)" using entries_at_Cons [OF e(2)] IH(2) by simp
  moreover have "ix_inv sha w' (data @ lists_data strat n (g # gs))" using IH(3) by (simp add: lists_data_def)
  moreover have "visit_all (insert_term F sha) (ix_builder w) (e # ents) = Inr (ix_builder w')" using IH(1) e(1) by simp
  ultimately show ?case by blast
qed

section \<open>The merged index\<close>

lemma merged_entries:
  assumes runs: "list_all2 (is_run strat) rss runs" and out: "merge_posting_runs F sha runs strat n = Inr out"
  shows "\<exists>ents data gs is_sharded tail_hash.
     build_terms F sha strat is_sharded ents = Inr (terms_file out, tail_hash) \<and> entries_at strat n 0 gs ents \<and>
     data = lists_data strat n gs \<and> ascending (map fst gs) \<and>
     (\<forall>key ids. (key, ids) \<in> set gs \<longleftrightarrow> ids = postings_of (set (concat rss)) key \<and> ids \<noteq> []) \<and>
     postings_file out = data @ postings_tail sha data \<and> postings_data_len out = length data \<and>
     postings_tail_hash out = hex (sha (postings_tail sha data)) \<and> terms_tail out = (case tail_hash of None \<Rightarrow> '''' | Some h \<Rightarrow> h) \<and>
     blob_len (postings_blob out) = length (postings_file out) \<and> blob_len (terms_blob out) = length (terms_file out)"
proof -
  from collapse_runs [OF runs] obtain paths rss' where c: "collapse_posting_runs runs strat = Inr paths" "list_all2 (is_run strat) rss' paths"
    "set (concat rss') = set (concat rss)" by blast
  from start_heap_inv [OF c(2)] obtain heap rs where h: "start_heap strat paths = Inr (heap, rs)" "merge_inv strat rss' heap rs" by blast
  let ?ps = "sort (concat rss')"
  from out obtain run_bytes builder w current_key ids w' terms tail_hash where o:
    "new_terms F strat (uses_sharded_terms strat run_bytes) = Inr builder"
    "merge_loop strat (posting_step F sha strat n) (\<lparr>ix_builder = builder, ix_postings = new_postings, ix_offset = 0\<rparr>, None, []) heap rs
       = Inr (w, current_key, ids)"
    "flush_key F sha strat n (w, current_key, ids) = Inr w'" "finish_terms F sha (ix_builder w') = Inr (terms, tail_hash)"
    and fin: "(case finish_postings sha (ix_postings w') of (postings, data_len, ptail_hash) \<Rightarrow>
         ensure (ix_offset w' = of_nat data_len) ''postings writer tracked other data bytes than it streamed''
         (Inr \<lparr>terms_file = terms, postings_file = postings,
               terms_blob = \<lparr>blob_len = length terms, blob_sha = hex (sha terms)\<rparr>,
               postings_blob = \<lparr>blob_len = length postings, blob_sha = hex (sha postings)\<rparr>,
               terms_tail = (case tail_hash of None \<Rightarrow> '''' | Some h \<Rightarrow> h),
               postings_data_len = data_len, postings_tail_hash = ptail_hash\<rparr>)) = Inr out"
    unfolding merge_posting_runs_def flush_key_def c(1) and_then_Inr h(1) prod.case and_then_eq_Inr by (elim exE conjE) (auto simp: h(1))
  obtain postings data_len ptail where p0: "finish_postings sha (ix_postings w') = (postings, data_len, ptail)"
    by (cases "finish_postings sha (ix_postings w')")
  from fin have outs: "terms_file out = terms" "postings_file out = postings" "postings_data_len out = data_len"
    "postings_tail_hash out = ptail" "terms_tail out = (case tail_hash of None \<Rightarrow> '''' | Some h \<Rightarrow> h)"
    "blob_len (postings_blob out) = length (postings_file out)" "blob_len (terms_blob out) = length (terms_file out)" by (auto simp: p0)
  let ?w0 = "\<lparr>ix_builder = builder, ix_postings = new_postings, ix_offset = 0\<rparr>"
  have "visit_all (\<lambda>w (key, ids). insert_posting_file F sha strat n w key ids) ?w0 (groups ?ps) = Inr w'"
    using o(2,3) steps_groups [of F sha strat n ?w0 ?ps] by (simp add: merge_loop_visits [OF h(2)])
  moreover have g: "ascending (map fst (groups ?ps))"
    "\<forall>key ids. (key, ids) \<in> set (groups ?ps) \<longleftrightarrow> ids = postings_of (set (concat rss)) key \<and> ids \<noteq> []"
    using groups_by_key [OF sorted_sort [of "concat rss'"]] unfolding set_sort c(3) by blast+
  then have "\<forall>(key, ids)\<in>set (groups ?ps). ascending ids \<and> ids \<noteq> []" by auto
  moreover have "ix_inv sha ?w0 []" using new_postings_inv [of sha] by (simp add: ix_inv_def) (simp add: new_postings_def)
  ultimately obtain ents data where e: "visit_all (insert_term F sha) builder ents = Inr (ix_builder w')"
    "entries_at strat n 0 (groups ?ps) ents" "ix_inv sha w' data" "data = lists_data strat n (groups ?ps)"
    using insert_lists_entries [of sha ?w0 "[]" "groups ?ps" F strat n w'] by auto
  have p: "postings = data @ postings_tail sha data" "data_len = length data" "ptail = hex (sha (postings_tail sha data))"
    using e(3) finish_postings_blob [of sha "ix_postings w'" data] p0 by (auto simp: ix_inv_def)
  have "build_terms F sha strat (uses_sharded_terms strat run_bytes) ents = Inr (terms_file out, tail_hash)"
    by (simp add: build_terms_def o(1,4) e(1) outs(1))
  with e(2,4) g p outs show ?thesis by (metis (no_types, lifting))
qed

end
