(* ===== verification/Pack_Read.thy ===== *)
theory Pack_Read
  imports Packs
begin

text \<open>
  Reading packs back, \<open>crates/index/src/pack.rs\<close> and \<open>crates/index/src/segment/cache.rs\<close>: the blocks of
  a document, the grouping of blocks into contiguous ranges and batches, the read path with its
  on-disk cache and hash checks, and the streaming read of a large document. The blob
  store is the argument \<open>get_ranges\<close> (the method of the trait \<open>BlobStore\<close>); the cache directory is a map
  from paths to file contents that the operations thread through, with the set of
  paths that can be written.
\<close>

section \<open>Definitions\<close>

type_synonym get_ranges = "string \<Rightarrow> (nat \<times> nat) list \<Rightarrow> bytes list result"

record disk =
  files :: "string \<rightharpoonup> bytes"
  writable :: "string \<Rightarrow> bool"

definition read_verified :: "pack_crates \<Rightarrow> disk \<Rightarrow> string \<Rightarrow> string \<Rightarrow> bytes option" where
  "read_verified X d path expected =
     (case files d path of
        None \<Rightarrow> None
      | Some bs \<Rightarrow> if hex (sha256 X bs) = expected then Some bs else None)"

definition write_back :: "disk \<Rightarrow> string \<Rightarrow> bytes \<Rightarrow> disk" where
  "write_back d path bs = (if writable d path then d\<lparr>files := (files d)(path \<mapsto> bs)\<rparr> else d)"

definition cached_bytes ::
    "pack_crates \<Rightarrow> disk \<Rightarrow> string \<Rightarrow> string \<Rightarrow> string \<Rightarrow> (unit \<Rightarrow> bytes result) \<Rightarrow> (bytes \<times> disk) result" where
  "cached_bytes X d seg name expected fetch =
     (let path = seg @ ''/'' @ name
      in case read_verified X d path expected of
           Some bs \<Rightarrow> Inr (bs, d)
         | None \<Rightarrow> and_then (fetch ()) (\<lambda>bs.
             ensure (hex (sha256 X bs) = expected) ''segment blob failed its SHA-256 check''
             (Inr (bs, write_back d path bs))))"

definition hex_u64 :: "nat \<Rightarrow> string" where
  "hex_u64 n = map (\<lambda>i. hex_digit (n div 16 ^ (15 - i) mod 16)) [0..<16]"

type_synonym pack_cache = "string option"

definition block_path :: "string \<Rightarrow> pack_meta \<Rightarrow> pack_block \<Rightarrow> string" where
  "block_path seg pm bl = seg @ ''/pack-'' @ meta_hash pm @ ''-'' @ hex_u64 (offset bl)"

definition cache_read :: "pack_crates \<Rightarrow> pack_cache \<Rightarrow> disk \<Rightarrow> pack_meta \<Rightarrow> pack_block \<Rightarrow> bytes option" where
  "cache_read X cache d pm bl =
     (case cache of None \<Rightarrow> None | Some seg \<Rightarrow> read_verified X d (block_path seg pm bl) (hex (block_hash bl)))"

definition cache_store :: "pack_cache \<Rightarrow> pack_meta \<Rightarrow> pack_block \<Rightarrow> bytes \<Rightarrow> disk \<Rightarrow> disk" where
  "cache_store cache pm bl c d =
     (case cache of None \<Rightarrow> d | Some seg \<Rightarrow> write_back d (block_path seg pm bl) c)"

record pack_run =
  run_pack :: nat
  run_offset :: nat
  run_len :: nat
  run_blocks :: "nat list"

function span_loop :: "pack_block list \<Rightarrow> nat \<Rightarrow> nat \<Rightarrow> nat \<Rightarrow> nat result" where
  "span_loop bs block_id off remaining =
     (if remaining = 0 then Inr block_id
      else and_then (context_of (get bs block_id) ''document points outside pack blocks'') (\<lambda>bl.
        and_then (context_of (checked_sub (decoded_len bl) off) ''document block offset is out of bounds'') (\<lambda>available.
        ensure (available > 0) ''document block has no available bytes''
          (span_loop bs (Suc block_id) 0 (remaining - min remaining available)))))"
  by pat_completeness auto
termination by (relation "measure (\<lambda>(bs, i, off, remaining). remaining)") auto

declare span_loop.simps [simp del]

definition block_span :: "pack_slice \<Rightarrow> nat \<Rightarrow> pack_block list \<Rightarrow> (nat \<times> nat) result" where
  "block_span sl len bs =
     (if len = 0
      then ensure (first_block sl = 0 \<and> block_offset sl = 0) ''empty document has pack coordinates'' (Inr (0, 0))
      else and_then (span_loop bs (first_block sl) (block_offset sl) len) (\<lambda>e. Inr (first_block sl, e)))"

definition extends_run :: "pack_run \<Rightarrow> pack_block \<Rightarrow> bool" where
  "extends_run run bl \<longleftrightarrow>
     run_pack run = pack bl \<and> sat_add_u64 (run_offset run) (run_len run) = offset bl \<and>
     sat_add_u64 (run_len run) (compressed_len bl) \<le> RANGE_BYTES"

definition block_runs_step :: "pack_block list \<Rightarrow> pack_run list \<Rightarrow> nat \<Rightarrow> pack_run list result" where
  "block_runs_step bs runs block_id =
     and_then (context_of (get bs block_id) ''missing pack block'') (\<lambda>bl.
       if runs \<noteq> [] \<and> extends_run (last runs) bl
       then let run = last runs
            in and_then (context_of (add_u64 (run_len run) (compressed_len bl)) ''pack range length overflows'') (\<lambda>len'.
                 Inr (butlast runs @ [run\<lparr>run_len := len', run_blocks := run_blocks run @ [block_id]\<rparr>]))
       else Inr (runs @ [\<lparr>run_pack = pack bl, run_offset = offset bl, run_len = compressed_len bl,
                          run_blocks = [block_id]\<rparr>]))"

definition block_runs :: "nat list \<Rightarrow> pack_block list \<Rightarrow> pack_run list result" where
  "block_runs ids bs = visit_all (block_runs_step bs) [] ids"

text \<open>\<open>slice::chunk_by\<close>: maximal runs of neighbours in the relation.\<close>

fun chunk_by :: "('a \<Rightarrow> 'a \<Rightarrow> bool) \<Rightarrow> 'a list \<Rightarrow> 'a list list" where
  "chunk_by r [] = []"
| "chunk_by r [x] = [[x]]"
| "chunk_by r (x # y # xs) =
     (if r x y then (case chunk_by r (y # xs) of c # cs \<Rightarrow> (x # c) # cs | [] \<Rightarrow> [[x]])
      else [x] # chunk_by r (y # xs))"

function batch_end :: "pack_run list \<Rightarrow> nat \<Rightarrow> nat \<Rightarrow> nat \<Rightarrow> nat \<Rightarrow> nat" where
  "batch_end runs max_bytes start e sz =
     (if e < length runs
      then let nxt = run_len (runs ! e)
           in if e > start \<and> nxt > max_bytes - sz then e
              else batch_end runs max_bytes start (Suc e) (sat_add_u64 sz nxt)
      else e)"
  by pat_completeness auto
termination by (relation "measure (\<lambda>(runs, m, start, e, sz). length runs - e)") auto

declare batch_end.simps [simp del]

lemma batch_end_bounds:
  "e \<le> length runs \<Longrightarrow> e \<le> batch_end runs m start e sz \<and> batch_end runs m start e sz \<le> length runs"
proof (induction runs m start e sz rule: batch_end.induct)
  case (1 runs m start e sz)
  then show ?case by (subst (1 2) batch_end.simps) (auto simp: Let_def)
qed

lemma batch_end_progress: "start < length runs \<Longrightarrow> start < batch_end runs m start start 0"
  using batch_end_bounds [of "Suc start" runs m start] by (subst batch_end.simps) (auto simp: Let_def less_eq_Suc_le)

function run_batches_from :: "pack_run list \<Rightarrow> nat \<Rightarrow> nat \<Rightarrow> (nat \<times> nat) list" where
  "run_batches_from runs max_bytes start =
     (if start \<ge> length runs then []
      else let e = batch_end runs max_bytes start start 0 in (start, e) # run_batches_from runs max_bytes e)"
  by pat_completeness auto
termination
  by (relation "measure (\<lambda>(runs, m, start). length runs - start)")
    (use batch_end_progress in \<open>auto simp: diff_less_mono2\<close>)

declare run_batches_from.simps [simp del]

definition run_batches :: "pack_run list \<Rightarrow> nat \<Rightarrow> (nat \<times> nat) list" where
  "run_batches runs max_bytes = run_batches_from runs max_bytes 0"

definition visit_compressed_block ::
    "pack_crates \<Rightarrow> pack_block list \<Rightarrow> ('s \<Rightarrow> nat \<Rightarrow> bytes \<Rightarrow> 's result) \<Rightarrow> 's \<Rightarrow> nat \<times> bytes \<Rightarrow> 's result" where
  "visit_compressed_block X bs visit s = (\<lambda>(block_id, c).
     and_then (or_panic (get bs block_id)) (\<lambda>bl.
     ensure (sha256 X c = block_hash bl) ''pack block hash mismatch''
     (and_then (decompress X c (decoded_len bl)) (\<lambda>decoded.
      ensure (length decoded = decoded_len bl) ''pack block decoded length mismatch''
      (visit s block_id decoded)))))"

text \<open>A fetched range is cut into the compressed blocks of its run, each checked and cached.\<close>

definition cut_block ::
    "pack_crates \<Rightarrow> pack_cache \<Rightarrow> pack_meta \<Rightarrow> pack_block list \<Rightarrow> bytes \<Rightarrow>
     nat \<times> bytes list \<times> disk \<Rightarrow> nat \<Rightarrow> (nat \<times> bytes list \<times> disk) result" where
  "cut_block X cache pm bs rng = (\<lambda>(cursor, out, d) block_id.
     and_then (or_panic (get bs block_id)) (\<lambda>bl.
     and_then (context_of (add_u64 cursor (compressed_len bl)) ''compressed block range overflows'') (\<lambda>e.
     and_then (context_of (get_range rng cursor e) ''pack range ended inside a block'') (\<lambda>c.
     ensure (sha256 X c = block_hash bl) ''pack block hash mismatch''
     (Inr (e, out @ [c], cache_store cache pm bl c d))))))"

definition cut_run ::
    "pack_crates \<Rightarrow> pack_cache \<Rightarrow> pack_meta \<Rightarrow> pack_block list \<Rightarrow> pack_run \<Rightarrow> bytes \<Rightarrow> disk \<Rightarrow> (bytes list \<times> disk) result" where
  "cut_run X cache pm bs run rng d =
     ensure (length rng = run_len run) ''pack range length mismatch''
     (and_then (visit_all (cut_block X cache pm bs rng) (0, [], d) (run_blocks run)) (\<lambda>(cursor, out, d').
      ensure (cursor = length rng) ''unparsed bytes remain in pack range'' (Inr (out, d'))))"

definition cached_run ::
    "pack_crates \<Rightarrow> pack_cache \<Rightarrow> disk \<Rightarrow> pack_meta \<Rightarrow> pack_block list \<Rightarrow> pack_run \<Rightarrow> bytes list option" where
  "cached_run X cache d pm bs run =
     (case cache of None \<Rightarrow> None
      | Some seg \<Rightarrow> those (map (\<lambda>i. cache_read X cache d pm (bs ! i)) (run_blocks run)))"

definition fill_miss ::
    "pack_crates \<Rightarrow> pack_cache \<Rightarrow> pack_meta \<Rightarrow> pack_block list \<Rightarrow> pack_run list \<Rightarrow>
     bytes list option list \<times> disk \<Rightarrow> nat \<times> bytes \<Rightarrow> (bytes list option list \<times> disk) result" where
  "fill_miss X cache pm bs batch = (\<lambda>(resolved, d) (at, rng).
     and_then (cut_run X cache pm bs (batch ! at) rng d) (\<lambda>(cs, d').
       Inr (resolved[at := Some cs], d')))"

definition resolve_batch ::
    "pack_crates \<Rightarrow> get_ranges \<Rightarrow> pack_cache \<Rightarrow> pack_meta \<Rightarrow> pack_block list \<Rightarrow> pack_run list \<Rightarrow> disk \<Rightarrow>
     (bytes list option list \<times> disk) result" where
  "resolve_batch X store cache pm bs batch d =
     (let resolved = map (cached_run X cache d pm bs) batch;
          misses = filter (\<lambda>at. resolved ! at = None) [0..<length batch]
      in if misses = [] then Inr (resolved, d)
         else let ranges = map (\<lambda>at. (run_offset (batch ! at), run_len (batch ! at))) misses
              in ensure (list_all (\<lambda>(o', l). sat_add_u64 o' l \<le> meta_len pm) ranges) ''pack range is out of bounds''
                 (and_then (store (pack_blob (meta_hash pm)) ranges) (\<lambda>fetched.
                  ensure (length fetched = length misses) ''get_ranges returned a wrong number of ranges''
                  (visit_all (fill_miss X cache pm bs batch) (resolved, d) (zip misses fetched)))))"

definition visit_resolved ::
    "pack_crates \<Rightarrow> pack_block list \<Rightarrow> ('s \<Rightarrow> nat \<Rightarrow> bytes \<Rightarrow> 's result) \<Rightarrow> 's \<Rightarrow> pack_run \<times> bytes list option \<Rightarrow> 's result" where
  "visit_resolved X bs visit s = (\<lambda>(run, r).
     and_then (context_of r ''pack run was neither cached nor fetched'') (\<lambda>cs.
       visit_all (visit_compressed_block X bs visit) s (zip (run_blocks run) cs)))"

definition visit_batch ::
    "pack_crates \<Rightarrow> get_ranges \<Rightarrow> pack_cache \<Rightarrow> pack_meta \<Rightarrow> pack_block list \<Rightarrow> pack_run list \<Rightarrow>
     ('s \<Rightarrow> nat \<Rightarrow> bytes \<Rightarrow> 's result) \<Rightarrow> 's \<times> disk \<Rightarrow> nat \<times> nat \<Rightarrow> ('s \<times> disk) result" where
  "visit_batch X store cache pm bs pack_runs visit = (\<lambda>(s, d) (i, e).
     let batch = sub_slice pack_runs i e
     in and_then (resolve_batch X store cache pm bs batch d) (\<lambda>(resolved, d').
        and_then (visit_all (visit_resolved X bs visit) s (zip batch resolved)) (\<lambda>s'. Inr (s', d'))))"

definition visit_blocks ::
    "pack_crates \<Rightarrow> get_ranges \<Rightarrow> pack_cache \<Rightarrow> pack_meta list \<Rightarrow> pack_block list \<Rightarrow> pack_run list \<Rightarrow> nat \<Rightarrow>
     ('s \<Rightarrow> nat \<Rightarrow> bytes \<Rightarrow> 's result) \<Rightarrow> 's \<Rightarrow> disk \<Rightarrow> ('s \<times> disk) result" where
  "visit_blocks X store cache metas bs runs batch_bytes visit s d =
     visit_all (\<lambda>sd pack_runs.
       and_then (context_of (get metas (run_pack (hd pack_runs))) ''pack ID is out of bounds'') (\<lambda>pm.
         visit_all (visit_batch X store cache pm bs pack_runs visit) sd (run_batches pack_runs batch_bytes)))
       (s, d) (chunk_by (\<lambda>l r. run_pack l = run_pack r) runs)"

text \<open>The spool of \<open>crates/core/src/codec/body.rs\<close>: a file of a fixed length written at offsets.\<close>

definition new_spool :: "nat \<Rightarrow> bytes" where "new_spool len = replicate len 0"

definition write_at :: "bytes \<Rightarrow> nat \<Rightarrow> bytes \<Rightarrow> bytes result" where
  "write_at spool start bs =
     and_then (context_of (add_u64 start (length bs)) ''document spool range overflows'') (\<lambda>e.
     ensure (e \<le> length spool) ''document spool range is out of bounds''
     (Inr (take start spool @ bs @ drop e spool)))"

record pack_request =
  request_index :: nat
  request_slice :: pack_slice
  decoded_size :: nat

definition large_visit ::
    "nat \<times> nat \<times> nat \<times> bytes \<Rightarrow> nat \<Rightarrow> bytes \<Rightarrow> (nat \<times> nat \<times> nat \<times> bytes) result" where
  "large_visit = (\<lambda>(remaining, off, out, spool) block_id decoded.
     and_then (context_of (checked_sub (length decoded) off) ''document block offset is out of bounds'') (\<lambda>available.
       let n = min remaining available
       in and_then (write_at spool out (sub_slice decoded off (off + n))) (\<lambda>spool'.
            Inr (remaining - n, 0, out + n, spool'))))"

definition fetch_large ::
    "pack_crates \<Rightarrow> get_ranges \<Rightarrow> pack_cache \<Rightarrow> pack_meta list \<Rightarrow> pack_block list \<Rightarrow> pack_request \<Rightarrow> disk \<Rightarrow>
     (bytes \<times> disk) result" where
  "fetch_large X store cache metas bs req d =
     and_then (block_span (request_slice req) (decoded_size req) bs) (\<lambda>(i, e).
     and_then (block_runs [i..<e] bs) (\<lambda>runs.
     and_then (visit_blocks X store cache metas bs runs RANGE_BYTES large_visit
         (decoded_size req, block_offset (request_slice req), 0, new_spool (decoded_size req)) d)
       (\<lambda>((remaining, off, out, spool), d').
          ensure (remaining = 0) ''pack blocks ended before the document'' (Inr (spool, d')))))"

record doc_part =
  part_block :: nat
  part_start :: nat
  part_offset :: nat
  part_len :: nat

text \<open>The subtraction cannot fail: \<open>block_span\<close> has checked every block of the span.\<close>

definition part_step ::
    "pack_block list \<Rightarrow> doc_part list \<times> nat \<times> nat \<times> nat \<Rightarrow> nat \<Rightarrow> (doc_part list \<times> nat \<times> nat \<times> nat) result" where
  "part_step bs = (\<lambda>(parts, remaining, start, off) block_id.
     and_then (or_panic (get bs block_id)) (\<lambda>bl.
     and_then (or_panic (checked_sub (decoded_len bl) off)) (\<lambda>available.
       let len = min remaining available
       in Inr (parts @ [\<lparr>part_block = block_id, part_start = start, part_offset = off, part_len = len\<rparr>],
               remaining - len, start + len, 0))))"

definition document_blocks :: "pack_slice \<Rightarrow> nat \<Rightarrow> pack_block list \<Rightarrow> doc_part list result" where
  "document_blocks sl dsize bs =
     and_then (block_span sl dsize bs) (\<lambda>(i, e).
     and_then (visit_all (part_step bs) ([], dsize, 0, block_offset sl) [i..<e]) (\<lambda>(parts, remaining, start, off).
       ensure (remaining = 0) ''pack blocks ended before the document'' (Inr parts)))"

definition part_hits :: "nat \<times> nat \<Rightarrow> doc_part \<Rightarrow> bool" where
  "part_hits r part \<longleftrightarrow> part_start part + part_len part > fst r \<and> part_start part < snd r"

definition collect_request_blocks ::
    "pack_slice \<Rightarrow> nat \<Rightarrow> (nat \<times> nat) list \<Rightarrow> pack_block list \<Rightarrow> nat set \<Rightarrow> nat set result" where
  "collect_request_blocks sl dsize ranges bs output =
     and_then (document_blocks sl dsize bs) (\<lambda>parts.
       Inr (output \<union> (\<Union>r\<in>set ranges. part_block ` set (filter (part_hits r) parts))))"

section \<open>Integrity: whatever the store and the cache return\<close>

text \<open>
  \<open>known X bl d\<close>: the block record was made from the decoded bytes \<open>d\<close>, and no other
  bytes have the recorded hash.
\<close>

definition known :: "pack_crates \<Rightarrow> pack_block \<Rightarrow> bytes \<Rightarrow> bool" where
  "known X bl d \<longleftrightarrow>
     d \<noteq> [] \<and> decoded_len bl = length d \<and>
     (\<exists>c. compress X d = Inr c \<and> block_hash bl = sha256 X c \<and> (\<forall>c'. sha256 X c' = sha256 X c \<longrightarrow> c' = c))"

definition visit_decoded :: "bytes list \<Rightarrow> ('s \<Rightarrow> nat \<Rightarrow> bytes \<Rightarrow> 's result) \<Rightarrow> 's \<Rightarrow> nat list \<Rightarrow> 's result" where
  "visit_decoded ds visit s ids = visit_all (\<lambda>s i. visit s i (ds ! i)) s ids"

lemma visit_decoded_append:
  "visit_decoded ds visit s (xs @ ys) = and_then (visit_decoded ds visit s xs) (\<lambda>s'. visit_decoded ds visit s' ys)"
  by (simp add: visit_decoded_def visit_all_append and_then_def)

lemma visit_compressed_block_known:
  assumes "zstd_laws X" "list_all2 (known X) bs ds" "visit_compressed_block X bs visit s (i, c) = Inr s'"
  shows "visit s i (ds ! i) = Inr s'"
proof -
  from assms(3) obtain decoded where i: "i < length bs" and h: "sha256 X c = block_hash (bs ! i)"
    and dec: "decompress X c (decoded_len (bs ! i)) = Inr decoded" and v: "visit s i decoded = Inr s'"
    by (auto simp: visit_compressed_block_def)
  from assms(2) i have k: "known X (bs ! i) (ds ! i)" by (rule list_all2_nthD)
  then obtain c0 where "compress X (ds ! i) = Inr c0" "c = c0" "decoded_len (bs ! i) = length (ds ! i)"
    using h by (auto simp: known_def)
  with assms(1) dec have "decoded = ds ! i" by (auto simp: zstd_laws_def)
  with v show ?thesis by simp
qed

lemma visit_compressed_known:
  assumes "zstd_laws X" "list_all2 (known X) bs ds" "length cs = length ids"
    and "visit_all (visit_compressed_block X bs visit) s (zip ids cs) = Inr s'"
  shows "visit_decoded ds visit s ids = Inr s'"
  using assms(3,4)
proof (induction ids arbitrary: cs s)
  case (Cons i ids)
  then obtain c cs' where cs: "cs = c # cs'" by (cases cs) auto
  with Cons.prems obtain s1 where
    1: "visit_compressed_block X bs visit s (i, c) = Inr s1"
      "visit_all (visit_compressed_block X bs visit) s1 (zip ids cs') = Inr s'"
    by (auto split: sum.splits)
  have "visit s i (ds ! i) = Inr s1" by (rule visit_compressed_block_known [OF assms(1,2) 1(1)])
  with Cons.IH [OF _ 1(2)] Cons.prems cs show ?case by (simp add: visit_decoded_def)
qed (simp add: visit_decoded_def)

lemma cut_block_length:
  "visit_all (cut_block X cache pm bs rng) (cursor, out, d) ids = Inr (cursor', out', d') \<Longrightarrow>
   length out' = length out + length ids"
proof (induction ids arbitrary: cursor out d)
  case (Cons i ids)
  then obtain c1 o1 d1 where st: "cut_block X cache pm bs rng (cursor, out, d) i = Inr (c1, o1, d1)"
    "visit_all (cut_block X cache pm bs rng) (c1, o1, d1) ids = Inr (cursor', out', d')"
    by (auto split: sum.splits)
  from st(1) have "length o1 = Suc (length out)" by (auto simp: cut_block_def)
  with Cons.IH [OF st(2)] show ?case by simp
qed simp

lemma cut_run_length: "cut_run X cache pm bs run rng d = Inr (cs, d') \<Longrightarrow> length cs = length (run_blocks run)"
  by (auto simp: cut_run_def dest: cut_block_length)

definition shaped :: "pack_run list \<Rightarrow> bytes list option list \<Rightarrow> bool" where
  "shaped batch resolved \<longleftrightarrow>
     list_all2 (\<lambda>run r. \<forall>cs. r = Some cs \<longrightarrow> length cs = length (run_blocks run)) batch resolved"

lemma length_those: "those xs = Some ys \<Longrightarrow> length ys = length xs"
  by (induction xs arbitrary: ys) (auto split: option.splits)

lemma shaped_cached: "shaped batch (map (cached_run X cache d pm bs) batch)"
  unfolding shaped_def list_all2_map2 list_all2_same
  by (auto simp: cached_run_def dest: length_those split: option.splits)

lemma shaped_update:
  "shaped batch resolved \<Longrightarrow> at < length batch \<Longrightarrow> length cs = length (run_blocks (batch ! at)) \<Longrightarrow>
   shaped batch (resolved[at := Some cs])"
  by (auto simp: shaped_def list_all2_conv_all_nth nth_list_update)

lemma resolve_batch_shaped:
  assumes "resolve_batch X store cache pm bs batch d = Inr (resolved, d')"
  shows "shaped batch resolved"
proof -
  let ?r0 = "map (cached_run X cache d pm bs) batch"
  let ?misses = "filter (\<lambda>at. ?r0 ! at = None) [0..<length batch]"
  show ?thesis
  proof (cases "?misses = []")
    case True
    with assms shaped_cached show ?thesis by (auto simp: resolve_batch_def Let_def)
  next
    case False
    with assms obtain fetched where
      v: "visit_all (fill_miss X cache pm bs batch) (?r0, d) (zip ?misses fetched) = Inr (resolved, d')"
      by (auto simp: resolve_batch_def Let_def)
    have "case (resolved, d') of (r, d) \<Rightarrow> shaped batch r"
      by (rule visit_all_invariant [OF v])
        (auto simp: shaped_cached fill_miss_def dest!: set_zip_leftD cut_run_length intro!: shaped_update)
    then show ?thesis by simp
  qed
qed

lemma visit_resolved_known:
  assumes "zstd_laws X" "list_all2 (known X) bs ds" "shaped batch resolved"
    and "visit_all (visit_resolved X bs visit) s (zip batch resolved) = Inr s'"
  shows "visit_decoded ds visit s (concat (map run_blocks batch)) = Inr s'"
  using assms(3,4)
proof (induction batch arbitrary: resolved s)
  case (Cons run batch)
  then obtain r rs where r: "resolved = r # rs" by (cases resolved) (auto simp: shaped_def)
  with Cons.prems obtain s1 where 1: "visit_resolved X bs visit s (run, r) = Inr s1"
    "visit_all (visit_resolved X bs visit) s1 (zip batch rs) = Inr s'" "shaped batch rs"
    by (auto simp: shaped_def split: sum.splits)
  from 1(1) Cons.prems(1) r have "visit_decoded ds visit s (run_blocks run) = Inr s1"
    by (auto simp: visit_resolved_def shaped_def intro: visit_compressed_known [OF assms(1,2)])
  with Cons.IH [OF 1(3,2)] show ?case by (simp add: visit_decoded_append)
qed (simp add: visit_decoded_def)

text \<open>Chunking by pack and batching by size lose no run and keep their order.\<close>

lemma concat_chunk_by: "concat (chunk_by r xs) = xs"
proof (induction r xs rule: chunk_by.induct)
  case (3 r x y xs)
  then show ?case by (cases "chunk_by r (y # xs)") auto
qed auto

lemma chunk_by_ne: "c \<in> set (chunk_by r xs) \<Longrightarrow> c \<noteq> []"
proof (induction r xs arbitrary: c rule: chunk_by.induct)
  case (3 r x y xs)
  then show ?case by (cases "chunk_by r (y # xs)") (auto split: if_splits)
qed auto

lemma concat_run_batches:
  "start \<le> length runs \<Longrightarrow>
   concat (map (\<lambda>(i, e). sub_slice runs i e) (run_batches_from runs m start)) = sub_slice runs start (length runs)"
proof (induction runs m start rule: run_batches_from.induct)
  case (1 runs m start)
  show ?case
  proof (cases "start \<ge> length runs")
    case True
    then show ?thesis by (subst run_batches_from.simps) (simp add: sub_slice_def)
  next
    case False
    let ?e = "batch_end runs m start start 0"
    have b: "start < ?e" "?e \<le> length runs"
      using False batch_end_progress [of start runs m] batch_end_bounds [of start runs m start 0] by auto
    with False 1 have "concat (map (\<lambda>(i, e). sub_slice runs i e) (run_batches_from runs m ?e)) = sub_slice runs ?e (length runs)"
      by simp
    with False b show ?thesis
      by (subst run_batches_from.simps) (simp add: Let_def sub_slice_join)
  qed
qed

lemma visit_all_decoded:
  assumes "\<And>s d x s' d'. step (s, d) x = Inr (s', d') \<Longrightarrow> visit_decoded ds visit s (ids x) = Inr s'"
  shows "visit_all step (s, d) xs = Inr (s', d') \<Longrightarrow> visit_decoded ds visit s (concat (map ids xs)) = Inr s'"
proof (induction xs arbitrary: s d)
  case (Cons x xs)
  then obtain s1 d1 where "step (s, d) x = Inr (s1, d1)" "visit_all step (s1, d1) xs = Inr (s', d')"
    by (auto split: sum.splits)
  with assms Cons.IH show ?case by (auto simp: visit_decoded_append)
qed (simp add: visit_decoded_def)

lemma visit_batch_known:
  assumes "zstd_laws X" "list_all2 (known X) bs ds"
    and "visit_batch X store cache pm bs runs visit (s, d) (i, e) = Inr (s', d')"
  shows "visit_decoded ds visit s (concat (map run_blocks (sub_slice runs i e))) = Inr s'"
proof -
  from assms(3) obtain resolved where
    r: "resolve_batch X store cache pm bs (sub_slice runs i e) d = Inr (resolved, d')"
      "visit_all (visit_resolved X bs visit) s (zip (sub_slice runs i e) resolved) = Inr s'"
    by (auto simp: visit_batch_def Let_def)
  show ?thesis by (rule visit_resolved_known [OF assms(1,2) resolve_batch_shaped [OF r(1)] r(2)])
qed

lemma visit_batches_known:
  assumes "zstd_laws X" "list_all2 (known X) bs ds"
    and "visit_all (visit_batch X store cache pm bs runs visit) (s, d) (run_batches runs m) = Inr (s', d')"
  shows "visit_decoded ds visit s (concat (map run_blocks runs)) = Inr s'"
proof -
  have "visit_decoded ds visit s
      (concat (map (\<lambda>(i, e). concat (map run_blocks (sub_slice runs i e))) (run_batches runs m))) = Inr s'"
    by (rule visit_all_decoded [OF _ assms(3)]) (use visit_batch_known [OF assms(1,2)] in auto)
  moreover have "concat (map (\<lambda>(i, e). concat (map run_blocks (sub_slice runs i e))) rs) =
      concat (map run_blocks (concat (map (\<lambda>(i, e). sub_slice runs i e) rs)))" for rs
    by (induction rs) auto
  ultimately show ?thesis using concat_run_batches [of 0 runs m] by (simp add: run_batches_def sub_slice_def)
qed

lemma visit_blocks_known:
  assumes "zstd_laws X" "list_all2 (known X) bs ds"
    and "visit_blocks X store cache metas bs runs m visit s d = Inr (s', d')"
  shows "visit_decoded ds visit s (concat (map run_blocks runs)) = Inr s'"
proof -
  let ?chunks = "chunk_by (\<lambda>l r. run_pack l = run_pack r) runs"
  have "visit_decoded ds visit s (concat (map (\<lambda>c. concat (map run_blocks c)) ?chunks)) = Inr s'"
    by (rule visit_all_decoded [OF _ assms(3) [unfolded visit_blocks_def]])
      (use visit_batches_known [OF assms(1,2)] in auto)
  moreover have "concat (map (\<lambda>c. concat (map run_blocks c)) cs) = concat (map run_blocks (concat cs))"
    for cs :: "pack_run list list" by (induction cs) auto
  ultimately show ?thesis by (simp add: concat_chunk_by)
qed

lemma block_runs_blocks:
  "block_runs ids bs = Inr runs \<Longrightarrow> concat (map run_blocks runs) = ids"
proof -
  have "visit_all (block_runs_step bs) runs0 ids = Inr runs \<Longrightarrow>
     concat (map run_blocks runs) = concat (map run_blocks runs0) @ ids" for runs0
  proof (induction ids arbitrary: runs0)
    case (Cons i ids)
    then obtain r1 where 1: "block_runs_step bs runs0 i = Inr r1" "visit_all (block_runs_step bs) r1 ids = Inr runs"
      by (auto split: sum.splits)
    from 1(1) have "concat (map run_blocks r1) = concat (map run_blocks runs0) @ [i]"
      by (cases runs0 rule: rev_cases) (auto simp: block_runs_step_def Let_def split: if_splits)
    with Cons.IH [OF 1(2)] show ?case by simp
  qed simp
  then show "block_runs ids bs = Inr runs \<Longrightarrow> concat (map run_blocks runs) = ids" by (auto simp: block_runs_def)
qed

section \<open>The blocks of a document\<close>

text \<open>\<open>sized bs ds\<close>: the block table records the lengths of the decoded blocks.\<close>

definition sized :: "pack_block list \<Rightarrow> bytes list \<Rightarrow> bool" where
  "sized bs ds \<longleftrightarrow> list_all2 (\<lambda>bl d. decoded_len bl = length d) bs ds"

lemma sized_nth: "sized bs ds \<Longrightarrow> i < length bs \<Longrightarrow> decoded_len (bs ! i) = length (ds ! i)"
  by (auto simp: sized_def dest: list_all2_nthD)

lemma sized_length: "sized bs ds \<Longrightarrow> length ds = length bs"
  by (auto simp: sized_def dest: list_all2_lengthD)

lemma span_loop_step:
  assumes "span_loop bs k off n = Inr e" "0 < n"
  obtains "k < length bs" "off < decoded_len (bs ! k)"
    "span_loop bs (Suc k) 0 (n - min n (decoded_len (bs ! k) - off)) = Inr e"
  using assms by (subst (asm) span_loop.simps) auto

lemma span_loop_ge: "span_loop bs k off n = Inr e \<Longrightarrow> k \<le> e \<and> (0 < n \<longrightarrow> k < e \<and> e \<le> length bs)"
proof (induction bs k off n rule: span_loop.induct)
  case (1 bs k off n)
  show ?case
  proof (cases "n = 0")
    case True
    with 1 show ?thesis by (simp add: span_loop.simps)
  next
    case False
    with "1.prems" span_loop_step obtain kb: "k < length bs" "off < decoded_len (bs ! k)"
      "span_loop bs (Suc k) 0 (n - min n (decoded_len (bs ! k) - off)) = Inr e" by blast
    with 1 False have "Suc k \<le> e \<and> (0 < n - min n (decoded_len (bs ! k) - off) \<longrightarrow> e \<le> length bs)" by auto
    moreover have "n - min n (decoded_len (bs ! k) - off) = 0 \<Longrightarrow> e = Suc k" using kb(3) by (simp add: span_loop.simps)
    ultimately show ?thesis using kb by auto
  qed
qed

lemma take_drop_Cons_block:
  assumes "k < length ds" "off \<le> length (ds ! k)"
  shows "take n (drop off (concat (drop k ds))) =
    take n (drop off (ds ! k)) @ take (n - (length (ds ! k) - off)) (concat (drop (Suc k) ds))"
  using assms by (subst Cons_nth_drop_Suc [symmetric]) auto

lemma large_visit_step:
  assumes "off < length d" "out + n < 2 ^ 64" "length spool = out + n"
  defines "m \<equiv> min n (length d - off)"
  shows "large_visit (n, off, out, spool) k d =
    Inr (n - m, 0, out + m, take out spool @ take n (drop off d) @ drop (out + m) spool)"
proof -
  have "sub_slice d off (off + m) = take n (drop off d)"
    by (auto simp: sub_slice_def m_def min_def)
  moreover have "length (take n (drop off d)) = m" by (simp add: m_def min.commute)
  moreover have "m \<le> n" by (simp add: m_def)
  ultimately show ?thesis using assms
    by (simp add: large_visit_def Let_def write_at_def checked_sub_def add_u64_def)
qed

lemma large_visit_fold:
  "sized bs ds \<Longrightarrow> span_loop bs k off n = Inr e \<Longrightarrow> out + n < 2 ^ 64 \<Longrightarrow> length spool = out + n \<Longrightarrow>
    \<exists>off'. visit_decoded ds large_visit (n, off, out, spool) [k..<e] =
      Inr (0, off', out + n, take out spool @ take n (drop off (concat (drop k ds))))"
proof (induction bs k off n arbitrary: out spool rule: span_loop.induct)
  case (1 bs k off n)
  show ?case
  proof (cases "n = 0")
    case True
    with "1.prems" show ?thesis by (simp add: span_loop.simps visit_decoded_def)
  next
    case False
    define d where "d = ds ! k"
    define m where "m = min n (length d - off)"
    have step: "k < length bs \<and> off < decoded_len (bs ! k) \<and>
        span_loop bs (Suc k) 0 (n - min n (decoded_len (bs ! k) - off)) = Inr e"
      by (rule span_loop_step [OF "1.prems"(2)]) (use False in auto)
    then have dl: "decoded_len (bs ! k) = length d" using sized_nth [OF "1.prems"(1)] by (simp add: d_def)
    from step have kb: "k < length bs" "off < length d" "span_loop bs (Suc k) 0 (n - m) = Inr e"
      unfolding dl m_def by auto
    let ?sp = "take out spool @ take n (drop off d) @ drop (out + m) spool"
    have len: "length (take n (drop off d)) = m" "m \<le> n" "take m (drop off d) = take n (drop off d)"
      by (auto simp: m_def min_def)
    have "\<exists>off'. visit_decoded ds large_visit (n - m, 0, out + m, ?sp) [Suc k..<e] =
      Inr (0, off', out + m + (n - m), take (out + m) ?sp @ take (n - m) (drop 0 (concat (drop (Suc k) ds))))"
      using False kb "1.prems" len
      by (intro "1.IH" [of "bs ! k" "length d - off", unfolded dl, folded m_def]) (auto simp: get_def checked_sub_def dl)
    then obtain off' where IH: "visit_decoded ds large_visit (n - m, 0, out + m, ?sp) [Suc k..<e] =
      Inr (0, off', out + n, take (out + m) ?sp @ take (n - m) (concat (drop (Suc k) ds)))"
      using len by auto
    have "take (out + m) ?sp = take out spool @ take n (drop off d)" using "1.prems"(4) len by simp
    moreover have "n - m = n - (length d - off)" by (simp add: m_def)
    ultimately have out: "take (out + m) ?sp @ take (n - m) (concat (drop (Suc k) ds)) =
        take out spool @ take n (drop off (concat (drop k ds)))"
      using kb "1.prems"(1) by (subst take_drop_Cons_block) (auto simp: d_def sized_length)
    have "[k..<e] = k # [Suc k..<e]" using span_loop_ge [OF kb(3)] by (simp add: upt_rec)
    moreover have "large_visit (n, off, out, spool) k d = Inr (n - m, 0, out + m, ?sp)"
      unfolding m_def by (rule large_visit_step) (use kb "1.prems" in auto)
    ultimately show ?thesis using IH out by (auto simp: visit_decoded_def d_def)
  qed
qed

text \<open>
  Integrity of the streaming read. The store and the cache are arbitrary; if the read
  succeeds, it returns the bytes of the decoded stream at the document's coordinates.
\<close>

lemma fetch_large_known:
  assumes "zstd_laws X" "list_all2 (known X) bs ds" "decoded_size req < 2 ^ 64"
    and "fetch_large X store cache metas bs req d = Inr (body, d')"
  shows "body = take (decoded_size req) (drop (block_offset (request_slice req))
    (concat (drop (first_block (request_slice req)) ds)))"
proof -
  let ?n = "decoded_size req" and ?sl = "request_slice req"
  from assms(4) obtain i e runs off out remaining where
    sp: "block_span ?sl ?n bs = Inr (i, e)" and runs: "block_runs [i..<e] bs = Inr runs"
    and v: "visit_blocks X store cache metas bs runs RANGE_BYTES large_visit
      (?n, block_offset ?sl, 0, new_spool ?n) d = Inr ((0, off, out, body), d')"
    by (auto simp: fetch_large_def)
  from visit_blocks_known [OF assms(1,2) v] block_runs_blocks [OF runs]
  have vd: "visit_decoded ds large_visit (?n, block_offset ?sl, 0, new_spool ?n) [i..<e] = Inr (0, off, out, body)"
    by simp
  have sz: "sized bs ds" using assms(2) by (auto simp: sized_def known_def elim: list_all2_mono)
  show ?thesis
  proof (cases "?n = 0")
    case True
    with sp vd show ?thesis by (auto simp: block_span_def visit_decoded_def new_spool_def)
  next
    case False
    with sp have "span_loop bs (first_block ?sl) (block_offset ?sl) ?n = Inr e" "i = first_block ?sl"
      by (auto simp: block_span_def)
    with large_visit_fold [OF sz, of "first_block ?sl" "block_offset ?sl" ?n e 0 "new_spool ?n"] vd assms(3)
    show ?thesis by (auto simp: new_spool_def)
  qed
qed

section \<open>Completeness: an honest store\<close>

text \<open>
  \<open>serves store metas fs\<close>: the store answers every request for ranges inside a pack file with those
  ranges, in order, which is the contract of \<open>BlobStore::get_ranges\<close>.
\<close>

definition serves :: "get_ranges \<Rightarrow> pack_meta list \<Rightarrow> bytes list \<Rightarrow> bool" where
  "serves store metas fs \<longleftrightarrow>
     length metas = length fs \<and>
     (\<forall>p<length fs. meta_len (metas ! p) = length (fs ! p) \<and> length (fs ! p) < 2 ^ 64 \<and>
       (\<forall>ranges. list_all (\<lambda>(o', l). o' + l \<le> length (fs ! p)) ranges \<longrightarrow>
          store (pack_blob (meta_hash (metas ! p))) ranges =
            Inr (map (\<lambda>(o', l). sub_slice (fs ! p) o' (o' + l)) ranges)))"

fun covers :: "pack_block list \<Rightarrow> nat \<Rightarrow> nat list \<Rightarrow> nat \<Rightarrow> bool" where
  "covers bs o' [] e = (o' = e)"
| "covers bs o' (i # ids) e = (offset (bs ! i) = o' \<and> covers bs (o' + compressed_len (bs ! i)) ids e)"

lemma covers_snoc:
  "covers bs o' (ids @ [i]) e = (covers bs o' ids (offset (bs ! i)) \<and> e = offset (bs ! i) + compressed_len (bs ! i))"
  by (induction ids arbitrary: o') auto

lemma covers_le: "covers bs o' ids e \<Longrightarrow> o' \<le> e"
  by (induction ids arbitrary: o') force+

definition run_ok :: "pack_block list \<Rightarrow> bytes list \<Rightarrow> pack_run \<Rightarrow> bool" where
  "run_ok bs fs run \<longleftrightarrow>
     (\<forall>i\<in>set (run_blocks run). i < length bs \<and> pack (bs ! i) = run_pack run) \<and>
     run_pack run < length fs \<and> run_offset run + run_len run \<le> length (fs ! run_pack run) \<and>
     covers bs (run_offset run) (run_blocks run) (run_offset run + run_len run)"

lemma block_runs_step_ok:
  assumes "stored X fs (bs ! i) d" "i < length bs" "\<forall>f\<in>set fs. length f < 2 ^ 64" "\<forall>run\<in>set runs. run_ok bs fs run"
  shows "\<exists>runs'. block_runs_step bs runs i = Inr runs' \<and> (\<forall>run\<in>set runs'. run_ok bs fs run)"
proof -
  let ?b = "bs ! i"
  from assms(1) have st: "pack ?b < length fs" "offset ?b + compressed_len ?b \<le> length (fs ! pack ?b)"
    by (auto simp: stored_def)
  show ?thesis
  proof (cases "runs \<noteq> [] \<and> extends_run (last runs) ?b")
    case True
    let ?run = "last runs"
    from True assms(4) have ok: "run_ok bs fs ?run" by simp
    from True have ext: "run_pack ?run = pack ?b" "sat_add_u64 (run_offset ?run) (run_len ?run) = offset ?b"
      by (auto simp: extends_run_def)
    from ok assms(3) have "length (fs ! run_pack ?run) < 2 ^ 64" by (simp add: run_ok_def)
    with ok have lt: "run_offset ?run + run_len ?run < 2 ^ 64" by (auto simp: run_ok_def)
    with ext(2) have off: "offset ?b = run_offset ?run + run_len ?run" by (simp add: sat_add_u64_def)
    have "length (fs ! pack ?b) < 2 ^ 64" using st(1) assms(3) by simp
    with st(2) off have "run_len ?run + compressed_len ?b < 2 ^ 64" by linarith
    then have "block_runs_step bs runs i =
      Inr (butlast runs @ [?run\<lparr>run_len := run_len ?run + compressed_len ?b, run_blocks := run_blocks ?run @ [i]\<rparr>])"
      using True assms(2) by (simp add: block_runs_step_def Let_def get_def add_u64_def)
    moreover have "run_ok bs fs (?run\<lparr>run_len := run_len ?run + compressed_len ?b, run_blocks := run_blocks ?run @ [i]\<rparr>)"
      using ok ext(1) off st assms(2) by (auto simp: run_ok_def covers_snoc)
    ultimately show ?thesis using assms(4) by (auto dest: in_set_butlastD)
  next
    case False
    then have "block_runs_step bs runs i = Inr (runs @ [\<lparr>run_pack = pack ?b, run_offset = offset ?b,
        run_len = compressed_len ?b, run_blocks = [i]\<rparr>])"
      using assms(2) by (auto simp: block_runs_step_def get_def)
    with assms(2,4) st show ?thesis by (auto simp: run_ok_def)
  qed
qed

lemma block_runs_ok:
  assumes "list_all2 (stored X fs) bs ds" "\<forall>i\<in>set ids. i < length bs" "\<forall>f\<in>set fs. length f < 2 ^ 64"
  shows "\<exists>runs. block_runs ids bs = Inr runs \<and> (\<forall>run\<in>set runs. run_ok bs fs run)"
proof -
  have "\<exists>runs. visit_all (block_runs_step bs) r0 ids = Inr runs \<and> (\<forall>run\<in>set runs. run_ok bs fs run)"
    if "\<forall>run\<in>set r0. run_ok bs fs run" for r0
    using assms(2) that
  proof (induction ids arbitrary: r0)
    case (Cons i ids)
    then have "stored X fs (bs ! i) (ds ! i)" "i < length bs" using assms(1) by (auto dest: list_all2_nthD)
    with block_runs_step_ok assms(3) Cons.prems(2) obtain r1 where
      "block_runs_step bs r0 i = Inr r1" "\<forall>run\<in>set r1. run_ok bs fs run" by blast
    with Cons show ?case by simp
  qed simp
  then show ?thesis by (simp add: block_runs_def)
qed

lemma sub_slice_sub_slice:
  "c \<le> e \<Longrightarrow> e \<le> b - a \<Longrightarrow> sub_slice (sub_slice xs a b) c e = sub_slice xs (a + c) (a + e)"
  by (simp add: sub_slice_def drop_take add.commute)

definition block_bytes_in :: "bytes \<Rightarrow> pack_block \<Rightarrow> bytes" where
  "block_bytes_in f bl = sub_slice f (offset bl) (offset bl + compressed_len bl)"

lemma cut_blocks_ok:
  assumes "O' + l \<le> length f" "length f < 2 ^ 64"
    and "\<forall>i\<in>set ids. i < length bs \<and> sha256 X (block_bytes_in f (bs ! i)) = block_hash (bs ! i)"
    and "covers bs (O' + cursor) ids (O' + l)"
  shows "\<exists>d'. visit_all (cut_block X cache pm bs (sub_slice f O' (O' + l))) (cursor, out, d) ids =
    Inr (l, out @ map (\<lambda>i. block_bytes_in f (bs ! i)) ids, d')"
  using assms(3,4)
proof (induction ids arbitrary: cursor out d)
  case (Cons i ids)
  let ?b = "bs ! i" and ?rng = "sub_slice f O' (O' + l)"
  from Cons.prems have off: "offset ?b = O' + cursor" and cov: "covers bs (O' + (cursor + compressed_len ?b)) ids (O' + l)"
    by (auto simp: add.assoc)
  from covers_le [OF cov] have e: "cursor + compressed_len ?b \<le> l" by simp
  have rl: "length ?rng = l" using assms(1) by simp
  have "sub_slice ?rng cursor (cursor + compressed_len ?b) = block_bytes_in f ?b"
    using e by (simp add: sub_slice_sub_slice block_bytes_in_def off add.assoc)
  then have "cut_block X cache pm bs ?rng (cursor, out, d) i =
    Inr (cursor + compressed_len ?b, out @ [block_bytes_in f ?b], cache_store cache pm ?b (block_bytes_in f ?b) d)"
    using Cons.prems(1) e rl assms(1,2)
    by (simp add: cut_block_def get_def add_u64_def get_range_def del: length_sub_slice)
  moreover obtain d' where "visit_all (cut_block X cache pm bs ?rng) (cursor + compressed_len ?b,
      out @ [block_bytes_in f ?b], cache_store cache pm ?b (block_bytes_in f ?b) d) ids =
    Inr (l, (out @ [block_bytes_in f ?b]) @ map (\<lambda>i. block_bytes_in f (bs ! i)) ids, d')"
    using Cons.IH [OF _ cov] Cons.prems(1) by (metis list.set_intros(2))
  ultimately show ?case by simp
qed simp

text \<open>Printing a hash in hexadecimal loses nothing.\<close>

lemma hex_digit_inj: "a < 16 \<Longrightarrow> b < 16 \<Longrightarrow> hex_digit a = hex_digit b \<Longrightarrow> a = b"
  unfolding hex_digit_def by (rule nth_eq_iff_index_eq [THEN iffD1, of "''0123456789abcdef''"]) auto

lemma hex_inj: "hex xs = hex ys \<Longrightarrow> xs = ys"
proof (induction xs arbitrary: ys)
  case Nil
  then show ?case by (cases ys) (auto simp: hex_def)
next
  case (Cons x xs)
  then obtain y ys' where ys: "ys = y # ys'" by (cases ys) (auto simp: hex_def)
  with Cons.prems have eq: "hex_digit (unat x div 16) = hex_digit (unat y div 16)"
    "hex_digit (unat x mod 16) = hex_digit (unat y mod 16)" "hex xs = hex ys'"
    by (auto simp: hex_def)
  have "unat x < 256" "unat y < 256" using unat_lt8 by auto
  with eq have "unat x div 16 = unat y div 16" "unat x mod 16 = unat y mod 16"
    by (auto intro: hex_digit_inj)
  then have "unat x = unat y" by (metis div_mult_mod_eq)
  then have "x = y" by (simp add: word_unat_eq_iff)
  with Cons.IH [OF eq(3)] ys show ?case by simp
qed

definition verified :: "pack_crates \<Rightarrow> pack_block list \<Rightarrow> pack_run \<Rightarrow> bytes list \<Rightarrow> bool" where
  "verified X bs run cs \<longleftrightarrow> list_all2 (\<lambda>i c. sha256 X c = block_hash (bs ! i)) (run_blocks run) cs"

lemma cached_run_verified: "cached_run X cache d pm bs run = Some cs \<Longrightarrow> verified X bs run cs"
proof -
  have "those (map (\<lambda>i. cache_read X cache d pm (bs ! i)) ids) = Some cs \<Longrightarrow>
      list_all2 (\<lambda>i c. sha256 X c = block_hash (bs ! i)) ids cs" for ids cs
    by (induction ids arbitrary: cs)
      (auto simp: cache_read_def read_verified_def split: option.splits if_splits dest: hex_inj)
  then show "cached_run X cache d pm bs run = Some cs \<Longrightarrow> verified X bs run cs"
    by (auto simp: cached_run_def verified_def split: option.splits)
qed

definition hashes_match :: "pack_crates \<Rightarrow> bytes list \<Rightarrow> pack_block list \<Rightarrow> bool" where
  "hashes_match X fs bs \<longleftrightarrow> (\<forall>bl\<in>set bs. sha256 X (block_bytes_in (fs ! pack bl) bl) = block_hash bl)"

lemma stored_hashes_match: "list_all2 (stored X fs) bs ds \<Longrightarrow> hashes_match X fs bs"
  by (auto simp: hashes_match_def list_all2_conv_all_nth in_set_conv_nth stored_def block_bytes_in_def Let_def)

lemma cut_run_ok:
  assumes "run_ok bs fs run" "hashes_match X fs bs" "\<forall>f\<in>set fs. length f < 2 ^ 64"
  shows "\<exists>cs d'. cut_run X cache pm bs run
      (sub_slice (fs ! run_pack run) (run_offset run) (run_offset run + run_len run)) d = Inr (cs, d') \<and> verified X bs run cs"
proof -
  let ?f = "fs ! run_pack run"
  have ok: "run_offset run + run_len run \<le> length ?f" "length ?f < 2 ^ 64"
    "\<forall>i\<in>set (run_blocks run). i < length bs \<and> sha256 X (block_bytes_in ?f (bs ! i)) = block_hash (bs ! i)"
    "covers bs (run_offset run + 0) (run_blocks run) (run_offset run + run_len run)"
    using assms by (auto simp: run_ok_def hashes_match_def) (metis nth_mem)
  from cut_blocks_ok [OF this, of cache pm "[]" d] obtain d' where
    "visit_all (cut_block X cache pm bs (sub_slice ?f (run_offset run) (run_offset run + run_len run))) (0, [], d)
      (run_blocks run) = Inr (run_len run, map (\<lambda>i. block_bytes_in ?f (bs ! i)) (run_blocks run), d')"
    by auto
  with ok show ?thesis by (auto simp: cut_run_def verified_def list_all2_map2 list_all2_same)
qed

lemma fill_misses_ok:
  assumes "\<forall>at\<in>set ms. at < length batch" "\<forall>run\<in>set batch. run_ok bs fs run \<and> run_pack run = p"
    and "hashes_match X fs bs" "\<forall>f\<in>set fs. length f < 2 ^ 64" "length resolved = length batch"
  shows "\<exists>res' d'. visit_all (fill_miss X cache pm bs batch) (resolved, d)
      (zip ms (map (\<lambda>at. sub_slice (fs ! p) (run_offset (batch ! at)) (run_offset (batch ! at) + run_len (batch ! at))) ms)) =
      Inr (res', d') \<and> length res' = length batch \<and>
      (\<forall>i<length batch. if i \<in> set ms then \<exists>cs. res' ! i = Some cs \<and> verified X bs (batch ! i) cs else res' ! i = resolved ! i)"
  using assms(1,5)
proof (induction ms arbitrary: resolved d)
  case (Cons at ms)
  let ?run = "batch ! at"
  have "run_ok bs fs ?run" "run_pack ?run = p" using Cons.prems(1) assms(2) by auto
  with cut_run_ok [OF _ assms(3,4)] obtain cs d1 where
    cut: "cut_run X cache pm bs ?run (sub_slice (fs ! p) (run_offset ?run) (run_offset ?run + run_len ?run)) d = Inr (cs, d1)"
      "verified X bs ?run cs"
    by blast
  from Cons.IH [of "resolved[at := Some cs]" d1] Cons.prems obtain res' d' where
    IH: "visit_all (fill_miss X cache pm bs batch) (resolved[at := Some cs], d1)
      (zip ms (map (\<lambda>at. sub_slice (fs ! p) (run_offset (batch ! at)) (run_offset (batch ! at) + run_len (batch ! at))) ms)) =
      Inr (res', d')" "length res' = length batch"
      "\<forall>i<length batch. if i \<in> set ms then \<exists>cs. res' ! i = Some cs \<and> verified X bs (batch ! i) cs
        else res' ! i = resolved[at := Some cs] ! i"
    by auto
  have "if i \<in> set (at # ms) then \<exists>cs. res' ! i = Some cs \<and> verified X bs (batch ! i) cs else res' ! i = resolved ! i"
    if "i < length batch" for i
    using IH(3) [rule_format, OF that] cut(2) Cons.prems that by (cases "i = at") (auto split: if_splits)
  with IH cut(1) show ?case by (auto simp: fill_miss_def)
qed simp

lemma resolve_batch_ok:
  assumes "\<forall>run\<in>set batch. run_ok bs fs run \<and> run_pack run = p" "p < length fs"
    and "hashes_match X fs bs" "serves store metas fs"
  shows "\<exists>resolved d'. resolve_batch X store cache (metas ! p) bs batch d = Inr (resolved, d') \<and>
     list_all2 (\<lambda>run r. \<exists>cs. r = Some cs \<and> verified X bs run cs) batch resolved"
proof -
  let ?r0 = "map (cached_run X cache d (metas ! p) bs) batch"
  let ?misses = "filter (\<lambda>at. ?r0 ! at = None) [0..<length batch]"
  let ?ranges = "map (\<lambda>at. (run_offset (batch ! at), run_len (batch ! at))) ?misses"
  let ?fetched = "map (\<lambda>at. sub_slice (fs ! p) (run_offset (batch ! at)) (run_offset (batch ! at) + run_len (batch ! at))) ?misses"
  have hit: "\<exists>cs. ?r0 ! i = Some cs \<and> verified X bs (batch ! i) cs" if "i < length batch" "i \<notin> set ?misses" for i
    using that cached_run_verified by (cases "?r0 ! i") fastforce+
  show ?thesis
  proof (cases "?misses = []")
    case True
    with hit have "list_all2 (\<lambda>run r. \<exists>cs. r = Some cs \<and> verified X bs run cs) batch ?r0"
      by (auto simp: list_all2_conv_all_nth)
    with True show ?thesis by (auto simp: resolve_batch_def Let_def)
  next
    case False
    have lens: "\<forall>f\<in>set fs. length f < 2 ^ 64" using assms(4) by (auto simp: serves_def in_set_conv_nth)
    have inb: "list_all (\<lambda>(o', l). o' + l \<le> length (fs ! p)) ?ranges"
      using assms(1) by (auto simp: list_all_iff run_ok_def)
    then have "list_all (\<lambda>(o', l). sat_add_u64 o' l \<le> meta_len (metas ! p)) ?ranges"
      using assms(2,4) by (auto simp: list_all_iff serves_def sat_add_u64_def)
    moreover have "store (pack_blob (meta_hash (metas ! p))) ?ranges = Inr ?fetched"
      using inb assms(2,4) by (simp add: serves_def o_def)
    ultimately have eq: "resolve_batch X store cache (metas ! p) bs batch d =
        visit_all (fill_miss X cache (metas ! p) bs batch) (?r0, d) (zip ?misses ?fetched)"
      using False by (simp add: resolve_batch_def Let_def)
    have "\<forall>at\<in>set ?misses. at < length batch" by simp
    from fill_misses_ok [OF this assms(1,3) lens, of ?r0 cache "metas ! p" d] obtain res' d' where
      f: "visit_all (fill_miss X cache (metas ! p) bs batch) (?r0, d) (zip ?misses ?fetched) = Inr (res', d')"
        "length res' = length batch"
        "\<forall>i<length batch. if i \<in> set ?misses then \<exists>cs. res' ! i = Some cs \<and> verified X bs (batch ! i) cs else res' ! i = ?r0 ! i"
      by auto
    have "\<exists>cs. res' ! i = Some cs \<and> verified X bs (batch ! i) cs" if "i < length batch" for i
      using f(3) [rule_format, OF that] hit [OF that] by (cases "i \<in> set ?misses") simp_all
    with f eq show ?thesis by (auto simp: list_all2_conv_all_nth)
  qed
qed

lemma visit_verified:
  assumes "zstd_laws X" "list_all2 (known X) bs ds" "verified X bs run cs" "\<forall>i\<in>set (run_blocks run). i < length bs"
  shows "visit_all (visit_compressed_block X bs visit) s (zip (run_blocks run) cs) = visit_decoded ds visit s (run_blocks run)"
proof -
  have "visit_compressed_block X bs visit s (i, c) = visit s i (ds ! i)"
    if i: "i < length bs" and h: "sha256 X c = block_hash (bs ! i)" for s i c
  proof -
    from list_all2_nthD [OF assms(2) i] h obtain c0 where
      "compress X (ds ! i) = Inr c0" "c = c0" "decoded_len (bs ! i) = length (ds ! i)"
      by (auto simp: known_def)
    with assms(1) i h show ?thesis by (auto simp: visit_compressed_block_def get_def zstd_laws_def)
  qed
  then have "list_all2 (\<lambda>i c. sha256 X c = block_hash (bs ! i)) ids cs \<Longrightarrow> \<forall>i\<in>set ids. i < length bs \<Longrightarrow>
     visit_all (visit_compressed_block X bs visit) s (zip ids cs) = visit_decoded ds visit s ids" for ids cs s
    by (induction ids arbitrary: cs s) (auto simp: visit_decoded_def list_all2_Cons1 split: sum.split)
  with assms(3,4) show ?thesis by (simp add: verified_def)
qed

lemma visit_resolved_ok:
  assumes "zstd_laws X" "list_all2 (known X) bs ds"
  shows "list_all2 (\<lambda>run r. \<exists>cs. r = Some cs \<and> verified X bs run cs) batch resolved \<Longrightarrow>
    \<forall>run\<in>set batch. \<forall>i\<in>set (run_blocks run). i < length bs \<Longrightarrow>
    visit_all (visit_resolved X bs visit) s (zip batch resolved) = visit_decoded ds visit s (concat (map run_blocks batch))"
proof (induction batch arbitrary: resolved s)
  case (Cons run batch)
  then obtain cs rs where r: "resolved = Some cs # rs" "verified X bs run cs"
    "list_all2 (\<lambda>run r. \<exists>cs. r = Some cs \<and> verified X bs run cs) batch rs"
    by (auto simp: list_all2_Cons1)
  with Cons have "visit_resolved X bs visit s (run, Some cs) = visit_decoded ds visit s (run_blocks run)"
    by (simp add: visit_resolved_def visit_verified [OF assms])
  with Cons.IH [OF r(3)] Cons.prems(2) r(1) show ?case
    by (simp only: zip_Cons_Cons visit_all_Cons list.map concat.simps visit_decoded_append) simp
qed (simp add: visit_decoded_def)

lemma visit_all_decoded_ok:
  assumes "\<And>s d x. x \<in> set xs \<Longrightarrow> \<exists>d'. step (s, d) x = and_then (visit_decoded ds visit s (ids x)) (\<lambda>s'. Inr (s', d'))"
  shows "\<exists>d'. visit_all step (s, d) xs = and_then (visit_decoded ds visit s (concat (map ids xs))) (\<lambda>s'. Inr (s', d'))"
  using assms
proof (induction xs arbitrary: s d)
  case (Cons x xs)
  from Cons.prems [of x s d] obtain d1 where
    1: "step (s, d) x = and_then (visit_decoded ds visit s (ids x)) (\<lambda>s'. Inr (s', d1))" by auto
  show ?case
  proof (cases "visit_decoded ds visit s (ids x)")
    case (Inl e)
    with 1 show ?thesis by (simp add: visit_decoded_append)
  next
    case (Inr s1)
    from Cons.IH [of s1 d1] Cons.prems obtain d2 where
      "visit_all step (s1, d1) xs = and_then (visit_decoded ds visit s1 (concat (map ids xs))) (\<lambda>s'. Inr (s', d2))"
      by auto
    with 1 Inr show ?thesis by (auto simp: visit_decoded_append)
  qed
qed (simp add: visit_decoded_def)

lemma chunk_by_key: "c \<in> set (chunk_by (\<lambda>l r. f l = f r) xs) \<Longrightarrow> x \<in> set c \<Longrightarrow> f x = f (hd c)"
proof (induction xs arbitrary: c x rule: induct_list012)
  case (3 y z xs)
  let ?cs = "chunk_by (\<lambda>l r. f l = f r) (z # xs)"
  show ?case
  proof (cases ?cs)
    case Nil
    with "3.prems" show ?thesis by (auto split: if_splits)
  next
    case (Cons c1 cs)
    have IH: "f w = f (hd c')" if "c' \<in> set ?cs" "w \<in> set c'" for c' w by (rule "3.IH"(2) [OF that])
    have "concat (c1 # cs) = z # xs" "c1 \<noteq> []" using concat_chunk_by [of _ "z # xs"] chunk_by_ne Cons by (metis, metis list.set_intros(1))
    then have hd1: "hd c1 = z" by (cases c1) auto
    consider "c = y # c1" "f y = f z" | "c \<in> set cs" | "c = [y]" | "c = c1"
      using "3.prems"(1) Cons by (auto split: if_splits)
    then show ?thesis
    proof cases
      case 1
      with "3.prems"(2) IH [of c1 x] Cons hd1 show ?thesis by auto
    qed (use "3.prems"(2) IH [of c x] Cons in auto)
  qed
qed auto

lemma visit_blocks_ok:
  assumes "zstd_laws X" "list_all2 (known X) bs ds" "hashes_match X fs bs" "serves store metas fs"
    and "\<forall>run\<in>set runs. run_ok bs fs run"
  shows "\<exists>d'. visit_blocks X store cache metas bs runs m visit s d =
    and_then (visit_decoded ds visit s (concat (map run_blocks runs))) (\<lambda>s'. Inr (s', d'))"
proof -
  let ?chunks = "chunk_by (\<lambda>l r. run_pack l = run_pack r) runs"
  have chunk: "\<exists>d'. and_then (context_of (get metas (run_pack (hd c))) ''pack ID is out of bounds'') (\<lambda>pm.
      visit_all (visit_batch X store cache pm bs c visit) (s, d) (run_batches c m)) =
    and_then (visit_decoded ds visit s (concat (map run_blocks c))) (\<lambda>s'. Inr (s', d'))"
    if c: "c \<in> set ?chunks" for c s d
  proof -
    let ?p = "run_pack (hd c)"
    have "set c \<subseteq> set (concat ?chunks)" using c by auto
    then have sub: "set c \<subseteq> set runs" by (simp only: concat_chunk_by)
    have runs: "\<forall>run\<in>set c. run_ok bs fs run \<and> run_pack run = ?p"
      using sub assms(5) chunk_by_key [of c run_pack runs, OF c] by blast
    have "hd c \<in> set c" using chunk_by_ne [OF c] by simp
    from runs [rule_format, OF this] have p: "?p < length fs" by (simp add: run_ok_def)
    have batch: "\<exists>d'. visit_batch X store cache (metas ! ?p) bs c visit (s, d) x =
      and_then (visit_decoded ds visit s (concat (map run_blocks (sub_slice c (fst x) (snd x))))) (\<lambda>s'. Inr (s', d'))"
      for s d x
    proof -
      let ?b = "sub_slice c (fst x) (snd x)"
      have b: "\<forall>run\<in>set ?b. run_ok bs fs run \<and> run_pack run = ?p"
        using runs by (auto simp: sub_slice_def dest!: in_set_takeD in_set_dropD)
      from resolve_batch_ok [OF this p assms(3,4), of cache d] obtain resolved d' where
        r: "resolve_batch X store cache (metas ! ?p) bs ?b d = Inr (resolved, d')"
          "list_all2 (\<lambda>run r. \<exists>cs. r = Some cs \<and> verified X bs run cs) ?b resolved" by blast
      have "visit_all (visit_resolved X bs visit) s (zip ?b resolved) = visit_decoded ds visit s (concat (map run_blocks ?b))"
        by (rule visit_resolved_ok [OF assms(1,2) r(2)]) (use b in \<open>auto simp: run_ok_def\<close>)
      with r(1) show ?thesis by (auto simp: visit_batch_def Let_def split: prod.split)
    qed
    have "\<exists>d'. visit_all (visit_batch X store cache (metas ! ?p) bs c visit) (s, d) (run_batches c m) =
      and_then (visit_decoded ds visit s (concat (map (\<lambda>x. concat (map run_blocks (sub_slice c (fst x) (snd x)))) (run_batches c m))))
        (\<lambda>s'. Inr (s', d'))"
      by (rule visit_all_decoded_ok) (rule batch)
    moreover have "concat (map (\<lambda>x. concat (map run_blocks (sub_slice c (fst x) (snd x)))) (run_batches c m)) = concat (map run_blocks c)"
    proof -
      have "concat (map (\<lambda>x. concat (map run_blocks (sub_slice c (fst x) (snd x)))) rs) =
        concat (map run_blocks (concat (map (\<lambda>(i, e). sub_slice c i e) rs)))" for rs
        by (induction rs) (auto split: prod.split)
      then show ?thesis using concat_run_batches [of 0 c m] by (simp add: run_batches_def sub_slice_def)
    qed
    ultimately show ?thesis using p assms(4) by (auto simp: get_def serves_def)
  qed
  have "concat (map (\<lambda>c. concat (map run_blocks c)) ?chunks) = concat (map run_blocks runs)"
  proof -
    have "concat (map (\<lambda>c. concat (map run_blocks c)) cs) = concat (map run_blocks (concat cs))"
      for cs :: "pack_run list list" by (induction cs) auto
    then show ?thesis by (simp add: concat_chunk_by)
  qed
  with visit_all_decoded_ok [of ?chunks _ ds visit "\<lambda>c. concat (map run_blocks c)", OF chunk, of s d]
  show ?thesis by (simp add: visit_blocks_def)
qed

lemma span_loop_total:
  "sized bs ds \<Longrightarrow> \<forall>d\<in>set ds. d \<noteq> [] \<Longrightarrow> (0 < n \<Longrightarrow> k < length ds \<and> off < length (ds ! k)) \<Longrightarrow>
   n \<le> length (concat (drop k ds)) - off \<Longrightarrow> \<exists>e. span_loop bs k off n = Inr e"
proof (induction bs k off n rule: span_loop.induct)
  case (1 bs k off n)
  show ?case
  proof (cases "n = 0")
    case True
    then show ?thesis by (simp add: span_loop.simps)
  next
    case False
    with "1.prems" have k: "k < length ds" "off < length (ds ! k)" by auto
    have kb: "k < length bs" "decoded_len (bs ! k) = length (ds ! k)"
      using k(1) sized_length [OF "1.prems"(1)] sized_nth [OF "1.prems"(1)] by auto
    define m where "m = min n (length (ds ! k) - off)"
    have len: "length (concat (drop k ds)) = length (ds ! k) + length (concat (drop (Suc k) ds))"
      by (subst Cons_nth_drop_Suc [OF k(1), symmetric]) simp
    with "1.prems"(4) k have rest: "n - m \<le> length (concat (drop (Suc k) ds)) - 0" by (auto simp: m_def min_def)
    have "Suc k < length ds \<and> 0 < length (ds ! Suc k)" if "0 < n - m"
    proof -
      have "Suc k < length ds" using rest that by (cases "Suc k < length ds") auto
      with "1.prems"(2) show ?thesis by auto
    qed
    with False k kb "1.prems" rest have "\<exists>e. span_loop bs (Suc k) 0 (n - m) = Inr e"
      by (intro "1.IH" [of "bs ! k" "length (ds ! k) - off", folded m_def]) (auto simp: get_def checked_sub_def)
    with False k kb show ?thesis
      by (subst span_loop.simps) (simp add: get_def checked_sub_def m_def)
  qed
qed

lemma concat_drop: "k \<le> length ds \<Longrightarrow> concat (drop k ds) = drop (length (concat (take k ds))) (concat ds)"
  by (metis append_eq_conv_conj append_take_drop_id concat_append)

lemma located_bytes:
  assumes "located ds sl doc"
  shows "take (length doc) (drop (block_offset sl) (concat (drop (first_block sl) ds))) = doc"
  using assms by (cases "doc = []") (auto simp: located_def stream_pos_def concat_drop add.commute)

lemma located_span:
  assumes "located ds sl doc" "sized bs ds" "\<forall>d\<in>set ds. d \<noteq> []"
  shows "\<exists>i e. block_span sl (length doc) bs = Inr (i, e) \<and> e \<le> length bs"
proof (cases "doc = []")
  case False
  let ?k = "first_block sl" and ?off = "block_offset sl"
  from located_bytes [OF assms(1)] have "length doc = min (length doc) (length (concat (drop ?k ds)) - ?off)"
    by (metis length_drop length_take min.commute)
  then have "length doc \<le> length (concat (drop ?k ds)) - ?off" by linarith
  moreover have "?k < length ds \<and> ?off < length (ds ! ?k)" using assms(1) False by (auto simp: located_def)
  ultimately obtain e where "span_loop bs ?k ?off (length doc) = Inr e"
    using span_loop_total [OF assms(2,3)] by blast
  moreover from span_loop_ge [OF this] False have "e \<le> length bs" by auto
  ultimately show ?thesis using False by (auto simp: block_span_def)
qed (use assms in \<open>auto simp: located_def block_span_def\<close>)

text \<open>No two byte strings have the recorded hash of a block of the table.\<close>

definition unforgeable :: "pack_crates \<Rightarrow> pack_block list \<Rightarrow> bool" where
  "unforgeable X bs \<longleftrightarrow>
     (\<forall>bl\<in>set bs. \<forall>c c'. sha256 X c = block_hash bl \<longrightarrow> sha256 X c' = block_hash bl \<longrightarrow> c = c')"

lemma stored_known:
  assumes "list_all2 (stored X fs) bs ds" "unforgeable X bs"
  shows "list_all2 (known X) bs ds"
proof -
  have "known X bl d" if s: "stored X fs bl d" and m: "bl \<in> set bs" for bl d
  proof -
    from s obtain c where c: "compress X d = Inr c" "block_hash bl = sha256 X c" "decoded_len bl = length d" "d \<noteq> []"
      by (auto simp: stored_def Let_def)
    then have "c' = c" if "sha256 X c' = sha256 X c" for c' using assms(2) m that by (metis unforgeable_def)
    with c show ?thesis by (auto simp: known_def)
  qed
  with assms(1) show ?thesis by (auto simp: list_all2_conv_all_nth)
qed

lemma fetch_large_ok:
  assumes "zstd_laws X" "list_all2 (stored X fs) bs ds" "unforgeable X bs" "serves store metas fs"
    and "located ds sl doc" "length doc < 2 ^ 64"
  shows "\<exists>d'. fetch_large X store cache metas bs \<lparr>request_index = n, request_slice = sl, decoded_size = length doc\<rparr> d =
    Inr (doc, d')"
proof -
  let ?req = "\<lparr>request_index = n, request_slice = sl, decoded_size = length doc\<rparr>"
  note known = stored_known [OF assms(2,3)]
  have sz: "sized bs ds" using known by (auto simp: sized_def known_def elim: list_all2_mono)
  have ne: "\<forall>d\<in>set ds. d \<noteq> []" using known by (auto simp: known_def list_all2_conv_all_nth in_set_conv_nth)
  from located_span [OF assms(5) sz ne] obtain i e where
    sp: "block_span sl (length doc) bs = Inr (i, e)" "e \<le> length bs" by blast
  have lens: "\<forall>f\<in>set fs. length f < 2 ^ 64" using assms(4) by (auto simp: serves_def in_set_conv_nth)
  have "\<forall>j\<in>set [i..<e]. j < length bs" using sp(2) by auto
  from block_runs_ok [OF assms(2) this lens] obtain runs where
    runs: "block_runs [i..<e] bs = Inr runs" "\<forall>run\<in>set runs. run_ok bs fs run" by blast
  let ?s0 = "(length doc, block_offset sl, 0, new_spool (length doc))"
  from visit_blocks_ok [OF assms(1) known stored_hashes_match [OF assms(2)] assms(4) runs(2),
      of cache RANGE_BYTES large_visit ?s0 d]
  obtain d' where v: "visit_blocks X store cache metas bs runs RANGE_BYTES large_visit ?s0 d =
      and_then (visit_decoded ds large_visit ?s0 [i..<e]) (\<lambda>s'. Inr (s', d'))"
    by (auto simp: block_runs_blocks [OF runs(1)])
  have "\<exists>off out. visit_decoded ds large_visit ?s0 [i..<e] = Inr (0, off, out, doc)"
  proof (cases "doc = []")
    case True
    with sp show ?thesis by (auto simp: block_span_def visit_decoded_def new_spool_def)
  next
    case False
    with sp have "span_loop bs (first_block sl) (block_offset sl) (length doc) = Inr e" "i = first_block sl"
      by (auto simp: block_span_def)
    with large_visit_fold [OF sz, of "first_block sl" "block_offset sl" "length doc" e 0 "new_spool (length doc)"]
      located_bytes [OF assms(5)] assms(6)
    show ?thesis by (auto simp: new_spool_def)
  qed
  with sp runs v show ?thesis by (auto simp: fetch_large_def)
qed

section \<open>Properties\<close>

text \<open>
  C24: Packed documents read back. Documents appended one after the other to a fresh builder and fetched
  at the coordinates the builder returned come back byte for byte: the fetch succeeds,
  whatever is in the cache, when the store serves the pack files, the compressor
  inverts, and no other bytes have the hash of a stored block.
\<close>

theorem packed_documents_read_back:
  assumes "zstd_laws X"
    and "new_builder bb pb = Inr b" "append_all X b docs = Inr (slices, b')" "finish_builder X b' = Inr out"
    and "unforgeable X (built_blocks out)"
    and "serves store (map pack_file_meta (built_files out)) (map content (built_files out))"
    and "i < length docs" "length (docs ! i) < 2 ^ 64"
  shows "\<exists>d'. fetch_large X store cache (map pack_file_meta (built_files out)) (built_blocks out)
      \<lparr>request_index = i, request_slice = slices ! i, decoded_size = length (docs ! i)\<rparr> d = Inr (docs ! i, d')"
proof -
  from build_packs_holds [OF assms(2-4)] obtain ds where
    "list_all2 (stored X (map content (built_files out))) (built_blocks out) ds" "list_all2 (located ds) slices docs"
    by (auto simp: holds_blocks_def)
  moreover from this(2) assms(7) have "located ds (slices ! i) (docs ! i)"
    by (simp add: list_all2_conv_all_nth)
  ultimately show ?thesis using assms fetch_large_ok by blast
qed

definition sample_zstd :: pack_crates where
  "sample_zstd = \<lparr>compress = (\<lambda>d. Inr (1 # d)), decompress = (\<lambda>c n. Inr (tl c)), sha256 = (\<lambda>x. x)\<rparr>"

definition sample_out :: built_packs where
  "sample_out = \<lparr>built_files = [\<lparr>content = [1, 7, 8, 1, 9, 5], file_len = 6, file_hash = ''010708010905''\<rparr>],
     built_blocks = [\<lparr>pack = 0, offset = 0, compressed_len = 3, decoded_len = 2, block_hash = [1, 7, 8]\<rparr>,
       \<lparr>pack = 0, offset = 3, compressed_len = 3, decoded_len = 2, block_hash = [1, 9, 5]\<rparr>]\<rparr>"

definition sample_store :: get_ranges where
  "sample_store name ranges = Inr (map (\<lambda>(o', l). sub_slice [1, 7, 8, 1, 9, 5] o' (o' + l)) ranges)"

lemma sample_laws: "zstd_laws sample_zstd" "unforgeable sample_zstd bs"
    "serves sample_store (map pack_file_meta (built_files sample_out)) (map content (built_files sample_out))"
  by (auto simp: zstd_laws_def sample_zstd_def unforgeable_def serves_def sample_store_def sample_out_def pack_file_meta_def)

lemmas run_builder = append_doc_def append_loop.simps flush_block_def must_rotate_def active_or_new_def
  finish_pack_def finish_builder_def Let_def sample_zstd_def try_u32_def add_u64_def sat_add_u64_def

lemma sample_build:
  assumes "b = \<lparr>block_bytes = 2, pack_bytes = 100, open_block = [], blocks = [], packs = [], active = None\<rparr>"
  shows "\<exists>b'. append_all sample_zstd b [[7, 8, 9], [], [5]] =
      Inr ([\<lparr>first_block = 0, block_offset = 0\<rparr>, \<lparr>first_block = 0, block_offset = 0\<rparr>,
        \<lparr>first_block = 1, block_offset = 1\<rparr>], b') \<and> finish_builder sample_zstd b' = Inr sample_out"
  by (simp add: assms run_builder sample_out_def hex_def hex_digit_def)

theorem packed_documents_read_back_witness:
  "\<exists>d'. fetch_large sample_zstd sample_store (Some ''seg'') (map pack_file_meta (built_files sample_out))
      (built_blocks sample_out)
      \<lparr>request_index = 2, request_slice = \<lparr>first_block = 1, block_offset = 1\<rparr>, decoded_size = 1\<rparr>
      \<lparr>files = Map.empty, writable = (\<lambda>_. True)\<rparr> = Inr ([5], d')"
proof -
  let ?b = "\<lparr>block_bytes = 2, pack_bytes = 100, open_block = [], blocks = [], packs = [], active = None\<rparr>"
  have "new_builder 2 100 = Inr ?b" by (simp add: new_builder_def)
  moreover obtain b' where "append_all sample_zstd ?b [[7, 8, 9], [], [5]] =
      Inr ([\<lparr>first_block = 0, block_offset = 0\<rparr>, \<lparr>first_block = 0, block_offset = 0\<rparr>,
        \<lparr>first_block = 1, block_offset = 1\<rparr>], b')" "finish_builder sample_zstd b' = Inr sample_out"
    using sample_build [OF refl] by blast
  ultimately show ?thesis
    using packed_documents_read_back [OF sample_laws(1) _ _ _ sample_laws(2) sample_laws(3), of 2 100 ?b _ _ b' 2]
    by fastforce
qed

text \<open>
  C25: Reads are authentic. For an arbitrary store and an arbitrary cache directory, a fetch of a packed
  document either fails or returns the document: no bytes reach the caller that are not
  what was appended.
\<close>

theorem pack_reads_are_authentic:
  assumes "zstd_laws X"
    and "new_builder bb pb = Inr b" "append_all X b docs = Inr (slices, b')" "finish_builder X b' = Inr out"
    and "unforgeable X (built_blocks out)" "i < length docs" "length (docs ! i) < 2 ^ 64"
    and "fetch_large X store cache metas (built_blocks out)
      \<lparr>request_index = i, request_slice = slices ! i, decoded_size = length (docs ! i)\<rparr> d = Inr (body, d')"
  shows "body = docs ! i"
proof -
  from build_packs_holds [OF assms(2-4)] obtain ds where
    st: "list_all2 (stored X (map content (built_files out))) (built_blocks out) ds" "list_all2 (located ds) slices docs"
    by (auto simp: holds_blocks_def)
  from st(2) assms(6) have "located ds (slices ! i) (docs ! i)" by (simp add: list_all2_conv_all_nth)
  from located_bytes [OF this] fetch_large_known [OF assms(1) stored_known [OF st(1) assms(5)] _ assms(8)] assms(7)
  show ?thesis by simp
qed

theorem pack_reads_are_authentic_witness:
  "\<exists>body d'. fetch_large sample_zstd sample_store None (map pack_file_meta (built_files sample_out))
      (built_blocks sample_out)
      \<lparr>request_index = 0, request_slice = \<lparr>first_block = 0, block_offset = 0\<rparr>, decoded_size = 3\<rparr>
      \<lparr>files = Map.empty, writable = (\<lambda>_. True)\<rparr> = Inr (body, d') \<and> body = [7, 8, 9]"
proof -
  let ?b = "\<lparr>block_bytes = 2, pack_bytes = 100, open_block = [], blocks = [], packs = [], active = None\<rparr>"
  let ?sl = "\<lparr>first_block = 0, block_offset = 0\<rparr>"
  have nb: "new_builder 2 100 = Inr ?b" by (simp add: new_builder_def)
  obtain b' where ap: "append_all sample_zstd ?b [[7, 8, 9], [], [5]] =
      Inr ([?sl, ?sl, \<lparr>first_block = 1, block_offset = 1\<rparr>], b')" "finish_builder sample_zstd b' = Inr sample_out"
    using sample_build [OF refl] by blast
  from build_packs_holds [OF nb ap] obtain ds where
    "list_all2 (stored sample_zstd (map content (built_files sample_out))) (built_blocks sample_out) ds"
    "located ds ?sl [7, 8, 9]"
    by (auto simp: holds_blocks_def)
  note ok = fetch_large_ok [OF sample_laws(1) this(1) sample_laws(2,3) this(2)]
  have l3: "length [7, 8, 9 :: u8] = 3" by simp
  obtain body d' where
    f: "fetch_large sample_zstd sample_store None (map pack_file_meta (built_files sample_out))
      (built_blocks sample_out) \<lparr>request_index = 0, request_slice = ?sl, decoded_size = 3\<rparr>
      \<lparr>files = Map.empty, writable = (\<lambda>_. True)\<rparr> = Inr (body, d')"
    using ok [unfolded l3, of None 0 "\<lparr>files = Map.empty, writable = (\<lambda>_. True)\<rparr>"] by fastforce
  have "body = [[7, 8, 9], [], [5]] ! 0"
    by (rule pack_reads_are_authentic [OF sample_laws(1) nb ap sample_laws(2), of 0]) (use f l3 in \<open>simp_all del: length_Cons list.size\<close>)
  with f show ?thesis by auto
qed

end
