(* ===== verification/Segment_Tables.thy ===== *)
theory Segment_Tables
  imports Pack_Read "HOL-Library.Char_ord" "HOL-Library.List_Lexorder"
begin

text \<open>
  The document table of a segment, \<open>crates/index/src/format.rs\<close>: sources, documents and pack blocks, the
  validation every reader runs on a table before it uses it, and the set of dead
  sources and documents. A \<open>String\<close> is the list of its UTF-8 bytes as characters, so that \<open><\<close> on strings is
  the byte-wise order of Rust. Integer fields are natural numbers; \<open>pack + 1\<close> wraps at
  \<open>2 ^ 32\<close>. The serialisation crate is a parameter of the two parsers.
\<close>

section \<open>Definitions\<close>

datatype source_encoding =
    Raw | Gzip | Zstd | Bzip2 | Xz | SnappyFrame | Lz4Frame | Parquet | Avro | Zip | Tar | ArrowIpc
  | Orc | Brotli | Zlib

record source_entry =
  source_key :: string
  version :: string
  encoded_size :: nat
  encoding :: source_encoding
  first_doc :: nat
  doc_count :: nat
  failed :: bool
  retry :: bool

record doc_entry =
  display_key :: string
  source_id :: nat
  member_path :: "string option"
  doc_size :: nat
  doc_first_block :: nat
  doc_block_offset :: nat
  max_line_len :: nat
  block_newlines :: "nat list"

record segment_tables =
  sources :: "source_entry list"
  documents :: "doc_entry list"
  table_blocks :: "pack_block list"

record dead_set =
  dead_sources :: "nat list"
  dead_documents :: "nat list"

definition validate_document :: "nat \<Rightarrow> source_entry \<Rightarrow> string set \<Rightarrow> doc_entry \<Rightarrow> string set result" where
  "validate_document sid source seen document =
     ensure (source_id document = sid) ''document points to the wrong source''
     (and_then (case member_path document of
          Some member \<Rightarrow> ensure (member \<noteq> [] \<and> display_key document = source_key source @ ''!/'' @ member)
            ''document display key does not match its member path'' (Inr ())
        | None \<Rightarrow> ensure (display_key document = source_key source)
            ''source document display key does not match its source'' (Inr ()))
      (\<lambda>_. ensure (display_key document \<notin> seen) ''duplicate document display key''
        (Inr (insert (display_key document) seen))))"

definition validate_source ::
    "doc_entry list \<Rightarrow> string option \<times> string set \<times> nat \<Rightarrow> nat \<times> source_entry \<Rightarrow> (string option \<times> string set \<times> nat) result" where
  "validate_source docs = (\<lambda>(previous, seen, expected) (sid, source).
     ensure (case previous of None \<Rightarrow> True | Some p \<Rightarrow> p < source_key source) ''segment sources are not unique and sorted''
     (let start = first_doc source
      in and_then (context_of (add_u64 start (doc_count source)) ''source document range overflows'') (\<lambda>e.
         ensure (start = expected) ''source document ranges are not contiguous''
         (ensure (e \<le> length docs) ''source document range is out of bounds''
         (ensure (\<not> failed source \<or> doc_count source = 0) ''failed source contains documents''
         (ensure (\<not> retry source \<or> failed source) ''retryable source is not failed''
         (and_then (visit_all (validate_document sid source) seen (sub_slice docs start e)) (\<lambda>seen'.
          ensure (successively (<) (map display_key (sub_slice docs start e))) ''source documents are not sorted''
          (Inr (Some (source_key source), seen', e))))))))))"

definition validate_sources :: "segment_tables \<Rightarrow> unit result" where
  "validate_sources t =
     and_then (visit_all (validate_source (documents t)) (None, {}, 0) (enumerate 0 (sources t))) (\<lambda>(_, _, expected).
     ensure (expected = length (documents t)) ''unowned documents remain''
     (ensure (list_all (\<lambda>(i, document).
          case get (sources t) (source_id document) of
            None \<Rightarrow> False
          | Some source \<Rightarrow> i \<ge> first_doc source \<and> i < first_doc source + doc_count source)
          (enumerate 0 (documents t))) ''document lies outside its source range''
      (Inr ())))"

definition validate_block :: "nat option \<times> nat \<Rightarrow> pack_block \<Rightarrow> (nat option \<times> nat) result" where
  "validate_block = (\<lambda>(previous, expected) b.
     ensure (compressed_len b > 0) ''pack block compressed length is zero''
     (ensure (decoded_len b > 0 \<and> decoded_len b \<le> PACK_BLOCK_BYTES) ''pack block decoded length is invalid''
     (and_then (if previous \<noteq> Some (pack b)
        then ensure (case previous of None \<Rightarrow> True | Some p \<Rightarrow> pack b = (p + 1) mod 2 ^ 32) ''pack IDs are not contiguous''
               (Inr (Some (pack b), 0))
        else Inr (previous, expected)) (\<lambda>(previous, expected).
      ensure (offset b = expected) ''pack blocks are not contiguous''
      (and_then (context_of (add_u64 expected (compressed_len b)) ''pack block offsets overflow'') (\<lambda>expected.
       Inr (previous, expected)))))))"

definition validate_blocks :: "pack_block list \<Rightarrow> unit result" where
  "validate_blocks bs = and_then (visit_all validate_block (None, 0) bs) (\<lambda>_. Inr ())"

text \<open>The inner loop of the coordinate check: walk the blocks a document covers.\<close>

function consume_blocks :: "pack_block list \<Rightarrow> nat \<Rightarrow> nat \<Rightarrow> nat \<Rightarrow> (nat \<times> nat) result" where
  "consume_blocks bs next_block next_offset remaining =
     (if remaining = 0 then Inr (next_block, next_offset)
      else and_then (context_of (get bs next_block) ''document points outside pack blocks'') (\<lambda>b.
        and_then (context_of (checked_sub (decoded_len b) next_offset) ''document block offset is out of bounds'') (\<lambda>available.
          let consumed = min remaining available;
              next_offset' = next_offset + consumed
          in if next_offset' = decoded_len b
             then consume_blocks bs (Suc next_block) 0 (remaining - consumed)
             else consume_blocks bs next_block next_offset' (remaining - consumed))))"
  by pat_completeness auto
termination
proof (relation "measures [\<lambda>(bs, nb, no, remaining). remaining, \<lambda>(bs, nb, no, remaining). length bs - nb]")
qed (auto simp: min_def)

declare consume_blocks.simps [simp del]

definition validate_coordinates_step :: "pack_block list \<Rightarrow> nat \<times> nat \<Rightarrow> doc_entry \<Rightarrow> (nat \<times> nat) result" where
  "validate_coordinates_step bs = (\<lambda>(next_block, next_offset) document.
     if doc_size document = 0
     then ensure (doc_first_block document = 0 \<and> doc_block_offset document = 0)
            ''empty document has pack coordinates'' (Inr (next_block, next_offset))
     else ensure (doc_first_block document = next_block \<and> doc_block_offset document = next_offset)
            ''document pack coordinates are not contiguous''
            (consume_blocks bs next_block next_offset (doc_size document)))"

definition validate_coordinates :: "segment_tables \<Rightarrow> unit result" where
  "validate_coordinates t =
     and_then (visit_all (validate_coordinates_step (table_blocks t)) (0, 0) (documents t)) (\<lambda>(next_block, next_offset).
     ensure (next_block = length (table_blocks t) \<and> next_offset = 0) ''unowned decoded bytes remain in pack blocks''
     (Inr ()))"

definition validate :: "segment_tables \<Rightarrow> unit result" where
  "validate t =
     and_then (validate_sources t) (\<lambda>_.
     and_then (validate_blocks (table_blocks t)) (\<lambda>_.
     validate_coordinates t))"

text \<open>\<open>binary_search\<close> on a strictly ascending slice finds exactly its members.\<close>

definition validate_dead :: "dead_set \<Rightarrow> segment_tables \<Rightarrow> unit result" where
  "validate_dead dead t =
     ensure (dead_sources dead = [] \<or> last (dead_sources dead) < length (sources t)) ''dead source ID is out of bounds''
     (ensure (dead_documents dead = [] \<or> last (dead_documents dead) < length (documents t)) ''dead document ID is out of bounds''
     (and_then (visit_all (\<lambda>_ sid.
        and_then (or_panic (get (sources t) sid)) (\<lambda>source.
        and_then (context_of (add_u32 (first_doc source) (doc_count source)) ''dead source document range overflows'') (\<lambda>e.
        ensure (list_all (\<lambda>d. d \<in> set (dead_documents dead)) [first_doc source..<e]) ''dead source has live documents''
          (Inr ())))) () (dead_sources dead)) (\<lambda>_.
      and_then (visit_all (\<lambda>_ d.
        and_then (or_panic (get (documents t) d)) (\<lambda>document.
        ensure (source_id document \<in> set (dead_sources dead)) ''dead document belongs to a live source''
          (Inr ()))) () (dead_documents dead)) (\<lambda>_. Inr ()))))"

definition parse_tables :: "(bytes \<Rightarrow> segment_tables option) \<Rightarrow> bytes \<Rightarrow> segment_tables result" where
  "parse_tables from_bytes bs =
     and_then (context_of (from_bytes bs) ''segment docs.bin unreadable'') (\<lambda>t.
     and_then (validate t) (\<lambda>_. Inr t))"

definition parse_dead :: "(bytes \<Rightarrow> dead_set option) \<Rightarrow> bytes \<Rightarrow> dead_set result" where
  "parse_dead from_bytes bs =
     and_then (context_of (from_bytes bs) ''segment dead set unreadable'') (\<lambda>dead.
     ensure (successively (<) (dead_sources dead)) ''dead source IDs are not sorted and unique''
     (ensure (successively (<) (dead_documents dead)) ''dead document IDs are not sorted and unique''
     (Inr dead)))"

section \<open>What a valid table promises\<close>

definition key_matches :: "source_entry \<Rightarrow> doc_entry \<Rightarrow> bool" where
  "key_matches source document \<longleftrightarrow>
     (case member_path document of
        Some member \<Rightarrow> member \<noteq> [] \<and> display_key document = source_key source @ ''!/'' @ member
      | None \<Rightarrow> display_key document = source_key source)"

definition source_ok :: "doc_entry list \<Rightarrow> source_entry list \<Rightarrow> nat \<Rightarrow> bool" where
  "source_ok docs srcs i \<longleftrightarrow>
     (let s = srcs ! i; own = sub_slice docs (first_doc s) (first_doc s + doc_count s)
      in first_doc s = sum_list (map doc_count (take i srcs)) \<and>
         (failed s \<longrightarrow> doc_count s = 0) \<and> (retry s \<longrightarrow> failed s) \<and>
         (\<forall>d\<in>set own. source_id d = i \<and> key_matches s d) \<and> ascending (map display_key own))"

definition sources_wf :: "segment_tables \<Rightarrow> bool" where
  "sources_wf t \<longleftrightarrow>
     ascending (map source_key (sources t)) \<and>
     (\<forall>i<length (sources t). source_ok (documents t) (sources t) i) \<and>
     sum_list (map doc_count (sources t)) = length (documents t) \<and>
     distinct (map display_key (documents t))"

text \<open>\<open>at_pos lens b o p\<close>: byte \<open>p\<close> of the concatenated blocks is byte \<open>o\<close> of block \<open>b\<close>.\<close>

definition at_pos :: "nat list \<Rightarrow> nat \<Rightarrow> nat \<Rightarrow> nat \<Rightarrow> bool" where
  "at_pos lens b o' p \<longleftrightarrow>
     sum_list (take b lens) + o' = p \<and> (b < length lens \<and> o' < lens ! b \<or> b = length lens \<and> o' = 0)"

definition coordinates_wf :: "nat list \<Rightarrow> doc_entry list \<Rightarrow> bool" where
  "coordinates_wf lens docs \<longleftrightarrow>
     sum_list (map doc_size docs) = sum_list lens \<and>
     (\<forall>i<length docs.
        if doc_size (docs ! i) = 0 then doc_first_block (docs ! i) = 0 \<and> doc_block_offset (docs ! i) = 0
        else at_pos lens (doc_first_block (docs ! i)) (doc_block_offset (docs ! i))
               (sum_list (map doc_size (take i docs))))"

definition follows :: "pack_block \<Rightarrow> pack_block \<Rightarrow> bool" where
  "follows x y \<longleftrightarrow>
     (if pack y = pack x then offset y = offset x + compressed_len x
      else pack y = (pack x + 1) mod 2 ^ 32 \<and> offset y = 0)"

definition block_fits :: "pack_block \<Rightarrow> bool" where
  "block_fits b \<longleftrightarrow> 0 < compressed_len b \<and> 0 < decoded_len b \<and> decoded_len b \<le> PACK_BLOCK_BYTES \<and>
     offset b + compressed_len b < 2 ^ 64"

definition blocks_wf :: "pack_block list \<Rightarrow> bool" where
  "blocks_wf bs \<longleftrightarrow> list_all block_fits bs \<and> successively follows bs \<and> (bs \<noteq> [] \<longrightarrow> offset (hd bs) = 0)"

section \<open>Lemmas\<close>

lemma validate_block_spec:
  "validate_block (prev, e) b = Inr st \<longleftrightarrow>
     block_fits b \<and> st = (Some (pack b), offset b + compressed_len b) \<and>
     (case prev of
        None \<Rightarrow> offset b = 0
      | Some p \<Rightarrow> if pack b = p then offset b = e else pack b = (p + 1) mod 2 ^ 32 \<and> offset b = 0)"
  by (auto simp: validate_block_def block_fits_def split: option.splits if_splits)

lemma validate_blocks_snoc:
  "visit_all validate_block (None, 0) bs = Inr st \<longleftrightarrow>
   blocks_wf bs \<and> st = (if bs = [] then (None, 0) else (Some (pack (last bs)), offset (last bs) + compressed_len (last bs)))"
proof (induction bs arbitrary: st rule: rev_induct)
  case (snoc b bs)
  show ?case
  proof (cases "bs = []")
    case True
    then show ?thesis by (auto simp: visit_all_Cons validate_block_spec blocks_wf_def simp del: visit_all.simps(2))
  next
    case False
    then show ?thesis
      by (auto simp: visit_all_snoc snoc validate_block_spec blocks_wf_def successively_append_iff follows_def)
  qed
qed (auto simp: blocks_wf_def)

lemma validate_blocks_iff: "validate_blocks bs = Inr () \<longleftrightarrow> blocks_wf bs"
  using validate_blocks_snoc [of bs] by (auto simp: validate_blocks_def)

lemma sum_list_take_Suc: "b < length lens \<Longrightarrow> sum_list (take (Suc b) lens) = sum_list (take b lens) + lens ! b"
  for lens :: "nat list"
  by (simp add: take_Suc_conv_app_nth)

lemma sum_list_take_le: "sum_list (take b lens) \<le> sum_list lens" for lens :: "nat list"
  by (metis append_take_drop_id le_add1 sum_list_append)

lemma consume_blocks_spec:
  assumes "\<forall>l\<in>set (map decoded_len bs). 0 < l"
  shows "at_pos (map decoded_len bs) b o' p \<Longrightarrow>
    (if p + n \<le> sum_list (map decoded_len bs)
     then \<exists>b' o''. consume_blocks bs b o' n = Inr (b', o'') \<and> at_pos (map decoded_len bs) b' o'' (p + n)
     else \<exists>e. consume_blocks bs b o' n = Inl e)"
  using assms
proof (induction bs b o' n arbitrary: p rule: consume_blocks.induct)
  case (1 bs b o' n)
  let ?lens = "map decoded_len bs"
  show ?case
  proof (cases "n = 0")
    case True
    have "p \<le> sum_list ?lens"
    proof (cases "b < length bs")
      case True
      with "1.prems"(1) have "p < sum_list (take (Suc b) ?lens)" by (auto simp: at_pos_def sum_list_take_Suc)
      with sum_list_take_le [of "Suc b" ?lens] show ?thesis by linarith
    qed (use "1.prems"(1) in \<open>auto simp: at_pos_def\<close>)
    with True "1.prems" show ?thesis by (simp add: consume_blocks.simps)
  next
    case False
    show ?thesis
    proof (cases "b < length bs")
      case out: False
      with "1.prems"(1) False show ?thesis by (subst (1 2) consume_blocks.simps) (auto simp: at_pos_def get_def)
    next
      case b: True
      define l where "l = decoded_len (bs ! b)"
      define m where "m = min n (l - o')"
      have pos: "sum_list (take b ?lens) + o' = p" "o' < l" using "1.prems"(1) b by (auto simp: at_pos_def l_def)
      have step: "consume_blocks bs b o' n =
        (if o' + m = l then consume_blocks bs (Suc b) 0 (n - m) else consume_blocks bs b (o' + m) (n - m))"
        using False b pos by (subst consume_blocks.simps) (simp add: get_def checked_sub_def l_def m_def Let_def)
      have m: "m \<le> n" "0 < m" "o' + m \<le> l" using False pos by (auto simp: m_def)
      have dl: "decoded_len (bs ! b) = l" and pn: "p + m + (n - m) = p + n" using m by (simp_all add: l_def)
      show ?thesis
      proof (cases "o' + m = l")
        case True
        have "0 < ?lens ! Suc b" if "Suc b < length bs" using that "1.prems"(2) by (metis length_map nth_mem)
        then have "at_pos ?lens (Suc b) 0 (p + m)"
          using b pos True by (auto simp: at_pos_def sum_list_take_Suc l_def)
        from "1.IH"(1) [OF False _ _ m_def refl _ this "1.prems"(2), of "bs ! b"]
        show ?thesis using True b pos m(1) unfolding pn by (simp add: dl step split: if_splits)
      next
        case False
        with m have "at_pos ?lens b (o' + m) (p + m)" using b pos by (auto simp: at_pos_def l_def)
        from "1.IH"(2) [OF \<open>n \<noteq> 0\<close> _ _ m_def refl _ this "1.prems"(2), of "bs ! b"]
        show ?thesis using False b pos m(1) unfolding pn by (simp add: dl step split: if_splits)
      qed
    qed
  qed
qed

lemma at_pos_unique:
  assumes "at_pos lens b o' p" "at_pos lens c q p"
  shows "b = c \<and> o' = q"
proof -
  have less: False if "at_pos lens b o' p" "at_pos lens c q p" "b < c" for b o' c q
  proof -
    from that have "b < length lens" "o' < lens ! b" by (auto simp: at_pos_def)
    then have "p < sum_list (take (Suc b) lens)" using that(1) by (simp add: at_pos_def sum_list_take_Suc)
    also have "\<dots> \<le> sum_list (take c lens)"
      using sum_list_take_le [of "Suc b" "take c lens"] that(3) by (simp add: min_def)
    also have "\<dots> \<le> p" using that(2) by (auto simp: at_pos_def)
    finally show False by simp
  qed
  have "b = c" using less [OF assms] less [OF assms(2,1)] by (metis linorder_neqE_nat)
  with assms show ?thesis by (auto simp: at_pos_def)
qed

text \<open>The coordinate loop accepts a table exactly when the documents tile the blocks.\<close>

definition tiles :: "nat list \<Rightarrow> nat \<Rightarrow> doc_entry list \<Rightarrow> bool" where
  "tiles lens p docs \<longleftrightarrow>
     (\<forall>i<length docs.
        if doc_size (docs ! i) = 0 then doc_first_block (docs ! i) = 0 \<and> doc_block_offset (docs ! i) = 0
        else at_pos lens (doc_first_block (docs ! i)) (doc_block_offset (docs ! i))
               (p + sum_list (map doc_size (take i docs))))"

lemma tiles_Cons:
  "tiles lens p (d # docs) \<longleftrightarrow>
     (if doc_size d = 0 then doc_first_block d = 0 \<and> doc_block_offset d = 0
      else at_pos lens (doc_first_block d) (doc_block_offset d) p) \<and> tiles lens (p + doc_size d) docs"
  by (auto simp: tiles_def nth_Cons less_Suc_eq_0_disj add.assoc split: nat.split)

lemma coordinates_spec:
  assumes "\<forall>l\<in>set (map decoded_len bs). 0 < l"
  shows "at_pos (map decoded_len bs) b o' p \<Longrightarrow>
    (\<exists>b' o''. visit_all (validate_coordinates_step bs) (b, o') docs = Inr (b', o'') \<and>
       at_pos (map decoded_len bs) b' o'' q) \<longleftrightarrow>
    tiles (map decoded_len bs) p docs \<and> q = p + sum_list (map doc_size docs) \<and> q \<le> sum_list (map decoded_len bs)"
proof (induction docs arbitrary: b o' p)
  case Nil
  let ?lens = "map decoded_len bs"
  have "p \<le> sum_list ?lens"
    using consume_blocks_spec [OF assms Nil, of 0] by (auto simp: consume_blocks.simps split: if_splits)
  moreover have "p = q" if "at_pos ?lens b o' q" using that Nil by (auto simp: at_pos_def)
  ultimately show ?case using Nil by (auto simp: tiles_def)
next
  case (Cons d docs)
  let ?lens = "map decoded_len bs"
  show ?case
  proof (cases "doc_size d = 0")
    case True
    with Cons.IH [OF Cons.prems] show ?thesis
      by (auto simp: tiles_Cons visit_all_Cons validate_coordinates_step_def simp del: visit_all.simps(2))
  next
    case False
    let ?here = "doc_first_block d = b \<and> doc_block_offset d = o'"
    have here: "?here \<longleftrightarrow> at_pos ?lens (doc_first_block d) (doc_block_offset d) p"
      using Cons.prems at_pos_unique by blast
    have step: "validate_coordinates_step bs (b, o') d =
        ensure ?here ''document pack coordinates are not contiguous'' (consume_blocks bs b o' (doc_size d))"
      using False by (simp add: validate_coordinates_step_def)
    show ?thesis
    proof (cases "p + doc_size d \<le> sum_list ?lens")
      case True
      with consume_blocks_spec [OF assms Cons.prems, of "doc_size d"] obtain b1 o1 where
        c: "consume_blocks bs b o' (doc_size d) = Inr (b1, o1)" "at_pos ?lens b1 o1 (p + doc_size d)" by auto
      from Cons.IH [OF c(2)] c(1) False here show ?thesis
        by (auto simp: tiles_Cons visit_all_Cons step add.assoc simp del: visit_all.simps(2))
    next
      case out: False
      with consume_blocks_spec [OF assms Cons.prems, of "doc_size d"] obtain e where
        "consume_blocks bs b o' (doc_size d) = Inl e" by auto
      with out show ?thesis by (auto simp: visit_all_Cons step simp del: visit_all.simps(2))
    qed
  qed
qed

lemma validate_coordinates_iff:
  assumes "\<forall>l\<in>set (map decoded_len (table_blocks t)). 0 < l"
  shows "validate_coordinates t = Inr () \<longleftrightarrow> coordinates_wf (map decoded_len (table_blocks t)) (documents t)"
proof -
  let ?lens = "map decoded_len (table_blocks t)"
  have start: "at_pos ?lens 0 0 0" using assms by (cases "table_blocks t") (auto simp: at_pos_def)
  have stop: "at_pos ?lens b o' (sum_list ?lens) \<longleftrightarrow> b = length (table_blocks t) \<and> o' = 0" for b o'
  proof -
    have "at_pos ?lens (length ?lens) 0 (sum_list ?lens)" by (simp add: at_pos_def)
    with at_pos_unique [of ?lens b o' "sum_list ?lens"] show ?thesis by auto
  qed
  have "validate_coordinates t = Inr () \<longleftrightarrow>
    (\<exists>b o'. visit_all (validate_coordinates_step (table_blocks t)) (0, 0) (documents t) = Inr (b, o') \<and>
       at_pos ?lens b o' (sum_list ?lens))"
    by (auto simp: validate_coordinates_def stop)
  with coordinates_spec [OF assms start] show ?thesis
    by (auto simp: coordinates_wf_def tiles_def)
qed

lemma validate_document_spec:
  "validate_document sid source seen d = Inr seen' \<longleftrightarrow>
     source_id d = sid \<and> key_matches source d \<and> display_key d \<notin> seen \<and> seen' = insert (display_key d) seen"
  by (auto simp: validate_document_def key_matches_def split: option.splits)

lemma validate_documents_spec:
  "visit_all (validate_document sid source) seen ds = Inr seen' \<longleftrightarrow>
     (\<forall>d\<in>set ds. source_id d = sid \<and> key_matches source d) \<and> distinct (map display_key ds) \<and>
     display_key ` set ds \<inter> seen = {} \<and> seen' = seen \<union> display_key ` set ds"
proof (induction ds arbitrary: seen)
  case (Cons d ds)
  show ?case
    by (auto simp: visit_all_Cons Cons.IH validate_document_spec simp del: visit_all.simps(2))
qed auto

lemma source_ok_snoc: "i < length srcs \<Longrightarrow> source_ok docs (srcs @ [x]) i = source_ok docs srcs i"
  by (simp add: source_ok_def nth_append)

lemma validate_sources_loop:
  "visit_all (validate_source docs) (None, {}, 0) (enumerate 0 srcs) = Inr (prev, seen, e) \<Longrightarrow>
   prev = (if srcs = [] then None else Some (source_key (last srcs))) \<and>
   e = sum_list (map doc_count srcs) \<and> e \<le> length docs \<and>
   seen = display_key ` set (take e docs) \<and> distinct (map display_key (take e docs)) \<and>
   ascending (map source_key srcs) \<and> (\<forall>i<length srcs. source_ok docs srcs i)"
proof (induction srcs arbitrary: prev seen e rule: rev_induct)
  case (snoc x srcs)
  let ?own = "sub_slice docs (first_doc x) (first_doc x + doc_count x)"
  from snoc.prems obtain prev0 seen0 e0 where
    old: "visit_all (validate_source docs) (None, {}, 0) (enumerate 0 srcs) = Inr (prev0, seen0, e0)"
    and step: "validate_source docs (prev0, seen0, e0) (length srcs, x) = Inr (prev, seen, e)"
    by (auto simp: enumerate_append_eq visit_all_snoc)
  from snoc.IH [OF old] have IH: "prev0 = (if srcs = [] then None else Some (source_key (last srcs)))"
    "e0 = sum_list (map doc_count srcs)" "seen0 = display_key ` set (take e0 docs)" "distinct (map display_key (take e0 docs))"
    "ascending (map source_key srcs)" "\<forall>i<length srcs. source_ok docs srcs i" by auto
  from step have s: "case prev0 of None \<Rightarrow> True | Some p \<Rightarrow> p < source_key x" "first_doc x = e0"
    "e = e0 + doc_count x" "e \<le> length docs" "failed x \<longrightarrow> doc_count x = 0" "retry x \<longrightarrow> failed x"
    "visit_all (validate_document (length srcs) x) seen0 ?own = Inr seen" "ascending (map display_key ?own)"
    "prev = Some (source_key x)"
    by (auto simp: validate_source_def Let_def)
  have own: "take e docs = take e0 docs @ ?own" using s(2,3) by (simp add: sub_slice_def take_add)
  from s(7) have d: "\<forall>d\<in>set ?own. source_id d = length srcs \<and> key_matches x d" "distinct (map display_key ?own)"
    "display_key ` set ?own \<inter> seen0 = {}" "seen = seen0 \<union> display_key ` set ?own"
    by (auto simp: validate_documents_spec)
  have "source_ok docs (srcs @ [x]) (length srcs)"
    using s d IH(2) by (simp add: source_ok_def Let_def)
  then have "\<forall>i<length (srcs @ [x]). source_ok docs (srcs @ [x]) i"
    using IH(6) by (auto simp: less_Suc_eq source_ok_snoc)
  moreover have "ascending (map source_key (srcs @ [x]))"
  proof -
    have "last (map source_key srcs) < source_key x" if "srcs \<noteq> []" using IH(1) s(1) that by (simp add: last_map)
    moreover have "successively (<) (map source_key srcs)" using IH(5) by simp
    ultimately have "successively (<) (map source_key srcs @ [source_key x])"
      by (auto simp: successively_append_iff simp del: successively_ascending)
    then show ?thesis by simp
  qed
  moreover have "distinct (map display_key (take e docs))" "seen = display_key ` set (take e docs)"
    using d IH(3,4) by (auto simp: own)
  ultimately show ?case using s IH(2) by simp
qed simp

lemma validate_sources_sound: "validate_sources t = Inr () \<Longrightarrow> sources_wf t"
  using validate_sources_loop [of "documents t" "sources t"] by (fastforce simp: validate_sources_def sources_wf_def)

text \<open>In a valid table every document belongs to the source whose range holds it.\<close>

lemma document_owner:
  assumes "sources_wf t" "i < length (sources t)" "first_doc (sources t ! i) \<le> d"
    and "d < first_doc (sources t ! i) + doc_count (sources t ! i)"
  shows "d < length (documents t)" "source_id (documents t ! d) = i"
proof -
  let ?s = "sources t ! i" and ?docs = "documents t"
  from assms(1,2) have ok: "source_ok ?docs (sources t) i" by (simp add: sources_wf_def)
  have "first_doc ?s + doc_count ?s = sum_list (take (Suc i) (map doc_count (sources t)))"
    using ok assms(2) by (simp add: source_ok_def Let_def take_map sum_list_take_Suc [where lens = "map doc_count (sources t)", simplified take_map])
  also have "\<dots> \<le> length ?docs" using sum_list_take_le [of "Suc i" "map doc_count (sources t)"] assms(1) by (simp add: sources_wf_def)
  finally have e: "first_doc ?s + doc_count ?s \<le> length ?docs" .
  with assms(4) show "d < length ?docs" by simp
  have "sub_slice ?docs (first_doc ?s) (first_doc ?s + doc_count ?s) ! (d - first_doc ?s) = ?docs ! d"
    using assms(3,4) e by (simp add: sub_slice_def)
  moreover have "d - first_doc ?s < length (sub_slice ?docs (first_doc ?s) (first_doc ?s + doc_count ?s))"
    using assms(3,4) e by simp
  ultimately have "?docs ! d \<in> set (sub_slice ?docs (first_doc ?s) (first_doc ?s + doc_count ?s))" by (metis nth_mem)
  with ok show "source_id (?docs ! d) = i" by (auto simp: source_ok_def Let_def)
qed

lemma owner_exists:
  assumes "sources_wf t" "d < length (documents t)"
  shows "\<exists>i<length (sources t). first_doc (sources t ! i) \<le> d \<and> d < first_doc (sources t ! i) + doc_count (sources t ! i)"
proof -
  have "\<exists>i<length counts. sum_list (take i counts) \<le> d \<and> d < sum_list (take i counts) + counts ! i"
    if "d < sum_list counts" for counts :: "nat list"
    using that
  proof (induction counts rule: rev_induct)
    case (snoc c counts)
    then show ?case
    proof (cases "d < sum_list counts")
      case True
      with snoc.IH obtain i where "i < length counts" "sum_list (take i counts) \<le> d" "d < sum_list (take i counts) + counts ! i"
        by blast
      then show ?thesis by (intro exI [of _ i]) (simp add: nth_append)
    next
      case False
      with snoc.prems show ?thesis by (intro exI [of _ "length counts"]) (simp add: nth_append)
    qed
  qed simp
  from this [of "map doc_count (sources t)"] assms obtain i where
    i: "i < length (sources t)" "sum_list (take i (map doc_count (sources t))) \<le> d"
      "d < sum_list (take i (map doc_count (sources t))) + doc_count (sources t ! i)"
    by (auto simp: sources_wf_def)
  moreover from i(1) assms(1) have "first_doc (sources t ! i) = sum_list (take i (map doc_count (sources t)))"
    by (simp add: sources_wf_def source_ok_def Let_def take_map)
  ultimately show ?thesis by auto
qed

section \<open>Dead sets\<close>

lemma visit_all_unit:
  "visit_all (\<lambda>_ x. f x) () xs = Inr () \<longleftrightarrow> (\<forall>x\<in>set xs. f x = Inr ())"
proof (induction xs)
  case (Cons x xs)
  then show ?case by (cases "f x") auto
qed simp

lemma validate_dead_spec:
  "validate_dead dead t = Inr () \<longleftrightarrow>
     (dead_sources dead = [] \<or> last (dead_sources dead) < length (sources t)) \<and>
     (dead_documents dead = [] \<or> last (dead_documents dead) < length (documents t)) \<and>
     (\<forall>s\<in>set (dead_sources dead). s < length (sources t) \<and>
        first_doc (sources t ! s) + doc_count (sources t ! s) < 2 ^ 32 \<and>
        {first_doc (sources t ! s)..<first_doc (sources t ! s) + doc_count (sources t ! s)} \<subseteq> set (dead_documents dead)) \<and>
     (\<forall>d\<in>set (dead_documents dead). d < length (documents t) \<and> source_id (documents t ! d) \<in> set (dead_sources dead))"
  by (auto simp: validate_dead_def visit_all_unit list_all_iff subset_iff)

lemma visit_all_no_panic:
  "(\<And>x. x \<in> set xs \<Longrightarrow> f x \<noteq> Inl Panic) \<Longrightarrow> visit_all (\<lambda>_ x. f x) () xs \<noteq> Inl Panic"
proof (induction xs)
  case (Cons x xs)
  then show ?case by (cases "f x") auto
qed simp

lemma ascending_last_bound: "ascending xs \<Longrightarrow> xs = [] \<or> last xs < n \<Longrightarrow> x \<in> set xs \<Longrightarrow> x < n" for n :: nat
  using ascending_last by fastforce

section \<open>Properties\<close>

text \<open>
  C34: A table that passes \<open>validate\<close> is well formed. The sources are strictly sorted and their ranges cut the
  documents without gap or overlap; each document names its source and carries the
  display key derived from it; display keys are unique; the blocks lie one behind the other
  in consecutive packs; the documents tile the decoded bytes of the blocks exactly.
\<close>

theorem validated_tables_are_well_formed:
  assumes "validate t = Inr ()"
  shows "sources_wf t \<and> blocks_wf (table_blocks t) \<and> coordinates_wf (map decoded_len (table_blocks t)) (documents t)"
proof -
  from assms have 1: "validate_sources t = Inr ()" "validate_blocks (table_blocks t) = Inr ()" "validate_coordinates t = Inr ()"
    by (auto simp: validate_def)
  then have bw: "blocks_wf (table_blocks t)" by (simp add: validate_blocks_iff)
  then have "\<forall>l\<in>set (map decoded_len (table_blocks t)). 0 < l" by (auto simp: blocks_wf_def list_all_iff block_fits_def)
  with 1 bw validate_sources_sound validate_coordinates_iff show ?thesis by blast
qed

definition sample_tables :: segment_tables where
  "sample_tables = \<lparr>
     sources = [\<lparr>source_key = ''a'', version = ''1'', encoded_size = 3, encoding = Raw, first_doc = 0, doc_count = 1,
         failed = False, retry = False\<rparr>,
       \<lparr>source_key = ''b'', version = ''1'', encoded_size = 9, encoding = Zip, first_doc = 1, doc_count = 1,
         failed = False, retry = False\<rparr>],
     documents = [\<lparr>display_key = ''a'', source_id = 0, member_path = None, doc_size = 3, doc_first_block = 0,
         doc_block_offset = 0, max_line_len = 3, block_newlines = [0]\<rparr>,
       \<lparr>display_key = ''b!/m'', source_id = 1, member_path = Some ''m'', doc_size = 1, doc_first_block = 1,
         doc_block_offset = 1, max_line_len = 1, block_newlines = [0]\<rparr>],
     table_blocks = built_blocks sample_out\<rparr>"

lemma sample_tables_valid: "validate sample_tables = Inr ()"
  by (simp add: sample_tables_def sample_out_def validate_def validate_sources_def validate_source_def
      validate_document_def validate_blocks_def validate_block_def validate_coordinates_def Let_def
      validate_coordinates_step_def consume_blocks.simps get_def add_u64_def checked_sub_def
      sub_slice_def enumerate_eq_zip PACK_BLOCK_BYTES_def)

theorem validated_tables_are_well_formed_witness:
  "validate sample_tables = Inr () \<and> sources_wf sample_tables"
  using validated_tables_are_well_formed [OF sample_tables_valid] sample_tables_valid by blast

lemma document_spans:
  assumes "validate t = Inr ()" "d < length (documents t)"
  shows "\<exists>i e. block_span \<lparr>first_block = doc_first_block (documents t ! d), block_offset = doc_block_offset (documents t ! d)\<rparr>
      (doc_size (documents t ! d)) (table_blocks t) = Inr (i, e) \<and> i \<le> e \<and> e \<le> length (table_blocks t)"
proof -
  let ?doc = "documents t ! d" and ?bs = "table_blocks t"
  let ?lens = "map decoded_len ?bs" and ?p = "sum_list (map doc_size (take d (documents t)))"
  from assms(1) have bw: "blocks_wf ?bs" by (auto simp: validate_def validate_blocks_iff)
  then have pos: "\<forall>l\<in>set ?lens. 0 < l" by (auto simp: blocks_wf_def list_all_iff block_fits_def)
  with assms(1) have cw: "coordinates_wf ?lens (documents t)"
    using validate_coordinates_iff by (auto simp: validate_def)
  show ?thesis
  proof (cases "doc_size ?doc = 0")
    case True
    with cw assms(2) show ?thesis by (auto simp: coordinates_wf_def block_span_def split: if_splits)
  next
    case False
    with cw assms(2) have at: "at_pos ?lens (doc_first_block ?doc) (doc_block_offset ?doc) ?p"
      by (auto simp: coordinates_wf_def split: if_splits)
    define ds where "ds = map (\<lambda>b. replicate (decoded_len b) (0 :: u8)) ?bs"
    have sz: "sized ?bs ds" by (simp add: sized_def ds_def list_all2_map2 list_all2_same)
    have ne: "\<forall>x\<in>set ds. x \<noteq> []" using pos by (auto simp: ds_def)
    have len: "length (concat (drop k ds)) = sum_list (drop k ?lens)" for k
      by (simp add: ds_def drop_map length_concat o_def)
    have "?p + doc_size ?doc \<le> sum_list ?lens"
      using cw assms(2) sum_list_take_le [of "Suc d" "map doc_size (documents t)"]
      by (simp add: coordinates_wf_def sum_list_take_Suc take_map) (simp add: take_Suc_conv_app_nth)
    moreover have "sum_list ?lens = sum_list (take (doc_first_block ?doc) ?lens) + sum_list (drop (doc_first_block ?doc) ?lens)"
      by (metis append_take_drop_id sum_list_append)
    ultimately have fit: "doc_size ?doc \<le> length (concat (drop (doc_first_block ?doc) ds)) - doc_block_offset ?doc"
      using at [unfolded at_pos_def, THEN conjunct1] unfolding len by linarith
    have inside: "doc_first_block ?doc < length ds \<and> doc_block_offset ?doc < length (ds ! doc_first_block ?doc)"
      using at fit False by (auto simp: at_pos_def ds_def)
    from span_loop_total [OF sz ne inside fit] obtain e where
      e: "span_loop ?bs (doc_first_block ?doc) (doc_block_offset ?doc) (doc_size ?doc) = Inr e" by blast
    with span_loop_ge [OF e] False show ?thesis by (auto simp: block_span_def)
  qed
qed

text \<open>
  C36: Every document of a validated table has a span of blocks: the walk over the blocks that every
  read starts with succeeds, inside the block table, for each document.
\<close>

theorem validated_documents_have_spans:
  assumes "validate t = Inr ()" "d < length (documents t)"
  shows "\<exists>i e. block_span \<lparr>first_block = doc_first_block (documents t ! d), block_offset = doc_block_offset (documents t ! d)\<rparr>
      (doc_size (documents t ! d)) (table_blocks t) = Inr (i, e) \<and> i \<le> e \<and> e \<le> length (table_blocks t)"
  by (rule document_spans [OF assms])

theorem validated_documents_have_spans_witness:
  "\<exists>i e. block_span \<lparr>first_block = 1, block_offset = 1\<rparr> 1 (table_blocks sample_tables) = Inr (i, e) \<and> e \<le> 2"
proof -
  have d: "1 < length (documents sample_tables)" "documents sample_tables ! 1 = \<lparr>display_key = ''b!/m'', source_id = 1,
      member_path = Some ''m'', doc_size = 1, doc_first_block = 1, doc_block_offset = 1, max_line_len = 1, block_newlines = [0]\<rparr>"
    "length (table_blocks sample_tables) = 2"
    by (simp_all add: sample_tables_def sample_out_def)
  from validated_documents_have_spans [OF sample_tables_valid d(1), unfolded d(2,3)] show ?thesis by auto
qed

text \<open>
  C37: Dead documents are whole sources. For a validated table, a dead set that parsed and passed
  validation kills a document exactly when it kills the document's source; a parsed dead
  set never makes the validation panic on an index out of range.
\<close>

theorem dead_documents_are_whole_sources:
  assumes "validate t = Inr ()" "parse_dead from_bytes bs = Inr dead"
  shows "validate_dead dead t \<noteq> Inl Panic \<and>
     (validate_dead dead t = Inr () \<longrightarrow>
      (\<forall>d<length (documents t). d \<in> set (dead_documents dead) \<longleftrightarrow> source_id (documents t ! d) \<in> set (dead_sources dead)))"
proof
  from assms(2) have asc: "ascending (dead_sources dead)" "ascending (dead_documents dead)" by (auto simp: parse_dead_def)
  show "validate_dead dead t \<noteq> Inl Panic"
  proof -
    have "x < length (sources t)" if "dead_sources dead = [] \<or> last (dead_sources dead) < length (sources t)" "x \<in> set (dead_sources dead)" for x
      using ascending_last_bound [OF asc(1)] that by blast
    moreover have "x < length (documents t)" if "dead_documents dead = [] \<or> last (dead_documents dead) < length (documents t)" "x \<in> set (dead_documents dead)" for x
      using ascending_last_bound [OF asc(2)] that by blast
    ultimately show ?thesis
      by (auto simp: validate_dead_def get_def split: if_splits dest!: visit_all_no_panic [THEN notE, rotated])
  qed
  show "validate_dead dead t = Inr () \<longrightarrow>
      (\<forall>d<length (documents t). d \<in> set (dead_documents dead) \<longleftrightarrow> source_id (documents t ! d) \<in> set (dead_sources dead))"
  proof (intro impI allI)
    fix d assume v: "validate_dead dead t = Inr ()" and d: "d < length (documents t)"
    from assms(1) have wf: "sources_wf t" using validate_sources_sound by (auto simp: validate_def)
    from owner_exists [OF wf d] obtain i where i: "i < length (sources t)" "first_doc (sources t ! i) \<le> d"
      "d < first_doc (sources t ! i) + doc_count (sources t ! i)" by blast
    from document_owner(2) [OF wf i] have own: "source_id (documents t ! d) = i" .
    have "d \<in> set (dead_documents dead)" if "i \<in> set (dead_sources dead)"
      using v i that unfolding validate_dead_spec by (meson atLeastLessThan_iff subsetD)
    moreover have "i \<in> set (dead_sources dead)" if "d \<in> set (dead_documents dead)"
      using v own that unfolding validate_dead_spec by blast
    ultimately show "d \<in> set (dead_documents dead) \<longleftrightarrow> source_id (documents t ! d) \<in> set (dead_sources dead)"
      using own by blast
  qed
qed

theorem dead_documents_are_whole_sources_witness:
  "validate_dead \<lparr>dead_sources = [1], dead_documents = [1]\<rparr> sample_tables = Inr () \<and>
   validate_dead \<lparr>dead_sources = [1], dead_documents = [1]\<rparr> sample_tables \<noteq> Inl Panic"
proof -
  let ?dead = "\<lparr>dead_sources = [1], dead_documents = [1]\<rparr> :: dead_set"
  have "parse_dead (\<lambda>_. Some ?dead) [] = Inr ?dead" by (simp add: parse_dead_def)
  from dead_documents_are_whole_sources [OF sample_tables_valid this] show ?thesis
    by (auto simp: validate_dead_spec sample_tables_def)
qed

lemma laid_out_follows: "laid_out bs \<Longrightarrow> \<forall>b\<in>set bs. pack b < 2 ^ 32 \<Longrightarrow> successively follows bs"
  by (auto simp: laid_out_def chained_def follows_def successively_conv_nth) (metis One_nat_def Suc_eq_plus1 mod_less nth_mem)+

lemma built_blocks_wf:
  assumes "zstd_laws X" "holds_blocks X out ds" "\<forall>d\<in>set ds. length d \<le> PACK_BLOCK_BYTES"
  shows "blocks_wf (built_blocks out)" "map decoded_len (built_blocks out) = map length ds"
proof -
  let ?bs = "built_blocks out"
  have st: "list_all2 (stored X (map content (built_files out))) ?bs ds" using assms(2) by (simp add: holds_blocks_def)
  have fits: "block_fits bl" if "stored X fs bl d" "d \<in> set ds" for fs bl d
  proof -
    from that(1) obtain c where "compress X d = Inr c" "length c = compressed_len bl"
      by (auto simp: stored_def Let_def)
    with assms(1) have "c \<noteq> []" "length c = compressed_len bl" by (auto simp: zstd_laws_def)
    then have "0 < compressed_len bl" by (metis length_greater_0_conv)
    with that assms(3) show ?thesis by (auto simp: block_fits_def stored_def)
  qed
  have "list_all block_fits ?bs"
    using st fits by (fastforce simp: list_all_length list_all2_conv_all_nth)
  moreover have "\<forall>b\<in>set ?bs. pack b < 2 ^ 32"
    using st by (auto simp: list_all2_conv_all_nth in_set_conv_nth stored_def)
  moreover have lo: "laid_out ?bs" using assms(2) by (simp add: holds_blocks_def)
  ultimately show "blocks_wf ?bs" using laid_out_follows by (auto simp: blocks_wf_def laid_out_def)
  show "map decoded_len ?bs = map length ds"
    using st by (auto simp: list_all2_conv_all_nth stored_def intro!: nth_equalityI)
qed

text \<open>
  C35: What the pack builder writes validates. The block table of a finished builder, with one document
  entry per appended document at the returned coordinates, passes the block check and the
  coordinate check, for every block size up to \<open>PACK_BLOCK_BYTES\<close> and every pack size.
\<close>

theorem packed_tables_validate:
  assumes "zstd_laws X" "bb \<le> PACK_BLOCK_BYTES"
    and "new_builder bb pb = Inr b" "append_all X b docs = Inr (slices, b')" "finish_builder X b' = Inr out"
    and "table_blocks t = built_blocks out"
    and "map (\<lambda>e. (doc_first_block e, doc_block_offset e)) (documents t) = map (\<lambda>s. (first_block s, block_offset s)) slices"
    and "map doc_size (documents t) = map length docs"
  shows "validate_blocks (table_blocks t) = Inr () \<and> validate_coordinates t = Inr ()"
proof -
  from build_packs_holds [OF assms(3-5)] obtain ds where
    ds: "holds_blocks X out ds" "concat ds = concat docs" "list_all2 (located ds) slices docs"
      "\<forall>d\<in>set ds. 0 < length d \<and> length d \<le> bb" "positioned ds 0 slices docs"
    by blast
  have wf: "blocks_wf (table_blocks t)" and lens: "map decoded_len (table_blocks t) = map length ds"
  proof -
    have "\<forall>d\<in>set ds. length d \<le> PACK_BLOCK_BYTES" using ds(4) assms(2) by auto
    from built_blocks_wf [OF assms(1) ds(1) this] show "blocks_wf (table_blocks t)"
      "map decoded_len (table_blocks t) = map length ds" by (simp_all add: assms(6))
  qed
  have n: "length (documents t) = length docs" "length slices = length docs"
    using assms(8) ds(3) by (auto dest: map_eq_imp_length_eq list_all2_lengthD)
  have doc: "doc_first_block (documents t ! i) = first_block (slices ! i)"
    "doc_block_offset (documents t ! i) = block_offset (slices ! i)" "doc_size (documents t ! i) = length (docs ! i)"
    if "i < length docs" for i
    using that n assms(7,8) by (auto simp: list_eq_iff_nth_eq)
  have "sum_list (map doc_size (documents t)) = sum_list (map length ds)"
    using assms(8) ds(2) by (metis length_concat)
  moreover have "if doc_size (documents t ! i) = 0
      then doc_first_block (documents t ! i) = 0 \<and> doc_block_offset (documents t ! i) = 0
      else at_pos (map length ds) (doc_first_block (documents t ! i)) (doc_block_offset (documents t ! i))
             (sum_list (map doc_size (take i (documents t))))"
    if i: "i < length docs" for i
  proof -
    have loc: "located ds (slices ! i) (docs ! i)" using ds(3) i by (simp add: list_all2_conv_all_nth)
    have "sum_list (map doc_size (take i (documents t))) = length (concat (take i docs))"
      using assms(8) by (simp add: length_concat take_map [symmetric])
    moreover have "stream_pos ds (slices ! i) = length (concat (take i docs))" if "docs ! i \<noteq> []"
      using ds(5) i that by (simp add: positioned_def)
    ultimately show ?thesis
      using loc doc [OF i] by (auto simp: located_def at_pos_def stream_pos_def length_concat take_map split: if_splits)
  qed
  ultimately have "coordinates_wf (map decoded_len (table_blocks t)) (documents t)"
    using n lens by (simp add: coordinates_wf_def)
  moreover have "\<forall>l\<in>set (map decoded_len (table_blocks t)). 0 < l" using lens ds(4) by simp
  ultimately show ?thesis using wf validate_blocks_iff validate_coordinates_iff by blast
qed

theorem packed_tables_validate_witness:
  "validate_blocks (table_blocks sample_tables) = Inr () \<and> validate_coordinates sample_tables = Inr ()"
proof -
  let ?b = "\<lparr>block_bytes = 2, pack_bytes = 100, open_block = [], blocks = [], packs = [], active = None\<rparr>"
  let ?sls = "[\<lparr>first_block = 0, block_offset = 0\<rparr>, \<lparr>first_block = 1, block_offset = 1\<rparr>]"
  have nb: "new_builder 2 100 = Inr ?b" by (simp add: new_builder_def)
  have "\<exists>b'. append_all sample_zstd ?b [[7, 8, 9], [5]] = Inr (?sls, b') \<and> finish_builder sample_zstd b' = Inr sample_out"
    by (simp add: run_builder sample_out_def hex_def hex_digit_def)
  then obtain b' where ap: "append_all sample_zstd ?b [[7, 8, 9], [5]] = Inr (?sls, b')"
    "finish_builder sample_zstd b' = Inr sample_out" by blast
  show ?thesis
    by (rule packed_tables_validate [OF sample_laws(1) _ nb ap])
      (simp_all add: PACK_BLOCK_BYTES_def sample_tables_def)
qed

end
