(* ===== verification/Candidates.thy ===== *)
theory Candidates
  imports Posting_Eval Segment_Tables "HOL-Library.Product_Lexorder"
begin

text \<open>
  Candidate selection, \<open>crates/index/src/candidate.rs\<close>: the numbering of candidate blocks across the documents
  of a segment, the expansion of a hit by the slack a match may span, the evaluation of a batch of
  plans over one fetch, and the grouping of selected blocks into ranges per document. Block ids and
  counts are natural numbers here, with the \<open>u32\<close> conversions and saturations of the code
  written out; the evaluator's ids are words, converted where the closure of the code does.
\<close>

section \<open>Definitions\<close>

datatype search_extent = EBytes nat | ELines | EDocument

record candidate_range =
  range_start :: nat
  range_end :: nat
  range_extent :: search_extent

record candidate_plan =
  plan_query :: query
  plan_extent :: search_extent

record batch_limits =
  limit_documents :: nat
  limit_bytes :: nat

definition validate_candidate_plans :: "candidate_plan list \<Rightarrow> batch_limits \<Rightarrow> unit result" where
  "validate_candidate_plans plans limits =
     ensure (plans \<noteq> []) ''candidate plans must not be empty''
     (ensure (limit_documents limits > 0) ''candidate document batch limit must be positive''
     (ensure (limit_bytes limits > 0) ''candidate decoded-byte batch limit must be positive''
     (ensure (list_all (\<lambda>plan. plan_extent plan \<noteq> EBytes 0) plans) ''candidate byte span must be positive''
     (Inr ()))))"

type_synonym block_lists = "u64 \<rightharpoonup> doc_id list"

definition visit_selection ::
    "block_lists \<Rightarrow> (nat \<Rightarrow> doc_id \<Rightarrow> doc_id \<times> doc_id) \<Rightarrow> ('s \<Rightarrow> nat \<Rightarrow> selection \<Rightarrow> 's result) \<Rightarrow>
     's \<Rightarrow> nat \<times> resolved \<Rightarrow> 's result" where
  "visit_selection bl expand visit s = (\<lambda>(i, q). and_then (eval bl (Some (expand i)) q) (\<lambda>sel. visit s i sel))"

definition visit_candidate_selections ::
    "candidate_plan list \<Rightarrow> u32 \<Rightarrow> strategy \<Rightarrow> lookup \<Rightarrow> (nat \<Rightarrow> doc_id \<Rightarrow> doc_id \<times> doc_id) \<Rightarrow>
     ((u64 \<rightharpoonup> u32 \<times> u64) \<Rightarrow> block_lists result) \<Rightarrow> ('s \<Rightarrow> nat \<Rightarrow> selection \<Rightarrow> 's result) \<Rightarrow> 's \<Rightarrow> 's result" where
  "visit_candidate_selections plans n strat lookup expand fetch_blocks visit s =
     (case plans of
        [plan] \<Rightarrow>
          and_then (resolve n strat lookup (plan_query plan)) (\<lambda>q.
          and_then (fetch_blocks (blocks_needed q Map.empty)) (\<lambda>bl.
          and_then (eval bl (Some (expand 0)) q) (\<lambda>sel. visit s 0 sel)))
      | _ \<Rightarrow>
          and_then (bind_queries (map plan_query plans) n strat lookup) (\<lambda>bound.
          and_then (fetch_blocks (fold blocks_needed bound Map.empty)) (\<lambda>bl.
            visit_all (visit_selection bl expand visit) s (enumerate 0 bound))))"

definition build_block_bases :: "segment_tables \<Rightarrow> nat list result" where
  "build_block_bases t =
     and_then (visit_all (\<lambda>(bases, nxt) document.
         and_then (try_u32 (div_ceil (doc_size document) CANDIDATE_BLOCK_BYTES)) (\<lambda>n.
         and_then (context_of (add_u32 nxt n) ''segment candidate block count overflows u32'') (\<lambda>nxt'.
           Inr (bases @ [nxt'], nxt'))))
       ([0], 0) (documents t))
     (\<lambda>(bases, _). Inr bases)"

definition get_block_document :: "nat \<Rightarrow> nat list \<Rightarrow> nat" where
  "get_block_document i bases = length (takeWhile (\<lambda>base. base \<le> i) bases) - 1"

definition u32_limit :: nat where "u32_limit = 2 ^ 32 - 1"

text \<open>The slack of a hit in blocks, from the extent and the longest line of the document.\<close>

definition block_slack :: "search_extent \<Rightarrow> nat \<Rightarrow> nat \<Rightarrow> nat \<Rightarrow> nat" where
  "block_slack extent max_line start e =
     (case extent of
        EBytes span \<Rightarrow> min (1 + (span - 1) div CANDIDATE_BLOCK_BYTES) u32_limit
      | ELines \<Rightarrow> if max_line = u32_limit then e - start + 1 else 1 + max_line div CANDIDATE_BLOCK_BYTES
      | EDocument \<Rightarrow> 0)"

definition expand_candidate_block ::
    "nat \<Rightarrow> nat list \<Rightarrow> segment_tables \<Rightarrow> search_extent \<Rightarrow> (nat \<times> nat) result" where
  "expand_candidate_block i bases t extent =
     (let document = get_block_document i bases
      in and_then (or_panic (get bases document)) (\<lambda>start.
         and_then (or_panic (get bases (document + 1))) (\<lambda>next_base.
         let e = next_base - 1
         in if extent = EDocument then Inr (start, e)
            else and_then (or_panic (get (documents t) document)) (\<lambda>entry.
              let slack = block_slack extent (max_line_len entry) start e
              in Inr (max (i - slack) start, min (min (i + slack) u32_limit) e)))))"

text \<open>
  The closure handed to the evaluator. An id outside the segment would panic in the code; the evaluator only expands ids of posting
  lists, which are below the block count, and there the closure is exact (\<open>expand_closure_exact\<close>).
\<close>

definition expand_closure :: "nat list \<Rightarrow> segment_tables \<Rightarrow> search_extent \<Rightarrow> doc_id \<Rightarrow> doc_id \<times> doc_id" where
  "expand_closure bases t extent i =
     (case expand_candidate_block (unat i) bases t extent of
        Inr (a, b) \<Rightarrow> (of_nat a, of_nat b)
      | Inl _ \<Rightarrow> (i, i))"

definition group_step ::
    "nat list \<Rightarrow> search_extent \<Rightarrow> (nat \<times> candidate_range list) list \<Rightarrow> nat \<Rightarrow> (nat \<times> candidate_range list) list result" where
  "group_step bases extent groups i =
     ensure (i < (if bases = [] then 0 else last bases)) ''candidate block is outside the segment''
     (let document = get_block_document i bases
      in and_then (try_u32 document) (\<lambda>document.
         and_then (or_panic (get bases document)) (\<lambda>base.
         let local = i - base; fresh = \<lparr>range_start = local, range_end = local + 1, range_extent = extent\<rparr>
         in if groups = [] \<or> fst (last groups) \<noteq> document
            then Inr (groups @ [(document, [fresh])])
            else let ranges = snd (last groups); r = last ranges
                 in if range_end r = local
                    then Inr (butlast groups @ [(document, butlast ranges @ [r\<lparr>range_end := range_end r + 1\<rparr>])])
                    else Inr (butlast groups @ [(document, ranges @ [fresh])]))))"

definition group_candidate_blocks ::
    "nat list \<Rightarrow> nat list \<Rightarrow> search_extent \<Rightarrow> (nat \<times> candidate_range list) list result" where
  "group_candidate_blocks ids bases extent =
     ensure (extent \<noteq> EDocument) ''document extent cannot be stored as a candidate range''
     (visit_all (group_step bases extent) [] ids)"

fun pick_broader_extent :: "search_extent \<Rightarrow> search_extent \<Rightarrow> search_extent" where
  "pick_broader_extent (EBytes l) (EBytes r) = EBytes (max l r)"
| "pick_broader_extent l r = (if l = EDocument \<or> r = EDocument then EDocument else ELines)"

definition merge_step :: "candidate_range list \<Rightarrow> candidate_range \<Rightarrow> candidate_range list" where
  "merge_step merged r =
     (if merged = [] then [r]
      else let p = last merged;
               overlaps = range_start r < range_end p;
               joins = (range_start r = range_end p \<and> range_extent r = range_extent p)
           in if overlaps \<or> joins
              then butlast merged @ [p\<lparr>range_end := max (range_end p) (range_end r),
                     range_extent := if overlaps then pick_broader_extent (range_extent p) (range_extent r)
                                     else range_extent p\<rparr>]
              else merged @ [r])"

definition merge_candidate_ranges :: "candidate_range list \<Rightarrow> candidate_range list \<Rightarrow> candidate_range list" where
  "merge_candidate_ranges current incoming =
     foldl merge_step [] (sort_key (\<lambda>r. (range_start r, range_end r)) (current @ incoming))"

definition candidate_documents ::
    "selection \<Rightarrow> search_extent \<Rightarrow> strategy \<Rightarrow> nat \<Rightarrow> nat list option \<Rightarrow> (nat \<times> candidate_range list option) list result" where
  "candidate_documents sel extent strat document_count block_bases =
     (case sel of
        SAll \<Rightarrow> Inr (map (\<lambda>d. (d, None)) [0..<document_count])
      | SIds ids \<Rightarrow>
          if strat = Sparse
          then visit_all (\<lambda>out d. ensure (unat d < document_count) ''candidate document is outside the segment''
                 (Inr (out @ [(unat d, None)]))) [] ids
          else and_then (context_of block_bases ''trigram candidate block bases are missing'') (\<lambda>bases.
            if extent = EDocument
            then and_then (visit_all (\<lambda>out i.
                     ensure (unat i < (if bases = [] then 0 else last bases)) ''candidate block is outside the segment''
                     (and_then (try_u32 (get_block_document (unat i) bases)) (\<lambda>d. Inr (out @ [(d, None)])))) [] ids)
                   (\<lambda>ds. Inr (remdups_adj ds))
            else and_then (group_candidate_blocks (map unat ids) bases extent) (\<lambda>groups.
                   Inr (map (\<lambda>(d, ranges). (d, Some ranges)) groups))))"

definition add_document ::
    "(nat \<rightharpoonup> candidate_range list option) \<Rightarrow> nat \<times> candidate_range list option \<Rightarrow> (nat \<rightharpoonup> candidate_range list option)" where
  "add_document m = (\<lambda>(d, ranges).
     case ranges of
       None \<Rightarrow> m(d \<mapsto> None)
     | Some rs \<Rightarrow>
         (case (case m d of None \<Rightarrow> Some [] | Some current \<Rightarrow> current) of
            None \<Rightarrow> m
          | Some current \<Rightarrow> m(d \<mapsto> Some (merge_candidate_ranges current rs))))"

definition add_candidate_selection ::
    "(nat \<rightharpoonup> candidate_range list option) \<Rightarrow> selection \<Rightarrow> search_extent \<Rightarrow> strategy \<Rightarrow> nat \<Rightarrow> nat list option \<Rightarrow>
     (nat \<rightharpoonup> candidate_range list option) result" where
  "add_candidate_selection m sel extent strat document_count block_bases =
     and_then (candidate_documents sel extent strat document_count block_bases) (\<lambda>ds. Inr (foldl add_document m ds))"

section \<open>Block numbering\<close>

definition block_counts :: "segment_tables \<Rightarrow> nat list" where
  "block_counts t = map (\<lambda>d. div_ceil (doc_size d) CANDIDATE_BLOCK_BYTES) (documents t)"

lemma build_block_bases_spec:
  assumes "build_block_bases t = Inr bases"
  shows "bases = map (\<lambda>k. sum_list (take k (block_counts t))) [0..<Suc (length (documents t))]" and "last bases < 2 ^ 32"
proof -
  let ?step = "\<lambda>(bases, nxt) document.
         and_then (try_u32 (div_ceil (doc_size document) CANDIDATE_BLOCK_BYTES)) (\<lambda>n.
         and_then (context_of (add_u32 nxt n) ''segment candidate block count overflows u32'') (\<lambda>nxt'.
           Inr (bases @ [nxt'], nxt')))"
  let ?counts = "map (\<lambda>d. div_ceil (doc_size d) CANDIDATE_BLOCK_BYTES)"
  have loop: "visit_all ?step ([0], 0) docs = Inr (bs, nxt) \<Longrightarrow>
      bs = map (\<lambda>k. sum_list (take k (?counts docs))) [0..<Suc (length docs)] \<and> nxt = sum_list (?counts docs) \<and> nxt < 2 ^ 32"
    for docs bs nxt
  proof (induction docs arbitrary: bs nxt rule: rev_induct)
    case (snoc d docs)
    then obtain bs0 nxt0 where "visit_all ?step ([0], 0) docs = Inr (bs0, nxt0)"
      "?step (bs0, nxt0) d = Inr (bs, nxt)" by (auto simp: visit_all_snoc)
    with snoc.IH show ?case by fastforce
  qed simp
  from assms obtain nxt where v: "visit_all ?step ([0], 0) (documents t) = Inr (bases, nxt)"
    by (auto simp: build_block_bases_def)
  from loop [OF v] show b: "bases = map (\<lambda>k. sum_list (take k (block_counts t))) [0..<Suc (length (documents t))]"
    by (simp add: block_counts_def)
  have "last bases = sum_list (block_counts t)" by (simp add: b block_counts_def)
  with loop [OF v] show "last bases < 2 ^ 32" by (simp add: block_counts_def)
qed

lemma length_takeWhile_sorted:
  assumes "sorted xs" "xs ! d \<le> i" "i < xs ! Suc d" "Suc d < length xs"
  shows "length (takeWhile (\<lambda>x. x \<le> i) xs) = Suc d"
proof -
  have "length (takeWhile (\<lambda>x. x \<le> i) xs) \<le> Suc d"
  proof (rule ccontr)
    assume "\<not> length (takeWhile (\<lambda>x. x \<le> i) xs) \<le> Suc d"
    then have "Suc d < length (takeWhile (\<lambda>x. x \<le> i) xs)" by simp
    from nth_length_takeWhile this have "xs ! Suc d \<le> i"
      by (metis nth_mem set_takeWhileD takeWhile_nth)
    with assms(3) show False by simp
  qed
  moreover have "Suc d \<le> length (takeWhile (\<lambda>x. x \<le> i) xs)"
  proof (rule ccontr)
    assume "\<not> Suc d \<le> length (takeWhile (\<lambda>x. x \<le> i) xs)"
    then have lt: "length (takeWhile (\<lambda>x. x \<le> i) xs) \<le> d" by simp
    then have "\<not> xs ! length (takeWhile (\<lambda>x. x \<le> i) xs) \<le> i"
      by (intro nth_length_takeWhile) (use assms(4) in linarith)
    moreover have "xs ! length (takeWhile (\<lambda>x. x \<le> i) xs) \<le> xs ! d"
      using assms(1,4) lt by (simp add: sorted_nth_mono)
    ultimately show False using assms(2) by simp
  qed
  ultimately show ?thesis by simp
qed

lemma get_block_document_eq:
  "sorted bases \<Longrightarrow> bases ! d \<le> i \<Longrightarrow> i < bases ! Suc d \<Longrightarrow> Suc d < length bases \<Longrightarrow> get_block_document i bases = d"
  by (simp add: get_block_document_def length_takeWhile_sorted)

lemma block_document_exists:
  "sorted bases \<Longrightarrow> bases \<noteq> [] \<Longrightarrow> bases ! 0 \<le> i \<Longrightarrow> i < last bases \<Longrightarrow>
   \<exists>d. Suc d < length bases \<and> bases ! d \<le> i \<and> i < bases ! Suc d" for bases :: "nat list"
proof (induction bases rule: rev_induct)
  case (snoc x bases)
  show ?case
  proof (cases "bases \<noteq> [] \<and> i < last bases")
    case True
    moreover have "sorted bases" "bases ! 0 \<le> i" using True snoc.prems by (auto simp: sorted_append nth_append)
    ultimately obtain d where "Suc d < length bases" "bases ! d \<le> i" "i < bases ! Suc d"
      using snoc.IH by blast
    then show ?thesis by (intro exI [of _ d]) (simp add: nth_append)
  next
    case False
    have "bases \<noteq> []" using snoc.prems(3,4) by auto
    with False have ne: "bases \<noteq> []" "last bases \<le> i" by auto
    then obtain n where n: "length bases = Suc n" by (cases bases) auto
    with ne have "bases ! n \<le> i" by (simp add: last_conv_nth)
    with n snoc.prems(4) show ?thesis by (intro exI [of _ n]) (simp add: nth_append)
  qed
qed simp

lemma sorted_sums: "sorted (map (\<lambda>k. sum_list (take k counts)) [0..<Suc n])" for counts :: "nat list"
proof -
  have "sum_list (take i counts) \<le> sum_list (take j counts)" if "i \<le> j" for i j
    using sum_list_take_le [of i "take j counts"] that by (simp add: min_def)
  then show ?thesis by (auto simp: sorted_iff_nth_mono nth_append simp del: upt_Suc)
qed

lemma block_bases_facts:
  assumes "build_block_bases t = Inr bases"
  shows "sorted bases" "length bases = Suc (length (documents t))" "bases ! 0 = 0" "last bases < 2 ^ 32" "bases \<noteq> []"
    and "d < length (documents t) \<Longrightarrow>
      bases ! Suc d = bases ! d + div_ceil (doc_size (documents t ! d)) CANDIDATE_BLOCK_BYTES"
proof -
  note b = build_block_bases_spec [OF assms]
  show "sorted bases" unfolding b(1) by (rule sorted_sums)
  show l: "length bases = Suc (length (documents t))" by (simp add: b(1))
  show "bases ! 0 = 0" by (simp add: b(1) nth_append del: upt_Suc)
  show "last bases < 2 ^ 32" by (rule b(2))
  show "bases \<noteq> []" using l by auto
  show "bases ! Suc d = bases ! d + div_ceil (doc_size (documents t ! d)) CANDIDATE_BLOCK_BYTES"
    if "d < length (documents t)"
    using that unfolding b(1) by (simp add: sum_list_take_Suc block_counts_def del: upt_Suc)
qed

lemma block_bases_bound:
  assumes "build_block_bases t = Inr bases" "Suc d < length bases"
  shows "bases ! Suc d < 2 ^ 32"
proof -
  have "bases ! Suc d \<le> last bases"
    using block_bases_facts(1,5) [OF assms(1)] assms(2) by (simp add: last_conv_nth sorted_nth_mono)
  with block_bases_facts(4) [OF assms(1)] show ?thesis by simp
qed

section \<open>Expansion\<close>

lemma expand_candidate_block_eq:
  assumes "build_block_bases t = Inr bases" "d < length (documents t)" "bases ! d \<le> i" "i < bases ! Suc d"
  shows "expand_candidate_block i bases t extent =
    (let e = bases ! Suc d - 1; slack = block_slack extent (max_line_len (documents t ! d)) (bases ! d) e
     in Inr (if extent = EDocument then (bases ! d, e)
             else (max (i - slack) (bases ! d), min (min (i + slack) u32_limit) e)))"
proof -
  note f = block_bases_facts [OF assms(1)]
  have "get_block_document i bases = d" using f assms(2-4) by (intro get_block_document_eq) auto
  with f(2) assms(2) show ?thesis by (simp add: expand_candidate_block_def Let_def get_def)
qed

text \<open>The expansion never leaves the document, and reaches every block within the slack.\<close>

lemma expand_candidate_block_spec:
  assumes "build_block_bases t = Inr bases" "d < length (documents t)" "bases ! d \<le> i" "i < bases ! Suc d"
  obtains a b where "expand_candidate_block i bases t extent = Inr (a, b)"
    "bases ! d \<le> a" "a \<le> i" "i \<le> b" "b < bases ! Suc d"
    "\<And>j. bases ! d \<le> j \<Longrightarrow> j < bases ! Suc d \<Longrightarrow>
       extent = EDocument \<or> j \<le> i + block_slack extent (max_line_len (documents t ! d)) (bases ! d) (bases ! Suc d - 1) \<and>
         i \<le> j + block_slack extent (max_line_len (documents t ! d)) (bases ! d) (bases ! Suc d - 1) \<Longrightarrow> a \<le> j \<and> j \<le> b"
proof -
  have lim: "bases ! Suc d - 1 \<le> u32_limit"
    using block_bases_bound [OF assms(1), of d] block_bases_facts(2) [OF assms(1)] assms(2) unfolding u32_limit_def by linarith
  note e = expand_candidate_block_eq [OF assms, of extent]
  show ?thesis
  proof (cases "extent = EDocument")
    case True
    with e assms show ?thesis by (intro that [of "bases ! d" "bases ! Suc d - 1"]) (auto simp: Let_def)
  next
    case False
    let ?s = "block_slack extent (max_line_len (documents t ! d)) (bases ! d) (bases ! Suc d - 1)"
    from False e assms lim show ?thesis
      by (intro that [of "max (i - ?s) (bases ! d)" "min (min (i + ?s) u32_limit) (bases ! Suc d - 1)"]) (auto simp: Let_def)
  qed
qed

section \<open>The block of a match is a candidate\<close>

text \<open>How far a match may reach under an extent: the bound the searcher derives for the pattern.\<close>

definition extent_covers :: "search_extent \<Rightarrow> nat \<Rightarrow> nat \<Rightarrow> nat \<Rightarrow> bool" where
  "extent_covers extent max_line i j \<longleftrightarrow>
     (case extent of
        EBytes span \<Rightarrow> j - i \<le> span
      | ELines \<Rightarrow> max_line = u32_limit \<or> j - i \<le> max_line
      | EDocument \<Rightarrow> True)"

text \<open>The postings of the segment hold the block grams of document \<open>d\<close>, numbered from its base.\<close>

definition indexes_blocks :: "crates \<Rightarrow> (bytes \<Rightarrow> doc_id list) \<Rightarrow> nat \<Rightarrow> bytes \<Rightarrow> bool" where
  "indexes_blocks X postings base data \<longleftrightarrow>
     (\<forall>(b, g)\<in>set (pack_trigram_block_grams X data). of_nat base + b \<in> set (postings (unpack_gram g)))"

lemma div_add_le: "(a + b) div C \<le> a div C + b div C + 1" for C :: nat
proof (cases "C = 0")
  case False
  then have "a mod C < C" "b mod C < C" by simp_all
  then have "a mod C + b mod C < 2 * C" by linarith
  then have "(a mod C + b mod C) div C < 2" by (rule less_mult_imp_div_less)
  then show ?thesis by (subst div_add1_eq) simp
qed simp

lemma block_distance:
  fixes C :: nat
  assumes "i \<le> k" "k < j" "j - i \<le> span"
  shows "k div C \<le> i div C + (1 + (span - 1) div C)"
proof -
  have "k \<le> i + (span - 1)" using assms by arith
  then have "k div C \<le> (i + (span - 1)) div C" by (rule div_le_mono)
  also have "\<dots> \<le> i div C + (span - 1) div C + 1" by (rule div_add_le)
  finally show ?thesis by simp
qed

text \<open>Two positions of one match lie within the slack of the extent.\<close>

lemma slack_reaches:
  assumes "extent_covers extent max_line i j" "i \<le> k" "k < j" "extent \<noteq> EDocument"
    and "base + k div CANDIDATE_BLOCK_BYTES \<le> e" "e \<le> u32_limit"
  shows "base + k div CANDIDATE_BLOCK_BYTES \<le> base + i div CANDIDATE_BLOCK_BYTES + block_slack extent max_line base e"
proof (cases extent)
  case (EBytes span)
  then have "k div CANDIDATE_BLOCK_BYTES \<le> i div CANDIDATE_BLOCK_BYTES + (1 + (span - 1) div CANDIDATE_BLOCK_BYTES)"
    using assms by (intro block_distance [of i k j]) (auto simp: extent_covers_def)
  with EBytes assms(5,6) show ?thesis by (auto simp: block_slack_def min_def)
next
  case ELines
  show ?thesis
  proof (cases "max_line = u32_limit")
    case True
    with ELines assms(5) show ?thesis by (auto simp: block_slack_def)
  next
    case False
    have "k div CANDIDATE_BLOCK_BYTES \<le> i div CANDIDATE_BLOCK_BYTES + (1 + (max_line - 1) div CANDIDATE_BLOCK_BYTES)"
      using assms ELines False by (intro block_distance [of i k j]) (auto simp: extent_covers_def)
    moreover have "(max_line - 1) div CANDIDATE_BLOCK_BYTES \<le> max_line div CANDIDATE_BLOCK_BYTES" by (rule div_le_mono) simp
    ultimately show ?thesis using ELines False by (simp add: block_slack_def)
  qed
qed (use assms in simp)

lemma div_ceil_block:
  assumes "k < n"
  shows "k div CANDIDATE_BLOCK_BYTES < div_ceil n CANDIDATE_BLOCK_BYTES"
proof -
  have C: "0 < CANDIDATE_BLOCK_BYTES" by (simp add: CANDIDATE_BLOCK_BYTES_def)
  have "(k + CANDIDATE_BLOCK_BYTES) div CANDIDATE_BLOCK_BYTES \<le> (n + CANDIDATE_BLOCK_BYTES - 1) div CANDIDATE_BLOCK_BYTES"
    by (rule div_le_mono) (use assms C in simp)
  moreover have "(k + CANDIDATE_BLOCK_BYTES) div CANDIDATE_BLOCK_BYTES = Suc (k div CANDIDATE_BLOCK_BYTES)"
    using C by (simp add: div_add_self2)
  ultimately show ?thesis unfolding div_ceil_def by linarith
qed

text \<open>
  The block that holds the first byte of a match is in the expansion of the block of every gram of the
  match, hence satisfies the planned query.
\<close>

lemma match_block_satisfies:
  assumes bases: "build_block_bases t = Inr bases" and d: "d < length (documents t)"
    and size: "doc_size (documents t ! d) = length data"
    and X: "radsort_sorts X" and R: "regex_laws R" and m: "hir_match R h data i j" "i < j"
    and ext: "extent_covers extent (max_line_len (documents t ! d)) i j"
    and idx: "indexes_blocks X postings (bases ! d) data"
  shows "query_holds {g. of_nat (bases ! d + i div CANDIDATE_BLOCK_BYTES) \<in>
      hits (Some (expand_closure bases t extent)) (postings g)} (plan_hir R X h Trigram)"
proof -
  let ?C = CANDIDATE_BLOCK_BYTES and ?w = "sub_slice data i j"
  have "scheme_ok X Trigram" using X by (simp add: scheme_ok_def)
  from hir_query_holds [OF this _ R m(1), of i j] have holds: "query_holds (set (trigram_grams_bytes X ?w)) (plan_hir R X h Trigram)"
    by (simp add: grams_index_def plan_hir_def)
  have jl: "j \<le> length data" using regex_bounds [OF R m(1)] by simp
  have next_base: "bases ! Suc d = bases ! d + div_ceil (length data) ?C"
    using block_bases_facts(6) [OF bases d] size by simp
  have lim: "bases ! Suc d < 2 ^ 32"
    using block_bases_bound [OF bases, of d] block_bases_facts(2) [OF bases] d by simp
  have "of_nat (bases ! d + i div ?C) \<in> hits (Some (expand_closure bases t extent)) (postings g)"
    if g: "g \<in> set (trigram_grams_bytes X ?w)" for g
  proof -
    from g obtain k where k: "k + 2 < length ?w" "g = [?w ! k, ?w ! (k + 1), ?w ! (k + 2)]"
      by (auto simp: trigram_grams_bytes_set [OF X])
    then have kj: "i + k + 2 < j" using jl by simp
    have g': "g = [data ! (i + k), data ! (i + k + 1), data ! (i + k + 2)]"
      using k jl by (simp add: sub_slice_def add.assoc)
    let ?b = "(i + k) div ?C" and ?p = "pack_window (data ! (i + k), data ! (i + k + 1), data ! (i + k + 2))"
    have "(of_nat ?b, ?p) \<in> set (pack_trigram_block_grams X data)"
      unfolding pack_trigram_block_grams_set [OF X] using kj jl by (intro exI [of _ "i + k"]) simp
    with idx have "of_nat (bases ! d) + of_nat ?b \<in> set (postings (unpack_gram ?p))"
      unfolding indexes_blocks_def by blast
    then have mem: "of_nat (bases ! d + ?b) \<in> set (postings g)" by (simp add: unpack_pack_window g' del: pack_window.simps)
    have inb: "bases ! d + ?b < bases ! Suc d" "bases ! d + i div ?C < bases ! Suc d"
      using next_base div_ceil_block [of "i + k" "length data"] div_ceil_block [of i "length data"] kj jl by auto
    have i32: "unat (of_nat (bases ! d + ?b) :: u32) = bases ! d + ?b" by (rule unat_of_nat32) (use inb(1) lim in linarith)
    obtain a b where ab: "expand_candidate_block (bases ! d + ?b) bases t extent = Inr (a, b)" "b < bases ! Suc d"
      and reach: "\<And>j. bases ! d \<le> j \<Longrightarrow> j < bases ! Suc d \<Longrightarrow>
         extent = EDocument \<or> j \<le> bases ! d + ?b + block_slack extent (max_line_len (documents t ! d)) (bases ! d) (bases ! Suc d - 1) \<and>
         bases ! d + ?b \<le> j + block_slack extent (max_line_len (documents t ! d)) (bases ! d) (bases ! Suc d - 1) \<Longrightarrow> a \<le> j \<and> j \<le> b"
      using expand_candidate_block_spec [OF bases d _ inb(1), of extent] by (metis le_add1)
    have "i div ?C \<le> ?b" by (rule div_le_mono) simp
    moreover have "bases ! d + ?b \<le> bases ! d + i div ?C +
        block_slack extent (max_line_len (documents t ! d)) (bases ! d) (bases ! Suc d - 1)" if "extent \<noteq> EDocument"
      by (rule slack_reaches [OF ext]) (use that kj inb lim in \<open>auto simp: u32_limit_def\<close>)
    ultimately have "a \<le> bases ! d + i div ?C \<and> bases ! d + i div ?C \<le> b" using inb by (intro reach) auto
    with ab lim inb have "(of_nat a :: u32) \<le> of_nat (bases ! d + i div ?C)" "(of_nat (bases ! d + i div ?C) :: u32) \<le> of_nat b"
      by (intro of_nat32_le; linarith)+
    moreover have "expand_closure bases t extent (of_nat (bases ! d + ?b)) = (of_nat a, of_nat b)"
      unfolding expand_closure_def i32 ab(1) by simp
    ultimately have "\<exists>p\<in>set (postings g). fst (expand_closure bases t extent p) \<le> of_nat (bases ! d + i div ?C) \<and>
        of_nat (bases ! d + i div ?C) \<le> snd (expand_closure bases t extent p)"
      by (intro bexI [OF _ mem]) (simp only: fst_conv snd_conv simp_thms)
    then show ?thesis by (simp only: hits_def option.case mem_Collect_eq)
  qed
  then have "set (trigram_grams_bytes X ?w) \<subseteq> {g. of_nat (bases ! d + i div ?C) \<in>
      hits (Some (expand_closure bases t extent)) (postings g)}"
    by (intro subsetI CollectI)
  from query_holds_mono [OF this holds] show ?thesis .
qed

section \<open>Grouping and merging\<close>

definition range_blocks :: "candidate_range \<Rightarrow> nat set" where
  "range_blocks r = {range_start r..<range_end r}"

definition group_blocks :: "nat list \<Rightarrow> (nat \<times> candidate_range list) list \<Rightarrow> nat set" where
  "group_blocks bases groups = (\<Union>(d, rs)\<in>set groups. \<Union>r\<in>set rs. (\<lambda>k. bases ! d + k) ` range_blocks r)"

definition groups_ok :: "search_extent \<Rightarrow> (nat \<times> candidate_range list) list \<Rightarrow> bool" where
  "groups_ok extent groups \<longleftrightarrow>
     (\<forall>(d, rs)\<in>set groups. rs \<noteq> [] \<and> (\<forall>r\<in>set rs. range_start r < range_end r \<and> range_extent r = extent))"

lemma range_blocks_extend:
  "range_start r \<le> range_end r \<Longrightarrow> range_blocks (r\<lparr>range_end := range_end r + 1\<rparr>) = insert (range_end r) (range_blocks r)"
  by (auto simp: range_blocks_def)

lemma group_step_spec:
  assumes "group_step bases extent groups i = Inr groups'" "groups_ok extent groups"
    and "bases ! get_block_document i bases \<le> i"
  shows "groups_ok extent groups' \<and> group_blocks bases groups' = insert i (group_blocks bases groups)"
proof -
  let ?d = "get_block_document i bases"
  let ?local = "i - bases ! ?d"
  let ?fresh = "\<lparr>range_start = ?local, range_end = ?local + 1, range_extent = extent\<rparr>"
  have here: "bases ! ?d + ?local = i" using assms(3) by simp
  have fresh: "range_blocks ?fresh = {?local}" by (auto simp: range_blocks_def)
  show ?thesis
  proof (cases "groups = [] \<or> fst (last groups) \<noteq> ?d")
    case True
    with assms(1) have "groups' = groups @ [(?d, [?fresh])]" by (auto simp: group_step_def Let_def)
    with assms(2) here fresh show ?thesis by (auto simp: groups_ok_def group_blocks_def)
  next
    case False
    then obtain gs rs where g: "groups = gs @ [(?d, rs)]" by (cases groups rule: rev_cases) auto
    with assms(2) obtain rs0 r where rs: "rs = rs0 @ [r]" by (cases rs rule: rev_cases) (auto simp: groups_ok_def)
    with g assms(2) have r: "range_start r < range_end r" "range_extent r = extent" by (auto simp: groups_ok_def)
    show ?thesis
    proof (cases "range_end r = ?local")
      case True
      with assms(1) g rs have g': "groups' = gs @ [(?d, rs0 @ [r\<lparr>range_end := range_end r + 1\<rparr>])]"
        by (auto simp: group_step_def Let_def)
      have "range_blocks (r\<lparr>range_end := range_end r + 1\<rparr>) = insert ?local (range_blocks r)"
        using r(1) True range_blocks_extend [of r] by (simp only: less_imp_le)
      with g g' rs here have "group_blocks bases groups' = insert i (group_blocks bases groups)"
        by (auto simp: group_blocks_def)
      with g' g rs r assms(2) show ?thesis by (auto simp: groups_ok_def)
    next
      case False
      with assms(1) g rs have g': "groups' = gs @ [(?d, (rs0 @ [r]) @ [?fresh])]"
        by (auto simp: group_step_def Let_def)
      with g rs here fresh have "group_blocks bases groups' = insert i (group_blocks bases groups)"
        by (auto simp: group_blocks_def)
      with g' g rs r assms(2) show ?thesis by (auto simp: groups_ok_def)
    qed
  qed
qed

lemma block_document_base:
  assumes "build_block_bases t = Inr bases" "i < last bases"
  shows "bases ! get_block_document i bases \<le> i" "get_block_document i bases < length (documents t)"
    "i < bases ! Suc (get_block_document i bases)"
proof -
  note f = block_bases_facts [OF assms(1)]
  from block_document_exists [OF f(1,5) _ assms(2)] f(3) obtain d where
    d: "Suc d < length bases" "bases ! d \<le> i" "i < bases ! Suc d" by auto
  then have "get_block_document i bases = d" using f(1) by (intro get_block_document_eq) auto
  with d f(2) show "bases ! get_block_document i bases \<le> i" "get_block_document i bases < length (documents t)"
    "i < bases ! Suc (get_block_document i bases)" by auto
qed

text \<open>The closure of the evaluator on the ids of a segment: the panic of \<open>expand_candidate_block\<close> is not reached, and the result is exact.\<close>

lemma expand_closure_exact:
  assumes "build_block_bases t = Inr bases" "unat i < last bases"
  obtains a b where "expand_candidate_block (unat i) bases t extent = Inr (a, b)" "a \<le> unat i" "unat i \<le> b" "b < last bases"
    "unat (fst (expand_closure bases t extent i)) = a" "unat (snd (expand_closure bases t extent i)) = b"
proof -
  note f = block_bases_facts [OF assms(1)] and d = block_document_base [OF assms]
  from expand_candidate_block_spec [OF assms(1) d(2,1,3), of extent] obtain a b where
    e: "expand_candidate_block (unat i) bases t extent = Inr (a, b)" "a \<le> unat i" "unat i \<le> b" "b < bases ! Suc (get_block_document (unat i) bases)" by metis
  let ?d = "Suc (get_block_document (unat i) bases)"
  have "?d < length bases" using d(2) f(2) by simp
  then have "bases ! ?d \<le> last bases" "bases ! ?d < 2 ^ 32"
    using f(1) sorted_nth_mono [of bases ?d "length bases - 1"] block_bases_bound [OF assms(1), of "get_block_document (unat i) bases"] f(2,5) d(2) by (auto simp: last_conv_nth)
  with e have "b < last bases" "b < 2 ^ 32" "a < 2 ^ 32" by linarith+
  with e show ?thesis by (intro that [of a b]) (simp_all add: expand_closure_def unat_of_nat32)
qed

lemma group_candidate_blocks_spec:
  assumes "build_block_bases t = Inr bases" "group_candidate_blocks ids bases extent = Inr groups"
  shows "groups_ok extent groups \<and> group_blocks bases groups = set ids"
proof -
  have "visit_all (group_step bases extent) [] ids = Inr groups \<Longrightarrow>
    groups_ok extent groups \<and> group_blocks bases groups = set ids" for groups
  proof (induction ids arbitrary: groups rule: rev_induct)
    case (snoc i ids)
    then obtain g0 where g0: "visit_all (group_step bases extent) [] ids = Inr g0"
      "group_step bases extent g0 i = Inr groups" by (auto simp: visit_all_snoc)
    then have "i < last bases" using block_bases_facts(5) [OF assms(1)] by (auto simp: group_step_def)
    from block_document_base(1) [OF assms(1) this] group_step_spec [OF g0(2)] snoc.IH [OF g0(1)] show ?case by simp
  qed (simp add: groups_ok_def group_blocks_def)
  with assms(2) show ?thesis by (auto simp: group_candidate_blocks_def)
qed

text \<open>
  The order of extents, how much of the surroundings of a hit has to be read: byte spans by their length,
  then lines, then the whole document.
\<close>

fun broader :: "search_extent \<Rightarrow> search_extent \<Rightarrow> bool" where
  "broader (EBytes a) (EBytes b) \<longleftrightarrow> a \<le> b"
| "broader ELines (EBytes b) \<longleftrightarrow> False"
| "broader EDocument b \<longleftrightarrow> b = EDocument"
| "broader a b \<longleftrightarrow> True"

lemma broader_pick: "broader a (pick_broader_extent a b)" "broader b (pick_broader_extent a b)" "broader a a"
  by (cases a; cases b; simp)+

lemma broader_trans: "broader a b \<Longrightarrow> broader b c \<Longrightarrow> broader a c"
  by (cases a; cases b; cases c) auto

lemma pick_is_one: "pick_broader_extent a b = a \<or> pick_broader_extent a b = b"
  by (cases a; cases b) auto

text \<open>
  \<open>reads_block rs k e\<close>: some range contains block \<open>k\<close> with an extent at least \<open>e\<close>. The merged list is
  sorted and disjoint, contains the same blocks, and reads each of them with at least
  the extent asked for.
\<close>

definition reads_block :: "candidate_range list \<Rightarrow> nat \<Rightarrow> search_extent \<Rightarrow> bool" where
  "reads_block rs k e \<longleftrightarrow> (\<exists>r\<in>set rs. k \<in> range_blocks r \<and> broader e (range_extent r))"

definition ranges_disjoint :: "candidate_range list \<Rightarrow> bool" where
  "ranges_disjoint rs \<longleftrightarrow>
     sorted_wrt (\<lambda>a b. range_end a \<le> range_start b) rs \<and> (\<forall>r\<in>set rs. range_start r < range_end r)"

lemma merge_step_spec:
  assumes "ranges_disjoint merged" "range_start r < range_end r" "\<forall>p\<in>set merged. range_start p \<le> range_start r"
  shows "ranges_disjoint (merge_step merged r) \<and>
    \<Union> (range_blocks ` set (merge_step merged r)) = \<Union> (range_blocks ` set merged) \<union> range_blocks r \<and>
    (\<forall>k e. reads_block merged k e \<longrightarrow> reads_block (merge_step merged r) k e) \<and>
    (\<forall>k\<in>range_blocks r. reads_block (merge_step merged r) k (range_extent r)) \<and>
    (\<forall>p\<in>set (merge_step merged r). range_start p \<le> range_start r)"
proof (cases merged rule: rev_cases)
  case Nil
  with assms show ?thesis
    by (auto simp: merge_step_def ranges_disjoint_def reads_block_def broader_pick)
next
  case (snoc ms p)
  have p: "range_start p \<le> range_start r" "range_start p < range_end p" "\<forall>m\<in>set ms. range_end m \<le> range_start p"
    using assms snoc by (auto simp: ranges_disjoint_def sorted_wrt_append)
  show ?thesis
  proof (cases "range_start r < range_end p \<or> (range_start r = range_end p \<and> range_extent r = range_extent p)")
    case True
    define q where "q = p\<lparr>range_end := max (range_end p) (range_end r),
      range_extent := if range_start r < range_end p then pick_broader_extent (range_extent p) (range_extent r) else range_extent p\<rparr>"
    have step: "merge_step merged r = ms @ [q]" using True snoc by (simp add: merge_step_def Let_def q_def)
    have blocks: "range_blocks q = range_blocks p \<union> range_blocks r"
      using True p assms(2) by (auto simp: range_blocks_def q_def)
    have ext: "broader (range_extent p) (range_extent q)" "broader (range_extent r) (range_extent q)"
      using True by (auto simp: q_def broader_pick)
    have "ranges_disjoint (ms @ [q])" using assms(1) snoc p by (auto simp: ranges_disjoint_def sorted_wrt_append q_def)
    moreover have "\<forall>k e. reads_block merged k e \<longrightarrow> reads_block (ms @ [q]) k e"
      using snoc blocks ext broader_trans unfolding reads_block_def by auto
    moreover have "\<forall>k\<in>range_blocks r. reads_block (ms @ [q]) k (range_extent r)"
      using blocks ext by (auto simp: reads_block_def)
    moreover have "\<forall>m\<in>set (ms @ [q]). range_start m \<le> range_start r" using assms(3) snoc p by (auto simp: q_def)
    moreover have "\<Union> (range_blocks ` set (ms @ [q])) = \<Union> (range_blocks ` set merged) \<union> range_blocks r"
      using snoc blocks by auto
    ultimately show ?thesis unfolding step by blast
  next
    case False
    then have step: "merge_step merged r = merged @ [r]" using snoc by (simp add: merge_step_def Let_def)
    have "range_end p \<le> range_start r" using False by auto
    with p have "\<forall>m\<in>set merged. range_end m \<le> range_start r" using snoc by force
    with assms show ?thesis
      by (auto simp: step ranges_disjoint_def sorted_wrt_append reads_block_def broader_pick)
  qed
qed

lemma merge_fold_spec:
  assumes "sorted (map (\<lambda>r. (range_start r, range_end r)) rs)" "\<forall>r\<in>set rs. range_start r < range_end r"
  shows "ranges_disjoint (foldl merge_step [] rs) \<and>
    \<Union> (range_blocks ` set (foldl merge_step [] rs)) = \<Union> (range_blocks ` set rs) \<and>
    (\<forall>r\<in>set rs. \<forall>k\<in>range_blocks r. reads_block (foldl merge_step [] rs) k (range_extent r)) \<and>
    (\<forall>p\<in>set (foldl merge_step [] rs). rs \<noteq> [] \<and> range_start p \<le> range_start (last rs))"
  using assms
proof (induction rs rule: rev_induct)
  case (snoc r rs)
  let ?m = "foldl merge_step [] rs"
  from snoc have IH: "ranges_disjoint ?m" "\<Union> (range_blocks ` set ?m) = \<Union> (range_blocks ` set rs)"
    "\<forall>r\<in>set rs. \<forall>k\<in>range_blocks r. reads_block ?m k (range_extent r)"
    "\<forall>p\<in>set ?m. rs \<noteq> [] \<and> range_start p \<le> range_start (last rs)" by (auto simp: sorted_append)
  have "range_start (last rs) \<le> range_start r" if "rs \<noteq> []"
  proof -
    have "(range_start (last rs), range_end (last rs)) \<le> (range_start r, range_end r)"
      using snoc.prems(1) that by (auto simp: sorted_append)
    then show ?thesis by (auto simp: less_eq_prod_def)
  qed
  with IH(4) have le: "\<forall>p\<in>set ?m. range_start p \<le> range_start r" by fastforce
  have lt: "range_start r < range_end r" using snoc.prems(2) by simp
  from merge_step_spec [OF IH(1) lt le] IH show ?case by auto
qed (simp add: ranges_disjoint_def)

lemma merge_fold_extents: "range_extent ` set (foldl merge_step merged rs) \<subseteq> range_extent ` set merged \<union> range_extent ` set rs"
proof (induction rs arbitrary: merged)
  case (Cons r rs)
  have "range_extent ` set (merge_step merged r) \<subseteq> range_extent ` set merged \<union> {range_extent r}"
  proof (cases merged rule: rev_cases)
    case (snoc ms p)
    then show ?thesis using pick_is_one [of "range_extent p" "range_extent r"] by (auto simp: merge_step_def Let_def)
  qed (simp add: merge_step_def)
  with Cons.IH [of "merge_step merged r"] show ?case by auto
qed simp

lemma merge_candidate_ranges_spec:
  assumes "\<forall>r\<in>set (current @ incoming). range_start r < range_end r"
  shows "ranges_disjoint (merge_candidate_ranges current incoming)"
    "\<Union> (range_blocks ` set (merge_candidate_ranges current incoming)) = \<Union> (range_blocks ` set (current @ incoming))"
    "\<And>r k. r \<in> set (current @ incoming) \<Longrightarrow> k \<in> range_blocks r \<Longrightarrow>
       reads_block (merge_candidate_ranges current incoming) k (range_extent r)"
    "range_extent ` set (merge_candidate_ranges current incoming) \<subseteq> range_extent ` set (current @ incoming)"
  using merge_fold_spec [of "sort_key (\<lambda>r. (range_start r, range_end r)) (current @ incoming)"] assms
    merge_fold_extents [of "[]" "sort_key (\<lambda>r. (range_start r, range_end r)) (current @ incoming)"]
  unfolding merge_candidate_ranges_def by auto

lemma one_plan_batch:
  "visit_candidate_selections [plan] n strat lookup expand fetch_blocks visit s =
   and_then (bind_queries (map plan_query [plan]) n strat lookup) (\<lambda>bound.
   and_then (fetch_blocks (fold blocks_needed bound Map.empty)) (\<lambda>bl.
     visit_all (visit_selection bl expand visit) s (enumerate 0 bound)))"
proof -
  have one: "visit_all f s [x] = f s x" for f :: "'a \<Rightarrow> nat \<times> resolved \<Rightarrow> 'a result" and s x by (cases "f s x") auto
  show ?thesis
    by (cases "resolve n strat lookup (plan_query plan)")
      (simp_all add: visit_candidate_selections_def visit_selection_def one del: visit_all.simps(2))
qed

lemma visit_candidates_batch:
  "visit_candidate_selections plans n strat lookup expand fetch_blocks visit s =
   and_then (bind_queries (map plan_query plans) n strat lookup) (\<lambda>bound.
   and_then (fetch_blocks (fold blocks_needed bound Map.empty)) (\<lambda>bl.
     visit_all (visit_selection bl expand visit) s (enumerate 0 bound)))"
proof (cases "\<exists>plan. plans = [plan]")
  case True
  then obtain plan where plans: "plans = [plan]" by blast
  show ?thesis unfolding plans by (rule one_plan_batch)
next
  case False
  then consider "plans = []" | p q ps where "plans = p # q # ps" by (metis list.exhaust)
  then show ?thesis by cases (simp_all add: visit_candidate_selections_def)
qed

section \<open>Properties\<close>

text \<open>
  C23: The block of a match is always a candidate. Let the engine match the pattern in document \<open>d\<close> at bytes
  \<open>i\<close> to \<open>j\<close>, within the extent of the search, and let the postings hold the block grams of the document.
  Then the block that contains byte \<open>i\<close> satisfies the planned query over the expanded postings:
  the slack of \<open>expand_candidate_block\<close> covers every gram of the match, also across
  block boundaries, for byte spans, line extents (saturated line lengths
  included) and whole documents.
\<close>

theorem match_block_is_candidate:
  assumes "build_block_bases t = Inr bases" "d < length (documents t)" "doc_size (documents t ! d) = length data"
    and "radsort_sorts X" "regex_laws R" "hir_match R h data i j" "i < j"
    and "extent_covers extent (max_line_len (documents t ! d)) i j"
    and "indexes_blocks X postings (bases ! d) data"
  shows "query_holds {g. of_nat (bases ! d + i div CANDIDATE_BLOCK_BYTES) \<in>
      hits (Some (expand_closure bases t extent)) (postings g)} (plan_hir R X h Trigram)"
  by (rule match_block_satisfies [OF assms])

definition one_document :: "nat \<Rightarrow> segment_tables" where
  "one_document n = \<lparr>sources = [], documents = [\<lparr>display_key = ''a'', source_id = 0, member_path = None, doc_size = n,
     doc_first_block = 0, doc_block_offset = 0, max_line_len = n, block_newlines = [0]\<rparr>], table_blocks = []\<rparr>"

theorem match_block_is_candidate_witness:
  "query_holds {g. of_nat ([0, 1] ! 0 + 1 div CANDIDATE_BLOCK_BYTES) \<in>
      hits (Some (expand_closure [0, 1] (one_document 7) (EBytes 6))) [0]}
    (plan_hir literal_engine sample_crates (HConcat [HLeaf [1, 2, 3], HLeaf [4, 5, 6]]) Trigram)"
proof (rule match_block_is_candidate [where postings = "\<lambda>_. [0]" and j = 7, OF _ _ _ sample_crates_sorts literal_engine_laws])
  show "build_block_bases (one_document 7) = Inr [0, 1]"
    by (simp add: build_block_bases_def one_document_def div_ceil_def CANDIDATE_BLOCK_BYTES_def try_u32_def add_u32_def)
  show "hir_match literal_engine (HConcat [HLeaf [1, 2, 3], HLeaf [4, 5, 6]]) [9, 1, 2, 3, 4, 5, 6] 1 7"
    using sample_match by (simp add: literal_engine_def)
  have "b = 0" if "(b, g) \<in> set (pack_trigram_block_grams sample_crates [9, 1, 2, 3, 4, 5, 6])" for b g
    using that by (auto simp: pack_trigram_block_grams_set [OF sample_crates_sorts] CANDIDATE_BLOCK_BYTES_def)
  then show "indexes_blocks sample_crates (\<lambda>_. [0]) ([0, 1] ! 0) [9, 1, 2, 3, 4, 5, 6]"
    by (auto simp: indexes_blocks_def)
qed (simp_all add: one_document_def extent_covers_def)

text \<open>
  Grouping loses no selected block. When the ids of a selection are grouped into ranges per document,
  the ranges are non-empty, carry the search's extent, and cover exactly the selected
  blocks; grouping succeeds for every selection inside the segment.
\<close>

lemma grouping_covers_selected_blocks:
  assumes "build_block_bases t = Inr bases" "extent \<noteq> EDocument"
    and "\<forall>i\<in>set ids. i < last bases" "length (documents t) < 2 ^ 32"
  shows "\<exists>groups. group_candidate_blocks ids bases extent = Inr groups \<and> groups_ok extent groups \<and>
     group_blocks bases groups = set ids"
proof -
  have step: "\<exists>g'. group_step bases extent g i = Inr g'" if "i < last bases" for g i
  proof -
    note b = block_document_base [OF assms(1) that]
    have "get_block_document i bases < 2 ^ 32" using b(2) assms(4) by simp
    with that b block_bases_facts(2,5) [OF assms(1)] show ?thesis
      by (auto simp: group_step_def Let_def get_def try_u32_def)
  qed
  have "\<exists>groups. visit_all (group_step bases extent) g ids = Inr groups" for g
    using assms(3)
  proof (induction ids arbitrary: g)
    case (Cons i ids)
    with step [of i g] obtain g1 where "group_step bases extent g i = Inr g1" by auto
    with Cons show ?case by simp
  qed simp
  then obtain groups where "group_candidate_blocks ids bases extent = Inr groups"
    using assms(2) by (auto simp: group_candidate_blocks_def)
  with group_candidate_blocks_spec [OF assms(1)] show ?thesis by blast
qed

text \<open>
  C38: Merging candidate ranges of several patterns is lossless. The merged list is sorted and disjoint, covers
  exactly the blocks of the two lists, and reads every block with an extent at least as
  broad as each range that asked for it, in the order of byte spans by length, lines, whole document. No extent is made up: each is
  that of a range of the two lists.
\<close>

theorem merged_ranges_cover:
  assumes "\<forall>r\<in>set (current @ incoming). range_start r < range_end r"
  shows "ranges_disjoint (merge_candidate_ranges current incoming) \<and>
    \<Union> (range_blocks ` set (merge_candidate_ranges current incoming)) = \<Union> (range_blocks ` set (current @ incoming)) \<and>
    (\<forall>r\<in>set (current @ incoming). \<forall>k\<in>range_blocks r.
       reads_block (merge_candidate_ranges current incoming) k (range_extent r)) \<and>
    range_extent ` set (merge_candidate_ranges current incoming) \<subseteq> range_extent ` set (current @ incoming)"
  using merge_candidate_ranges_spec [OF assms] by blast

theorem merged_ranges_cover_witness:
  "ranges_disjoint (merge_candidate_ranges [\<lparr>range_start = 2, range_end = 4, range_extent = EBytes 3\<rparr>]
     [\<lparr>range_start = 0, range_end = 3, range_extent = EBytes 7\<rparr>]) \<and>
   reads_block (merge_candidate_ranges [\<lparr>range_start = 2, range_end = 4, range_extent = EBytes 3\<rparr>]
     [\<lparr>range_start = 0, range_end = 3, range_extent = EBytes 7\<rparr>]) 2 (EBytes 7)"
  using merged_ranges_cover [of "[\<lparr>range_start = 2, range_end = 4, range_extent = EBytes 3\<rparr>]"
     "[\<lparr>range_start = 0, range_end = 3, range_extent = EBytes 7\<rparr>]"] by (simp add: range_blocks_def)

end
