(* ===== verification/Index_Lookup.thy ===== *)
theory Index_Lookup
  imports Index_Build Candidates
begin

text \<open>
  Looking up grams in a merged index. The dictionary and the data region written by
  \<open>merge_posting_runs\<close> give, for every gram, the ascending list of the ids recorded for the gram's key: the
  dictionary's value points at a region of its own, which decodes to the list. This discharges the laws of the locale
  \<open>posting_index\<close>, on which the evaluation of queries rests.
\<close>

section \<open>Grams and keys\<close>

text \<open>The key a gram is recorded under, as an integer: three bytes, or the hash of the gram.\<close>

definition gram_key :: "crates \<Rightarrow> strategy \<Rightarrow> bytes \<Rightarrow> u64 option" where
  "gram_key X strat gram =
     (case strat of
        Trigram \<Rightarrow> if length gram = 3 then Some (from_be_bytes (replicate 5 0 @ gram)) else None
      | Sparse \<Rightarrow> Some (hash_ngram X gram))"

definition index_postings :: "crates \<Rightarrow> strategy \<Rightarrow> (u64 \<times> doc_id) set \<Rightarrow> bytes \<Rightarrow> doc_id list" where
  "index_postings X strat R gram = (case gram_key X strat gram of None \<Rightarrow> [] | Some key \<Rightarrow> postings_of R key)"

lemma gram_key_iff:
  assumes "good_key strat key"
  shows "term_key X strat gram = drop (8 - key_bytes strat) (to_be_bytes key) \<longleftrightarrow> gram_key X strat gram = Some key"
proof (cases strat)
  case Trigram
  have pad: "replicate 5 0 @ drop 5 (to_be_bytes key) = to_be_bytes key"
    using key_padding [OF assms] by (simp add: Trigram key_bytes_def)
  have "gram = drop 5 (to_be_bytes key) \<longleftrightarrow> length gram = 3 \<and> from_be_bytes (replicate 5 0 @ gram) = key"
  proof
    assume "gram = drop 5 (to_be_bytes key)"
    with pad show "length gram = 3 \<and> from_be_bytes (replicate 5 0 @ gram) = key" by simp
  next
    assume g: "length gram = 3 \<and> from_be_bytes (replicate 5 0 @ gram) = key"
    then have "to_be_bytes key = replicate 5 0 @ gram" using to_from_be_bytes [of "replicate 5 0 @ gram"] by auto
    then show "gram = drop 5 (to_be_bytes key)" by simp
  qed
  then show ?thesis by (simp add: Trigram term_key_def gram_key_def key_bytes_def)
next
  case Sparse
  then show ?thesis by (simp add: term_key_def gram_key_def key_bytes_def)
qed

section \<open>Values and lists\<close>

definition map_lookup :: "crates \<Rightarrow> term_map \<Rightarrow> lookup" where
  "map_lookup X m gram = and_then (get_term X m Map.empty gram) (\<lambda>(v, _). Inr v)"

lemma map_lookup_serves:
  assumes "\<And>grams. serves_terms X strat ents (\<lambda>s _ _ _. Inr s) () grams m"
  shows "map_lookup X m gram = Inr (value_at ents (term_key X strat gram))"
proof -
  obtain cache where "get_all X m [gram] = Inr ([value_at ents (term_key X strat gram)], cache)"
    using assms [of "[gram]"] by (auto simp: serves_terms_def)
  then show ?thesis by (auto simp: get_all_def map_lookup_def visit_all_Cons simp del: visit_all.simps(2))
qed

text \<open>The value of a list in a dictionary, with the offset its bytes have in the data.\<close>

definition list_value :: "strategy \<Rightarrow> u32 \<Rightarrow> nat \<Rightarrow> doc_id list \<Rightarrow> term_value \<Rightarrow> bool" where
  "list_value strat n off ids v \<longleftrightarrow>
     (if length ids = 1 then unpack_posting (packed v) = (ucast (hd ids), 1) \<and> tv_len v = None
      else unpack_posting (packed v) = (of_nat off, of_nat (length ids)) \<and> length ids < 2 ^ 24 \<and> tv_len v = snd (encode_list strat n ids))"

lemma entry_value: "entry_at strat n off (key, ids) (gram, v, l) \<Longrightarrow> list_value strat n off ids \<lparr>packed = v, tv_len = l\<rparr>"
  using pack_posting_unpack(1) [of "ucast (hd ids)" 1 v] pack_posting_unpack(1,3) [of "of_nat off" "length ids" v]
  by (auto simp: entry_at_def list_value_def split: if_splits)

lemma value_at_entries:
  assumes ents: "entries_at strat n 0 gs ents" and keys: "\<forall>(key, ids)\<in>set gs. good_key strat key"
    and gs: "\<forall>key ids. (key, ids) \<in> set gs \<longleftrightarrow> ids = postings_of R key \<and> ids \<noteq> []"
  shows "case value_at ents (term_key X strat gram) of
      None \<Rightarrow> index_postings X strat R gram = []
    | Some v \<Rightarrow> \<exists>j<length gs. snd (gs ! j) = index_postings X strat R gram \<and>
        list_value strat n (length (lists_data strat n (take j gs))) (index_postings X strat R gram) v"
proof (cases "map_of ents (term_key X strat gram)")
  case None
  have "index_postings X strat R gram = []"
  proof (rule ccontr)
    assume ne: "index_postings X strat R gram \<noteq> []"
    then obtain key where k: "gram_key X strat gram = Some key" "postings_of R key \<noteq> []"
      by (auto simp: index_postings_def split: option.splits)
    then have "(key, postings_of R key) \<in> set gs" using gs by blast
    then obtain j where j: "j < length gs" "gs ! j = (key, postings_of R key)" by (auto simp: in_set_conv_nth)
    have "good_key strat key" using keys j by (metis (no_types, lifting) case_prodD nth_mem)
    from gram_key_iff [OF this] k(1) have t: "term_key X strat gram = drop (8 - key_bytes strat) (to_be_bytes key)" by blast
    have "entry_at strat n (length (lists_data strat n (take j gs))) (gs ! j) (ents ! j)" "j < length ents"
      using ents j(1) by (auto simp: entries_at_def)
    then have "fst (ents ! j) = term_key X strat gram" "ents ! j \<in> set ents" by (auto simp: entry_at_def j(2) t)
    then show False using None by (metis image_eqI map_of_eq_None_iff)
  qed
  then show ?thesis by (simp add: value_at_def None)
next
  case (Some vl)
  obtain v l where vl: "vl = (v, l)" by (cases vl)
  have "(term_key X strat gram, v, l) \<in> set ents" using Some map_of_SomeD vl by fastforce
  then obtain j where j: "j < length gs" "ents ! j = (term_key X strat gram, v, l)" using ents by (auto simp: in_set_conv_nth entries_at_def)
  obtain key ids where g: "gs ! j = (key, ids)" by (cases "gs ! j")
  have e: "entry_at strat n (length (lists_data strat n (take j gs))) (key, ids) (term_key X strat gram, v, l)"
    using ents j g by (auto simp: entries_at_def)
  have mem: "(key, ids) \<in> set gs" using j(1) g by (metis nth_mem)
  then have "good_key strat key" using keys by auto
  from gram_key_iff [OF this, of X gram] e have "gram_key X strat gram = Some key" by (simp add: entry_at_def)
  then have "ids = index_postings X strat R gram" using gs mem by (simp add: index_postings_def)
  then show ?thesis using entry_value [OF e] j(1) g by (auto simp: value_at_def Some vl)
qed

section \<open>Regions\<close>

lemma encode_list_nonempty:
  assumes "ascending ids" "\<forall>i\<in>set ids. i < n" "ids \<noteq> []" "length ids < unat n"
  shows "fst (encode_list strat n ids) \<noteq> []"
proof (cases strat)
  case Sparse
  then show ?thesis using assms(3) by (simp add: encode_list_def encode_delta_blocks_def) (subst encode_delta_from.simps, simp add: Let_def)
next
  case Trigram
  note cnt = ids_count [OF assms(1,2)]
  have ne: "(of_nat (length ids) :: u32) \<noteq> n" using cnt(2) assms(4) by (metis less_irrefl)
  have "0 < stored_id_count (of_nat (length ids)) n"
    using ne assms(3,4) by (simp add: stored_id_count_def cnt(2) unat_saturating_sub)
  then have "0 < stored_id_count (of_nat (length ids)) n * posting_id_bits n" using posting_id_bits_bounds(1) by simp
  then have "0 < posting_block_len (of_nat (length ids)) n" by (simp add: posting_block_len_def div_ceil_def div_greater_zero_iff)
  with encode_posting_block_length [OF assms(1,2)] Trigram show ?thesis by (auto simp: encode_list_def)
qed

lemma lists_data_split:
  assumes "j < length gs"
  shows "lists_data strat n gs = lists_data strat n (take j gs) @ list_bytes strat n (gs ! j) @ lists_data strat n (drop (Suc j) gs)"
  using arg_cong [OF id_take_nth_drop [OF assms], of "lists_data strat n"] by (simp add: lists_data_def)

lemma region_unique:
  assumes "j < length gs" "k < length gs" "length (lists_data strat n (take j gs)) = length (lists_data strat n (take k gs))"
    and "list_bytes strat n (gs ! j) \<noteq> []" "list_bytes strat n (gs ! k) \<noteq> []"
  shows "j = k"
proof -
  have less: "length (lists_data strat n (take a gs)) < length (lists_data strat n (take b gs))"
    if "a < b" "b < length gs" "list_bytes strat n (gs ! a) \<noteq> []" for a b
    using lists_data_split [of a "take b gs" strat n] that by (simp add: min_def)
  show ?thesis using less [of j k] less [of k j] assms by (metis less_irrefl linorder_neqE_nat)
qed

definition decode_list :: "strategy \<Rightarrow> bytes \<Rightarrow> u32 \<Rightarrow> u32 \<Rightarrow> doc_id list result" where
  "decode_list strat bs c id_space =
     (case strat of Sparse \<Rightarrow> decode_delta_blocks bs c id_space | Trigram \<Rightarrow> decode_posting_block bs c id_space)"

lemma decode_list_valid:
  "decode_list strat bs c n = Inr ids \<Longrightarrow> ascending ids \<and> (\<forall>i\<in>set ids. i < n) \<and> length ids = unat c"
  using fixed_codec.decode_valid [of bs c n ids] delta_codec.decode_valid [of bs c n ids]
  by (cases strat) (simp_all add: decode_list_def)

text \<open>The length the evaluator asks for.\<close>

definition value_len :: "u32 \<Rightarrow> term_value \<Rightarrow> u64" where
  "value_len n v = (case tv_len v of Some l \<Rightarrow> l | None \<Rightarrow> of_nat (posting_block_len (snd (unpack_posting (packed v))) n))"

lemma list_region:
  assumes ids: "ascending ids" "\<forall>i\<in>set ids. i < n" "length ids \<noteq> 1"
    and g: "j < length gs" "snd (gs ! j) = ids" and small: "length (lists_data strat n gs) < 2 ^ 64"
    and v: "list_value strat n (length (lists_data strat n (take j gs))) ids v" "unpack_posting (packed v) = (off, c)"
  shows "unat off = length (lists_data strat n (take j gs))" "unat c = length ids"
    and "unat (value_len n v) = length (list_bytes strat n (gs ! j))"
    and "unat off + unat (value_len n v) \<le> length (lists_data strat n gs)"
    and "decode_list strat (sub_slice (lists_data strat n gs) (unat off) (unat off + unat (value_len n v))) c n = Inr ids"
proof -
  let ?d = "lists_data strat n (take j gs)" and ?b = "fst (encode_list strat n ids)"
  have lb: "list_bytes strat n (gs ! j) = ?b" using g(2) ids(3) by (cases "gs ! j") (simp add: list_bytes_def)
  have split: "lists_data strat n gs = ?d @ ?b @ lists_data strat n (drop (Suc j) gs)" using lists_data_split [OF g(1)] lb by simp
  then have fits: "length ?d < 2 ^ 64" "length ?b < 2 ^ 64" "length ?d + length ?b \<le> length (lists_data strat n gs)" using small by simp_all
  from v ids(3) have val: "off = of_nat (length ?d)" "c = of_nat (length ids)" "tv_len v = snd (encode_list strat n ids)"
    by (simp_all add: list_value_def)
  show off: "unat off = length ?d" using fits(1) by (simp add: val(1) unat_of_nat)
  show "unat c = length ids" using ids_count(2) [OF ids(1,2)] by (simp add: val(2))
  have len: "unat (value_len n v) = length ?b"
  proof (cases strat)
    case Sparse
    then show ?thesis using fits(2) by (simp add: value_len_def val(3) encode_list_def unat_of_nat)
  next
    case Trigram
    then have "length ?b = posting_block_len c n" using encode_posting_block_length [OF ids(1,2)] by (simp add: encode_list_def val(2))
    with Trigram fits(2) v(2) show ?thesis by (simp add: value_len_def val(3) encode_list_def unat_of_nat)
  qed
  then show "unat (value_len n v) = length (list_bytes strat n (gs ! j))" by (simp add: lb)
  show "unat off + unat (value_len n v) \<le> length (lists_data strat n gs)" using fits(3) by (simp add: off len)
  have "sub_slice (lists_data strat n gs) (unat off) (unat off + unat (value_len n v)) = ?b"
    unfolding off len split by (rule sub_slice_append_middle) simp_all
  moreover have "decode_list strat ?b c n = Inr ids"
    using fixed_codec.round_trip [OF ids(1,2)] delta_codec.round_trip [OF ids(1,2)]
    by (simp add: decode_list_def encode_list_def val(2) split: strategy.split)
  ultimately show "decode_list strat (sub_slice (lists_data strat n gs) (unat off) (unat off + unat (value_len n v))) c n = Inr ids" by simp
qed

section \<open>The index of a merged segment\<close>

text \<open>A successful merge of sorted runs with the records \<open>R\<close>, into files of less than \<open>2 ^ 64\<close> bytes.\<close>

definition built :: "fst_crate \<Rightarrow> (bytes \<Rightarrow> bytes) \<Rightarrow> strategy \<Rightarrow> u32 \<Rightarrow> (u64 \<times> doc_id) set \<Rightarrow> merged_index \<Rightarrow> bool" where
  "built F sha strat n R out \<longleftrightarrow>
     fst_laws F \<and> (\<forall>x. length (sha x) = 32) \<and> (\<forall>(key, i)\<in>R. i < n) \<and>
     length (terms_file out) < 2 ^ 64 \<and> length (postings_file out) < 2 ^ 64 \<and>
     (\<exists>rss runs. list_all2 (is_run strat) rss runs \<and> set (concat rss) = R \<and> merge_posting_runs F sha runs strat n = Inr out)"

lemma index_postings_valid:
  assumes "built F sha strat n R out"
  shows "ascending (index_postings X strat R gram)" "\<forall>i\<in>set (index_postings X strat R gram). i < n"
  using assms by (auto simp: index_postings_def built_def split: option.split)

text \<open>
  What the files hold: the dictionary opens, and a gram is absent exactly when its list is empty; otherwise its value is
  inline or points at a region of the data that is the list's own and decodes to it.
\<close>

definition holds_list :: "strategy \<Rightarrow> u32 \<Rightarrow> bytes \<Rightarrow> doc_id list \<Rightarrow> term_value \<Rightarrow> bool" where
  "holds_list strat n data ids v \<longleftrightarrow>
     ids \<noteq> [] \<and> unat (snd (unpack_posting (packed v))) = length ids \<and>
     (if length ids = 1 then unpack_posting (packed v) = (ucast (hd ids), 1)
      else unat (fst (unpack_posting (packed v))) + unat (value_len n v) \<le> length data \<and>
        (length ids < unat n \<longrightarrow> 0 < unat (value_len n v)) \<and>
        decode_list strat (sub_slice data (unat (fst (unpack_posting (packed v)))) (unat (fst (unpack_posting (packed v))) + unat (value_len n v)))
          (snd (unpack_posting (packed v))) n = Inr ids)"

lemma built_lookup:
  assumes b: "built F sha strat n R out"
  shows "\<exists>m data. open_terms F (terms_file out) strat = Inr m \<and> postings_file out = data @ postings_tail sha data \<and>
     postings_data_len out = length data \<and> postings_tail_hash out = hex (sha (postings_tail sha data)) \<and>
     blob_len (postings_blob out) = length (postings_file out) \<and>
     (\<forall>gram. \<exists>v. map_lookup X m gram = Inr v \<and>
        (case v of None \<Rightarrow> index_postings X strat R gram = [] | Some v \<Rightarrow> holds_list strat n data (index_postings X strat R gram) v)) \<and>
     (\<forall>g h v w. map_lookup X m g = Inr (Some v) \<longrightarrow> map_lookup X m h = Inr (Some w) \<longrightarrow>
        fst (unpack_posting (packed v)) = fst (unpack_posting (packed w)) \<longrightarrow>
        length (index_postings X strat R g) \<noteq> 1 \<longrightarrow> length (index_postings X strat R h) \<noteq> 1 \<longrightarrow>
        length (index_postings X strat R g) < unat n \<longrightarrow> length (index_postings X strat R h) < unat n \<longrightarrow>
        index_postings X strat R g = index_postings X strat R h \<and> value_len n v = value_len n w)"
proof -
  from b obtain rss runs where r: "list_all2 (is_run strat) rss runs" "set (concat rss) = R" "merge_posting_runs F sha runs strat n = Inr out"
    and laws: "fst_laws F" "\<forall>x. length (sha x) = 32" "length (terms_file out) < 2 ^ 64" "length (postings_file out) < 2 ^ 64"
    by (auto simp: built_def)
  from merged_entries [OF r(1,3)] obtain ents data gs is_sharded tail_hash where e:
    "build_terms F sha strat is_sharded ents = Inr (terms_file out, tail_hash)" "entries_at strat n 0 gs ents" "data = lists_data strat n gs"
    "\<forall>key ids. (key, ids) \<in> set gs \<longleftrightarrow> ids = postings_of R key \<and> ids \<noteq> []"
    "postings_file out = data @ postings_tail sha data" "postings_data_len out = length data" "postings_tail_hash out = hex (sha (postings_tail sha data))"
    "blob_len (postings_blob out) = length (postings_file out)"
    unfolding r(2) by blast
  have small: "length (lists_data strat n gs) < 2 ^ 64" using laws(4) e(3,5) by simp
  obtain m where m: "open_terms F (terms_file out) strat = Inr m"
    using dictionary_serves [OF laws(1,2) e(1) laws(3), where visit = "\<lambda>s _ _ _. Inr s" and s = "()"] by blast
  have lk: "map_lookup X m gram = Inr (value_at ents (term_key X strat gram))" for gram
    using dictionary_serves [OF laws(1,2) e(1) laws(3), where visit = "\<lambda>s _ _ _. Inr s" and s = "()" and X = X] m
    by (intro map_lookup_serves) auto
  have "good_key strat key" if "(key, i) \<in> R" for key i
    using that r(1) unfolding r(2) [symmetric] by (fastforce simp: list_all2_conv_all_nth in_set_conv_nth is_run_def list_all_iff)
  then have keys: "\<forall>(key, ids)\<in>set gs. good_key strat key" using e(4) by (fastforce simp: postings_of_empty)
  note at = value_at_entries [OF e(2) keys e(4), of X]
  note ok = index_postings_valid [OF b, of X]
  have val: "\<exists>j<length gs. snd (gs ! j) = index_postings X strat R g \<and>
      list_value strat n (length (lists_data strat n (take j gs))) (index_postings X strat R g) v"
    if "map_lookup X m g = Inr (Some v)" for g v
    using at [of g] that by (simp add: lk)
  have ne: "snd (gs ! j) \<noteq> []" if "j < length gs" for j
    using e(4) nth_mem [OF that] by (metis prod.collapse)
  have one: "case v of None \<Rightarrow> index_postings X strat R g = [] | Some v \<Rightarrow> holds_list strat n data (index_postings X strat R g) v"
    if lv: "map_lookup X m g = Inr v" for g v
  proof (cases v)
    case None
    then show ?thesis using at [of g] that by (simp add: lk)
  next
    case (Some tv)
    from val [OF lv [unfolded Some]] obtain j where j: "j < length gs" "snd (gs ! j) = index_postings X strat R g"
      "list_value strat n (length (lists_data strat n (take j gs))) (index_postings X strat R g) tv" by blast
    obtain off c where u: "unpack_posting (packed tv) = (off, c)" by (cases "unpack_posting (packed tv)")
    show ?thesis
    proof (cases "length (index_postings X strat R g) = 1")
      case True
      then show ?thesis using j ne [OF j(1)] by (simp add: Some holds_list_def list_value_def)
    next
      case False
      note reg = list_region [OF ok False j(1,2) small j(3) u]
      have "length (index_postings X strat R g) < unat n \<longrightarrow> 0 < unat (value_len n tv)"
        using encode_list_nonempty [OF ok ne [OF j(1), unfolded j(2)]] reg(3) j(2) False by (cases "gs ! j") (auto simp: list_bytes_def)
      then show ?thesis using reg ne [OF j(1)] j(2) False by (simp add: Some holds_list_def u e(3))
    qed
  qed
  have two: "index_postings X strat R g = index_postings X strat R h \<and> value_len n v = value_len n w"
    if l: "map_lookup X m g = Inr (Some v)" "map_lookup X m h = Inr (Some w)"
      and eq: "fst (unpack_posting (packed v)) = fst (unpack_posting (packed w))"
      and n1: "length (index_postings X strat R g) \<noteq> 1" "length (index_postings X strat R h) \<noteq> 1"
      and lt: "length (index_postings X strat R g) < unat n" "length (index_postings X strat R h) < unat n" for g h v w
  proof -
    from val [OF l(1)] obtain j where j: "j < length gs" "snd (gs ! j) = index_postings X strat R g"
      "list_value strat n (length (lists_data strat n (take j gs))) (index_postings X strat R g) v" by blast
    from val [OF l(2)] obtain k where k: "k < length gs" "snd (gs ! k) = index_postings X strat R h"
      "list_value strat n (length (lists_data strat n (take k gs))) (index_postings X strat R h) w" by blast
    obtain off c where u: "unpack_posting (packed v) = (off, c)" by (cases "unpack_posting (packed v)")
    obtain c' where u': "unpack_posting (packed w) = (off, c')" using eq u by (cases "unpack_posting (packed w)") simp
    note rj = list_region [OF ok n1(1) j(1,2) small j(3) u] and rk = list_region [OF ok n1(2) k(1,2) small k(3) u']
    have "list_bytes strat n (gs ! j) \<noteq> []" "list_bytes strat n (gs ! k) \<noteq> []"
      using encode_list_nonempty [OF ok ne [OF j(1), unfolded j(2)] lt(1)] encode_list_nonempty [OF ok ne [OF k(1), unfolded k(2)] lt(2)]
        j(2) k(2) n1 by (cases "gs ! j"; cases "gs ! k"; simp add: list_bytes_def)+
    moreover have "length (lists_data strat n (take j gs)) = length (lists_data strat n (take k gs))" using rj(1) rk(1) by simp
    ultimately have "j = k" by (intro region_unique [OF j(1) k(1)])
    with j(2) k(2) rj(3) rk(3) show ?thesis by (metis word_unat_eq_iff)
  qed
  show ?thesis
  proof (intro exI conjI allI impI)
    show "open_terms F (terms_file out) strat = Inr m" by (rule m)
  qed (use e(5-8) one two lk in blast)+
qed

end
