(* ===== verification/Posting_Read.thy ===== *)
theory Posting_Read
  imports Index_Lookup Pack_Read
begin

text \<open>
  Reading posting lists through the verification table, \<open>read_posting_blocks\<close> and \<open>postings_table\<close> of
  \<open>crates/index/src/segment.rs\<close>. The store and the cache directory are those of \<open>Pack_Read\<close>. Two facts: whatever the store and
  the cache return, a successful read decodes the bytes that were written; and a store that returns the
  file's bytes makes every read of valid ranges succeed.
\<close>

section \<open>Definitions\<close>

record segment_meta =
  seg_id :: string
  doc_count :: u32
  block_count :: nat
  terms_fst_len :: nat
  terms_fst_hash :: string
  terms_tail_hash :: string
  meta_postings_len :: nat
  meta_postings_hash :: string
  meta_postings_data_len :: nat
  meta_postings_tail_hash :: string
  docs_len :: nat
  docs_hash :: string
  min_key :: string
  max_key :: string
  dead_hash :: string
  dead_len :: nat
  failed_source_count :: u32
  meta_packs :: "pack_meta list"

definition segment_blob :: "string \<Rightarrow> string \<Rightarrow> string" where
  "segment_blob seg name = ''segments/'' @ seg @ ''/'' @ name"

text \<open>\<open>{:08x}\<close>: the hexadecimal digits, padded with zeros to eight.\<close>

fun hex_digits :: "nat \<Rightarrow> string" where
  "hex_digits n = (if n < 16 then [hex_digit n] else hex_digits (n div 16) @ [hex_digit (n mod 16)])"

declare hex_digits.simps [simp del]

definition posting_block_path :: "string \<Rightarrow> nat \<Rightarrow> string" where
  "posting_block_path seg idx = seg @ ''/postings-block-'' @ replicate (8 - length (hex_digits idx)) (CHR ''0'') @ hex_digits idx"

text \<open>The needed lists in ascending order of their offsets, as the map iterates.\<close>

type_synonym needed = "(u64 \<times> u32 \<times> u64) list"

definition posting_range :: "u32 \<Rightarrow> nat \<Rightarrow> u64 \<times> u32 \<times> u64 \<Rightarrow> (nat \<times> nat) result" where
  "posting_range n data_len = (\<lambda>(off, cnt, len).
     ensure (cnt > 0) ''term map contains an empty posting list''
     (ensure (cnt \<le> n) ''term map posting count exceeds its segment document count''
     (ensure (len > 0) ''term map posting length is zero''
     (and_then (context_of (add_u64 (unat off) (unat len)) ''term map posting length overflows'') (\<lambda>stop.
      ensure (stop \<le> data_len) ''term map posting extends beyond the postings data region''
      (Inr (unat off, unat len)))))))"

definition posting_ranges :: "needed \<Rightarrow> u32 \<Rightarrow> nat \<Rightarrow> (nat \<times> nat) list result" where
  "posting_ranges needed n data_len =
     visit_all (\<lambda>ranges e. and_then (posting_range n data_len e) (\<lambda>r. Inr (ranges @ [r]))) [] needed"

text \<open>What a segment reader keeps between calls: the cache directory and the table once it is loaded.\<close>

record posting_state =
  ps_disk :: disk
  ps_table :: "postings_table option"

definition postings_table :: "pack_crates \<Rightarrow> get_ranges \<Rightarrow> segment_meta \<Rightarrow> posting_state \<Rightarrow> (postings_table \<times> posting_state) result" where
  "postings_table X store meta s =
     (case ps_table s of
        Some t \<Rightarrow> Inr (t, s)
      | None \<Rightarrow>
          let data_len = meta_postings_data_len meta;
              tail_len = div_ceil data_len VERIFY_BLOCK_BYTES * 32 + POSTINGS_FOOTER_BYTES
          in ensure (add_u64 data_len tail_len = Some (meta_postings_len meta)) ''postings verification table does not fit its blob''
             (and_then (cached_bytes X (ps_disk s) (seg_id meta) ''postings.tail'' (meta_postings_tail_hash meta) (\<lambda>_.
                 and_then (store (segment_blob (seg_id meta) ''postings.bin'') [(data_len, tail_len)]) (\<lambda>ranges.
                 ensure (length ranges = 1) ''postings tail fetch returned no range'' (Inr (ranges ! 0))))) (\<lambda>(tail, d).
              and_then (parse_postings (meta_postings_len meta) tail) (\<lambda>t.
              ensure (table_data_len t = data_len) ''postings table data length does not match segment metadata''
              (Inr (t, \<lparr>ps_disk = d, ps_table = Some t\<rparr>))))))"

type_synonym payloads = "nat \<rightharpoonup> bytes"

definition probe_block ::
    "pack_crates \<Rightarrow> bool \<Rightarrow> segment_meta \<Rightarrow> postings_table \<Rightarrow> disk \<Rightarrow> payloads \<times> nat list \<Rightarrow> nat \<Rightarrow> (payloads \<times> nat list) result" where
  "probe_block X range_cache meta t d = (\<lambda>(payloads, missing) idx.
     and_then (if range_cache
       then and_then (or_panic (get (table_hashes t) idx)) (\<lambda>h. Inr (read_verified X d (posting_block_path (seg_id meta) idx) (hex h)))
       else Inr None) (\<lambda>hit.
       Inr (case hit of Some bs \<Rightarrow> (payloads(idx \<mapsto> bs), missing) | None \<Rightarrow> (payloads, missing @ [idx]))))"

definition accept_block ::
    "pack_crates \<Rightarrow> bool \<Rightarrow> segment_meta \<Rightarrow> postings_table \<Rightarrow> payloads \<times> disk \<Rightarrow> nat \<times> bytes \<Rightarrow> (payloads \<times> disk) result" where
  "accept_block X range_cache meta t = (\<lambda>(payloads, d) (idx, bs).
     and_then (verify_block (sha256 X) t idx bs) (\<lambda>_.
       Inr (payloads(idx \<mapsto> bs), if range_cache then write_back d (posting_block_path (seg_id meta) idx) bs else d)))"

definition fetch_missing ::
    "pack_crates \<Rightarrow> get_ranges \<Rightarrow> bool \<Rightarrow> segment_meta \<Rightarrow> postings_table \<Rightarrow> payloads \<Rightarrow> nat list \<Rightarrow> disk \<Rightarrow> (payloads \<times> disk) result" where
  "fetch_missing X store range_cache meta t payloads missing d =
     (if missing = [] then Inr (payloads, d)
      else and_then (visit_all (\<lambda>rs idx. and_then (block_range t idx) (\<lambda>r. Inr (rs @ [r]))) [] missing) (\<lambda>block_ranges.
        and_then (store (segment_blob (seg_id meta) ''postings.bin'') block_ranges) (\<lambda>fetched.
        ensure (length fetched = length missing) ''get_ranges returned other blocks than asked''
        (visit_all (accept_block X range_cache meta t) (payloads, d) (zip missing fetched)))))"

definition slice_block :: "postings_table \<Rightarrow> payloads \<Rightarrow> nat \<Rightarrow> nat \<Rightarrow> bytes list \<Rightarrow> nat \<Rightarrow> bytes list result" where
  "slice_block t payloads off len pieces idx =
     and_then (block_range t idx) (\<lambda>(block_offset, block_len).
     and_then (context_of (payloads idx) ''missing verified postings block'') (\<lambda>payload.
     and_then (or_panic (get_range payload (max off block_offset - block_offset) (min (off + len) (block_offset + block_len) - block_offset))) (\<lambda>piece.
       Inr (pieces @ [piece]))))"

text \<open>One covering block is sliced, several are assembled.\<close>

definition read_list :: "postings_table \<Rightarrow> payloads \<Rightarrow> nat \<Rightarrow> nat \<Rightarrow> bytes result" where
  "read_list t payloads off len =
     and_then (blocks_covering t off len) (\<lambda>covering.
     and_then (visit_all (slice_block t payloads off len) [] covering) (\<lambda>pieces. Inr (concat pieces)))"

definition read_posting_blocks ::
    "pack_crates \<Rightarrow> get_ranges \<Rightarrow> bool \<Rightarrow> strategy \<Rightarrow> segment_meta \<Rightarrow> u32 \<Rightarrow> needed \<Rightarrow> posting_state \<Rightarrow> (block_lists \<times> posting_state) result" where
  "read_posting_blocks X store range_cache strat meta id_space needed s =
     (if needed = [] then Inr (Map.empty, s)
      else and_then (postings_table X store meta s) (\<lambda>(t, s).
        and_then (posting_ranges needed id_space (table_data_len t)) (\<lambda>ranges.
        and_then (visit_all (\<lambda>ids (off, len). and_then (blocks_covering t off len) (\<lambda>bs. Inr (fold insort_insert bs ids))) [] ranges) (\<lambda>block_set.
        and_then (visit_all (probe_block X range_cache meta t (ps_disk s)) (Map.empty, []) block_set) (\<lambda>(payloads, missing).
        and_then (fetch_missing X store range_cache meta t payloads missing (ps_disk s)) (\<lambda>(payloads, d).
        and_then (visit_all (\<lambda>out ((off, cnt, _), (range_offset, range_len)).
            and_then (read_list t payloads range_offset range_len) (\<lambda>bs.
            and_then (decode_list strat bs cnt id_space) (\<lambda>ids. Inr (out(off \<mapsto> ids))))) Map.empty (zip needed ranges)) (\<lambda>out.
          Inr (out, s\<lparr>ps_disk := d\<rparr>))))))))"

section \<open>Blocks and ranges\<close>

definition table_of :: "(bytes \<Rightarrow> bytes) \<Rightarrow> bytes \<Rightarrow> postings_table" where
  "table_of sha data = \<lparr>table_data_len = length data, table_hashes = map sha (data_blocks data)\<rparr>"

abbreviation V :: nat where "V \<equiv> VERIFY_BLOCK_BYTES"

lemma length_data_blocks [simp]: "length (data_blocks data) = div_ceil (length data) V"
  by (simp add: data_blocks_def)

lemma div_ceil_less: "k < div_ceil a V \<longleftrightarrow> k * V < a"
proof -
  note b = div_ceil_bounds [OF V_pos, of a]
  show ?thesis
  proof
    assume "k < div_ceil a V"
    then have "(k + 1) * V \<le> div_ceil a V * V" by (intro mult_right_mono) auto
    with b(2) show "k * V < a" by (simp add: mult.commute)
  next
    assume "k * V < a"
    also have "a \<le> div_ceil a V * V" using b(1) by (simp only: mult.commute)
    finally show "k < div_ceil a V" by (rule mult_less_cancel2 [THEN iffD1, THEN conjunct2])
  qed
qed

lemma length_data_block: "k * V < length data \<Longrightarrow> k * V + length (data_block data k) = min ((k + 1) * V) (length data)"
  by (simp add: data_block_def)

lemma block_range_table:
  assumes "k < div_ceil (length data) V"
  shows "block_range (table_of sha data) k = Inr (k * V, length (data_block data k))"
  using assms by (simp add: block_range_def table_of_def checked_sub_def div_ceil_less data_block_def less_imp_le min.commute)

lemma covering_table:
  "blocks_covering (table_of sha data) off len = Inr bs \<longleftrightarrow>
     off + len < 2 ^ 64 \<and> off + len \<le> length data \<and> 0 < len \<and> bs = [off div V..<div_ceil (off + len) V]"
  by (auto simp: blocks_covering_def table_of_def)

lemma covering_bounds:
  assumes "off + len \<le> length data" "k \<in> set [off div V..<div_ceil (off + len) V]"
  shows "k < div_ceil (length data) V" "k * V < off + len" "off < (k + 1) * V"
proof -
  show lt: "k * V < off + len" using assms(2) by (simp add: div_ceil_less)
  then show "k < div_ceil (length data) V" using assms(1) by (simp add: div_ceil_less)
  have "off div V * V + off mod V = off" "off mod V < V" using V_pos by simp_all
  moreover have "off div V * V \<le> k * V" using assms(2) by (intro mult_right_mono) auto
  ultimately have "off < k * V + V" by linarith
  then show "off < (k + 1) * V" by simp
qed

text \<open>A piece of a block is the piece of the data.\<close>

lemma block_piece:
  assumes "off + len \<le> length data" "k \<in> set [off div V..<div_ceil (off + len) V]"
  shows "get_range (data_block data k) (max off (k * V) - k * V) (min (off + len) (k * V + length (data_block data k)) - k * V)
    = Some (sub_slice data (max off (k * V)) (min (off + len) ((k + 1) * V)))"
proof -
  note b = covering_bounds [OF assms]
  let ?a = "max off (k * V)" and ?z = "min (off + len) ((k + 1) * V)"
  have len: "k * V + length (data_block data k) = min ((k + 1) * V) (length data)"
    using b(2) assms(1) by (intro length_data_block) linarith
  then have z: "min (off + len) (k * V + length (data_block data k)) = ?z" using assms(1) by linarith
  have az: "?a \<le> ?z" using b assms(1) by simp
  have "sub_slice (data_block data k) (?a - k * V) (?z - k * V) = sub_slice data ?a ?z"
    unfolding sub_slice_def data_block_def drop_take drop_drop take_take
    using az by (simp add: min_def)
  moreover have "?z - k * V \<le> length (data_block data k)" using len assms(1) by linarith
  ultimately show ?thesis unfolding z using az by (simp add: get_range_def diff_le_mono)
qed

lemma read_list_exact:
  assumes "off + len \<le> length data" "off + len < 2 ^ 64" "0 < len"
    and "\<forall>k\<in>set [off div V..<div_ceil (off + len) V]. payloads k = Some (data_block data k)"
  shows "read_list (table_of sha data) payloads off len = Inr (sub_slice data off (off + len))"
proof -
  let ?a = "off div V" and ?b = "div_ceil (off + len) V" and ?t = "table_of sha data"
  have aV: "?a * V \<le> off" by simp
  have ab: "?a < ?b" unfolding div_ceil_less using aV assms(3) by linarith
  have "\<exists>pieces. visit_all (slice_block ?t payloads off len) [] [?a..<k] = Inr pieces \<and>
      concat pieces = sub_slice data off (max off (min (off + len) (k * V)))" if "?a \<le> k" "k \<le> ?b" for k
    using that
  proof (induction k rule: nat_induct_at_least)
    case base
    have "max off (min (off + len) (?a * V)) = off" using aV by linarith
    then show ?case by (simp add: sub_slice_def)
  next
    case (Suc k)
    then obtain pieces where p: "visit_all (slice_block ?t payloads off len) [] [?a..<k] = Inr pieces"
      "concat pieces = sub_slice data off (max off (min (off + len) (k * V)))" by auto
    have mem: "k \<in> set [?a..<?b]" using Suc by simp
    note b = covering_bounds [OF assms(1) mem]
    let ?piece = "sub_slice data (max off (k * V)) (min (off + len) ((k + 1) * V))"
    have "slice_block ?t payloads off len pieces k = Inr (pieces @ [?piece])"
      unfolding slice_block_def block_range_table [OF b(1)] and_then_Inr prod.case bspec [OF assms(4) mem] context_of_simps
        block_piece [OF assms(1) mem] or_panic_simps ..
    moreover have "[?a..<Suc k] = [?a..<k] @ [k]" using Suc.hyps by simp
    moreover have "concat (pieces @ [?piece]) = sub_slice data off (max off (min (off + len) (Suc k * V)))"
    proof -
      have "min (off + len) (k * V) = k * V" "max off (min (off + len) (Suc k * V)) = min (off + len) ((k + 1) * V)"
        using b assms(3) by simp_all
      moreover have "sub_slice data off (max off (k * V)) @ ?piece = sub_slice data off (min (off + len) ((k + 1) * V))"
        by (rule sub_slice_join) (use b assms(1,3) in simp_all)
      ultimately show ?thesis using p(2) by simp
    qed
    ultimately show ?case using p(1) by (simp only: visit_all_snoc and_then_Inr) blast
  qed
  from this [of ?b] ab obtain pieces where p: "visit_all (slice_block ?t payloads off len) [] [?a..<?b] = Inr pieces"
    "concat pieces = sub_slice data off (max off (min (off + len) (?b * V)))" by auto
  have "off + len \<le> ?b * V" using div_ceil_bounds(1) [OF V_pos, of "off + len"] by (simp add: mult.commute)
  then have "max off (min (off + len) (?b * V)) = off + len" by linarith
  moreover have "blocks_covering ?t off len = Inr [?a..<?b]" using assms(1-3) by (simp only: covering_table)
  ultimately show ?thesis using p by (simp add: read_list_def)
qed

section \<open>The table and the payloads\<close>

text \<open>The metadata of a segment whose postings file has the data region \<open>data\<close>, and hashes without collisions there.\<close>

definition published :: "pack_crates \<Rightarrow> segment_meta \<Rightarrow> bytes \<Rightarrow> bool" where
  "published X meta data \<longleftrightarrow>
     (\<forall>x. length (sha256 X x) = 32) \<and> length (data @ postings_tail (sha256 X) data) < 2 ^ 64 \<and>
     meta_postings_data_len meta = length data \<and> meta_postings_len meta = length (data @ postings_tail (sha256 X) data) \<and>
     meta_postings_tail_hash meta = hex (sha256 X (postings_tail (sha256 X) data))"

definition no_collisions :: "pack_crates \<Rightarrow> bytes \<Rightarrow> bool" where
  "no_collisions X data \<longleftrightarrow>
     (\<forall>x. sha256 X x = sha256 X (postings_tail (sha256 X) data) \<longrightarrow> x = postings_tail (sha256 X) data) \<and>
     (\<forall>k x. k < div_ceil (length data) V \<longrightarrow> sha256 X x = sha256 X (data_block data k) \<longrightarrow> x = data_block data k)"

definition table_ok :: "pack_crates \<Rightarrow> bytes \<Rightarrow> posting_state \<Rightarrow> bool" where
  "table_ok X data s \<longleftrightarrow> (\<forall>t. ps_table s = Some t \<longrightarrow> t = table_of (sha256 X) data)"

definition honest :: "pack_crates \<Rightarrow> get_ranges \<Rightarrow> segment_meta \<Rightarrow> bytes \<Rightarrow> bool" where
  "honest X store meta data \<longleftrightarrow> (\<forall>ranges. store (segment_blob (seg_id meta) ''postings.bin'') ranges =
     Inr (map (\<lambda>(off, len). sub_slice (data @ postings_tail (sha256 X) data) off (off + len)) ranges))"

lemma length_postings_tail:
  assumes "\<forall>x. length (sha x) = 32"
  shows "length (postings_tail sha data) = div_ceil (length data) V * 32 + POSTINGS_FOOTER_BYTES"
  using length_concat_uniform [of "data_blocks data" sha 32] assms
  by (simp add: postings_tail_def POSTINGS_FOOTER_BYTES_def POSTINGS_MAGIC_def)

lemma cached_bytes_known:
  assumes "cached_bytes X d seg name (hex (sha256 X c)) fetch = Inr (bs, d')" "\<forall>x. sha256 X x = sha256 X c \<longrightarrow> x = c"
  shows "bs = c"
  using assms by (auto simp: cached_bytes_def read_verified_def Let_def dest!: hex_inj split: option.splits if_splits)

lemma postings_table_known:
  assumes "published X meta data" "no_collisions X data" "table_ok X data s" "postings_table X store meta s = Inr (t, s')"
  shows "t = table_of (sha256 X) data" "table_ok X data s'"
proof -
  from assms(1) have p: "\<forall>x. length (sha256 X x) = 32" "length (data @ postings_tail (sha256 X) data) < 2 ^ 64"
    "meta_postings_data_len meta = length data" "meta_postings_len meta = length (data @ postings_tail (sha256 X) data)"
    "meta_postings_tail_hash meta = hex (sha256 X (postings_tail (sha256 X) data))" by (auto simp: published_def)
  note parse = parse_finished_postings [OF p(1,2)]
  have "t = table_of (sha256 X) data \<and> table_ok X data s'"
  proof (cases "ps_table s")
    case (Some t0)
    with assms(3,4) show ?thesis by (auto simp: postings_table_def table_ok_def)
  next
    case None
    from assms(4) None obtain tail d where c:
      "cached_bytes X (ps_disk s) (seg_id meta) ''postings.tail'' (meta_postings_tail_hash meta) (\<lambda>_.
         and_then (store (segment_blob (seg_id meta) ''postings.bin'') [(meta_postings_data_len meta,
           div_ceil (meta_postings_data_len meta) V * 32 + POSTINGS_FOOTER_BYTES)]) (\<lambda>ranges.
         ensure (length ranges = 1) ''postings tail fetch returned no range'' (Inr (ranges ! 0)))) = Inr (tail, d)"
      "parse_postings (meta_postings_len meta) tail = Inr t" "ps_table s' = Some t"
      unfolding postings_table_def Let_def by auto
    have "tail = postings_tail (sha256 X) data"
      by (rule cached_bytes_known [OF c(1) [unfolded p(5)]]) (use assms(2) in \<open>simp add: no_collisions_def\<close>)
    with c(2) p(4) parse have "t = table_of (sha256 X) data" by (simp add: table_of_def)
    with c(3) show ?thesis by (simp add: table_ok_def)
  qed
  then show "t = table_of (sha256 X) data" "table_ok X data s'" by simp_all
qed

lemma postings_table_served:
  assumes "published X meta data" "no_collisions X data" "table_ok X data s" "honest X store meta data"
  shows "\<exists>s'. postings_table X store meta s = Inr (table_of (sha256 X) data, s')"
proof (cases "ps_table s")
  case (Some t)
  then show ?thesis using assms(3) by (auto simp: postings_table_def table_ok_def)
next
  case None
  from assms(1) have p: "\<forall>x. length (sha256 X x) = 32" "length (data @ postings_tail (sha256 X) data) < 2 ^ 64"
    "meta_postings_data_len meta = length data" "meta_postings_len meta = length (data @ postings_tail (sha256 X) data)"
    "meta_postings_tail_hash meta = hex (sha256 X (postings_tail (sha256 X) data))" by (auto simp: published_def)
  let ?tail = "postings_tail (sha256 X) data" and ?n = "div_ceil (length data) V * 32 + POSTINGS_FOOTER_BYTES"
  note len = length_postings_tail [OF p(1), of data]
  define fetch where "fetch = (\<lambda>_ :: unit. and_then (store (segment_blob (seg_id meta) ''postings.bin'') [(length data, ?n)]) (\<lambda>ranges.
         ensure (length ranges = 1) ''postings tail fetch returned no range'' (Inr (ranges ! 0))))"
  have f: "fetch () = Inr ?tail" using assms(4) len by (simp add: fetch_def honest_def sub_slice_def)
  have "\<exists>d. cached_bytes X (ps_disk s) (seg_id meta) ''postings.tail'' (hex (sha256 X ?tail)) fetch = Inr (?tail, d)"
  proof (cases "read_verified X (ps_disk s) (seg_id meta @ ''/'' @ ''postings.tail'') (hex (sha256 X ?tail))")
    case None
    then show ?thesis unfolding cached_bytes_def Let_def f by simp
  next
    case (Some bs)
    then have "sha256 X bs = sha256 X ?tail" by (auto simp: read_verified_def dest!: hex_inj split: option.splits if_splits)
    then have "bs = ?tail" using assms(2) by (simp add: no_collisions_def)
    then show ?thesis using Some unfolding cached_bytes_def Let_def by simp
  qed
  then obtain d where "cached_bytes X (ps_disk s) (seg_id meta) ''postings.tail'' (meta_postings_tail_hash meta) fetch = Inr (?tail, d)"
    using p(5) by auto
  moreover have "add_u64 (length data) ?n = Some (meta_postings_len meta)" using p(2,4) len by (simp add: add_u64_def)
  moreover have "parse_postings (meta_postings_len meta) ?tail = Inr (table_of (sha256 X) data)"
    using parse_finished_postings [OF p(1,2)] p(4) by (simp add: table_of_def)
  ultimately show ?thesis unfolding postings_table_def None option.case Let_def p(3)
    by (simp add: fetch_def table_of_def)
qed

definition payloads_ok :: "bytes \<Rightarrow> payloads \<Rightarrow> bool" where
  "payloads_ok data P \<longleftrightarrow> (\<forall>k bs. P k = Some bs \<longrightarrow> bs = data_block data k)"

lemma probe_blocks:
  assumes nc: "no_collisions X data" and ks: "\<forall>k\<in>set ks. k < div_ceil (length data) V"
  shows "\<exists>P M. visit_all (probe_block X range_cache meta (table_of (sha256 X) data) d) (Map.empty, []) ks = Inr (P, M) \<and>
    payloads_ok data P \<and> set ks \<subseteq> dom P \<union> set M \<and> set M \<subseteq> set ks"
  using ks
proof (induction ks rule: rev_induct)
  case Nil
  then show ?case by (simp add: payloads_ok_def)
next
  case (snoc k ks)
  then obtain P M where IH: "visit_all (probe_block X range_cache meta (table_of (sha256 X) data) d) (Map.empty, []) ks = Inr (P, M)"
    "payloads_ok data P" "set ks \<subseteq> dom P \<union> set M" "set M \<subseteq> set ks" by auto
  have k: "k < div_ceil (length data) V" using snoc.prems by simp
  then have h: "get (table_hashes (table_of (sha256 X) data)) k = Some (sha256 X (data_block data k))"
    by (simp add: table_of_def get_def data_blocks_def)
  define hit where "hit = (if range_cache then read_verified X d (posting_block_path (seg_id meta) k) (hex (sha256 X (data_block data k))) else None)"
  have step: "probe_block X range_cache meta (table_of (sha256 X) data) d (P, M) k =
      Inr (case hit of Some bs \<Rightarrow> (P(k \<mapsto> bs), M) | None \<Rightarrow> (P, M @ [k]))"
    unfolding probe_block_def prod.case h or_panic_simps by (simp add: hit_def)
  show ?case
  proof (cases hit)
    case None
    then show ?thesis using IH step by (auto simp: visit_all_snoc)
  next
    case (Some bs)
    then have "sha256 X bs = sha256 X (data_block data k)"
      by (auto simp: hit_def read_verified_def dest!: hex_inj split: option.splits if_splits)
    with nc k have "bs = data_block data k" by (simp add: no_collisions_def)
    with Some IH step show ?thesis by (auto simp: visit_all_snoc payloads_ok_def)
  qed
qed

lemma verify_table:
  assumes "k < div_ceil (length data) V"
  shows "verify_block (sha256 X) (table_of (sha256 X) data) k bs = Inr () \<longleftrightarrow>
    length bs = length (data_block data k) \<and> sha256 X bs = sha256 X (data_block data k)"
proof -
  have h: "get (table_hashes (table_of (sha256 X) data)) k = Some (sha256 X (data_block data k))"
    using assms by (simp add: table_of_def get_def data_blocks_def)
  show ?thesis unfolding verify_block_def block_range_table [OF assms] and_then_Inr prod.case h or_panic_simps by simp
qed

lemma accept_blocks:
  assumes nc: "no_collisions X data" and "\<forall>k\<in>set M. k < div_ceil (length data) V" "length fetched = length M"
    and "visit_all (accept_block X range_cache meta (table_of (sha256 X) data)) (P, d) (zip M fetched) = Inr (P', d')" "payloads_ok data P"
  shows "payloads_ok data P' \<and> dom P \<union> set M \<subseteq> dom P'"
  using assms(2-)
proof (induction M arbitrary: fetched P d)
  case (Cons k M)
  then obtain bs rest where f: "fetched = bs # rest" by (cases fetched) auto
  have k: "k < div_ceil (length data) V" using Cons.prems(1) by simp
  from Cons.prems(3) obtain d1 where a: "verify_block (sha256 X) (table_of (sha256 X) data) k bs = Inr ()"
    "visit_all (accept_block X range_cache meta (table_of (sha256 X) data)) (P(k \<mapsto> bs), d1) (zip M rest) = Inr (P', d')"
    by (auto simp: f visit_all_Cons accept_block_def simp del: visit_all.simps(2))
  have "bs = data_block data k" using a(1) nc k by (simp add: verify_table no_collisions_def)
  then have "payloads_ok data (P(k \<mapsto> bs))" using Cons.prems(4) by (simp add: payloads_ok_def)
  moreover have "\<forall>k\<in>set M. k < div_ceil (length data) V" "length rest = length M" using Cons.prems(1,2) f by simp_all
  ultimately have "payloads_ok data P'" "dom (P(k \<mapsto> bs)) \<union> set M \<subseteq> dom P'" using Cons.IH [OF _ _ a(2)] by blast+
  moreover have "dom (P(k \<mapsto> bs)) = insert k (dom P)" by simp
  ultimately show ?case by auto
qed auto

lemma fetch_missing_known:
  assumes nc: "no_collisions X data" and "\<forall>k\<in>set M. k < div_ceil (length data) V" "payloads_ok data P"
    and "fetch_missing X store range_cache meta (table_of (sha256 X) data) P M d = Inr (P', d')"
  shows "payloads_ok data P' \<and> dom P \<union> set M \<subseteq> dom P'"
proof (cases "M = []")
  case True
  then show ?thesis using assms by (simp add: fetch_missing_def)
next
  case False
  with assms(4) obtain fetched where "length fetched = length M"
    "visit_all (accept_block X range_cache meta (table_of (sha256 X) data)) (P, d) (zip M fetched) = Inr (P', d')"
    by (auto simp: fetch_missing_def)
  from accept_blocks [OF nc assms(2) this assms(3)] show ?thesis .
qed

lemma block_ranges_table:
  "\<forall>k\<in>set M. k < div_ceil (length data) V \<Longrightarrow>
   visit_all (\<lambda>rs idx. and_then (block_range (table_of sha data) idx) (\<lambda>r. Inr (rs @ [r]))) [] M =
     Inr (map (\<lambda>k. (k * V, length (data_block data k))) M)"
  by (induction M rule: rev_induct) (auto simp: visit_all_snoc block_range_table)

lemma fetch_missing_served:
  assumes "honest X store meta data" "\<forall>k\<in>set M. k < div_ceil (length data) V"
  shows "\<exists>P' d'. fetch_missing X store range_cache meta (table_of (sha256 X) data) P M d = Inr (P', d')"
proof -
  let ?t = "table_of (sha256 X) data"
  have bytes: "sub_slice (data @ postings_tail (sha256 X) data) (k * V) (k * V + length (data_block data k)) = data_block data k"
    if "k < div_ceil (length data) V" for k
    using that by (auto simp: sub_slice_def div_ceil_less data_block_def less_imp_le min_def)
  have "\<exists>P' d'. visit_all (accept_block X range_cache meta ?t) (P, d) (zip ks (map (data_block data) ks)) = Inr (P', d')"
    if "\<forall>k\<in>set ks. k < div_ceil (length data) V" for ks P d
    using that
  proof (induction ks arbitrary: P d)
    case (Cons k ks)
    have "verify_block (sha256 X) ?t k (data_block data k) = Inr ()" using Cons.prems by (simp add: verify_table)
    then show ?case using Cons by (simp add: accept_block_def)
  qed simp
  moreover have "store (segment_blob (seg_id meta) ''postings.bin'') (map (\<lambda>k. (k * V, length (data_block data k))) M) = Inr (map (data_block data) M)"
    using assms by (simp add: honest_def bytes)
  ultimately show ?thesis using assms(2) by (auto simp: fetch_missing_def block_ranges_table)
qed

section \<open>Reading lists\<close>

definition range_ok :: "u32 \<Rightarrow> nat \<Rightarrow> u64 \<times> u32 \<times> u64 \<Rightarrow> bool" where
  "range_ok n data_len = (\<lambda>(off, cnt, len). 0 < cnt \<and> cnt \<le> n \<and> 0 < len \<and> unat off + unat len < 2 ^ 64 \<and> unat off + unat len \<le> data_len)"

lemma posting_ranges_iff:
  "posting_ranges needed n data_len = Inr ranges \<longleftrightarrow>
     list_all (range_ok n data_len) needed \<and> ranges = map (\<lambda>(off, cnt, len). (unat off, unat len)) needed"
proof (induction needed arbitrary: ranges rule: rev_induct)
  case Nil
  then show ?case by (auto simp: posting_ranges_def)
next
  case (snoc e needed)
  obtain off cnt len where e: "e = (off, cnt, len)" by (cases e)
  have "posting_ranges (needed @ [e]) n data_len =
      and_then (posting_ranges needed n data_len) (\<lambda>ranges. and_then (posting_range n data_len e) (\<lambda>r. Inr (ranges @ [r])))"
    by (simp add: posting_ranges_def visit_all_snoc)
  then show ?case by (auto simp: snoc.IH e posting_range_def range_ok_def)
qed

abbreviation covering :: "nat \<times> nat \<Rightarrow> nat list" where
  "covering r \<equiv> [fst r div V..<div_ceil (fst r + snd r) V]"

lemma set_fold_insort: "set (fold insort_insert bs ids) = set bs \<union> set ids"
  by (induction bs arbitrary: ids) (auto simp: set_insort_insert)

lemma block_set_table:
  assumes "list_all (range_ok n (length data)) needed"
  shows "\<exists>S. visit_all (\<lambda>ids (off, len). and_then (blocks_covering (table_of sha data) off len) (\<lambda>bs. Inr (fold insort_insert bs ids))) []
      (map (\<lambda>(off, cnt, len). (unat off, unat len)) needed) = Inr S \<and>
    set S = (\<Union>(off, cnt, len)\<in>set needed. set (covering (unat off, unat len)))"
  using assms
proof (induction needed rule: rev_induct)
  case (snoc e needed)
  obtain off cnt len where e: "e = (off, cnt, len)" by (cases e)
  have "blocks_covering (table_of sha data) (unat off) (unat len) = Inr (covering (unat off, unat len))"
    using snoc.prems by (simp add: covering_table e range_ok_def word_less_nat_alt)
  with snoc show ?case by (auto simp: visit_all_snoc e set_fold_insort)
qed simp

definition decode_lists where
  "decode_lists strat t payloads n s items = visit_all (\<lambda>out ((off, cnt, _), (range_offset, range_len)).
      and_then (read_list t payloads range_offset range_len) (\<lambda>bs.
      and_then (decode_list strat bs cnt n) (\<lambda>ids. Inr (out(off \<mapsto> ids))))) s items"

lemma decode_lists_exact:
  assumes "list_all (range_ok n (length data)) needed" "distinct (map fst needed)"
    and "\<forall>(off, cnt, len)\<in>set needed. \<forall>k\<in>set (covering (unat off, unat len)). payloads k = Some (data_block data k)"
  shows "decode_lists strat (table_of sha data) payloads n Map.empty (zip needed (map (\<lambda>(off, cnt, len). (unat off, unat len)) needed)) = Inr out \<longleftrightarrow>
    dom out = fst ` set needed \<and>
    (\<forall>(off, cnt, len)\<in>set needed. \<exists>ids. out off = Some ids \<and>
       decode_list strat (sub_slice data (unat off) (unat off + unat len)) cnt n = Inr ids)"
  using assms
proof (induction needed arbitrary: out rule: rev_induct)
  case Nil
  then show ?case by (auto simp: decode_lists_def)
next
  case (snoc e needed)
  let ?ranges = "map (\<lambda>(off, cnt, len). (unat off, unat len))" and ?t = "table_of sha data"
  obtain off cnt len where e: "e = (off, cnt, len)" by (cases e)
  have r: "read_list ?t payloads (unat off) (unat len) = Inr (sub_slice data (unat off) (unat off + unat len))"
    using snoc.prems(1,3) by (intro read_list_exact) (auto simp: e range_ok_def word_less_nat_alt)
  have off: "off \<notin> fst ` set needed" using snoc.prems(2) by (auto simp: e)
  note IH = snoc.IH
  have prems: "list_all (range_ok n (length data)) needed" "distinct (map fst needed)"
    "\<forall>(off, cnt, len)\<in>set needed. \<forall>k\<in>set (covering (unat off, unat len)). payloads k = Some (data_block data k)" using snoc.prems by auto
  have step: "decode_lists strat ?t payloads n Map.empty (zip (needed @ [e]) (?ranges (needed @ [e]))) =
      and_then (decode_lists strat ?t payloads n Map.empty (zip needed (?ranges needed))) (\<lambda>out.
      and_then (decode_list strat (sub_slice data (unat off) (unat off + unat len)) cnt n) (\<lambda>ids. Inr (out(off \<mapsto> ids))))"
    by (simp add: decode_lists_def visit_all_snoc e r)
  show ?case
  proof
    assume "decode_lists strat ?t payloads n Map.empty (zip (needed @ [e]) (?ranges (needed @ [e]))) = Inr out"
    then obtain out0 ids where o: "decode_lists strat ?t payloads n Map.empty (zip needed (?ranges needed)) = Inr out0"
      "decode_list strat (sub_slice data (unat off) (unat off + unat len)) cnt n = Inr ids" "out = out0(off \<mapsto> ids)" unfolding step by auto
    note known = iffD1 [OF IH [OF prems] o(1)]
    show "dom out = fst ` set (needed @ [e]) \<and> (\<forall>(off, cnt, len)\<in>set (needed @ [e]). \<exists>ids. out off = Some ids \<and>
       decode_list strat (sub_slice data (unat off) (unat off + unat len)) cnt n = Inr ids)"
    proof (intro conjI ballI)
      show "dom out = fst ` set (needed @ [e])" using known by (simp add: o(3) e)
      fix x assume "x \<in> set (needed @ [e])"
      then show "case x of (off, cnt, len) \<Rightarrow> \<exists>ids. out off = Some ids \<and>
          decode_list strat (sub_slice data (unat off) (unat off + unat len)) cnt n = Inr ids"
        using known o(2,3) off by (fastforce simp: e)
    qed
  next
    assume a: "dom out = fst ` set (needed @ [e]) \<and> (\<forall>(off, cnt, len)\<in>set (needed @ [e]). \<exists>ids. out off = Some ids \<and>
       decode_list strat (sub_slice data (unat off) (unat off + unat len)) cnt n = Inr ids)"
    then obtain ids where ids: "out off = Some ids" "decode_list strat (sub_slice data (unat off) (unat off + unat len)) cnt n = Inr ids"
      by (auto simp: e)
    let ?out0 = "out(off := None)"
    have "dom ?out0 = fst ` set needed" using a off by (auto simp: e)
    moreover have "\<forall>(off', cnt, len)\<in>set needed. \<exists>ids. ?out0 off' = Some ids \<and>
        decode_list strat (sub_slice data (unat off') (unat off' + unat len)) cnt n = Inr ids"
      using a off by force
    ultimately have "decode_lists strat ?t payloads n Map.empty (zip needed (?ranges needed)) = Inr ?out0" using IH [OF prems] by blast
    then show "decode_lists strat ?t payloads n Map.empty (zip (needed @ [e]) (?ranges (needed @ [e]))) = Inr out"
      unfolding step using ids by (simp add: fun_upd_idem)
  qed
qed

lemma payloads_cover:
  assumes "payloads_ok data P" "set S \<subseteq> dom P" "set S = (\<Union>(off, cnt, len)\<in>set needed. set (covering (unat off, unat len)))"
  shows "\<forall>(off, cnt, len)\<in>set needed. \<forall>k\<in>set (covering (unat off, unat len)). P k = Some (data_block data k)"
proof (intro ballI, unfold split_paired_all prod.case, intro ballI)
  fix off cnt len k assume "(off, cnt, len) \<in> set needed" "k \<in> set (covering (unat off, unat len))"
  then have "k \<in> set S" unfolding assms(3) by blast
  then obtain bs where "P k = Some bs" using assms(2) by blast
  with assms(1) show "P k = Some (data_block data k)" unfolding payloads_ok_def by blast
qed

lemma read_posting_blocks_known:
  assumes "published X meta data" "no_collisions X data" "table_ok X data s" "distinct (map fst needed)"
    and read: "read_posting_blocks X store range_cache strat meta n needed s = Inr (out, s')"
  shows "table_ok X data s' \<and> dom out = fst ` set needed \<and>
    (\<forall>(off, cnt, len)\<in>set needed. \<exists>ids. out off = Some ids \<and>
       decode_list strat (sub_slice data (unat off) (unat off + unat len)) cnt n = Inr ids)"
proof (cases "needed = []")
  case True
  then show ?thesis using assms by (auto simp: read_posting_blocks_def)
next
  case False
  let ?t = "table_of (sha256 X) data"
  from read False obtain t s1 ranges S P M P' d' where r: "postings_table X store meta s = Inr (t, s1)"
    "posting_ranges needed n (table_data_len t) = Inr ranges"
    "visit_all (\<lambda>ids (off, len). and_then (blocks_covering t off len) (\<lambda>bs. Inr (fold insort_insert bs ids))) [] ranges = Inr S"
    "visit_all (probe_block X range_cache meta t (ps_disk s1)) (Map.empty, []) S = Inr (P, M)"
    "fetch_missing X store range_cache meta t P M (ps_disk s1) = Inr (P', d')"
    "decode_lists strat t P' n Map.empty (zip needed ranges) = Inr out" "s' = s1\<lparr>ps_disk := d'\<rparr>"
    unfolding read_posting_blocks_def decode_lists_def by (auto split: prod.splits)
  note t = postings_table_known [OF assms(1-3) r(1)]
  have ok: "list_all (range_ok n (length data)) needed" "ranges = map (\<lambda>(off, cnt, len). (unat off, unat len)) needed"
    using r(2) by (simp_all add: posting_ranges_iff t(1)) (simp_all add: table_of_def)
  from block_set_table [OF ok(1), of "sha256 X"] r(3) have S: "set S = (\<Union>(off, cnt, len)\<in>set needed. set (covering (unat off, unat len)))"
    unfolding t(1) ok(2) by auto
  have lt: "\<forall>k\<in>set S. k < div_ceil (length data) V"
    unfolding S using ok(1) covering_bounds(1) [of _ _ data] by (fastforce simp: list_all_iff range_ok_def)
  from probe_blocks [OF assms(2) lt, of range_cache meta "ps_disk s1"] r(4) have P: "payloads_ok data P" "set S \<subseteq> dom P \<union> set M" "set M \<subseteq> set S"
    unfolding t(1) by auto
  have M: "\<forall>k\<in>set M. k < div_ceil (length data) V" using lt P(3) by blast
  from fetch_missing_known [OF assms(2) M P(1) r(5) [unfolded t(1)]] have P': "payloads_ok data P'" "set S \<subseteq> dom P'" using P(2) by blast+
  have "\<forall>(off, cnt, len)\<in>set needed. \<forall>k\<in>set (covering (unat off, unat len)). P' k = Some (data_block data k)"
    by (rule payloads_cover [OF P' S])
  from iffD1 [OF decode_lists_exact [OF ok(1) assms(4) this] r(6) [unfolded t(1) ok(2)]] t(2) r(7)
  show ?thesis by (simp add: table_ok_def)
qed

lemma read_posting_blocks_served:
  assumes "published X meta data" "no_collisions X data" "table_ok X data s" "distinct (map fst needed)" "honest X store meta data"
    and ok: "list_all (range_ok n (length data)) needed"
    and dec: "\<forall>(off, cnt, len)\<in>set needed. \<exists>ids. decode_list strat (sub_slice data (unat off) (unat off + unat len)) cnt n = Inr ids"
  shows "\<exists>out s'. read_posting_blocks X store range_cache strat meta n needed s = Inr (out, s')"
proof (cases "needed = []")
  case True
  then show ?thesis by (auto simp: read_posting_blocks_def)
next
  case False
  let ?t = "table_of (sha256 X) data" and ?ranges = "map (\<lambda>(off, cnt, len). (unat off, unat len)) needed"
  from postings_table_served [OF assms(1-3,5)] obtain s1 where t: "postings_table X store meta s = Inr (?t, s1)" by blast
  have r: "posting_ranges needed n (table_data_len ?t) = Inr ?ranges" using ok by (simp add: posting_ranges_iff) (simp add: table_of_def)
  from block_set_table [OF ok, of "sha256 X"] obtain S where
    S: "visit_all (\<lambda>ids (off, len). and_then (blocks_covering ?t off len) (\<lambda>bs. Inr (fold insort_insert bs ids))) [] ?ranges = Inr S"
      "set S = (\<Union>(off, cnt, len)\<in>set needed. set (covering (unat off, unat len)))" by blast
  have lt: "\<forall>k\<in>set S. k < div_ceil (length data) V"
    unfolding S using ok covering_bounds(1) [of _ _ data] by (fastforce simp: list_all_iff range_ok_def)
  from probe_blocks [OF assms(2) lt, of range_cache meta "ps_disk s1"] obtain P M where
    P: "visit_all (probe_block X range_cache meta ?t (ps_disk s1)) (Map.empty, []) S = Inr (P, M)"
      "payloads_ok data P" "set S \<subseteq> dom P \<union> set M" "set M \<subseteq> set S" by blast
  have M: "\<forall>k\<in>set M. k < div_ceil (length data) V" using lt P(4) by blast
  from fetch_missing_served [OF assms(5) M] obtain P' d' where f: "fetch_missing X store range_cache meta ?t P M (ps_disk s1) = Inr (P', d')" by blast
  from fetch_missing_known [OF assms(2) M P(2) f] have P': "payloads_ok data P'" "set S \<subseteq> dom P'" using P(3) by blast+
  have pay: "\<forall>(off, cnt, len)\<in>set needed. \<forall>k\<in>set (covering (unat off, unat len)). P' k = Some (data_block data k)"
    by (rule payloads_cover [OF P' S(2)])
  define out where "out = map_of (map (\<lambda>(off, cnt, len). (off, projr (decode_list strat (sub_slice data (unat off) (unat off + unat len)) cnt n))) needed)"
  have "dom out = fst ` set needed" by (force simp: out_def dom_map_of_conv_image_fst)
  moreover have "\<forall>(off, cnt, len)\<in>set needed. \<exists>ids. out off = Some ids \<and>
      decode_list strat (sub_slice data (unat off) (unat off + unat len)) cnt n = Inr ids"
  proof (intro ballI, clarify)
    fix off cnt len assume mem: "(off, cnt, len) \<in> set needed"
    with dec obtain ids where d: "decode_list strat (sub_slice data (unat off) (unat off + unat len)) cnt n = Inr ids" by blast
    have "distinct (map fst (map (\<lambda>(off, cnt, len). (off, projr (decode_list strat (sub_slice data (unat off) (unat off + unat len)) cnt n))) needed))"
      using assms(4) by (simp add: comp_def case_prod_unfold)
    moreover have "(off, ids) \<in> set (map (\<lambda>(off, cnt, len). (off, projr (decode_list strat (sub_slice data (unat off) (unat off + unat len)) cnt n))) needed)"
      using mem d by force
    ultimately have "out off = Some ids" unfolding out_def by (rule map_of_is_SomeI)
    with d show "\<exists>ids. out off = Some ids \<and> decode_list strat (sub_slice data (unat off) (unat off + unat len)) cnt n = Inr ids" by blast
  qed
  ultimately have "decode_lists strat ?t P' n Map.empty (zip needed ?ranges) = Inr out" using decode_lists_exact [OF ok assms(4) pay] by blast
  then show ?thesis using False unfolding read_posting_blocks_def decode_lists_def by (simp add: t r S(1) P(1) f)
qed

section \<open>Properties\<close>

lemma write_all_postings:
  assumes "pw_inv sha w data" "pw_out w = data" "pw_data_len w = length data"
  shows "\<exists>w'. visit_all (write_postings sha) w chunks = Inr w' \<and> pw_inv sha w' (data @ concat chunks) \<and> pw_out w' = data @ concat chunks \<and>
    pw_data_len w' = length (data @ concat chunks)"
  using assms
proof (induction chunks arbitrary: w data)
  case (Cons c chunks)
  from write_postings_inv [OF Cons.prems, of c] obtain w' where
    w': "write_postings sha w c = Inr w'" "pw_inv sha w' (data @ c)" "pw_out w' = data @ c" "pw_data_len w' = length (data @ c)" by blast
  from Cons.IH [OF w'(2-4)] w'(1) show ?case by simp
qed simp

text \<open>
  C19: A postings file verifies block by block. However the data is cut into writes, streaming it never fails; the finished blob is
  the data followed by a tail, and the table parsed back from that tail and the length of the blob covers exactly the data and
  accepts every 64 KiB block of it, the short last one included.
\<close>

theorem postings_file_round_trip:
  assumes sha: "\<forall>x. length (sha x) = 32" and small: "length (concat chunks @ postings_tail sha (concat chunks)) < 2 ^ 64"
  shows "\<exists>w tail t. visit_all (write_postings sha) new_postings chunks = Inr w \<and>
    finish_postings sha w = (concat chunks @ tail, length (concat chunks), hex (sha tail)) \<and>
    parse_postings (length (concat chunks @ tail)) tail = Inr t \<and> table_data_len t = length (concat chunks) \<and>
    (\<forall>k<div_ceil (length (concat chunks)) VERIFY_BLOCK_BYTES. verify_block sha t k (data_block (concat chunks) k) = Inr ())"
proof -
  let ?d = "concat chunks" and ?n = "div_ceil (length (concat chunks)) VERIFY_BLOCK_BYTES"
  let ?t = "\<lparr>table_data_len = length ?d, table_hashes = map sha (data_blocks ?d)\<rparr>"
  from write_all_postings [OF new_postings_inv, of sha chunks] obtain w where
    w: "visit_all (write_postings sha) new_postings chunks = Inr w" "pw_inv sha w ?d" "pw_out w = ?d" "pw_data_len w = length ?d"
    by (auto simp: new_postings_def)
  have "verify_block sha ?t k (data_block ?d k) = Inr ()" if k: "k < ?n" for k
  proof -
    have "k * VERIFY_BLOCK_BYTES < length ?d" using k by (simp add: div_ceil_less)
    moreover have "get (table_hashes ?t) k = Some (sha (data_block ?d k))" using k by (simp add: get_def data_blocks_def)
    ultimately show ?thesis by (simp add: verify_block_def block_range_def checked_sub_def data_block_def)
  qed
  then show ?thesis using w(1) finish_postings_blob [OF w(2-4)] parse_finished_postings [OF sha small]
    by (intro exI conjI) auto
qed

theorem postings_file_round_trip_witness:
  "\<exists>w tail t. visit_all (write_postings (\<lambda>_. replicate 32 0)) new_postings [[7], [], [8, 9]] = Inr w \<and>
    finish_postings (\<lambda>_. replicate 32 0) w = ([7, 8, 9] @ tail, 3, hex (replicate 32 0)) \<and>
    parse_postings (length ([7 :: u8, 8, 9] @ tail)) tail = Inr t \<and> table_data_len t = 3 \<and>
    verify_block (\<lambda>_. replicate 32 0) t 0 [7, 8, 9] = Inr ()"
proof -
  let ?sha = "\<lambda>_. replicate 32 0" and ?chunks = "[[7], [], [8, 9]] :: bytes list"
  have d: "concat ?chunks = [7, 8, 9]" by simp
  have n: "div_ceil (length [7 :: u8, 8, 9]) VERIFY_BLOCK_BYTES = 1" by (simp add: div_ceil_def VERIFY_BLOCK_BYTES_def)
  have len: "length (concat ?chunks @ postings_tail ?sha (concat ?chunks)) < 2 ^ 64"
    unfolding d postings_tail_def data_blocks_def n by (simp add: POSTINGS_MAGIC_def)
  have b: "data_block [7, 8, 9] 0 = [7, 8, 9]" by (simp add: data_block_def VERIFY_BLOCK_BYTES_def)
  from postings_file_round_trip [OF _ len] obtain w tail t where
    "visit_all (write_postings ?sha) new_postings ?chunks = Inr w" "finish_postings ?sha w = ([7, 8, 9] @ tail, length [7 :: u8, 8, 9], hex (replicate 32 0))"
    "parse_postings (length ([7, 8, 9] @ tail)) tail = Inr t" "table_data_len t = length [7 :: u8, 8, 9]"
    "\<forall>k<div_ceil (length [7 :: u8, 8, 9]) VERIFY_BLOCK_BYTES. verify_block ?sha t k (data_block [7, 8, 9] k) = Inr ()"
    unfolding d by auto
  then show ?thesis using b unfolding n by (intro exI [of _ w] exI [of _ tail] exI [of _ t]) auto
qed

text \<open>
  C7: Posting reads are authentic. Let a segment's metadata be that of a postings file with the data region \<open>data\<close>, and let no other bytes have the
  hash of its tail or of one of its blocks. Whatever the store returns and whatever the cache directory holds, a read of the needed
  lists either fails or returns, for every needed offset and for no other, the list decoded from exactly the bytes of \<open>data\<close>
  at that offset; the table it may keep for later reads is the file's table.
\<close>

theorem posting_reads_are_authentic:
  assumes "published X meta data" "no_collisions X data" "table_ok X data s" "distinct (map fst needed)"
    and "read_posting_blocks X store range_cache strat meta n needed s = Inr (out, s')"
  shows "table_ok X data s' \<and> dom out = fst ` set needed \<and>
    (\<forall>(off, cnt, len)\<in>set needed. \<exists>ids. out off = Some ids \<and>
       decode_list strat (sub_slice data (unat off) (unat off + unat len)) cnt n = Inr ids)"
  by (rule read_posting_blocks_known [OF assms])

text \<open>A file whose data region is the list \<open>[1, 3]\<close> below 8, and a hash function without collisions on it.\<close>

definition sample_tail :: bytes where
  "sample_tail = replicate 32 1 @ to_le_bytes 1 @ to_le_bytes 1 @ POSTINGS_MAGIC"

definition sample_hashes :: pack_crates where
  "sample_hashes = sample_zstd\<lparr>sha256 := \<lambda>x. if x = [25] then replicate 32 1 else if x = sample_tail then replicate 32 2 else replicate 32 0\<rparr>"

definition sample_meta :: segment_meta where
  "sample_meta = \<lparr>seg_id = ''s'', doc_count = 8, block_count = 8, terms_fst_len = 0, terms_fst_hash = '''', terms_tail_hash = '''',
     meta_postings_len = 57, meta_postings_hash = '''', meta_postings_data_len = 1, meta_postings_tail_hash = hex (replicate 32 2),
     docs_len = 0, docs_hash = '''', min_key = '''', max_key = '''', dead_hash = '''', dead_len = 0, failed_source_count = 0, meta_packs = []\<rparr>"

definition sample_ranges :: get_ranges where
  "sample_ranges name ranges = Inr (map (\<lambda>(off, len). sub_slice ([25] @ sample_tail) off (off + len)) ranges)"

definition fresh_state :: posting_state where
  "fresh_state = \<lparr>ps_disk = \<lparr>files = Map.empty, writable = (\<lambda>_. True)\<rparr>, ps_table = None\<rparr>"

lemma sample_tail_ne: "sample_tail \<noteq> [25]"
  by (simp add: sample_tail_def numeral_eq_Suc)

lemma sample_postings:
  "postings_tail (sha256 sample_hashes) [25] = sample_tail" "data_block [25] 0 = [25]" "div_ceil 1 V = 1"
  "sha256 sample_hashes sample_tail = replicate 32 2" "length sample_tail = 56"
proof -
  show "div_ceil 1 V = 1" by (simp add: div_ceil_def VERIFY_BLOCK_BYTES_def)
  then show "postings_tail (sha256 sample_hashes) [25] = sample_tail"
    by (simp add: postings_tail_def data_blocks_def data_block_def VERIFY_BLOCK_BYTES_def sample_hashes_def) (simp add: sample_tail_def)
  show "data_block [25] 0 = [25]" by (simp add: data_block_def VERIFY_BLOCK_BYTES_def)
  show "sha256 sample_hashes sample_tail = replicate 32 2" using sample_tail_ne by (simp add: sample_hashes_def)
  show "length sample_tail = 56" by (simp add: sample_tail_def POSTINGS_MAGIC_def)
qed

lemma sample_file:
  "published sample_hashes sample_meta [25]" "no_collisions sample_hashes [25]" "table_ok sample_hashes [25] fresh_state"
  "honest sample_hashes sample_ranges sample_meta [25]"
proof -
  show "published sample_hashes sample_meta [25]"
    using sample_postings by (simp add: published_def sample_meta_def) (simp add: sample_hashes_def)
  have "(replicate 32 a :: bytes) = replicate 32 b \<longleftrightarrow> a = b" for a b by (simp add: replicate_eq_replicate)
  then show "no_collisions sample_hashes [25]"
    using sample_postings sample_tail_ne by (auto simp: no_collisions_def) (auto simp: sample_hashes_def split: if_splits)
  show "table_ok sample_hashes [25] fresh_state" by (simp add: table_ok_def fresh_state_def)
  show "honest sample_hashes sample_ranges sample_meta [25]" by (simp add: honest_def sample_ranges_def sample_postings)
qed

theorem posting_reads_are_authentic_witness:
  "\<exists>out s'. read_posting_blocks sample_hashes sample_ranges True Trigram sample_meta 8 [(0, 2, 1)] fresh_state = Inr (out, s') \<and>
     out 0 = Some [1, 3]"
proof -
  have enc: "encode_posting_block [1, 3] 8 = [25]" by code_simp
  have "decode_posting_block [25] 2 8 = Inr [1, 3]" using fixed_block_roundtrip [of "[1, 3]" 8] by (simp add: enc)
  then have dec: "decode_list Trigram (sub_slice [25] (unat (0 :: u64)) (unat (0 :: u64) + unat (1 :: u64))) 2 8 = Inr [1, 3]"
    by (simp add: decode_list_def sub_slice_def)
  have ok: "list_all (range_ok 8 (length [25 :: u8])) [(0, 2, 1)]" by (simp add: range_ok_def)
  from read_posting_blocks_served [OF sample_file(1-3) _ sample_file(4) ok, of Trigram True] dec obtain out s' where
    read: "read_posting_blocks sample_hashes sample_ranges True Trigram sample_meta 8 [(0, 2, 1)] fresh_state = Inr (out, s')" by auto
  from posting_reads_are_authentic [OF sample_file(1-3) _ read] dec have "out 0 = Some [1, 3]" by auto
  with read show ?thesis by blast
qed

end
