(* ===== verification/Segment_Search.thy ===== *)
theory Segment_Search
  imports Posting_Read
begin

text \<open>
  Evaluating candidate plans over a segment: the dictionary and postings that \<open>merge_posting_runs\<close> wrote, the lookup
  and the list reads of \<open>read_candidate_batches\<close> in \<open>crates/index/src/segment.rs\<close>, and the evaluation of \<open>Posting_Eval\<close>. The locale
  \<open>posting_index\<close> is interpreted here on the merged files.
\<close>

section \<open>Definitions\<close>

text \<open>A map from offsets iterates in ascending order.\<close>

definition needed_list :: "(u64 \<rightharpoonup> u32 \<times> u64) \<Rightarrow> needed" where
  "needed_list m = map (\<lambda>off. (off, the (m off))) (sorted_list_of_set (dom m))"

definition segment_fetch ::
    "pack_crates \<Rightarrow> get_ranges \<Rightarrow> bool \<Rightarrow> strategy \<Rightarrow> segment_meta \<Rightarrow> u32 \<Rightarrow> posting_state \<Rightarrow> (u64 \<rightharpoonup> u32 \<times> u64) \<Rightarrow> block_lists result" where
  "segment_fetch X store range_cache strat meta id_space s needed =
     and_then (read_posting_blocks X store range_cache strat meta id_space (needed_list needed) s) (\<lambda>(out, _). Inr out)"

section \<open>The merged index as a posting index\<close>

definition segment_map :: "fst_crate \<Rightarrow> strategy \<Rightarrow> merged_index \<Rightarrow> term_map" where
  "segment_map F strat out = projr (open_terms F (terms_file out) strat)"

definition segment_lookup ::
    "fst_crate \<Rightarrow> (bytes \<Rightarrow> bytes) \<Rightarrow> strategy \<Rightarrow> u32 \<Rightarrow> (u64 \<times> doc_id) set \<Rightarrow> merged_index \<Rightarrow> crates \<Rightarrow> lookup" where
  "segment_lookup F sha strat n R out C =
     (if built F sha strat n R out then map_lookup C (segment_map F strat out) else (\<lambda>_. Inr None))"

definition segment_postings ::
    "fst_crate \<Rightarrow> (bytes \<Rightarrow> bytes) \<Rightarrow> strategy \<Rightarrow> u32 \<Rightarrow> (u64 \<times> doc_id) set \<Rightarrow> merged_index \<Rightarrow> crates \<Rightarrow> bytes \<Rightarrow> doc_id list" where
  "segment_postings F sha strat n R out C =
     (if built F sha strat n R out then index_postings C strat R else (\<lambda>_. []))"

lemma built_value:
  assumes "built F sha strat n R out"
  shows "\<exists>v. map_lookup C (segment_map F strat out) gram = Inr v \<and>
    (case v of None \<Rightarrow> index_postings C strat R gram = []
     | Some v \<Rightarrow> \<exists>data. postings_file out = data @ postings_tail sha data \<and> holds_list strat n data (index_postings C strat R gram) v)"
proof -
  from built_lookup [OF assms, of C] obtain m data where m: "open_terms F (terms_file out) strat = Inr m" "postings_file out = data @ postings_tail sha data"
    "\<forall>gram. \<exists>v. map_lookup C m gram = Inr v \<and> (case v of None \<Rightarrow> index_postings C strat R gram = [] | Some v \<Rightarrow> holds_list strat n data (index_postings C strat R gram) v)"
    by blast
  have map: "segment_map F strat out = m" by (simp add: segment_map_def m(1))
  from m(3) obtain v where "map_lookup C m gram = Inr v"
    "case v of None \<Rightarrow> index_postings C strat R gram = [] | Some v \<Rightarrow> holds_list strat n data (index_postings C strat R gram) v" by blast
  with m(2) show ?thesis unfolding map by (cases v) auto
qed

interpretation merged: posting_index "segment_lookup F sha strat n R out C" n "segment_postings F sha strat n R out C"
  for F sha strat n R out C
proof
  fix g
  show "\<exists>v. segment_lookup F sha strat n R out C g = Inr v"
    using built_value [of F sha strat n R out C g] by (auto simp: segment_lookup_def)
next
  fix g assume "segment_lookup F sha strat n R out C g = Inr None"
  then show "segment_postings F sha strat n R out C g = []"
    using built_value [of F sha strat n R out C g] by (auto simp: segment_lookup_def segment_postings_def split: if_splits)
next
  fix g v off c assume l: "segment_lookup F sha strat n R out C g = Inr (Some v)" and u: "unpack_posting (packed v) = (off, c)"
  then have b: "built F sha strat n R out" "map_lookup C (segment_map F strat out) g = Inr (Some v)" by (auto simp: segment_lookup_def split: if_splits)
  let ?ids = "index_postings C strat R g"
  from built_value [OF b(1), of C g] b(2) obtain data where h: "holds_list strat n data ?ids v" by auto
  note ok = index_postings_valid [OF b(1), of C g]
  have len: "?ids \<noteq> []" "length ?ids = unat c" using h u by (simp_all add: holds_list_def)
  have "c = 1 \<longrightarrow> unat off < 2 ^ 32 \<and> ?ids = [ucast off]"
  proof
    assume "c = 1"
    then have "length ?ids = 1" using len by simp
    then obtain i where i: "?ids = [i]" by (auto simp: length_Suc_conv)
    then have "off = ucast i" using h u by (simp add: holds_list_def)
    then have "unat off = unat i" by (simp add: unat_ucast_up)
    moreover have "(ucast off :: u32) = i"
    proof -
      have "unat (ucast off :: u32) = unat off mod 2 ^ 32" by (simp add: unat_ucast_down)
      also have "\<dots> = unat i" using \<open>unat off = unat i\<close> unat_lt32 [of i] by simp
      finally show ?thesis by (simp only: word_unat_eq_iff)
    qed
    ultimately show "unat off < 2 ^ 32 \<and> ?ids = [ucast off]" using unat_lt32 [of i] i by simp
  qed
  then show "segment_postings F sha strat n R out C g \<noteq> [] \<and> ascending (segment_postings F sha strat n R out C g) \<and>
      (\<forall>i\<in>set (segment_postings F sha strat n R out C g). i < n) \<and> length (segment_postings F sha strat n R out C g) = unat c \<and>
      (c = 1 \<longrightarrow> unat off < 2 ^ 32 \<and> segment_postings F sha strat n R out C g = [ucast off])"
    using ok len by (simp add: segment_postings_def b(1))
qed

section \<open>Leaves of a resolved query\<close>

fun gram_leaves :: "resolved \<Rightarrow> (u64 \<times> u32 \<times> u64) set" where
  "gram_leaves (RGram off c len) = {(off, c, len)}"
| "gram_leaves (RAnd cs) = (\<Union>c\<in>set cs. gram_leaves c)"
| "gram_leaves (ROr cs) = (\<Union>c\<in>set cs. gram_leaves c)"
| "gram_leaves _ = {}"

definition leaves_in :: "u32 \<Rightarrow> lookup \<Rightarrow> (u64 \<times> u32 \<times> u64) set \<Rightarrow> bool" where
  "leaves_in n lookup L \<longleftrightarrow> (\<forall>g r. resolve_gram n lookup g = Inr r \<longrightarrow> gram_leaves r \<subseteq> L)"

lemma resolve_leaves:
  "leaves_in n lookup L \<Longrightarrow> resolve n s lookup q = Inr r \<Longrightarrow> gram_leaves r \<subseteq> L"
  "leaves_in n lookup L \<Longrightarrow> resolve_and n s lookup qs = Inr (Some cs) \<Longrightarrow> \<forall>c\<in>set cs. gram_leaves c \<subseteq> L"
  "leaves_in n lookup L \<Longrightarrow> resolve_or n s lookup qs' = Inr (Some cs') \<Longrightarrow> \<forall>c\<in>set cs'. gram_leaves c \<subseteq> L"
proof (induction n s lookup q and n s lookup qs and n s lookup qs' arbitrary: r and cs and cs'
    rule: resolve_resolve_and_resolve_or.induct)
  case (2 n s lookup g)
  then show ?case by (auto simp: leaves_in_def)
next
  case (3 n s lookup subs)
  then obtain out where o: "resolve_and n s lookup subs = Inr out" by (auto split: sum.splits)
  show ?case
  proof (cases out)
    case None
    then show ?thesis using 3 o by simp
  next
    case (Some cs)
    then have leaves: "\<forall>c\<in>set cs. gram_leaves c \<subseteq> L" using 3 o by blast
    have r: "r = prune_and cs s" using 3 o Some by simp
    obtain ks where ks: "set ks \<subseteq> set cs" "prune_and cs s = RAnd ks \<or> ks = [prune_and cs s] \<or> prune_and cs s = RAll"
      using prune_and_shape by blast
    then have "\<forall>k\<in>set ks. gram_leaves k \<subseteq> L" using leaves by blast
    then show ?thesis using ks(2) r by (elim disjE) (simp_all add: UN_subset_iff)
  qed
next
  case (4 n s lookup subs)
  then obtain out where o: "resolve_or n s lookup subs = Inr out" by (auto split: sum.splits)
  show ?case
  proof (cases out)
    case None
    then show ?thesis using 4 o by simp
  next
    case (Some cs)
    then have leaves: "\<forall>c\<in>set cs. gram_leaves c \<subseteq> L" using 4 o by blast
    have "r = (case cs of [c] \<Rightarrow> c | [] \<Rightarrow> RNone | _ \<Rightarrow> ROr cs)" using 4 o Some by simp
    then show ?thesis using leaves by (auto split: list.splits)
  qed
next
  case (6 n s lookup sub subs)
  from "6.prems"(2) show ?case
  proof (cases rule: resolve_and_Cons)
    case 2
    with 6 show ?thesis by auto
  next
    case (3 r out')
    then obtain cs0 where c: "out' = Some cs0" "cs = r # cs0" by (cases out') auto
    have "gram_leaves r \<subseteq> L" using 6 3 by blast
    moreover have "\<forall>c\<in>set cs0. gram_leaves c \<subseteq> L" using 6 3 c by (cases r) auto
    ultimately show ?thesis using c by simp
  qed simp
next
  case (8 n s lookup sub subs)
  from "8.prems"(2) show ?case
  proof (cases rule: resolve_or_Cons)
    case 2
    with 8 show ?thesis by auto
  next
    case (3 r out')
    then obtain cs0 where c: "out' = Some cs0" "cs' = r # cs0" by (cases out') auto
    have "gram_leaves r \<subseteq> L" using 8 3 by blast
    moreover have "\<forall>c\<in>set cs0. gram_leaves c \<subseteq> L" using 8 3 c by (cases r) auto
    ultimately show ?thesis using c by simp
  qed simp
qed auto

lemma blocks_needed_leaves:
  "blocks_needed r out off = Some x \<Longrightarrow> out off = Some x \<or> (off, x) \<in> gram_leaves r"
proof (induction r out rule: blocks_needed.induct)
  case (2 cs out)
  have "fold blocks_needed cs' o' off = Some x \<Longrightarrow> o' off = Some x \<or> (\<exists>c\<in>set cs'. (off, x) \<in> gram_leaves c)" if "set cs' \<subseteq> set cs" for cs' o'
    using that by (induction cs' arbitrary: o') (auto dest: "2.IH")
  then show ?case using 2 by auto
next
  case (3 cs out)
  have "fold blocks_needed cs' o' off = Some x \<Longrightarrow> o' off = Some x \<or> (\<exists>c\<in>set cs'. (off, x) \<in> gram_leaves c)" if "set cs' \<subseteq> set cs" for cs' o'
    using that by (induction cs' arbitrary: o') (auto dest: "3.IH")
  then show ?case using 3 by auto
qed (auto split: if_splits)

lemma fold_needed_leaves:
  "fold blocks_needed rs out off = Some x \<Longrightarrow> out off = Some x \<or> (\<exists>r\<in>set rs. (off, x) \<in> gram_leaves r)"
  by (induction rs arbitrary: out) (auto dest: blocks_needed_leaves)

lemma fold_needed_dom: "dom (fold blocks_needed rs out) = dom out \<union> (\<Union>r\<in>set rs. gram_offsets r)"
  by (induction rs arbitrary: out) (auto simp: dom_blocks_needed)

lemma finite_gram_offsets: "finite (gram_offsets r)"
  by (induction r) auto

section \<open>Fetched lists\<close>

text \<open>An entry of the needed map comes from the dictionary value of a gram with more than one id.\<close>

definition from_gram :: "lookup \<Rightarrow> u32 \<Rightarrow> (u64 \<times> u32 \<times> u64) set" where
  "from_gram lookup n = {(off, c, len). \<exists>h w. lookup h = Inr (Some w) \<and> unpack_posting (packed w) = (off, c) \<and> c \<noteq> 1 \<and> c < n \<and>
     len = value_len n w}"

lemma resolve_gram_leaves: "resolve_gram n lookup g = Inr r \<Longrightarrow> gram_leaves r \<subseteq> from_gram lookup n"
proof (cases "\<exists>off c len. r = RGram off c len")
  case True
  assume a: "resolve_gram n lookup g = Inr r"
  from True obtain off c len where r: "r = RGram off c len" by blast
  with a obtain v where "lookup g = Inr (Some v)" "unpack_posting (packed v) = (off, c)" "c \<noteq> 1" "c < n" "len = value_len n v"
    by (auto simp: resolve_gram_def value_len_def split: sum.splits option.splits prod.splits if_splits)
  then have "(off, c, len) \<in> from_gram lookup n" unfolding from_gram_def by blast
  then show ?thesis by (simp add: r)
next
  case False
  assume "resolve_gram n lookup g = Inr r"
  with False show ?thesis by (auto simp: resolve_gram_def split: sum.splits option.splits prod.splits if_splits)
qed

definition meta_of :: "segment_meta \<Rightarrow> merged_index \<Rightarrow> bool" where
  "meta_of meta out \<longleftrightarrow> meta_postings_len meta = blob_len (postings_blob out) \<and> meta_postings_data_len meta = postings_data_len out \<and>
     meta_postings_tail_hash meta = postings_tail_hash out"

definition segment_data :: "merged_index \<Rightarrow> bytes" where
  "segment_data out = take (postings_data_len out) (postings_file out)"

lemma built_segment:
  assumes "built F (sha256 X) strat n R out" "meta_of meta out"
  shows "published X meta (segment_data out)"
    and "map_lookup C (segment_map F strat out) g = Inr (Some v) \<Longrightarrow> holds_list strat n (segment_data out) (index_postings C strat R g) v"
    and "map_lookup C (segment_map F strat out) g = Inr (Some v) \<Longrightarrow> map_lookup C (segment_map F strat out) h = Inr (Some w) \<Longrightarrow>
        fst (unpack_posting (packed v)) = fst (unpack_posting (packed w)) \<Longrightarrow>
        length (index_postings C strat R g) \<noteq> 1 \<Longrightarrow> length (index_postings C strat R h) \<noteq> 1 \<Longrightarrow>
        length (index_postings C strat R g) < unat n \<Longrightarrow> length (index_postings C strat R h) < unat n \<Longrightarrow>
        index_postings C strat R g = index_postings C strat R h"
proof -
  from built_lookup [OF assms(1), of C] obtain m data where m: "open_terms F (terms_file out) strat = Inr m"
    "postings_file out = data @ postings_tail (sha256 X) data" "postings_data_len out = length data"
    "postings_tail_hash out = hex (sha256 X (postings_tail (sha256 X) data))" "blob_len (postings_blob out) = length (postings_file out)"
    and vals: "\<forall>gram. \<exists>v. map_lookup C m gram = Inr v \<and>
        (case v of None \<Rightarrow> index_postings C strat R gram = [] | Some v \<Rightarrow> holds_list strat n data (index_postings C strat R gram) v)"
    and uniq: "\<forall>g h v w. map_lookup C m g = Inr (Some v) \<longrightarrow> map_lookup C m h = Inr (Some w) \<longrightarrow>
        fst (unpack_posting (packed v)) = fst (unpack_posting (packed w)) \<longrightarrow>
        length (index_postings C strat R g) \<noteq> 1 \<longrightarrow> length (index_postings C strat R h) \<noteq> 1 \<longrightarrow>
        length (index_postings C strat R g) < unat n \<longrightarrow> length (index_postings C strat R h) < unat n \<longrightarrow>
        index_postings C strat R g = index_postings C strat R h \<and> value_len n v = value_len n w" by blast
  have data: "segment_data out = data" by (simp add: segment_data_def m(2,3))
  have map: "segment_map F strat out = m" by (simp add: segment_map_def m(1))
  show "published X meta (segment_data out)"
    using assms m(2-5) unfolding data by (simp add: published_def meta_of_def built_def)
  show "holds_list strat n (segment_data out) (index_postings C strat R g) v" if "map_lookup C (segment_map F strat out) g = Inr (Some v)"
  proof -
    from vals obtain u where "map_lookup C m g = Inr u"
      "case u of None \<Rightarrow> index_postings C strat R g = [] | Some v \<Rightarrow> holds_list strat n data (index_postings C strat R g) v" by blast
    with that show ?thesis by (simp add: map data)
  qed
  show "index_postings C strat R g = index_postings C strat R h"
    if "map_lookup C (segment_map F strat out) g = Inr (Some v)" "map_lookup C (segment_map F strat out) h = Inr (Some w)"
      "fst (unpack_posting (packed v)) = fst (unpack_posting (packed w))"
      "length (index_postings C strat R g) \<noteq> 1" "length (index_postings C strat R h) \<noteq> 1"
      "length (index_postings C strat R g) < unat n" "length (index_postings C strat R h) < unat n"
    using that uniq unfolding map by blast
qed

lemma needed_list_props:
  assumes "finite (dom m)"
  shows "distinct (map fst (needed_list m))" "fst ` set (needed_list m) = dom m" "(off, x) \<in> set (needed_list m) \<longleftrightarrow> m off = Some x"
proof -
  have "map fst (needed_list m) = sorted_list_of_set (dom m)" by (simp add: needed_list_def comp_def)
  then show "distinct (map fst (needed_list m))" by simp
  show "fst ` set (needed_list m) = dom m" "(off, x) \<in> set (needed_list m) \<longleftrightarrow> m off = Some x"
    using assms by (force simp: needed_list_def)+
qed

lemma segment_fetched:
  assumes b: "built F (sha256 X) strat n R out" "meta_of meta out" and nc: "no_collisions X (segment_data out)" "table_ok X (segment_data out) s"
    and fin: "finite (dom needed)" and leaves: "\<forall>off x. needed off = Some x \<longrightarrow> (off, x) \<in> from_gram (segment_lookup F (sha256 X) strat n R out C) n"
    and read: "segment_fetch X store range_cache strat meta n s needed = Inr bl"
  shows "dom bl = dom needed" "blocks_sorted bl" "merged.fetched F (sha256 X) strat n R out C (dom needed) bl"
proof -
  note seg = built_segment(1) [OF b] built_segment(2,3) [OF b, where C = C]
  note needed = needed_list_props [OF fin]
  from read obtain s' where "read_posting_blocks X store range_cache strat meta n (needed_list needed) s = Inr (bl, s')"
    by (auto simp: segment_fetch_def)
  from read_posting_blocks_known [OF seg(1) nc needed(1) this] have known: "dom bl = dom needed"
    "\<forall>(off, c, len)\<in>set (needed_list needed). \<exists>ids. bl off = Some ids \<and>
       decode_list strat (sub_slice (segment_data out) (unat off) (unat off + unat len)) c n = Inr ids"
    by (auto simp only: needed(2))
  show "dom bl = dom needed" by (rule known(1))
  have at: "decode_list strat (sub_slice (segment_data out) (unat off) (unat off + unat len)) c n = Inr ids"
    if "needed off = Some (c, len)" "bl off = Some ids" for off c len ids
  proof -
    have "(off, c, len) \<in> set (needed_list needed)" using that(1) by (simp only: needed(3))
    from bspec [OF known(2) this] that(2) show ?thesis by auto
  qed
  show "blocks_sorted bl"
    unfolding blocks_sorted_def
  proof (intro allI impI)
    fix off ids assume ids: "bl off = Some ids"
    then have "off \<in> dom needed" using known(1) by blast
    then obtain c len where "needed off = Some (c, len)" by force
    from at [OF this ids] show "ascending ids" using decode_list_valid by blast
  qed
  show "merged.fetched F (sha256 X) strat n R out C (dom needed) bl"
    unfolding merged.fetched_def
  proof (intro ballI allI impI)
    fix off g v c assume off: "off \<in> dom needed" and l: "segment_lookup F (sha256 X) strat n R out C g = Inr (Some v)"
      and u: "unpack_posting (packed v) = (off, c)" "c \<noteq> 1" "c < n"
    from off obtain c' len where n': "needed off = Some (c', len)" by force
    with leaves obtain h w where h: "segment_lookup F (sha256 X) strat n R out C h = Inr (Some w)" "unpack_posting (packed w) = (off, c')"
      "c' \<noteq> 1" "c' < n" "len = value_len n w" by (fastforce simp: from_gram_def)
    have lg: "map_lookup C (segment_map F strat out) g = Inr (Some v)" "map_lookup C (segment_map F strat out) h = Inr (Some w)"
      using l h(1) b(1) by (simp_all add: segment_lookup_def)
    note hg = seg(2) [OF lg(1)] and hh = seg(2) [OF lg(2)]
    have len: "length (index_postings C strat R g) = unat c" "length (index_postings C strat R h) = unat c'"
      using hg hh u(1) h(2) by (simp_all add: holds_list_def)
    have "unat c \<noteq> 1" "unat c' \<noteq> 1" "unat c < unat n" "unat c' < unat n"
      using u(2,3) h(3,4) by (auto simp: word_unat_eq_iff word_less_nat_alt)
    then have eq: "index_postings C strat R g = index_postings C strat R h"
      using seg(3) [OF lg] u(1) h(2) len by simp
    from off known(1) obtain ids where ids: "bl off = Some ids" by blast
    have "decode_list strat (sub_slice (segment_data out) (unat off) (unat off + unat (value_len n w))) c' n = Inr (index_postings C strat R h)"
      using hh h(2) len(2) \<open>unat c' \<noteq> 1\<close> by (simp add: holds_list_def)
    with at [OF n' ids] h(5) have "ids = index_postings C strat R h" by simp
    with ids eq show "bl off = Some (segment_postings F (sha256 X) strat n R out C g)" by (simp add: segment_postings_def b(1))
  qed
qed

section \<open>No match is lost\<close>

lemma bind_queries_all: "bind_queries qs n s lookup = Inr rs \<Longrightarrow> list_all2 (\<lambda>q r. resolve n s lookup q = Inr r) qs rs"
  by (induction qs arbitrary: rs) (auto split: sum.splits)

abbreviation collect_selections :: "(nat \<times> selection) list \<Rightarrow> nat \<Rightarrow> selection \<Rightarrow> (nat \<times> selection) list result" where
  "collect_selections sels i sel \<equiv> Inr (sels @ [(i, sel)])"

lemma visit_selections_collect:
  "visit_all (visit_selection bl expand collect_selections) acc (enumerate k rs) = Inr sels \<longleftrightarrow>
     (\<exists>out. sels = acc @ out \<and> length out = length rs \<and>
        (\<forall>j<length rs. fst (out ! j) = k + j \<and> eval bl (Some (expand (k + j))) (rs ! j) = Inr (snd (out ! j))))"
proof (induction rs arbitrary: k acc)
  case Nil
  then show ?case by auto
next
  case (Cons r rs)
  show ?case
  proof
    assume "visit_all (visit_selection bl expand collect_selections) acc (enumerate k (r # rs)) = Inr sels"
    then obtain sel where sel: "eval bl (Some (expand k)) r = Inr sel"
      "visit_all (visit_selection bl expand collect_selections) (acc @ [(k, sel)]) (enumerate (Suc k) rs) = Inr sels"
      by (auto simp: visit_all_Cons visit_selection_def simp del: visit_all.simps(2))
    from sel(2) Cons.IH obtain out where o: "sels = (acc @ [(k, sel)]) @ out" "length out = length rs"
      "\<forall>j<length rs. fst (out ! j) = Suc k + j \<and> eval bl (Some (expand (Suc k + j))) (rs ! j) = Inr (snd (out ! j))" by blast
    have "\<forall>j<length (r # rs). fst (((k, sel) # out) ! j) = k + j \<and> eval bl (Some (expand (k + j))) ((r # rs) ! j) = Inr (snd (((k, sel) # out) ! j))"
      using o(3) sel(1) by (auto simp: nth_Cons split: nat.split)
    then show "\<exists>out. sels = acc @ out \<and> length out = length (r # rs) \<and>
        (\<forall>j<length (r # rs). fst (out ! j) = k + j \<and> eval bl (Some (expand (k + j))) ((r # rs) ! j) = Inr (snd (out ! j)))"
      using o(1,2) by (intro exI [of _ "(k, sel) # out"]) simp
  next
    assume "\<exists>out. sels = acc @ out \<and> length out = length (r # rs) \<and>
        (\<forall>j<length (r # rs). fst (out ! j) = k + j \<and> eval bl (Some (expand (k + j))) ((r # rs) ! j) = Inr (snd (out ! j)))"
    then obtain o1 out where o: "sels = acc @ o1 # out" "length out = length rs"
      "\<forall>j<length (r # rs). fst ((o1 # out) ! j) = k + j \<and> eval bl (Some (expand (k + j))) ((r # rs) ! j) = Inr (snd ((o1 # out) ! j))"
    proof -
      fix thesis
      assume ex: "\<exists>out. sels = acc @ out \<and> length out = length (r # rs) \<and>
        (\<forall>j<length (r # rs). fst (out ! j) = k + j \<and> eval bl (Some (expand (k + j))) ((r # rs) ! j) = Inr (snd (out ! j)))"
      assume goal: "\<And>o1 out. sels = acc @ o1 # out \<Longrightarrow> length out = length rs \<Longrightarrow>
        \<forall>j<length (r # rs). fst ((o1 # out) ! j) = k + j \<and> eval bl (Some (expand (k + j))) ((r # rs) ! j) = Inr (snd ((o1 # out) ! j)) \<Longrightarrow> thesis"
      from ex obtain os where os: "sels = acc @ os" "length os = length (r # rs)"
        "\<forall>j<length (r # rs). fst (os ! j) = k + j \<and> eval bl (Some (expand (k + j))) ((r # rs) ! j) = Inr (snd (os ! j))" by blast
      then obtain o1 out where "os = o1 # out" by (cases os) auto
      with os goal show thesis by simp
    qed
    from o(3) [rule_format, of 0] have "fst o1 = k" "eval bl (Some (expand k)) r = Inr (snd o1)" by simp_all
    moreover have "\<forall>j<length rs. fst (out ! j) = Suc k + j \<and> eval bl (Some (expand (Suc k + j))) (rs ! j) = Inr (snd (out ! j))"
      using o(3) [rule_format, of "Suc _"] by simp
    ultimately show "visit_all (visit_selection bl expand collect_selections) acc (enumerate k (r # rs)) = Inr sels"
      using Cons.IH [of "acc @ [o1]" "Suc k"] o(1,2) by (cases o1) (simp add: visit_selection_def [of bl expand collect_selections acc])
  qed
qed

lemma bound_needed:
  assumes "bind_queries qs n strat (segment_lookup F sha strat n R out C) = Inr rs"
  shows "finite (dom (fold blocks_needed rs Map.empty))"
    and "\<forall>off x. fold blocks_needed rs Map.empty off = Some x \<longrightarrow> (off, x) \<in> from_gram (segment_lookup F sha strat n R out C) n"
proof -
  show "finite (dom (fold blocks_needed rs Map.empty))" by (simp add: fold_needed_dom finite_gram_offsets)
  have "leaves_in n (segment_lookup F sha strat n R out C) (from_gram (segment_lookup F sha strat n R out C) n)"
    unfolding leaves_in_def using resolve_gram_leaves by blast
  note leaves = resolve_leaves(1) [OF this]
  have "gram_leaves r \<subseteq> from_gram (segment_lookup F sha strat n R out C) n" if "r \<in> set rs" for r
  proof -
    from that obtain j where "j < length rs" "rs ! j = r" by (auto simp: in_set_conv_nth)
    then have "resolve n strat (segment_lookup F sha strat n R out C) (qs ! j) = Inr r"
      using bind_queries_all [OF assms] by (auto simp: list_all2_conv_all_nth)
    then show ?thesis by (rule leaves)
  qed
  then show "\<forall>off x. fold blocks_needed rs Map.empty off = Some x \<longrightarrow> (off, x) \<in> from_gram (segment_lookup F sha strat n R out C) n"
    using fold_needed_leaves [of rs Map.empty] by fastforce
qed

lemma selections_complete:
  assumes b: "built F (sha256 X) strat n R out" "meta_of meta out" and nc: "no_collisions X (segment_data out)" "table_ok X (segment_data out) s"
    and run: "visit_candidate_selections plans n strat (map_lookup C (segment_map F strat out)) expand
      (segment_fetch X store range_cache strat meta n s) collect_selections [] = Inr sels"
  shows "map fst sels = [0..<length plans] \<and> (\<forall>i<length plans. \<forall>id.
     query_holds {g. id \<in> hits (Some (expand i)) (index_postings C strat R g)} (plan_query (plans ! i)) \<longrightarrow> sel_has (snd (sels ! i)) id)"
proof -
  let ?l = "segment_lookup F (sha256 X) strat n R out C"
  have l: "map_lookup C (segment_map F strat out) = ?l" and p: "segment_postings F (sha256 X) strat n R out C = index_postings C strat R"
    using b(1) by (simp_all add: segment_lookup_def segment_postings_def)
  from run obtain rs bl where r: "bind_queries (map plan_query plans) n strat ?l = Inr rs"
    "segment_fetch X store range_cache strat meta n s (fold blocks_needed rs Map.empty) = Inr bl"
    "visit_all (visit_selection bl expand collect_selections) [] (enumerate 0 rs) = Inr sels"
    unfolding visit_candidates_batch l by auto
  have len: "length rs = length plans" using list_all2_lengthD [OF bind_queries_all [OF r(1)]] by simp
  note f = segment_fetched [OF b nc bound_needed [OF r(1)] r(2)]
  from r(3) visit_selections_collect [of bl expand "[]" 0 rs sels] have sels: "length sels = length rs"
    "\<forall>j<length rs. fst (sels ! j) = j \<and> eval bl (Some (expand j)) (rs ! j) = Inr (snd (sels ! j))" by auto
  have "map fst sels = [0..<length plans]" using sels len by (intro nth_equalityI) auto
  moreover have "sel_has (snd (sels ! i)) id"
    if i: "i < length plans" and q: "query_holds {g. id \<in> hits (Some (expand i)) (index_postings C strat R g)} (plan_query (plans ! i))" for i id
  proof -
    have res: "resolve n strat ?l (plan_query (plans ! i)) = Inr (rs ! i)"
      using bind_queries_all [OF r(1)] i by (simp add: list_all2_conv_all_nth)
    have "rs ! i \<in> set rs" using i len by simp
    then have sub: "gram_offsets (rs ! i) \<subseteq> dom (fold blocks_needed rs Map.empty)" unfolding fold_needed_dom by blast
    have "merged.fetched F (sha256 X) strat n R out C (gram_offsets (rs ! i)) bl" using f(3) sub unfolding merged.fetched_def by blast
    from merged.eval_superset [OF res this _ f(2), of "Some (expand i)"] sub f(1) obtain sel where
      "eval bl (Some (expand i)) (rs ! i) = Inr sel"
      "\<forall>id. query_holds {g. id \<in> hits (Some (expand i)) (index_postings C strat R g)} (plan_query (plans ! i)) \<longrightarrow> sel_has sel id"
      unfolding p by auto
    with sels i len q show ?thesis by simp
  qed
  ultimately show ?thesis by blast
qed

lemma from_gram_ranges:
  fixes X :: pack_crates
  assumes b: "built F (sha256 X) strat n R out" "meta_of meta out" and e: "(off, c, len) \<in> from_gram (segment_lookup F (sha256 X) strat n R out C) n"
  shows "range_ok n (length (segment_data out)) (off, c, len)"
    and "\<exists>ids. decode_list strat (sub_slice (segment_data out) (unat off) (unat off + unat len)) c n = Inr ids"
proof -
  from e obtain h w where h: "segment_lookup F (sha256 X) strat n R out C h = Inr (Some w)" "unpack_posting (packed w) = (off, c)"
    "c \<noteq> 1" "c < n" "len = value_len n w" by (auto simp: from_gram_def)
  have "map_lookup C (segment_map F strat out) h = Inr (Some w)" using h(1) b(1) by (simp add: segment_lookup_def)
  note hold = built_segment(2) [OF b this]
  have len: "length (index_postings C strat R h) = unat c" "index_postings C strat R h \<noteq> []" using hold h(2) by (simp_all add: holds_list_def)
  have c: "unat c \<noteq> 1" "unat c < unat n" using h(3,4) by (auto simp: word_unat_eq_iff word_less_nat_alt)
  have r: "unat off + unat len \<le> length (segment_data out)" "0 < unat len"
    "decode_list strat (sub_slice (segment_data out) (unat off) (unat off + unat len)) c n = Inr (index_postings C strat R h)"
    using hold c len(1) by (simp_all add: holds_list_def h(2,5))
  have "length (segment_data out) < 2 ^ 64" using b(1) by (simp add: built_def segment_data_def min_less_iff_disj)
  moreover have "0 < unat c" using len by (metis length_greater_0_conv)
  ultimately show "range_ok n (length (segment_data out)) (off, c, len)"
    using r(1,2) h(4) by (simp add: range_ok_def word_less_nat_alt word_le_nat_alt)
  show "\<exists>ids. decode_list strat (sub_slice (segment_data out) (unat off) (unat off + unat len)) c n = Inr ids" using r(3) by blast
qed

lemma bind_queries_total:
  assumes "\<And>q. \<exists>r. resolve n s lookup q = Inr r"
  shows "\<exists>rs. bind_queries qs n s lookup = Inr rs"
proof (induction qs)
  case (Cons q qs)
  then obtain rs where "bind_queries qs n s lookup = Inr rs" by blast
  moreover obtain r where "resolve n s lookup q = Inr r" using assms by blast
  ultimately show ?case by simp
qed simp

lemma selections_returned:
  assumes b: "built F (sha256 X) strat n R out" "meta_of meta out" and nc: "no_collisions X (segment_data out)" "table_ok X (segment_data out) s"
    and served: "honest X store meta (segment_data out)"
  shows "\<exists>sels. visit_candidate_selections plans n strat (map_lookup C (segment_map F strat out)) expand
      (segment_fetch X store range_cache strat meta n s) collect_selections [] = Inr sels"
proof -
  let ?l = "segment_lookup F (sha256 X) strat n R out C"
  have l: "map_lookup C (segment_map F strat out) = ?l" using b(1) by (simp add: segment_lookup_def)
  obtain rs where rs: "bind_queries (map plan_query plans) n strat ?l = Inr rs"
    using bind_queries_total [of n strat ?l] merged.resolve_total by blast
  note needed = bound_needed [OF rs]
  define m where "m = fold blocks_needed rs Map.empty"
  note props = needed_list_props [OF needed(1) [folded m_def]]
  have leaf: "range_ok n (length (segment_data out)) e \<and>
      (case e of (off, c, len) \<Rightarrow> \<exists>ids. decode_list strat (sub_slice (segment_data out) (unat off) (unat off + unat len)) c n = Inr ids)"
    if "e \<in> set (needed_list m)" for e
  proof -
    obtain off c len where e: "e = (off, c, len)" by (cases e)
    then have "m off = Some (c, len)" using that props(3) by simp
    then have "(off, c, len) \<in> from_gram ?l n" using needed(2) unfolding m_def by blast
    from from_gram_ranges [OF b this] show ?thesis by (simp add: e)
  qed
  then have "list_all (range_ok n (length (segment_data out))) (needed_list m)"
    "\<forall>(off, c, len)\<in>set (needed_list m). \<exists>ids. decode_list strat (sub_slice (segment_data out) (unat off) (unat off + unat len)) c n = Inr ids"
    by (simp add: list_all_iff, blast)
  from read_posting_blocks_served [OF built_segment(1) [OF b] nc props(1) served this, of range_cache] obtain bl s' where
    "read_posting_blocks X store range_cache strat meta n (needed_list m) s = Inr (bl, s')" by blast
  then have f: "segment_fetch X store range_cache strat meta n s m = Inr bl" by (simp add: segment_fetch_def)
  note fetched = segment_fetched [OF b nc needed f [unfolded m_def]]
  have "\<exists>sel. eval bl (Some (expand j)) (rs ! j) = Inr sel" if "j < length rs" for j
  proof -
    have "rs ! j \<in> set rs" using that by simp
    then have "gram_offsets (rs ! j) \<subseteq> dom bl" unfolding fetched(1) fold_needed_dom by blast
    from eval_total(1) [OF this] show ?thesis by blast
  qed
  then obtain sel where "\<forall>j<length rs. eval bl (Some (expand j)) (rs ! j) = Inr (sel j)" by metis
  then have "visit_all (visit_selection bl expand collect_selections) [] (enumerate 0 rs) = Inr (map (\<lambda>j. (j, sel j)) [0..<length rs])"
    by (subst visit_selections_collect) simp
  then show ?thesis unfolding visit_candidates_batch l by (simp add: rs f [unfolded m_def])
qed

section \<open>Properties\<close>

text \<open>
  C4: Searching a segment refines querying its records. Whatever a hostile or stale store and cache return, if a batch of plans
  over a merged segment succeeds, it yields one selection per plan, in plan order, and the selection of a plan holds every candidate
  block whose grams, read from the posting records the segment was merged from and widened to the extent of the plan, satisfy the
  query of the plan. Merging, dictionary, posting codecs, verified range reads and evaluation together lose no record.
\<close>

theorem segment_search_refines_records:
  assumes "built F (sha256 X) strat n R out" "meta_of meta out" "no_collisions X (segment_data out)" "table_ok X (segment_data out) s"
    and "visit_candidate_selections plans n strat (map_lookup C (segment_map F strat out)) expand
      (segment_fetch X store range_cache strat meta n s) collect_selections [] = Inr sels"
  shows "map fst sels = [0..<length plans] \<and> (\<forall>i<length plans. \<forall>id.
     query_holds {g. id \<in> hits (Some (expand i)) (index_postings C strat R g)} (plan_query (plans ! i)) \<longrightarrow> sel_has (snd (sels ! i)) id)"
  by (rule selections_complete [OF assms])

text \<open>
  C5: A segment search returns. Over a merged segment whose store serves the published postings blob, the batch never fails on
  a missing block, a rejected range, a hash or a malformed list, for any plans and any state of the local cache.
\<close>

theorem segment_search_returns:
  assumes "built F (sha256 X) strat n R out" "meta_of meta out" "no_collisions X (segment_data out)" "table_ok X (segment_data out) s"
    and "honest X store meta (segment_data out)"
  shows "\<exists>sels. visit_candidate_selections plans n strat (map_lookup C (segment_map F strat out)) expand
      (segment_fetch X store range_cache strat meta n s) collect_selections [] = Inr sels"
  by (rule selections_returned [OF assms])

subsection \<open>Witnesses\<close>

definition sample_records :: "(u64 \<times> doc_id) list" where
  "sample_records = [(0x616263, 1), (0x616263, 3), (0x616264, 2)]"

lemma read_trigram:
  assumes "unat k < 256 ^ 3"
  shows "read_record Trigram (write_posting_record Trigram k i @ rest) = Inr (Some ((k, i), rest))"
    and "read_record Trigram (write_posting_record Trigram k i) = Inr (Some ((k, i), []))"
  using assms read_write_record [of Trigram k i rest] read_write_record [of Trigram k i "[]"] by (simp_all add: good_key_def key_bytes_def)

lemma sample_bytes:
  "encode_posting_block [1, 3] 8 = [25]" "drop 5 (to_be_bytes 0x616263) = [97, 98, 99]" "drop 5 (to_be_bytes 0x616264) = [97, 98, 100]"
  "read_record Trigram [] = Inr None"
  by code_simp+

lemmas sample_merge =
  merge_posting_runs_def collapse_posting_runs.simps MAX_OPEN_POSTING_RUNS_def start_heap_def refill_def sample_records_def records_def
  read_trigram sample_bytes get_def add_u64_def uses_sharded_terms_def record_bytes_def key_bytes_def TRIGRAM_SHARD_RUN_BYTES_def
  new_terms_def posting_step_def insert_posting_file_def encode_list_def Let_def pack_posting_def OFFSET_BITS_def COUNT_BITS_def
  list_crate_def write_postings_def hash_loop.simps new_postings_def VERIFY_BLOCK_BYTES_def finish_postings_def list_pairs_def close_block_def

definition sample_index :: merged_index where
  "sample_index = projr (merge_posting_runs list_crate (sha256 sample_hashes) [records Trigram sample_records] Trigram 8)"

lemma sample_merged:
  "\<exists>terms. sample_index = \<lparr>terms_file = terms, postings_file = 25 # sample_tail, terms_blob = \<lparr>blob_len = length terms, blob_sha = hex (sha256 sample_hashes terms)\<rparr>,
     postings_blob = \<lparr>blob_len = 57, blob_sha = hex (sha256 sample_hashes (25 # sample_tail))\<rparr>, terms_tail = '''', postings_data_len = 1,
     postings_tail_hash = hex (replicate 32 2)\<rparr> \<and> length terms < 2 ^ 64 \<and>
   merge_posting_runs list_crate (sha256 sample_hashes) [records Trigram sample_records] Trigram 8 = Inr sample_index"
proof -
  have one: "sha256 sample_hashes [25] = replicate 32 1" by (simp add: sample_hashes_def)
  have tail: "replicate 32 1 @ to_le_bytes 1 @ to_le_bytes 1 @ POSTINGS_MAGIC = sample_tail"
    by (simp add: sample_tail_def)
  have two: "sha256 sample_hashes sample_tail = replicate 32 2" "length sample_tail = 56" using sample_postings by simp_all
  show ?thesis
    unfolding sample_index_def by (simp add: sample_merge one tail two) (simp add: POSTINGS_MAGIC_def)
qed

lemma sample_built:
  "built list_crate (sha256 sample_hashes) Trigram 8 (set sample_records) sample_index" "meta_of sample_meta sample_index" "segment_data sample_index = [25]"
proof -
  from sample_merged obtain terms where i: "sample_index = \<lparr>terms_file = terms, postings_file = 25 # sample_tail, terms_blob = \<lparr>blob_len = length terms, blob_sha = hex (sha256 sample_hashes terms)\<rparr>,
     postings_blob = \<lparr>blob_len = 57, blob_sha = hex (sha256 sample_hashes (25 # sample_tail))\<rparr>, terms_tail = '''', postings_data_len = 1,
     postings_tail_hash = hex (replicate 32 2)\<rparr>" "length terms < 2 ^ 64"
    "merge_posting_runs list_crate (sha256 sample_hashes) [records Trigram sample_records] Trigram 8 = Inr sample_index" by blast
  have run: "list_all2 (is_run Trigram) [sample_records] [records Trigram sample_records]"
    by (simp add: is_run_def sample_records_def good_key_def key_bytes_def less_eq_prod_def)
  have files: "length (terms_file sample_index) < 2 ^ 64" "length (postings_file sample_index) < 2 ^ 64"
    using i(2) sample_postings(5) by (simp_all add: i(1))
  have sha: "\<forall>x. length (sha256 sample_hashes x) = 32" by (simp add: sample_hashes_def)
  have small: "\<forall>(key, i)\<in>set sample_records. i < 8" by (simp add: sample_records_def)
  have "set (concat [sample_records]) = set sample_records" by simp
  with run i(3) list_crate_laws sha small files show "built list_crate (sha256 sample_hashes) Trigram 8 (set sample_records) sample_index"
    unfolding built_def by blast
  show "meta_of sample_meta sample_index" by (simp add: meta_of_def sample_meta_def i(1))
  show "segment_data sample_index = [25]" by (simp add: segment_data_def i(1))
qed

lemmas sample_segment = sample_built(1,2) sample_file(2-4) [folded sample_built(3)]

definition sample_plan :: candidate_plan where
  "sample_plan = \<lparr>plan_query = plan_hir literal_engine sample_crates (HLeaf [97, 98, 99]) Trigram, plan_extent = EBytes 3\<rparr>"

definition sample_documents :: segment_tables where
  "sample_documents = (let d = \<lparr>display_key = ''a'', source_id = 0, member_path = None, doc_size = 3,
     doc_first_block = 0, doc_block_offset = 0, max_line_len = 3, block_newlines = [0]\<rparr>
     in \<lparr>sources = [], documents = [d, d, d, d, d, d, d, d], table_blocks = []\<rparr>)"

abbreviation sample_bases :: "nat list" where
  "sample_bases \<equiv> [0, 1, 2, 3, 4, 5, 6, 7, 8]"

abbreviation sample_search :: "(nat \<times> selection) list result" where
  "sample_search \<equiv> visit_candidate_selections [sample_plan] 8 Trigram (map_lookup sample_crates (segment_map list_crate Trigram sample_index))
     (\<lambda>p. expand_closure sample_bases sample_documents (plan_extent ([sample_plan] ! p)))
     (segment_fetch sample_hashes sample_ranges True Trigram sample_meta 8 fresh_state) collect_selections []"

lemma sample_match_facts:
  "build_block_bases sample_documents = Inr sample_bases" "(1 :: nat) < length (documents sample_documents)"
  "doc_size (documents sample_documents ! 1) = length [97 :: u8, 98, 99]" "radsort_sorts sample_crates" "regex_laws literal_engine"
  "hir_match literal_engine (HLeaf [97, 98, 99]) [97, 98, 99] 0 3" "(0 :: nat) < 3"
  "extent_covers (EBytes 3) (max_line_len (documents sample_documents ! 1)) 0 3"
  "indexes_blocks sample_crates (index_postings sample_crates Trigram (set sample_records)) (sample_bases ! 1) [97, 98, 99]"
proof -
  show "build_block_bases sample_documents = Inr sample_bases"
    by (simp add: build_block_bases_def sample_documents_def div_ceil_def CANDIDATE_BLOCK_BYTES_def try_u32_def add_u32_def Let_def)
  show "hir_match literal_engine (HLeaf [97, 98, 99]) [97, 98, 99] 0 3"
    by (simp add: literal_engine_def lit_match_leaf)
  show "indexes_blocks sample_crates (index_postings sample_crates Trigram (set sample_records)) (sample_bases ! 1) [97, 98, 99]"
  proof -
    have "from_be_bytes ([0,0,0,0,0,97, 98, 99]) = (0x616263 :: u64)" by (simp add: from_be_bytes_def from_le_bytes_def)
    moreover have "replicate 5 (0 :: u8) @ [97, 98, 99] = [0, 0, 0, 0, 0, 97, 98, 99]" by (simp add: numeral_eq_Suc)
    ultimately have "1 \<in> set (index_postings sample_crates Trigram (set sample_records) (unpack_gram (pack_window (97, 98, 99))))"
      unfolding unpack_pack_window by (simp add: index_postings_def gram_key_def sample_records_def)
    moreover have "b = 0 \<and> g = pack_window (97, 98, 99)" if "(b, g) \<in> set (pack_trigram_block_grams sample_crates [97, 98, 99])" for b g
      using that by (auto simp: pack_trigram_block_grams_set [OF sample_crates_sorts] CANDIDATE_BLOCK_BYTES_def simp del: pack_window.simps)
    ultimately show ?thesis unfolding indexes_blocks_def by fastforce
  qed
qed (simp_all add: sample_documents_def Let_def extent_covers_def sample_crates_sorts literal_engine_laws)

lemma sample_satisfied:
  "query_holds {g. 1 \<in> hits (Some (expand_closure sample_bases sample_documents (plan_extent sample_plan)))
     (index_postings sample_crates Trigram (set sample_records) g)} (plan_query sample_plan)"
proof -
  have "(of_nat (sample_bases ! 1 + 0 div CANDIDATE_BLOCK_BYTES) :: doc_id) = 1" by simp
  then show ?thesis using match_block_satisfies [OF sample_match_facts] by (simp only: sample_plan_def candidate_plan.select_convs)
qed

theorem segment_search_refines_records_witness:
  "\<exists>sels. sample_search = Inr sels \<and> map fst sels = [0] \<and> sel_has (snd (sels ! 0)) 1"
proof -
  from selections_returned [OF sample_segment] obtain sels where run: "sample_search = Inr sels" by blast
  note sel = segment_search_refines_records [OF sample_segment(1-4) run]
  have len: "length [sample_plan] = 1" by simp
  have "map fst sels = [0]" using conjunct1 [OF sel] by simp
  moreover have "sel_has (snd (sels ! 0)) 1"
    using conjunct2 [OF sel, rule_format, of 0 1, unfolded nth_Cons_0 len, OF zero_less_one sample_satisfied] .
  ultimately show ?thesis using run by (intro exI conjI)
qed

theorem segment_search_returns_witness: "\<exists>sels. sample_search = Inr sels"
  by (rule segment_search_returns [OF sample_segment])

end
