(* ===== verification/Run_Write.thy ===== *)
theory Run_Write
  imports Run_Merge
begin

unbundle bit_operations_syntax

text \<open>
  Writing posting runs, \<open>crates/index/src/build/runs.rs\<close>: the windowed visitor that streams a file through candidate blocks, the sink that
  spills sorted runs of block postings, and the trigram writer over a build chunk. A file is its
  bytes and a temporary run the bytes written to it.
\<close>

section \<open>Definitions\<close>

subsection \<open>The windowed visitor\<close>

definition NEWLINE :: u8 where "NEWLINE = 10"

definition track_byte :: "nat \<times> nat \<Rightarrow> u8 \<Rightarrow> nat \<times> nat" where
  "track_byte = (\<lambda>(carry, longest) byte. if byte = NEWLINE then (0, max longest carry) else (carry + 1, longest))"

definition track_max_line :: "bytes \<Rightarrow> nat \<times> nat \<Rightarrow> nat \<times> nat" where
  "track_max_line data lines = (case foldl track_byte lines data of (carry, longest) \<Rightarrow> (carry, max longest carry))"

record window_state =
  wv_cursor :: nat
  wv_buf :: bytes
  wv_lines :: "nat \<times> nat"
  wv_newlines :: "nat list"
  wv_pos :: nat
  wv_block :: u32

text \<open>One round of the loop: the buffer holds the bytes carried over from the last window.\<close>

definition visit_window ::
    "crates \<Rightarrow> ('s \<Rightarrow> u32 \<Rightarrow> u32 list \<Rightarrow> 's result) \<Rightarrow> bytes \<Rightarrow> nat \<Rightarrow> window_state \<Rightarrow> 's \<Rightarrow> (window_state \<times> 's) result" where
  "visit_window X visit file len w s =
     (let slice_len = min (len - wv_pos w) (CANDIDATE_BLOCK_BYTES + 2); have = length (wv_buf w)
      in and_then (if slice_len > have
                   then and_then (context_of (get_range file (wv_cursor w) (wv_cursor w + (slice_len - have))) ''failed to fill whole buffer'') (\<lambda>new.
                     Inr (wv_buf w @ new, wv_cursor w + (slice_len - have), track_max_line new (wv_lines w)))
                   else Inr (take slice_len (wv_buf w), wv_cursor w, wv_lines w)) (\<lambda>(buf, cursor, lines).
         let grams = pack_trigram_grams X buf;
             newlines = length (filter (\<lambda>byte. byte = NEWLINE) (take (min slice_len CANDIDATE_BLOCK_BYTES) buf))
         in ensure (newlines < 2 ^ 32) ''candidate block newline count overflows u32''
           (and_then (if grams \<noteq> [] then visit s (wv_block w) grams else Inr s) (\<lambda>s.
            let carry = slice_len - CANDIDATE_BLOCK_BYTES
            in and_then (context_of (checked_add (wv_block w) 1) ''document exceeds the candidate block id space'') (\<lambda>block.
                 Inr (\<lparr>wv_cursor = cursor, wv_buf = drop (slice_len - carry) buf, wv_lines = lines, wv_newlines = wv_newlines w @ [newlines],
                        wv_pos = wv_pos w + CANDIDATE_BLOCK_BYTES, wv_block = block\<rparr>, s))))))"

lemma visit_window_pos:
  assumes "visit_window X visit file len w s = Inr (w', s')"
  shows "wv_pos w' = wv_pos w + CANDIDATE_BLOCK_BYTES"
  using assms unfolding visit_window_def Let_def by (auto simp del: get_range_eq_Some try_u32_eq_Inr)

function visit_windows ::
    "crates \<Rightarrow> ('s \<Rightarrow> u32 \<Rightarrow> u32 list \<Rightarrow> 's result) \<Rightarrow> bytes \<Rightarrow> nat \<Rightarrow> window_state \<Rightarrow> 's \<Rightarrow> (window_state \<times> 's) result" where
  "visit_windows X visit file len w s =
     (if wv_pos w < len then and_then (visit_window X visit file len w s) (\<lambda>(w, s). visit_windows X visit file len w s) else Inr (w, s))"
  by pat_completeness auto
termination
  by (relation "measure (\<lambda>(X, visit, file, len, w, s). len - wv_pos w)")
    (auto dest!: visit_window_pos simp: CANDIDATE_BLOCK_BYTES_def)

declare visit_windows.simps [simp del]

definition visit_file_trigram_blocks ::
    "crates \<Rightarrow> bytes \<Rightarrow> nat \<Rightarrow> nat \<Rightarrow> ('s \<Rightarrow> u32 \<Rightarrow> u32 list \<Rightarrow> 's result) \<Rightarrow> 's \<Rightarrow> (nat \<times> nat list \<times> 's) result" where
  "visit_file_trigram_blocks X file start len visit s =
     and_then (visit_windows X visit file len
         \<lparr>wv_cursor = start, wv_buf = [], wv_lines = (0, 0), wv_newlines = [], wv_pos = 0, wv_block = 0\<rparr> s) (\<lambda>(w, s).
       Inr (snd (wv_lines w), wv_newlines w, s))"

section \<open>The lines of a text\<close>

text \<open>The longest line, declaratively: it bounds every range without a newline, and one such range has its length.\<close>

definition longest_line :: "bytes \<Rightarrow> nat \<Rightarrow> bool" where
  "longest_line body m \<longleftrightarrow>
     (\<forall>i j. i \<le> j \<longrightarrow> j \<le> length body \<longrightarrow> NEWLINE \<notin> set (sub_slice body i j) \<longrightarrow> j - i \<le> m) \<and>
     (\<exists>i j. i \<le> j \<and> j \<le> length body \<and> NEWLINE \<notin> set (sub_slice body i j) \<and> m = j - i)"

lemma foldl_track_max:
  "foldl track_byte (c, max m k) xs = (fst (foldl track_byte (c, m) xs), max (snd (foldl track_byte (c, m) xs)) k)"
proof (induction xs arbitrary: c m)
  case (Cons x xs)
  have "max (max m k) c = max (max m c) k" by simp
  then show ?case using Cons [of 0 "max m c"] Cons [of "c + 1" m] by (simp add: track_byte_def)
qed simp

lemma foldl_track_carry: "c \<le> max (fst (foldl track_byte (c, m) xs)) (snd (foldl track_byte (c, m) xs))"
proof (induction xs arbitrary: c m)
  case (Cons x xs)
  have "m \<le> snd (foldl track_byte (c, m) ys)" for c m ys
    using foldl_track_max [of c 0 m ys] by simp
  from this [of "max m c" 0 xs] show ?case using Cons [of "c + 1" m] by (auto simp: track_byte_def)
qed simp

lemma track_append: "track_max_line (a @ b) l = track_max_line b (track_max_line a l)"
proof -
  obtain c m where l: "foldl track_byte l a = (c, m)" by (cases "foldl track_byte l a")
  show ?thesis
    using foldl_track_carry [of c m b] by (auto simp: track_max_line_def l foldl_track_max split: prod.split)
qed

definition trailing :: "bytes \<Rightarrow> nat" where
  "trailing body = length (takeWhile (\<lambda>byte. byte \<noteq> NEWLINE) (rev body))"

definition lines_seen :: "bytes \<Rightarrow> nat \<times> nat \<Rightarrow> bool" where
  "lines_seen body = (\<lambda>(carry, m). carry = trailing body \<and> longest_line body (max m carry))"

lemma trailing_free:
  assumes "i \<le> length body"
  shows "NEWLINE \<notin> set (drop i body) \<longleftrightarrow> length body - i \<le> trailing body"
  using assms
proof (induction body arbitrary: i rule: rev_induct)
  case (snoc b body)
  show ?case
  proof (cases "i = Suc (length body)")
    case False
    then have "i \<le> length body" using snoc.prems by simp
    then show ?thesis using snoc.IH [of i] by (auto simp: trailing_def)
  qed simp
qed simp

lemma longest_line_snoc:
  assumes "longest_line body (max m (trailing body))"
  shows "longest_line (body @ [b]) (if b = NEWLINE then max m (trailing body) else max m (trailing body + 1))"
proof -
  let ?n = "length body" and ?m = "if b = NEWLINE then max m (trailing body) else max m (trailing body + 1)"
  have old: "sub_slice (body @ [b]) i j = sub_slice body i j" if "j \<le> ?n" for i j using that by (simp add: sub_slice_def)
  have new: "sub_slice (body @ [b]) i (Suc ?n) = drop i body @ [b]" if "i \<le> ?n" for i using that by (simp add: sub_slice_def)
  have bound: "j - i \<le> ?m" if r: "i \<le> j" "j \<le> length (body @ [b])" "NEWLINE \<notin> set (sub_slice (body @ [b]) i j)" for i j
  proof (cases "j \<le> ?n")
    case True
    then have "j - i \<le> max m (trailing body)" using assms r old [OF True] by (simp add: longest_line_def)
    then show ?thesis by auto
  next
    case False
    then have j: "j = Suc ?n" using r(2) by simp
    show ?thesis
    proof (cases "i = Suc ?n")
      case False
      then have i: "i \<le> ?n" using r(1) j by simp
      then have "b \<noteq> NEWLINE" "NEWLINE \<notin> set (drop i body)" using r(3) by (auto simp: j new)
      then show ?thesis using trailing_free [OF i] i j by auto
    qed (simp add: j)
  qed
  have "\<exists>i j. i \<le> j \<and> j \<le> length (body @ [b]) \<and> NEWLINE \<notin> set (sub_slice (body @ [b]) i j) \<and> ?m = j - i"
  proof (cases "b = NEWLINE \<or> trailing body < m")
    case True
    then have m: "?m = max m (trailing body)" by auto
    from assms obtain i j where "i \<le> j" "j \<le> ?n" "NEWLINE \<notin> set (sub_slice body i j)" "max m (trailing body) = j - i"
      by (auto simp: longest_line_def)
    then show ?thesis unfolding m by (intro exI [of _ i] exI [of _ j]) (simp add: old)
  next
    case False
    have t: "trailing body \<le> ?n" unfolding trailing_def by (metis length_rev length_takeWhile_le)
    then have "NEWLINE \<notin> set (drop (?n - trailing body) body)" by (simp add: trailing_free)
    then show ?thesis using False t by (intro exI [of _ "?n - trailing body"] exI [of _ "Suc ?n"]) (auto simp: new)
  qed
  with bound show ?thesis unfolding longest_line_def by blast
qed

lemma lines_seen_step: "lines_seen body l \<Longrightarrow> lines_seen (body @ [b]) (track_byte l b)"
  using longest_line_snoc [of body "snd l" b]
  by (auto simp: lines_seen_def track_byte_def trailing_def max.commute split: prod.splits)

lemma lines_seen_foldl: "lines_seen body l \<Longrightarrow> lines_seen (body @ data) (foldl track_byte l data)"
proof (induction data arbitrary: body l)
  case (Cons b data)
  from Cons.IH [OF lines_seen_step [OF Cons.prems]] show ?case by simp
qed simp

lemma track_longest_line: "longest_line body (snd (track_max_line body (0, 0)))"
proof -
  have "lines_seen [] (0, 0)" by (simp add: lines_seen_def trailing_def longest_line_def sub_slice_def)
  from lines_seen_foldl [OF this, of body] show ?thesis by (simp add: lines_seen_def track_max_line_def split: prod.splits)
qed

section \<open>The visitor reads the blocks of the text\<close>

definition window_grams :: "crates \<Rightarrow> bytes \<Rightarrow> nat \<Rightarrow> u32 list" where
  "window_grams X body k = pack_trigram_grams X (sub_slice body (k * CANDIDATE_BLOCK_BYTES) (k * CANDIDATE_BLOCK_BYTES + CANDIDATE_BLOCK_BYTES + 2))"

definition newlines_in :: "bytes \<Rightarrow> nat \<Rightarrow> nat" where
  "newlines_in body k = length (filter (\<lambda>byte. byte = NEWLINE) (sub_slice body (k * CANDIDATE_BLOCK_BYTES) ((k + 1) * CANDIDATE_BLOCK_BYTES)))"

definition visit_block :: "crates \<Rightarrow> ('s \<Rightarrow> u32 \<Rightarrow> u32 list \<Rightarrow> 's result) \<Rightarrow> bytes \<Rightarrow> 's \<Rightarrow> nat \<Rightarrow> 's result" where
  "visit_block X visit body s k = (if window_grams X body k = [] then Inr s else visit s (of_nat k) (window_grams X body k))"

definition window_at :: "bytes \<Rightarrow> nat \<Rightarrow> nat \<Rightarrow> window_state" where
  "window_at body start k =
     (let ahead = min (length body) (if k = 0 then 0 else k * CANDIDATE_BLOCK_BYTES + 2)
      in \<lparr>wv_cursor = start + ahead, wv_buf = sub_slice body (k * CANDIDATE_BLOCK_BYTES) ahead, wv_lines = track_max_line (take ahead body) (0, 0),
          wv_newlines = map (newlines_in body) [0..<k], wv_pos = k * CANDIDATE_BLOCK_BYTES, wv_block = of_nat k\<rparr>)"

lemma C_pos: "0 < CANDIDATE_BLOCK_BYTES" "2 < CANDIDATE_BLOCK_BYTES" "CANDIDATE_BLOCK_BYTES < 2 ^ 32"
  by (simp_all add: CANDIDATE_BLOCK_BYTES_def)

lemma visit_window_at:
  assumes src: "start + length body \<le> length file" "body = sub_slice file start (start + length body)"
    and k: "k * CANDIDATE_BLOCK_BYTES < length body" "k + 1 < 2 ^ 32"
  shows "visit_window X visit file (length body) (window_at body start k) s =
    and_then (visit_block X visit body s k) (\<lambda>s. Inr (window_at body start (k + 1), s))"
proof -
  let ?C = CANDIDATE_BLOCK_BYTES and ?n = "length body" and ?w = "window_at body start k"
  define a where "a = min ?n (if k = 0 then 0 else k * ?C + 2)"
  define b where "b = min ?n ((k + 1) * ?C + 2)"
  define L where "L = min (?n - k * ?C) (?C + 2)"
  have b: "b = k * ?C + L" "b \<le> ?n" using k(1) by (auto simp: b_def L_def)
  have ab: "k * ?C \<le> a" "a \<le> b" using k(1) C_pos by (auto simp: a_def b_def)
  have have_len: "length (wv_buf ?w) = a - k * ?C"
    using ab b by (simp add: window_at_def a_def [symmetric] Let_def)
  have w: "wv_buf ?w = sub_slice body (k * ?C) a" "wv_cursor ?w = start + a" "wv_lines ?w = track_max_line (take a body) (0, 0)"
    "wv_newlines ?w = map (newlines_in body) [0..<k]" "wv_pos ?w = k * ?C" "wv_block ?w = of_nat k"
    by (simp_all add: window_at_def a_def [symmetric] Let_def)
  have read: "(if L > length (wv_buf ?w)
      then and_then (context_of (get_range file (wv_cursor ?w) (wv_cursor ?w + (L - length (wv_buf ?w)))) ''failed to fill whole buffer'') (\<lambda>new.
        Inr (wv_buf ?w @ new, wv_cursor ?w + (L - length (wv_buf ?w)), track_max_line new (wv_lines ?w)))
      else Inr (take L (wv_buf ?w), wv_cursor ?w, wv_lines ?w)) = Inr (sub_slice body (k * ?C) b, start + b, track_max_line (take b body) (0, 0))"
  proof (cases "L > length (wv_buf ?w)")
    case True
    have e: "wv_cursor ?w + (L - length (wv_buf ?w)) = start + b" using ab b by (simp add: w(2) have_len)
    have new: "sub_slice file (start + a) (start + b) = sub_slice body a b"
    proof -
      have "sub_slice body a b = sub_slice (sub_slice file start (start + ?n)) a b" using src(2) by simp
      also have "\<dots> = sub_slice file (start + a) (start + b)"
        using b(2) by (simp add: sub_slice_def [of "sub_slice file start (start + ?n)"] drop_sub_slice take_sub_slice min_def add.assoc ab)
      finally show ?thesis ..
    qed
    have g: "get_range file (wv_cursor ?w) (start + b) = Some (sub_slice body a b)"
      using ab b(2) src(1) by (simp add: get_range_def w(2) new)
    have t: "track_max_line (sub_slice body a b) (track_max_line (take a body) (0, 0)) = track_max_line (take b body) (0, 0)"
    proof -
      have "take b body = take a body @ sub_slice body a b" using sub_slice_join [of 0 a b body] ab(2) by (simp add: sub_slice_def)
      then show ?thesis by (simp add: track_append)
    qed
    show ?thesis unfolding e if_P [OF True] g context_of_simps and_then_Inr unfolding w t sub_slice_join [OF ab] by (rule refl)
  next
    case False
    then have "a = b" using ab b by (simp add: have_len)
    then show ?thesis using False by (simp add: w take_sub_slice b(1))
  qed
  have grams: "pack_trigram_grams X (sub_slice body (k * ?C) b) = window_grams X body k"
  proof -
    have "sub_slice body (k * ?C) b = sub_slice body (k * ?C) (k * ?C + ?C + 2)"
    proof (cases "?n \<le> k * ?C + ?C + 2")
      case True
      then have "b = ?n" by (simp add: b_def add.commute add.left_commute)
      then show ?thesis using sub_slice_clip [OF True] by simp
    qed (simp add: b_def add.commute add.left_commute)
    then show ?thesis by (simp add: window_grams_def)
  qed
  have "take (min L ?C) (sub_slice body (k * ?C) b) = sub_slice body (k * ?C) (k * ?C + min L ?C)"
    using b(1) by (simp add: take_sub_slice min_def)
  also have "\<dots> = sub_slice body (k * ?C) ((k + 1) * ?C)"
  proof (cases "?n \<le> (k + 1) * ?C")
    case True
    then have "k * ?C + min L ?C = ?n" using k(1) by (auto simp: L_def)
    then show ?thesis using sub_slice_clip [OF True] by simp
  next
    case False
    then have "k * ?C + min L ?C = (k + 1) * ?C" by (auto simp: L_def)
    then show ?thesis by (simp only:)
  qed
  finally have nl: "length (filter (\<lambda>byte. byte = NEWLINE) (take (min L ?C) (sub_slice body (k * ?C) b))) = newlines_in body k"
    by (simp add: newlines_in_def)
  have "newlines_in body k \<le> ?C"
    unfolding newlines_in_def by (rule order_trans [OF length_filter_le]) simp
  then have "newlines_in body k < 2 ^ 32" using C_pos(3) by (rule le_less_trans)
  then have nl32: "(newlines_in body k < 2 ^ 32) = True" by simp
  have blk: "checked_add (of_nat k :: u32) 1 = Some (of_nat (k + 1))" using k(2) by (simp add: checked_add_def unat_of_nat)
  have buf: "drop (L - (L - ?C)) (sub_slice body (k * ?C) b) = sub_slice body ((k + 1) * ?C) b"
  proof (cases "L \<le> ?C")
    case True
    then show ?thesis using b(1) by (simp add: drop_sub_slice) (simp add: sub_slice_def)
  qed (simp add: drop_sub_slice add.commute)
  have nxt: "window_at body start (k + 1) = \<lparr>wv_cursor = start + b, wv_buf = sub_slice body ((k + 1) * ?C) b, wv_lines = track_max_line (take b body) (0, 0),
      wv_newlines = map (newlines_in body) [0..<k] @ [newlines_in body k], wv_pos = k * ?C + ?C, wv_block = of_nat (k + 1)\<rparr>"
    by (simp add: window_at_def b_def Let_def add.commute)
  show ?thesis
    unfolding visit_window_def Let_def w(5) L_def [symmetric] read and_then_Inr prod.case grams nl nl32 ensure_True w(4,6) blk context_of_simps buf nxt
    by (simp add: visit_block_def)
qed

abbreviation block_count_of :: "bytes \<Rightarrow> nat" where
  "block_count_of body \<equiv> div_ceil (length body) CANDIDATE_BLOCK_BYTES"

lemma less_block_count: "k < block_count_of body \<longleftrightarrow> k * CANDIDATE_BLOCK_BYTES < length body"
proof -
  have "k < (length body + CANDIDATE_BLOCK_BYTES - 1) div CANDIDATE_BLOCK_BYTES \<longleftrightarrow> Suc k * CANDIDATE_BLOCK_BYTES \<le> length body + CANDIDATE_BLOCK_BYTES - 1"
    using C_pos(1) by (simp add: less_eq_div_iff_mult_less_eq Suc_le_eq [symmetric] del: mult_Suc)
  then show ?thesis using C_pos(1) by (auto simp: div_ceil_def)
qed

lemma visit_windows_at:
  assumes src: "start + length body \<le> length file" "body = sub_slice file start (start + length body)" and fit: "block_count_of body < 2 ^ 32"
    and k: "k \<le> block_count_of body"
  shows "visit_windows X visit file (length body) (window_at body start k) s =
    and_then (visit_all (visit_block X visit body) s [k..<block_count_of body]) (\<lambda>s. Inr (window_at body start (block_count_of body), s))"
  using k
proof (induction k arbitrary: s rule: inc_induct)
  case base
  have "\<not> wv_pos (window_at body start (block_count_of body)) < length body"
    using less_block_count [of "block_count_of body" body] by (simp add: window_at_def Let_def)
  then show ?case by (subst visit_windows.simps) simp
next
  case (step k)
  have more_left: "wv_pos (window_at body start k) < length body" using step.hyps(2) by (simp add: window_at_def Let_def less_block_count)
  have "visit_windows X visit file (length body) (window_at body start k) s =
      and_then (visit_block X visit body s k) (\<lambda>s. visit_windows X visit file (length body) (window_at body start (Suc k)) s)"
  proof -
    have "k * CANDIDATE_BLOCK_BYTES < length body" using step.hyps(2) by (simp add: less_block_count)
    moreover have "k + 1 < 2 ^ 32" using step.hyps(2) fit by linarith
    ultimately have "k * CANDIDATE_BLOCK_BYTES < length body" "k + 1 < 2 ^ 32" by blast+
    note w = visit_window_at [OF src this, of X visit s]
    show ?thesis using more_left by (subst visit_windows.simps) (cases "visit_block X visit body s k", simp_all add: w)
  qed
  also have "\<dots> = and_then (visit_all (visit_block X visit body) s (k # [Suc k..<block_count_of body])) (\<lambda>s. Inr (window_at body start (block_count_of body), s))"
    by (cases "visit_block X visit body s k") (simp_all add: step.IH)
  finally show ?case using step.hyps(2) by (simp add: upt_conv_Cons del: visit_all.simps(2))
qed

lemma visit_file_blocks:
  assumes src: "start + length body \<le> length file" "body = sub_slice file start (start + length body)" and fit: "block_count_of body < 2 ^ 32"
  shows "visit_file_trigram_blocks X file start (length body) visit s =
    and_then (visit_all (visit_block X visit body) s [0..<block_count_of body]) (\<lambda>s.
      Inr (snd (track_max_line body (0, 0)), map (newlines_in body) [0..<block_count_of body], s))"
proof -
  have start: "\<lparr>wv_cursor = start, wv_buf = [], wv_lines = (0, 0), wv_newlines = [], wv_pos = 0, wv_block = 0\<rparr> = window_at body start 0"
    by (simp add: window_at_def track_max_line_def) (simp add: sub_slice_def)
  have done_: "wv_lines (window_at body start (block_count_of body)) = track_max_line body (0, 0)"
    using less_block_count [of "block_count_of body" body] by (auto simp: window_at_def Let_def)
  show ?thesis unfolding visit_file_trigram_blocks_def start visit_windows_at [OF src fit le0]
    by (cases "visit_all (visit_block X visit body) s [0..<block_count_of body]") (simp_all add: done_, simp add: window_at_def Let_def)
qed

text \<open>The blocks and grams the visitor passes are those of \<open>pack_trigram_block_grams\<close>.\<close>

definition visited_pairs :: "crates \<Rightarrow> bytes \<Rightarrow> (u32 \<times> u32) list" where
  "visited_pairs X body = concat (map (\<lambda>k. map (Pair (of_nat k)) (window_grams X body k)) [0..<block_count_of body])"

lemma short_no_grams: "length data < 3 \<Longrightarrow> pack_trigram_grams X data = []"
proof -
  assume "length data < 3"
  then have "length data - 2 \<le> BITMAP_THRESHOLD" "windows3 data = []"
    by (simp_all add: BITMAP_THRESHOLD_def BITMAP_WORDS_def, cases data rule: windows3.cases, simp_all)
  then show ?thesis by (simp add: pack_trigram_grams_def sort_packed_grams_def RADIX_SORT_MIN_def)
qed

lemma block_grams_from_windows:
  assumes "k \<le> block_count_of body"
  shows "block_grams_from X body (k * CANDIDATE_BLOCK_BYTES) (of_nat k) =
    concat (map (\<lambda>k. map (Pair (of_nat k)) (window_grams X body k)) [k..<block_count_of body])"
  using assms
proof (induction k rule: inc_induct)
  case base
  show ?case using less_block_count [of "block_count_of body" body] by (subst block_grams_from.simps) simp
next
  case (step k)
  let ?C = CANDIDATE_BLOCK_BYTES
  show ?case
  proof (cases "k * ?C + 2 < length body")
    case True
    have "take (min (k * ?C + ?C + 2) (length body) - k * ?C) (drop (k * ?C) body) = sub_slice body (k * ?C) (k * ?C + ?C + 2)"
      by (simp add: sub_slice_def min_def)
    then show ?thesis using True step by (subst block_grams_from.simps) (simp add: window_grams_def upt_conv_Cons Let_def add.commute)
  next
    case False
    then have "Suc k = block_count_of body" using step.hyps(2) less_block_count [of "Suc k" body] C_pos by auto
    then have "[k..<block_count_of body] = [k]" by (metis upt_rec lessI upt_conv_Nil le_refl)
    moreover have "window_grams X body k = []" using False by (simp add: window_grams_def short_no_grams)
    ultimately show ?thesis using False by (subst block_grams_from.simps) simp
  qed
qed

lemma visited_pairs_eq: "visited_pairs X body = pack_trigram_block_grams X body"
proof (cases "length body < 3")
  case True
  then have "window_grams X body k = []" for k by (simp add: window_grams_def short_no_grams)
  then show ?thesis using True by (simp add: visited_pairs_def pack_trigram_block_grams_def)
next
  case False
  then show ?thesis using block_grams_from_windows [of 0 body X] by (simp add: visited_pairs_def pack_trigram_block_grams_def)
qed

section \<open>The sink of block postings\<close>

definition pack_entry :: "u32 \<Rightarrow> doc_id \<Rightarrow> u64" where
  "pack_entry gram i = push_bit 32 (ucast gram) OR ucast i"

record entry_sink =
  sink_entries :: "u64 list"
  sink_runs :: "bytes list"

definition SINK_CAP :: nat where "SINK_CAP = 4 * 1024 * 1024 div 8"

definition new_sink :: entry_sink where
  "new_sink = \<lparr>sink_entries = [], sink_runs = []\<rparr>"

definition entry_record :: "u64 \<Rightarrow> bytes" where
  "entry_record entry = write_posting_record Trigram (drop_bit 32 entry) (ucast entry)"

definition spill :: "entry_sink \<Rightarrow> entry_sink" where
  "spill s =
     (if sink_entries s = [] then s
      else \<lparr>sink_entries = [], sink_runs = sink_runs s @ [concat (map entry_record (remdups_adj (sort (sink_entries s))))]\<rparr>)"

definition push_entry :: "entry_sink \<Rightarrow> u32 \<Rightarrow> doc_id \<Rightarrow> entry_sink" where
  "push_entry s gram i =
     (let s = s\<lparr>sink_entries := sink_entries s @ [pack_entry gram i]\<rparr>
      in if length (sink_entries s) \<ge> SINK_CAP then spill s else s)"

definition finish_sink :: "entry_sink \<Rightarrow> bytes list" where
  "finish_sink s = sink_runs (spill s)"

datatype indexed_grams =
    GTrigram "u32 list" | TrigramBitmap "u64 list" | TrigramBlocks "(u32 \<times> u32) list" | TrigramBlocksFile bytes nat
  | GSparse bytes | SparseFile bytes | SparsePath bytes | TrigramSpool nat nat | SparseSpool nat nat

record grammed_doc =
  gd_doc_id :: nat
  gd_base :: u32
  gd_grams :: indexed_grams

definition block_id :: "u32 \<Rightarrow> u32 \<Rightarrow> u32 result" where
  "block_id base block = context_of (checked_add base block) ''segment exceeds the candidate block id space''"

definition push_pair :: "u32 \<Rightarrow> entry_sink \<Rightarrow> u32 \<times> u32 \<Rightarrow> entry_sink result" where
  "push_pair base s = (\<lambda>(block, gram). and_then (block_id base block) (\<lambda>i. Inr (push_entry s gram i)))"

definition push_window :: "u32 \<Rightarrow> entry_sink \<Rightarrow> u32 \<Rightarrow> u32 list \<Rightarrow> entry_sink result" where
  "push_window base s block grams = and_then (block_id base block) (\<lambda>i. Inr (foldl (\<lambda>s gram. push_entry s gram i) s grams))"

type_synonym doc_lines = "nat \<times> nat \<times> nat list"

definition write_file_doc ::
    "crates \<Rightarrow> grammed_doc \<Rightarrow> bytes \<Rightarrow> nat \<Rightarrow> nat \<Rightarrow> entry_sink \<times> doc_lines list \<Rightarrow> (entry_sink \<times> doc_lines list) result" where
  "write_file_doc X doc file start len = (\<lambda>(s, lines).
     and_then (visit_file_trigram_blocks X file start len (push_window (gd_base doc)) s) (\<lambda>(max_line, newlines, s).
       Inr (s, lines @ [(gd_doc_id doc, max_line, newlines)])))"

definition write_block_doc ::
    "crates \<Rightarrow> bytes option \<Rightarrow> entry_sink \<times> doc_lines list \<Rightarrow> grammed_doc \<Rightarrow> (entry_sink \<times> doc_lines list) result" where
  "write_block_doc X spool st doc =
     (case gd_grams doc of
        TrigramBlocks pairs \<Rightarrow> and_then (visit_all (push_pair (gd_base doc)) (fst st) pairs) (\<lambda>s. Inr (s, snd st))
      | TrigramBlocksFile file len \<Rightarrow> write_file_doc X doc file 0 len st
      | TrigramSpool off len \<Rightarrow>
          and_then (context_of spool ''spooled grams have no content spool'') (\<lambda>file. write_file_doc X doc file off len st)
      | _ \<Rightarrow> Inl (Bail ''non-block gram variant in a trigram block build''))"

definition write_trigram_block_runs ::
    "crates \<Rightarrow> grammed_doc list \<Rightarrow> bytes option \<Rightarrow> (bytes list \<times> doc_lines list) result" where
  "write_trigram_block_runs X grammed spool =
     and_then (visit_all (write_block_doc X spool) (new_sink, []) grammed) (\<lambda>(s, lines). Inr (finish_sink s, lines))"

section \<open>The runs of a sink\<close>

definition unpack_entry :: "u64 \<Rightarrow> u64 \<times> doc_id" where
  "unpack_entry e = (drop_bit 32 e, ucast e)"

lemma unpack_pack_entry: "unpack_entry (pack_entry gram i) = (ucast gram, i)"
proof -
  have "drop_bit 32 (pack_entry gram i) = ucast gram"
    by (rule bit_word_eqI) (auto simp: pack_entry_def bit_simps dest: bit_imp_le_length)
  moreover have "(ucast (pack_entry gram i) :: u32) = i"
    by (rule bit_word_eqI) (auto simp: pack_entry_def bit_simps)
  ultimately show ?thesis by (simp add: unpack_entry_def)
qed

lemma unpack_entry_mono: "e \<le> e' \<Longrightarrow> unpack_entry e \<le> unpack_entry e'"
proof -
  assume "e \<le> e'"
  then have le: "unat e \<le> unat e'" by (simp add: word_le_nat_alt)
  have u: "unat (drop_bit 32 x) = unat x div 2 ^ 32" "unat (ucast x :: u32) = unat x mod 2 ^ 32" for x :: u64
    by (simp_all add: unat_drop_bit unat_ucast_down)
  have "unat e div 2 ^ 32 \<le> unat e' div 2 ^ 32" using le by (rule div_le_mono)
  moreover have "unat e mod 2 ^ 32 \<le> unat e' mod 2 ^ 32" if "unat e div 2 ^ 32 = unat e' div 2 ^ 32"
    using le that by (metis add_le_cancel_left div_mult_mod_eq)
  ultimately show ?thesis
    unfolding unpack_entry_def less_eq_prod_def fst_conv snd_conv word_less_nat_alt word_le_nat_alt u
    by (metis le_neq_implies_less)
qed

definition sink_inv :: "(u64 \<times> doc_id) set \<Rightarrow> entry_sink \<Rightarrow> bool" where
  "sink_inv R s \<longleftrightarrow> (\<forall>e\<in>set (sink_entries s). good_key Trigram (drop_bit 32 e)) \<and>
     (\<exists>rss. list_all2 (is_run Trigram) rss (sink_runs s) \<and> set (concat rss) \<union> unpack_entry ` set (sink_entries s) = R)"

lemma new_sink_inv: "sink_inv {} new_sink"
  by (simp add: sink_inv_def new_sink_def)

lemma entries_run:
  assumes "\<forall>e\<in>set es. good_key Trigram (drop_bit 32 e)"
  shows "is_run Trigram (map unpack_entry (remdups_adj (sort es))) (concat (map entry_record (remdups_adj (sort es))))"
proof -
  have "sorted (remdups_adj (sort es))" by (simp add: sorted_remdups_adj)
  then have "sorted (map unpack_entry (remdups_adj (sort es)))"
    unfolding sorted_map by (rule sorted_wrt_mono_rel [rotated]) (rule unpack_entry_mono)
  moreover have "concat (map entry_record (remdups_adj (sort es))) = records Trigram (map unpack_entry (remdups_adj (sort es)))"
    by (simp add: records_def entry_record_def [abs_def] unpack_entry_def o_def)
  ultimately show ?thesis using assms by (auto simp: is_run_def list_all_iff unpack_entry_def)
qed

lemma spill_inv: "sink_inv R s \<Longrightarrow> sink_inv R (spill s) \<and> sink_entries (spill s) = []"
proof (cases "sink_entries s = []")
  case False
  assume inv: "sink_inv R s"
  then obtain rss where rss: "list_all2 (is_run Trigram) rss (sink_runs s)" "set (concat rss) \<union> unpack_entry ` set (sink_entries s) = R"
    and good: "\<forall>e\<in>set (sink_entries s). good_key Trigram (drop_bit 32 e)" by (auto simp: sink_inv_def)
  let ?es = "remdups_adj (sort (sink_entries s))"
  have "list_all2 (is_run Trigram) (rss @ [map unpack_entry ?es]) (sink_runs s @ [concat (map entry_record ?es)])"
    using rss(1) entries_run [OF good] by (intro list_all2_appendI) simp_all
  moreover have "set (concat (rss @ [map unpack_entry ?es])) = R" using rss(2) by auto
  ultimately show ?thesis using False unfolding sink_inv_def spill_def by fastforce
qed (simp add: spill_def)

lemma push_entry_inv:
  assumes "sink_inv R s" "unat gram < 2 ^ 24"
  shows "sink_inv (insert (ucast gram, i) R) (push_entry s gram i)"
proof -
  let ?s = "s\<lparr>sink_entries := sink_entries s @ [pack_entry gram i]\<rparr>"
  have "good_key Trigram (ucast gram)" using assms(2) by (simp add: good_key_def key_bytes_def unat_ucast_up)
  moreover have key: "drop_bit 32 (pack_entry gram i) = ucast gram" using unpack_pack_entry [of gram i] by (simp add: unpack_entry_def)
  ultimately have "sink_inv (insert (ucast gram, i) R) ?s"
    using assms(1) by (auto simp: sink_inv_def unpack_pack_entry)
  then show ?thesis using spill_inv by (auto simp: push_entry_def Let_def)
qed

section \<open>Runs of a build chunk\<close>

lemma push_window_pairs:
  "grams \<noteq> [] \<Longrightarrow> push_window base s block grams = visit_all (push_pair base) s (map (Pair block) grams)"
proof (cases "block_id base block")
  case (Inl e)
  assume "grams \<noteq> []"
  then show ?thesis using Inl by (cases grams) (simp_all add: push_window_def push_pair_def)
next
  case (Inr i)
  have "visit_all (push_pair base) s (map (Pair block) gs) = Inr (foldl (\<lambda>s gram. push_entry s gram i) s gs)" for gs s
    by (induction gs arbitrary: s) (simp_all add: push_pair_def Inr)
  then show ?thesis by (simp add: push_window_def Inr)
qed

lemma visit_blocks_pairs:
  "visit_all (visit_block X (push_window base) body) s ks =
   visit_all (push_pair base) s (concat (map (\<lambda>k. map (Pair (of_nat k)) (window_grams X body k)) ks))"
  by (induction ks arbitrary: s) (auto simp: visit_block_def push_window_pairs visit_all_append split: sum.split)

lemma file_blocks_pairs:
  assumes "start + length body \<le> length file" "body = sub_slice file start (start + length body)" "block_count_of body < 2 ^ 32"
  shows "visit_file_trigram_blocks X file start (length body) (push_window base) s =
    and_then (visit_all (push_pair base) s (pack_trigram_block_grams X body)) (\<lambda>s.
      Inr (snd (track_max_line body (0, 0)), map (newlines_in body) [0..<block_count_of body], s))"
  unfolding visit_file_blocks [OF assms] visit_blocks_pairs visited_pairs_eq [unfolded visited_pairs_def] by (rule refl)

lemma push_pairs_inv:
  assumes "sink_inv R s" "\<forall>(b, g)\<in>set pairs. unat g < 2 ^ 24 \<and> unat base + unat b < 2 ^ 32"
  shows "\<exists>s'. visit_all (push_pair base) s pairs = Inr s' \<and> sink_inv (R \<union> (\<lambda>(b, g). (ucast g, base + b)) ` set pairs) s'"
  using assms
proof (induction pairs arbitrary: R s)
  case (Cons p pairs)
  obtain b g where p: "p = (b, g)" by (cases p)
  have "push_pair base s p = Inr (push_entry s g (base + b))" using Cons.prems(2) by (simp add: p push_pair_def block_id_def checked_add_def)
  moreover have "sink_inv (insert (ucast g, base + b) R) (push_entry s g (base + b))" using Cons.prems by (intro push_entry_inv) (simp_all add: p)
  ultimately show ?case using Cons.IH [of "insert (ucast g, base + b) R" "push_entry s g (base + b)"] Cons.prems(2) by (simp add: p)
qed simp

text \<open>What a document of a chunk holds: in memory its block grams, in a file or the spool its bytes.\<close>

definition doc_holds :: "crates \<Rightarrow> bytes option \<Rightarrow> grammed_doc \<Rightarrow> bytes \<Rightarrow> bool" where
  "doc_holds X spool doc body \<longleftrightarrow> unat (gd_base doc) + block_count_of body < 2 ^ 32 \<and>
     (case gd_grams doc of
        TrigramBlocks pairs \<Rightarrow> pairs = pack_trigram_block_grams X body
      | TrigramBlocksFile file len \<Rightarrow> len \<le> length file \<and> body = take len file
      | TrigramSpool off len \<Rightarrow> \<exists>file. spool = Some file \<and> off + len \<le> length file \<and> body = sub_slice file off (off + len)
      | _ \<Rightarrow> False)"

definition block_records :: "crates \<Rightarrow> u32 \<Rightarrow> bytes \<Rightarrow> (u64 \<times> doc_id) set" where
  "block_records X base body = (\<lambda>(b, g). (ucast g, base + b)) ` set (pack_trigram_block_grams X body)"

definition doc_lines_of :: "grammed_doc \<Rightarrow> bytes \<Rightarrow> doc_lines list" where
  "doc_lines_of doc body =
     (case gd_grams doc of
        TrigramBlocks _ \<Rightarrow> []
      | _ \<Rightarrow> [(gd_doc_id doc, snd (track_max_line body (0, 0)), map (newlines_in body) [0..<block_count_of body])])"

lemma block_grams_fit:
  assumes "radsort_sorts X" "unat base + block_count_of body < 2 ^ 32"
  shows "\<forall>(b, g)\<in>set (pack_trigram_block_grams X body). unat g < 2 ^ 24 \<and> unat base + unat b < 2 ^ 32"
proof safe
  fix b g assume "(b, g) \<in> set (pack_trigram_block_grams X body)"
  then obtain i where i: "i + 2 < length body" "b = of_nat (i div CANDIDATE_BLOCK_BYTES)"
    "g = pack_window (body ! i, body ! (i + 1), body ! (i + 2))" by (auto simp: pack_trigram_block_grams_set [OF assms(1)] simp del: pack_window.simps)
  show "unat g < 2 ^ 24" unfolding i(3) by (rule pack_window_bound)
  have "i div CANDIDATE_BLOCK_BYTES * CANDIDATE_BLOCK_BYTES \<le> i" by (rule div_times_less_eq_dividend)
  then have "i div CANDIDATE_BLOCK_BYTES < block_count_of body" using i(1) unfolding less_block_count by linarith
  moreover have "unat b \<le> i div CANDIDATE_BLOCK_BYTES" unfolding i(2) by (simp add: unat_of_nat)
  ultimately show "unat base + unat b < 2 ^ 32" using assms(2) by linarith
qed

lemma write_file_doc_inv:
  assumes X: "radsort_sorts X" and src: "start + length body \<le> length file" "body = sub_slice file start (start + length body)"
    and fit: "unat (gd_base doc) + block_count_of body < 2 ^ 32" and inv: "sink_inv R s"
  shows "\<exists>s'. write_file_doc X doc file start (length body) (s, lines) =
      Inr (s', lines @ [(gd_doc_id doc, snd (track_max_line body (0, 0)), map (newlines_in body) [0..<block_count_of body])]) \<and>
    sink_inv (R \<union> block_records X (gd_base doc) body) s'"
proof -
  have "block_count_of body < 2 ^ 32" using fit by linarith
  note vis = file_blocks_pairs [OF src this]
  from push_pairs_inv [OF inv block_grams_fit [OF X fit]] obtain s' where
    "visit_all (push_pair (gd_base doc)) s (pack_trigram_block_grams X body) = Inr s'" "sink_inv (R \<union> block_records X (gd_base doc) body) s'"
    by (auto simp: block_records_def)
  then show ?thesis by (simp add: write_file_doc_def vis)
qed

lemma write_block_doc_inv:
  assumes X: "radsort_sorts X" and doc: "doc_holds X spool doc body" and inv: "sink_inv R (fst st)"
  shows "\<exists>s'. write_block_doc X spool st doc = Inr (s', snd st @ doc_lines_of doc body) \<and> sink_inv (R \<union> block_records X (gd_base doc) body) s'"
proof -
  obtain s lines where st: "st = (s, lines)" by (cases st)
  have fit: "unat (gd_base doc) + block_count_of body < 2 ^ 32" using doc by (simp add: doc_holds_def)
  have inv': "sink_inv R s" using inv by (simp add: st)
  show ?thesis
  proof (cases "gd_grams doc")
    case (TrigramBlocks pairs)
    then have "pairs = pack_trigram_block_grams X body" using doc by (simp add: doc_holds_def)
    then show ?thesis using push_pairs_inv [OF inv' block_grams_fit [OF X fit]] TrigramBlocks
      by (auto simp: write_block_doc_def block_records_def doc_lines_of_def st)
  next
    case (TrigramBlocksFile src len)
    then have t: "0 + length body \<le> length src" "body = sub_slice src 0 (0 + length body)" "len = length body"
      using doc by (auto simp: doc_holds_def sub_slice_def)
    from write_file_doc_inv [OF X t(1,2) fit inv', of lines] show ?thesis
      by (simp add: write_block_doc_def TrigramBlocksFile t(3) [symmetric] doc_lines_of_def st)
  next
    case (TrigramSpool off len)
    then obtain src where sp: "spool = Some src" "off + len \<le> length src" "body = sub_slice src off (off + len)"
      using doc by (auto simp: doc_holds_def)
    then have t: "off + length body \<le> length src" "body = sub_slice src off (off + length body)" "len = length body" by auto
    from write_file_doc_inv [OF X t(1,2) fit inv', of lines] show ?thesis
      by (simp add: write_block_doc_def TrigramSpool sp(1) t(3) [symmetric] doc_lines_of_def st)
  qed (use doc in \<open>auto simp: doc_holds_def\<close>)
qed

lemma write_block_runs_ok:
  assumes X: "radsort_sorts X" and docs: "list_all2 (doc_holds X spool) grammed bodies"
  shows "\<exists>runs rss. write_trigram_block_runs X grammed spool = Inr (runs, concat (map2 doc_lines_of grammed bodies)) \<and>
    list_all2 (is_run Trigram) rss runs \<and>
    set (concat rss) = (\<Union>(doc, body)\<in>set (zip grammed bodies). block_records X (gd_base doc) body)"
proof -
  have step: "\<exists>s'. visit_all (write_block_doc X spool) st grammed = Inr (s', snd st @ concat (map2 doc_lines_of grammed bodies)) \<and>
      sink_inv (R \<union> (\<Union>(doc, body)\<in>set (zip grammed bodies). block_records X (gd_base doc) body)) s'" if "sink_inv R (fst st)" for R st
    using docs that
  proof (induction grammed bodies arbitrary: R st rule: list_all2_induct)
    case (Cons doc docs body bodies)
    from write_block_doc_inv [OF X Cons.hyps(1) Cons.prems] obtain s' where
      s': "write_block_doc X spool st doc = Inr (s', snd st @ doc_lines_of doc body)" "sink_inv (R \<union> block_records X (gd_base doc) body) s'" by blast
    with Cons.IH [of "R \<union> block_records X (gd_base doc) body" "(s', snd st @ doc_lines_of doc body)"] show ?case by (simp add: Un_assoc)
  next
    case Nil
    then show ?case by (cases st) simp
  qed
  from step [of "{}" "(new_sink, [])"] new_sink_inv obtain s' where
    s': "visit_all (write_block_doc X spool) (new_sink, []) grammed = Inr (s', concat (map2 doc_lines_of grammed bodies))"
    "sink_inv (\<Union>(doc, body)\<in>set (zip grammed bodies). block_records X (gd_base doc) body) s'" by auto
  from spill_inv [OF s'(2)] obtain rss where "list_all2 (is_run Trigram) rss (sink_runs (spill s'))"
    "set (concat rss) = (\<Union>(doc, body)\<in>set (zip grammed bodies). block_records X (gd_base doc) body)" by (auto simp: sink_inv_def)
  with s'(1) show ?thesis by (auto simp: write_trigram_block_runs_def finish_sink_def)
qed

section \<open>Properties\<close>

text \<open>
  C21: Building from a file and building from memory agree. Streaming a range of a file through 128 KiB windows puts into the sink exactly what the block
  grams of the same bytes in memory put there, with the same error where a block id overflows; it also returns the number of newlines of
  every block and the length of the longest line.
\<close>

theorem file_blocks_match_memory:
  assumes "start + length body \<le> length file" "body = sub_slice file start (start + length body)" "block_count_of body < 2 ^ 32"
  shows "\<exists>m. longest_line body m \<and> visit_file_trigram_blocks X file start (length body) (push_window base) s =
    and_then (visit_all (push_pair base) s (pack_trigram_block_grams X body)) (\<lambda>s.
      Inr (m, map (newlines_in body) [0..<block_count_of body], s))"
  using file_blocks_pairs [OF assms] track_longest_line by blast

theorem file_blocks_match_memory_witness:
  "\<exists>m. longest_line [97, 10, 98, 99] m \<and> visit_file_trigram_blocks sample_crates [0, 97, 10, 98, 99, 0] 1 4 (push_window 7) new_sink =
    and_then (visit_all (push_pair 7) new_sink (pack_trigram_block_grams sample_crates [97, 10, 98, 99])) (\<lambda>s. Inr (m, [1], s))"
proof -
  let ?body = "[97, 10, 98, 99] :: bytes"
  have n: "block_count_of ?body = 1" by (simp add: div_ceil_def CANDIDATE_BLOCK_BYTES_def)
  have nl: "map (newlines_in ?body) [0..<1] = [1]" by (simp add: newlines_in_def sub_slice_def CANDIDATE_BLOCK_BYTES_def NEWLINE_def)
  have "1 + length ?body \<le> length [0, 97, 10, 98, 99, 0 :: u8]" "?body = sub_slice [0, 97, 10, 98, 99, 0] 1 (1 + length ?body)" "block_count_of ?body < 2 ^ 32"
    unfolding n by (simp_all add: sub_slice_def)
  moreover have "length ?body = 4" by simp
  ultimately show ?thesis using file_blocks_match_memory [of 1 ?body "[0, 97, 10, 98, 99, 0]" sample_crates 7 new_sink] unfolding n nl by metis
qed

end
