(* ===== verification/Sparse_Runs.thy ===== *)
theory Sparse_Runs
  imports Run_Write Sparse_Grams
begin

unbundle bit_operations_syntax

text \<open>
  Sparse posting runs, \<open>crates/index/src/build/runs.rs\<close>: the writer that collects the gram hashes of one document and spills them as
  sorted runs, from memory (\<open>add_text\<close>) and from a file through a chunked reader (\<open>add_reader\<close>), and \<open>write_posting_runs\<close>, the entry
  point of both strategies. The hash set of a writer is the list of its members in order of insertion; the sort of
  \<open>radsort\<close> on 64-bit keys is the parameter \<open>radsort64\<close>.

  The chunk a reader holds is a cache of the file: \<open>read_byte_body\<close> shows that a read returns the same byte whatever the chunk holds, so
  \<open>add_reader\<close> passes the reader on as it was opened.
\<close>

section \<open>The writer\<close>

record sparse_run_writer =
  sw_id :: doc_id
  sw_entries :: "u64 list"
  sw_run_bytes :: nat
  sw_runs :: "bytes list"

type_synonym sort64 = "u64 list \<Rightarrow> u64 list"

definition radsort64_sorts :: "sort64 \<Rightarrow> bool" where
  "radsort64_sorts S \<longleftrightarrow> (\<forall>xs. S xs = sort xs)"

definition new_run_writer :: "nat \<Rightarrow> nat \<Rightarrow> sparse_run_writer result" where
  "new_run_writer idx run_bytes =
     ensure (run_bytes > 0) ''sparse posting run size must be positive''
     (and_then (try_u32 idx) (\<lambda>i. Inr \<lparr>sw_id = of_nat i, sw_entries = [], sw_run_bytes = run_bytes, sw_runs = []\<rparr>))"

definition write_sparse_run :: "sort64 \<Rightarrow> u64 list \<Rightarrow> doc_id \<Rightarrow> bytes" where
  "write_sparse_run S entries i = concat (map (\<lambda>hash. write_posting_record Sparse hash i) (S entries))"

definition flush_run :: "sort64 \<Rightarrow> sparse_run_writer \<Rightarrow> sparse_run_writer" where
  "flush_run S w =
     (if sw_entries w = [] then w else w\<lparr>sw_runs := sw_runs w @ [write_sparse_run S (sw_entries w) (sw_id w)], sw_entries := []\<rparr>)"

definition add_hash :: "sort64 \<Rightarrow> sparse_run_writer \<Rightarrow> u64 \<Rightarrow> sparse_run_writer" where
  "add_hash S w hash =
     (if hash \<in> set (sw_entries w) then w
      else let w = w\<lparr>sw_entries := sw_entries w @ [hash]\<rparr>
           in if length (sw_entries w) * 8 \<ge> sw_run_bytes w then flush_run S w else w)"

definition finish_writer :: "sort64 \<Rightarrow> sparse_run_writer \<Rightarrow> bytes list" where
  "finish_writer S w = sw_runs (flush_run S w)"

text \<open>The last two hashes are remembered in a ring.\<close>

record recent_ring =
  ring_hashes :: "u64 option list"
  ring_next :: nat

definition new_ring :: recent_ring where
  "new_ring = \<lparr>ring_hashes = [None, None], ring_next = 0\<rparr>"

definition add_recent :: "sort64 \<Rightarrow> sparse_run_writer \<times> recent_ring \<Rightarrow> u64 \<Rightarrow> sparse_run_writer \<times> recent_ring" where
  "add_recent S = (\<lambda>(w, ring) hash.
     if Some hash \<in> set (ring_hashes ring) then (w, ring)
     else (add_hash S w hash,
           \<lparr>ring_hashes = (ring_hashes ring)[ring_next ring := Some hash], ring_next = (ring_next ring + 1) mod length (ring_hashes ring)\<rparr>))"

definition add_text :: "crates \<Rightarrow> sort64 \<Rightarrow> sparse_run_writer \<Rightarrow> bytes \<Rightarrow> sparse_run_writer result" where
  "add_text X S w data =
     and_then (iterate_sparse_grams X data) (\<lambda>grams.
       Inr (fst (foldl (add_recent S) (w, new_ring) (map (hash_ngram X) grams))))"

section \<open>The reader of a file\<close>

record sparse_file_reader =
  rd_file :: bytes
  rd_base :: nat
  rd_len :: nat
  chunk_start :: nat
  rd_chunk :: bytes

definition SPARSE_FILE_CHUNK :: nat where "SPARSE_FILE_CHUNK = 1024 * 1024"
definition SPARSE_TRIGRAM_BITMAP_MIN :: nat where "SPARSE_TRIGRAM_BITMAP_MIN = 512 * 1024"

definition open_range :: "bytes \<Rightarrow> nat \<Rightarrow> nat \<Rightarrow> sparse_file_reader result" where
  "open_range file start len =
     and_then (context_of (add_u64 start len) ''sparse gram file range overflows'') (\<lambda>stop.
     ensure (stop \<le> length file) ''sparse gram file range is out of bounds''
     (Inr \<lparr>rd_file = file, rd_base = start, rd_len = len, chunk_start = 0, rd_chunk = []\<rparr>))"

definition file_offset :: "sparse_file_reader \<Rightarrow> nat \<Rightarrow> nat result" where
  "file_offset r i = context_of (add_u64 (rd_base r) i) ''sparse gram file offset overflows''"

definition read_exact_at :: "bytes \<Rightarrow> nat \<Rightarrow> nat \<Rightarrow> bytes result" where
  "read_exact_at file off n = context_of (get_range file off (off + n)) ''failed to fill whole buffer''"

definition load_chunk :: "sparse_file_reader \<Rightarrow> nat \<Rightarrow> sparse_file_reader result" where
  "load_chunk r i =
     ensure (i < rd_len r) ''sparse gram byte is out of bounds''
     (let start = i div SPARSE_FILE_CHUNK * SPARSE_FILE_CHUNK; len = min (rd_len r - start) SPARSE_FILE_CHUNK
      in and_then (file_offset r start) (\<lambda>off.
         and_then (read_exact_at (rd_file r) off len) (\<lambda>chunk. Inr (r\<lparr>rd_chunk := chunk, chunk_start := start\<rparr>))))"

definition read_byte :: "sparse_file_reader \<Rightarrow> nat \<Rightarrow> (u8 \<times> sparse_file_reader) result" where
  "read_byte r i =
     and_then (if i < chunk_start r \<or> i \<ge> chunk_start r + length (rd_chunk r) then load_chunk r i else Inr r) (\<lambda>r.
     and_then (or_panic (get (rd_chunk r) (i - chunk_start r))) (\<lambda>byte. Inr (byte, r)))"

definition read_bytes :: "sparse_file_reader \<Rightarrow> nat \<times> nat \<Rightarrow> nat \<Rightarrow> bytes result" where
  "read_bytes r = (\<lambda>(a, e) n.
     ensure (e \<le> rd_len r \<and> e - a = n) ''sparse gram range is out of bounds''
     (and_then (context_of (add_u64 (chunk_start r) (length (rd_chunk r))) ''sparse file chunk range overflows'') (\<lambda>chunk_end.
        if a \<ge> chunk_start r \<and> e \<le> chunk_end then or_panic (get_range (rd_chunk r) (a - chunk_start r) (e - chunk_start r))
        else and_then (file_offset r a) (\<lambda>off. read_exact_at (rd_file r) off n))))"

section \<open>Adding a file\<close>

definition mark_short_gram :: "u64 list \<Rightarrow> nat \<Rightarrow> (bool \<times> u64 list) result" where
  "mark_short_gram bitmap gram =
     and_then (or_panic (get bitmap (gram div 64))) (\<lambda>word.
     let mark = push_bit (gram mod 64) 1
     in Inr (word AND mark \<noteq> 0, bitmap[gram div 64 := word OR mark]))"

definition short_code :: "bytes \<Rightarrow> nat" where
  "short_code gram = foldl (\<lambda>code byte. code * 256 + unat byte) 0 gram"

record add_state =
  as_writer :: sparse_run_writer
  as_ring :: recent_ring
  as_pairs :: "u64 list"
  as_trigrams :: "u64 list option"

text \<open>Whether a short gram was seen before; a gram of another length never is.\<close>

definition check_seen :: "add_state \<Rightarrow> bytes \<Rightarrow> (bool \<times> add_state) result" where
  "check_seen st gram =
     (if length gram = 2
      then and_then (mark_short_gram (as_pairs st) (short_code gram)) (\<lambda>(seen, pairs). Inr (seen, st\<lparr>as_pairs := pairs\<rparr>))
      else if length gram = 3
      then (case as_trigrams st of
              None \<Rightarrow> Inr (False, st)
            | Some trigrams \<Rightarrow> and_then (mark_short_gram trigrams (short_code gram)) (\<lambda>(seen, trigrams). Inr (seen, st\<lparr>as_trigrams := Some trigrams\<rparr>)))
      else Inr (False, st))"

definition add_gram_range :: "crates \<Rightarrow> sort64 \<Rightarrow> sparse_file_reader \<Rightarrow> add_state \<Rightarrow> nat \<times> nat \<Rightarrow> add_state result" where
  "add_gram_range X S r st rng =
     (let n = snd rng - fst rng; is_inline = n \<le> 8
      in and_then (if is_inline then read_bytes r rng n else Inr []) (\<lambda>inline.
         and_then (if is_inline then check_seen st inline else Inr (False, st)) (\<lambda>(seen, st).
         if seen then Inr st
         else and_then (if is_inline then Inr (hash_ngram X inline)
                        else and_then (read_bytes r rng n) (\<lambda>scratch. Inr (hash_ngram X scratch))) (\<lambda>hash.
           case add_recent S (as_writer st, as_ring st) hash of (w, ring) \<Rightarrow> Inr (st\<lparr>as_writer := w, as_ring := ring\<rparr>)))))"

definition reader_byte :: "sparse_file_reader \<Rightarrow> nat \<Rightarrow> u8 result" where
  "reader_byte r i = and_then (read_byte r i) (\<lambda>(byte, _). Inr byte)"

function add_ranges :: "crates \<Rightarrow> sort64 \<Rightarrow> sparse_file_reader \<Rightarrow> add_state \<Rightarrow> sparse_gram_ranges \<Rightarrow> add_state result" where
  "add_ranges X S r st ranges =
     (case next_with X (reader_byte r) ranges of
        Inl e \<Rightarrow> Inl e
      | Inr (None, _) \<Rightarrow> Inr st
      | Inr (Some rng, ranges') \<Rightarrow>
          (case add_gram_range X S r st rng of Inl e \<Rightarrow> Inl e | Inr st' \<Rightarrow> add_ranges X S r st' ranges'))"
  by pat_completeness auto
termination
  by (relation "measures [\<lambda>(X, S, r, st, rs). pair_count rs - sg_start rs,
        \<lambda>(X, S, r, st, rs). if emit_pair rs then 1 else 0,
        \<lambda>(X, S, r, st, rs). pair_count rs - sg_end rs]")
    (auto dest!: next_with_Some)

declare add_ranges.simps [simp del]

definition add_reader :: "crates \<Rightarrow> sort64 \<Rightarrow> sparse_run_writer \<Rightarrow> sparse_file_reader \<Rightarrow> sparse_run_writer result" where
  "add_reader X S w r =
     and_then (add_ranges X S r
         \<lparr>as_writer = w, as_ring = new_ring, as_pairs = replicate (2 ^ 16 div 64) 0,
          as_trigrams = (if rd_len r \<ge> SPARSE_TRIGRAM_BITMAP_MIN then Some (replicate (2 ^ 24 div 64) 0) else None)\<rparr>
         (start_sparse_gram_ranges (rd_len r))) (\<lambda>st. Inr (as_writer st))"

definition add_range :: "crates \<Rightarrow> sort64 \<Rightarrow> sparse_run_writer \<Rightarrow> bytes \<Rightarrow> nat \<Rightarrow> nat \<Rightarrow> sparse_run_writer result" where
  "add_range X S w file start len = and_then (open_range file start len) (add_reader X S w)"

definition add_file :: "crates \<Rightarrow> sort64 \<Rightarrow> sparse_run_writer \<Rightarrow> bytes \<Rightarrow> sparse_run_writer result" where
  "add_file X S w file = add_range X S w file 0 (length file)"

section \<open>Both strategies\<close>

definition write_sparse_doc :: "crates \<Rightarrow> sort64 \<Rightarrow> bytes option \<Rightarrow> nat \<Rightarrow> grammed_doc \<Rightarrow> bytes list result" where
  "write_sparse_doc X S spool run_bytes doc =
     and_then (new_run_writer (gd_doc_id doc) run_bytes) (\<lambda>w.
     and_then (case gd_grams doc of
         GSparse data \<Rightarrow> add_text X S w data
       | SparseFile file \<Rightarrow> add_file X S w file
       | SparsePath file \<Rightarrow> add_file X S w file
       | SparseSpool off len \<Rightarrow>
           and_then (context_of spool ''spooled grams have no content spool'') (\<lambda>file. add_range X S w file off len)
       | _ \<Rightarrow> Inl (Bail ''mixed gram strategies in build chunk'')) (\<lambda>w.
       Inr (finish_writer S w)))"

definition worker_run_bytes :: "nat \<Rightarrow> nat \<Rightarrow> nat" where
  "worker_run_bytes sparse_run_bytes threads = min (max (sparse_run_bytes div max threads 1) (2 ^ 20)) sparse_run_bytes"

definition write_posting_runs ::
    "crates \<Rightarrow> sort64 \<Rightarrow> nat \<Rightarrow> grammed_doc list \<Rightarrow> strategy \<Rightarrow> nat \<Rightarrow> bytes option \<Rightarrow> (bytes list \<times> doc_lines list) result" where
  "write_posting_runs X S threads grammed strat sparse_run_bytes spool =
     (case strat of
        Trigram \<Rightarrow> write_trigram_block_runs X grammed spool
      | Sparse \<Rightarrow>
          and_then (visit_all (\<lambda>runs doc. and_then (write_sparse_doc X S spool (worker_run_bytes sparse_run_bytes threads) doc) (\<lambda>more. Inr (runs @ more)))
              [] grammed) (\<lambda>runs. Inr (runs, [])))"

section \<open>The runs of a writer\<close>

definition id_records :: "doc_id \<Rightarrow> u64 set \<Rightarrow> (u64 \<times> doc_id) set" where
  "id_records i H = (\<lambda>h. (h, i)) ` H"

text \<open>The writer has taken in the hashes \<open>H\<close>: they are in its runs or still in memory.\<close>

definition writer_inv :: "u64 set \<Rightarrow> sparse_run_writer \<Rightarrow> bool" where
  "writer_inv H w \<longleftrightarrow> (\<exists>rss. list_all2 (is_run Sparse) rss (sw_runs w) \<and> set (concat rss) \<union> id_records (sw_id w) (set (sw_entries w)) = id_records (sw_id w) H)"

lemma good_sparse_key: "good_key Sparse h"
  using unat_lt64 [of h] by (simp add: good_key_def key_bytes_def)

lemma sorted_id_records: "sorted hs \<Longrightarrow> sorted (map (\<lambda>h. (h, i :: doc_id)) hs)"
  unfolding sorted_map by (rule sorted_wrt_mono_rel [of _ "(\<le>)", rotated]) (auto simp: less_eq_prod_def)

lemma sparse_run_is_run:
  assumes "radsort64_sorts S"
  shows "is_run Sparse (map (\<lambda>h. (h, i)) (sort hs)) (write_sparse_run S hs i)"
  using assms by (simp add: is_run_def write_sparse_run_def radsort64_sorts_def records_def o_def sorted_id_records list_all_iff good_sparse_key)

lemma flush_run_inv:
  assumes S: "radsort64_sorts S" and inv: "writer_inv H w"
  shows "writer_inv H (flush_run S w) \<and> sw_entries (flush_run S w) = [] \<and> sw_id (flush_run S w) = sw_id w"
proof (cases "sw_entries w = []")
  case False
  from inv obtain rss where rss: "list_all2 (is_run Sparse) rss (sw_runs w)"
    "set (concat rss) \<union> id_records (sw_id w) (set (sw_entries w)) = id_records (sw_id w) H" by (auto simp: writer_inv_def)
  let ?rs = "map (\<lambda>h. (h, sw_id w)) (sort (sw_entries w))"
  have "list_all2 (is_run Sparse) (rss @ [?rs]) (sw_runs w @ [write_sparse_run S (sw_entries w) (sw_id w)])"
    using rss(1) sparse_run_is_run [OF S] by (intro list_all2_appendI) simp_all
  moreover have "set (concat (rss @ [?rs])) = id_records (sw_id w) H" using rss(2) by (auto simp: id_records_def)
  moreover have "set (concat (rss @ [?rs])) \<union> id_records (sw_id w) (set []) = set (concat (rss @ [?rs]))" by (simp add: id_records_def)
  ultimately show ?thesis using False unfolding writer_inv_def flush_run_def by fastforce
qed (use inv in \<open>simp add: flush_run_def\<close>)

lemma add_hash_inv:
  assumes S: "radsort64_sorts S" and inv: "writer_inv H w"
  shows "writer_inv (insert h H) (add_hash S w h) \<and> sw_id (add_hash S w h) = sw_id w"
proof (cases "h \<in> set (sw_entries w)")
  case True
  then have "(h, sw_id w) \<in> id_records (sw_id w) H" using inv by (auto simp: writer_inv_def id_records_def)
  then have "id_records (sw_id w) (insert h H) = id_records (sw_id w) H" by (auto simp: id_records_def)
  then show ?thesis using True inv by (simp add: add_hash_def writer_inv_def)
next
  case False
  have "writer_inv (insert h H) (w\<lparr>sw_entries := sw_entries w @ [h]\<rparr>)"
  proof -
    from inv obtain rss where "list_all2 (is_run Sparse) rss (sw_runs w)"
      "set (concat rss) \<union> id_records (sw_id w) (set (sw_entries w)) = id_records (sw_id w) H" by (auto simp: writer_inv_def)
    then show ?thesis unfolding writer_inv_def by (intro exI [of _ rss]) (auto simp: id_records_def)
  qed
  from flush_run_inv [OF S this] this False show ?thesis by (simp add: add_hash_def Let_def)
qed

definition ring_inv :: "u64 set \<Rightarrow> recent_ring \<Rightarrow> bool" where
  "ring_inv H ring \<longleftrightarrow> (\<forall>h. Some h \<in> set (ring_hashes ring) \<longrightarrow> h \<in> H)"

lemma add_recent_inv:
  assumes S: "radsort64_sorts S" and inv: "writer_inv H w" "ring_inv H ring"
  shows "\<exists>w' ring'. add_recent S (w, ring) h = (w', ring') \<and> writer_inv (insert h H) w' \<and> ring_inv (insert h H) ring' \<and> sw_id w' = sw_id w"
proof (cases "Some h \<in> set (ring_hashes ring)")
  case True
  then have "insert h H = H" using inv(2) by (auto simp: ring_inv_def)
  with True inv show ?thesis by (simp add: add_recent_def)
next
  case False
  have "set ((ring_hashes ring)[ring_next ring := Some h]) \<subseteq> insert (Some h) (set (ring_hashes ring))" by (rule set_update_subset_insert)
  then have "ring_inv (insert h H) \<lparr>ring_hashes = (ring_hashes ring)[ring_next ring := Some h], ring_next = n\<rparr>" for n
    using inv(2) unfolding ring_inv_def recent_ring.select_convs by blast
  then show ?thesis using False add_hash_inv [OF S inv(1)] by (simp add: add_recent_def)
qed

lemma new_ring_inv: "ring_inv H new_ring"
  by (simp add: ring_inv_def new_ring_def)

lemma foldl_recent_inv:
  assumes "radsort64_sorts S" "writer_inv H w" "ring_inv H ring"
  shows "\<exists>w' ring'. foldl (add_recent S) (w, ring) hs = (w', ring') \<and> writer_inv (H \<union> set hs) w' \<and> sw_id w' = sw_id w"
  using assms(2,3)
proof (induction hs arbitrary: H w ring)
  case (Cons h hs)
  from add_recent_inv [OF assms(1) Cons.prems] obtain w1 ring1 where
    w1: "add_recent S (w, ring) h = (w1, ring1)" "writer_inv (insert h H) w1" "ring_inv (insert h H) ring1" "sw_id w1 = sw_id w" by blast
  from Cons.IH [OF w1(2,3)] w1(1,4) show ?case by simp
qed simp

text \<open>The hashes of the index-side grams of a text.\<close>

definition text_hashes :: "crates \<Rightarrow> bytes \<Rightarrow> u64 set" where
  "text_hashes X body = hash_ngram X ` byte_range body ` set (ranges_from (data_weight X body) (length body - 1) 0)"

lemma add_text_inv:
  assumes "radsort64_sorts S" "writer_inv H w"
  shows "\<exists>w'. add_text X S w body = Inr w' \<and> writer_inv (H \<union> text_hashes X body) w' \<and> sw_id w' = sw_id w"
proof -
  let ?rs = "ranges_from (data_weight X body) (length body - 1) 0"
  have g: "iterate_sparse_grams X body = Inr (map (byte_range body) ?rs)" by (simp add: iterate_sparse_grams_def iterate_ranges_eq)
  from foldl_recent_inv [OF assms new_ring_inv, of "map (hash_ngram X) (map (byte_range body) ?rs)"] show ?thesis
    unfolding text_hashes_def add_text_def g set_map and_then_Inr by (metis fst_conv)
qed

section \<open>Reads\<close>

text \<open>A reader over the text \<open>body\<close>: its chunk is empty or a range of the text.\<close>

definition reads_body :: "bytes \<Rightarrow> sparse_file_reader \<Rightarrow> bool" where
  "reads_body body r \<longleftrightarrow> rd_len r = length body \<and> rd_base r + length body \<le> length (rd_file r) \<and> rd_base r + length body < 2 ^ 64 \<and>
     body = sub_slice (rd_file r) (rd_base r) (rd_base r + length body) \<and>
     chunk_start r + length (rd_chunk r) \<le> length body \<and> rd_chunk r = sub_slice body (chunk_start r) (chunk_start r + length (rd_chunk r))"

lemma sub_sub_slice: "e \<le> m \<Longrightarrow> sub_slice (sub_slice xs b (b + m)) a e = sub_slice xs (b + a) (b + e)"
proof (cases "a \<le> e")
  case True
  assume "e \<le> m"
  have "sub_slice (sub_slice xs b (b + m)) a e = take (e - a) (sub_slice xs (b + a) (b + m))"
    by (subst sub_slice_def) (simp add: drop_sub_slice)
  also have "\<dots> = sub_slice xs (b + a) (b + e)" using True \<open>e \<le> m\<close> by (simp add: take_sub_slice min_def)
  finally show ?thesis .
qed (simp add: sub_slice_def)

lemma read_file_range:
  assumes r: "reads_body body r" and e: "a \<le> e" "e \<le> length body"
  shows "and_then (file_offset r a) (\<lambda>off. read_exact_at (rd_file r) off (e - a)) = Inr (sub_slice body a e)"
proof -
  have b: "rd_base r + e \<le> length (rd_file r)" "rd_base r + a < 2 ^ 64" using r e by (simp_all add: reads_body_def)
  have "body = sub_slice (rd_file r) (rd_base r) (rd_base r + length body)" using r by (simp add: reads_body_def)
  then have "sub_slice body a e = sub_slice (rd_file r) (rd_base r + a) (rd_base r + e)" using sub_sub_slice [OF e(2)] by metis
  then show ?thesis using b e(1) by (simp add: file_offset_def add_u64_def read_exact_at_def get_range_def)
qed

lemma read_bytes_body:
  assumes r: "reads_body body r" and e: "a \<le> e" "e \<le> length body"
  shows "read_bytes r (a, e) (e - a) = Inr (sub_slice body a e)"
proof -
  have c: "rd_len r = length body" "chunk_start r + length (rd_chunk r) < 2 ^ 64" "chunk_start r + length (rd_chunk r) \<le> length body"
    using r by (auto simp: reads_body_def)
  have chunk: "rd_chunk r = sub_slice body (chunk_start r) (chunk_start r + length (rd_chunk r))" using r by (simp add: reads_body_def)
  show ?thesis
  proof (cases "a \<ge> chunk_start r \<and> e \<le> chunk_start r + length (rd_chunk r)")
    case True
    have "e - chunk_start r \<le> length (rd_chunk r)" using True by linarith
    then have "sub_slice (rd_chunk r) (a - chunk_start r) (e - chunk_start r) = sub_slice body a e"
      using True e(1) sub_sub_slice [of "e - chunk_start r" "length (rd_chunk r)" body "chunk_start r" "a - chunk_start r"]
      by (subst chunk) simp
    moreover have "a - chunk_start r \<le> e - chunk_start r" "e - chunk_start r \<le> length (rd_chunk r)" using True e(1) by linarith+
    ultimately show ?thesis using True e c by (simp add: read_bytes_def add_u64_def get_range_def)
  next
    case False
    then show ?thesis using read_file_range [OF r e] c e by (auto simp: read_bytes_def add_u64_def)
  qed
qed

lemma load_chunk_body:
  assumes r: "reads_body body r" and i: "i < length body"
  shows "\<exists>r'. load_chunk r i = Inr r' \<and> reads_body body r' \<and> chunk_start r' \<le> i \<and> i < chunk_start r' + length (rd_chunk r')"
proof -
  let ?start = "i div SPARSE_FILE_CHUNK * SPARSE_FILE_CHUNK"
  define len where "len = min (rd_len r - ?start) SPARSE_FILE_CHUNK"
  have len_body: "rd_len r = length body" using r by (simp add: reads_body_def)
  have "?start \<le> i" by (rule div_times_less_eq_dividend)
  moreover have "i < ?start + SPARSE_FILE_CHUNK"
    using div_mult_mod_eq [of i SPARSE_FILE_CHUNK] mod_less_divisor [of SPARSE_FILE_CHUNK i] by (simp add: SPARSE_FILE_CHUNK_def)
  ultimately have b: "?start \<le> i" "i < ?start + len" "?start + len \<le> length body" using i unfolding len_def len_body by linarith+
  from read_file_range [OF r _ b(3), of ?start] have "and_then (file_offset r ?start) (\<lambda>off. read_exact_at (rd_file r) off len) = Inr (sub_slice body ?start (?start + len))"
    by simp
  then have "load_chunk r i = Inr (r\<lparr>rd_chunk := sub_slice body ?start (?start + len), chunk_start := ?start\<rparr>)"
    using i by (auto simp: load_chunk_def len_body Let_def len_def [symmetric, unfolded len_body])
  moreover have "length (sub_slice body ?start (?start + len)) = len" using b(3) by simp
  moreover have "reads_body body (r\<lparr>rd_chunk := sub_slice body ?start (?start + len), chunk_start := ?start\<rparr>)"
    using r b(3) by (simp add: reads_body_def)
  ultimately show ?thesis using b by simp
qed

lemma read_byte_body:
  assumes r: "reads_body body r" and i: "i < length body"
  shows "\<exists>r'. read_byte r i = Inr (body ! i, r') \<and> reads_body body r'"
proof -
  have chunk: "\<exists>r'. (if i < chunk_start r \<or> i \<ge> chunk_start r + length (rd_chunk r) then load_chunk r i else Inr r) = Inr r' \<and>
      reads_body body r' \<and> chunk_start r' \<le> i \<and> i < chunk_start r' + length (rd_chunk r')"
    using load_chunk_body [OF r i] r by auto
  then obtain r' where r': "(if i < chunk_start r \<or> i \<ge> chunk_start r + length (rd_chunk r) then load_chunk r i else Inr r) = Inr r'"
    "reads_body body r'" "chunk_start r' \<le> i" "i < chunk_start r' + length (rd_chunk r')" by blast
  have "rd_chunk r' = sub_slice body (chunk_start r') (chunk_start r' + length (rd_chunk r'))" using r'(2) by (simp add: reads_body_def)
  then have "rd_chunk r' ! (i - chunk_start r') = sub_slice body (chunk_start r') (chunk_start r' + length (rd_chunk r')) ! (i - chunk_start r')" by simp
  also have "\<dots> = body ! i" using r'(3,4) i by (simp add: sub_slice_def)
  finally have "get (rd_chunk r') (i - chunk_start r') = Some (body ! i)" using r'(3,4) by (simp add: get_def)
  then show ?thesis using r'(2) unfolding read_byte_def r'(1) by simp
qed

lemma reader_byte_body: "reads_body body r \<Longrightarrow> i < length body \<Longrightarrow> reader_byte r i = Inr (body ! i)"
  using read_byte_body [of body r i] by (auto simp: reader_byte_def)

section \<open>Adding a file adds its hashes\<close>

lemma short_code_snoc [simp]: "short_code (g @ [b]) = short_code g * 256 + unat b" "short_code [] = 0"
  by (simp_all add: short_code_def)

lemma short_code_bound: "short_code g < 256 ^ length g"
proof (induction g rule: rev_induct)
  case (snoc b g)
  then have "short_code g * 256 + unat b < (short_code g + 1) * 256" using unat_lt8 [of b] by simp
  also have "\<dots> \<le> 256 ^ length g * 256" using snoc by (intro mult_le_mono1) simp
  finally show ?case by (simp add: mult.commute)
qed simp

lemma short_code_inj: "length g = length h \<Longrightarrow> short_code g = short_code h \<Longrightarrow> g = h"
proof (induction g arbitrary: h rule: rev_induct)
  case (snoc b g)
  then obtain c h' where h: "h = h' @ [c]" by (cases h rule: rev_cases) auto
  have code: "short_code g * 256 + unat b = short_code h' * 256 + unat c" using snoc.prems(2) h by simp
  have b: "unat b < 256" "unat c < 256" by (rule unat_lt8)+
  have "short_code g = (short_code g * 256 + unat b) div 256" using b(1) by simp
  also have "\<dots> = short_code h'" unfolding code using b(2) by simp
  finally have "short_code g = short_code h'" .
  moreover from this code have "b = c" by (simp add: word_unat_eq_iff)
  ultimately show ?case using snoc h by simp
qed simp

text \<open>A bitmap over grams of one length marks only grams whose hashes were taken in.\<close>

definition marks_inv :: "crates \<Rightarrow> nat \<Rightarrow> u64 set \<Rightarrow> u64 list \<Rightarrow> bool" where
  "marks_inv X n H bitmap \<longleftrightarrow> length bitmap = 256 ^ n div 64 \<and>
     (\<forall>g. length g = n \<longrightarrow> bit (bitmap ! (short_code g div 64)) (short_code g mod 64) \<longrightarrow> hash_ngram X g \<in> H)"

lemma marks_inv_start: "marks_inv X n H (replicate (256 ^ n div 64) 0)" if "64 dvd (256 :: nat) ^ n"
proof -
  have "short_code g div 64 < 256 ^ n div 64" if "length g = n" for g
    using short_code_bound [of g] \<open>64 dvd 256 ^ n\<close> that by (auto simp: dvd_def less_mult_imp_div_less mult.commute)
  then show ?thesis by (simp add: marks_inv_def)
qed

lemma marks_inv_mono: "marks_inv X n H bitmap \<Longrightarrow> H \<subseteq> H' \<Longrightarrow> marks_inv X n H' bitmap"
  by (auto simp: marks_inv_def)

lemma mark_short_inv:
  assumes "marks_inv X n H bitmap" "length g = n" "64 dvd (256 :: nat) ^ n"
  shows "\<exists>seen bitmap'. mark_short_gram bitmap (short_code g) = Inr (seen, bitmap') \<and> (seen \<longrightarrow> hash_ngram X g \<in> H) \<and>
    marks_inv X n (insert (hash_ngram X g) H) bitmap'"
proof -
  let ?w = "short_code g div 64" and ?k = "short_code g mod 64"
  have w: "?w < length bitmap"
    using short_code_bound [of g] assms by (auto simp: marks_inv_def dvd_def less_mult_imp_div_less mult.commute)
  have k: "?k < 64" by simp
  have bit_test: "(bitmap ! ?w AND push_bit ?k 1 \<noteq> 0) = bit (bitmap ! ?w) ?k"
    by (simp add: bit_iff_and_push_bit_not_eq_0)
  have "marks_inv X n (insert (hash_ngram X g) H) (bitmap[?w := bitmap ! ?w OR push_bit ?k 1])"
    unfolding marks_inv_def
  proof (intro conjI allI impI)
    show "length (bitmap[?w := bitmap ! ?w OR push_bit ?k 1]) = 256 ^ n div 64" using assms(1) by (simp add: marks_inv_def)
  next
    fix h :: bytes
    assume h: "length h = n" "bit (bitmap[?w := bitmap ! ?w OR push_bit ?k 1] ! (short_code h div 64)) (short_code h mod 64)"
    show "hash_ngram X h \<in> insert (hash_ngram X g) H"
    proof (cases "short_code h = short_code g")
      case True
      then show ?thesis using short_code_inj [of h g] h(1) assms(2) by simp
    next
      case False
      then have "short_code h div 64 \<noteq> ?w \<or> short_code h mod 64 \<noteq> ?k" by (metis div_mult_mod_eq)
      then have "bit (bitmap ! (short_code h div 64)) (short_code h mod 64)"
        using h(2) w by (cases "short_code h div 64 = ?w") (auto simp: bit_simps)
      then show ?thesis using assms(1) h(1) by (simp add: marks_inv_def)
    qed
  qed
  then show ?thesis using w assms(1,2) bit_test by (simp add: mark_short_gram_def get_def Let_def marks_inv_def)
qed

definition add_inv :: "crates \<Rightarrow> u64 set \<Rightarrow> add_state \<Rightarrow> bool" where
  "add_inv X H st \<longleftrightarrow> writer_inv H (as_writer st) \<and> ring_inv H (as_ring st) \<and> marks_inv X 2 H (as_pairs st) \<and>
     (case as_trigrams st of None \<Rightarrow> True | Some trigrams \<Rightarrow> marks_inv X 3 H trigrams)"

lemma dvd_256: "64 dvd (256 :: nat) ^ 2" "64 dvd (256 :: nat) ^ 3"
  by simp_all

text \<open>After the check of a gram the marks may run ahead of the writer by that gram's hash.\<close>

lemma check_seen_inv:
  assumes inv: "add_inv X H st"
  shows "\<exists>seen st'. check_seen st g = Inr (seen, st') \<and> (seen \<longrightarrow> hash_ngram X g \<in> H) \<and>
    as_writer st' = as_writer st \<and> as_ring st' = as_ring st \<and> marks_inv X 2 (insert (hash_ngram X g) H) (as_pairs st') \<and>
    (case as_trigrams st' of None \<Rightarrow> True | Some trigrams \<Rightarrow> marks_inv X 3 (insert (hash_ngram X g) H) trigrams)"
proof -
  let ?H = "insert (hash_ngram X g) H"
  have pairs: "marks_inv X 2 H (as_pairs st)" using inv by (simp add: add_inv_def)
  have tri: "case as_trigrams st of None \<Rightarrow> True | Some trigrams \<Rightarrow> marks_inv X 3 H trigrams" using inv by (simp add: add_inv_def)
  have keep: "marks_inv X 2 ?H (as_pairs st)" "case as_trigrams st of None \<Rightarrow> True | Some trigrams \<Rightarrow> marks_inv X 3 ?H trigrams"
    using marks_inv_mono [OF pairs, of ?H] tri by (auto split: option.splits intro: marks_inv_mono)
  show ?thesis
  proof (cases "length g = 2")
    case True
    from mark_short_inv [OF pairs True dvd_256(1)] obtain seen pairs' where
      m: "mark_short_gram (as_pairs st) (short_code g) = Inr (seen, pairs')" "seen \<longrightarrow> hash_ngram X g \<in> H" "marks_inv X 2 ?H pairs'" by blast
    then show ?thesis using True keep by (simp add: check_seen_def)
  next
    case two: False
    show ?thesis
    proof (cases "length g = 3 \<and> as_trigrams st \<noteq> None")
      case True
      then obtain trigrams where t: "as_trigrams st = Some trigrams" "length g = 3" by auto
      then have "marks_inv X 3 H trigrams" using tri by simp
      from mark_short_inv [OF this t(2) dvd_256(2)] obtain seen trigrams' where
        "mark_short_gram trigrams (short_code g) = Inr (seen, trigrams')" "seen \<longrightarrow> hash_ngram X g \<in> H" "marks_inv X 3 ?H trigrams'" by blast
      then show ?thesis using t keep by (simp add: check_seen_def)
    next
      case False
      then have "check_seen st g = Inr (False, st)" using two by (auto simp: check_seen_def)
      then show ?thesis using keep by (intro exI [of _ False] exI [of _ st]) simp
    qed
  qed
qed

lemma add_gram_range_inv:
  assumes S: "radsort64_sorts S" and r: "reads_body body r" and e: "a \<le> e" "e \<le> length body" and inv: "add_inv X H st"
  shows "\<exists>st'. add_gram_range X S r st (a, e) = Inr st' \<and> add_inv X (insert (hash_ngram X (byte_range body (a, e))) H) st' \<and>
    sw_id (as_writer st') = sw_id (as_writer st)"
proof -
  let ?g = "byte_range body (a, e)"
  have bs: "read_bytes r (a, e) (e - a) = Inr ?g" using read_bytes_body [OF r e] by (simp add: byte_range_def sub_slice_def)
  have len: "length ?g = e - a" using e by (simp add: byte_range_def)
  have seen_long: "\<exists>seen st'. (if e - a \<le> 8 then check_seen st ?g else Inr (False, st)) = Inr (seen, st') \<and> (seen \<longrightarrow> hash_ngram X ?g \<in> H) \<and>
    as_writer st' = as_writer st \<and> as_ring st' = as_ring st \<and> marks_inv X 2 (insert (hash_ngram X ?g) H) (as_pairs st') \<and>
    (case as_trigrams st' of None \<Rightarrow> True | Some trigrams \<Rightarrow> marks_inv X 3 (insert (hash_ngram X ?g) H) trigrams)"
  proof (cases "e - a \<le> 8")
    case False
    then have "check_seen st ?g = Inr (False, st)" using len by (simp add: check_seen_def)
    with False check_seen_inv [OF inv, of ?g] show ?thesis by simp
  qed (use check_seen_inv [OF inv, of ?g] in simp)
  then obtain seen st1 where s1: "(if e - a \<le> 8 then check_seen st ?g else Inr (False, st)) = Inr (seen, st1)" "seen \<longrightarrow> hash_ngram X ?g \<in> H"
    "as_writer st1 = as_writer st" "as_ring st1 = as_ring st" "marks_inv X 2 (insert (hash_ngram X ?g) H) (as_pairs st1)"
    "case as_trigrams st1 of None \<Rightarrow> True | Some trigrams \<Rightarrow> marks_inv X 3 (insert (hash_ngram X ?g) H) trigrams" by blast
  have run: "add_gram_range X S r st (a, e) =
      (if seen then Inr st1 else case add_recent S (as_writer st1, as_ring st1) (hash_ngram X ?g) of (w, ring) \<Rightarrow> Inr (st1\<lparr>as_writer := w, as_ring := ring\<rparr>))"
    using s1(1) by (cases "e - a \<le> 8") (simp_all add: add_gram_range_def Let_def bs)
  show ?thesis
  proof (cases seen)
    case True
    then have "insert (hash_ngram X ?g) H = H" using s1(2) by (intro insert_absorb) simp
    moreover have "writer_inv H (as_writer st1)" "ring_inv H (as_ring st1)" using inv s1(3,4) by (simp_all add: add_inv_def)
    moreover have "add_gram_range X S r st (a, e) = Inr st1" using True run by simp
    ultimately show ?thesis using s1(3,5,6) unfolding add_inv_def by (intro exI [of _ st1]) simp
  next
    case False
    have "writer_inv H (as_writer st1)" "ring_inv H (as_ring st1)" using inv s1(3,4) by (simp_all add: add_inv_def)
    from add_recent_inv [OF S this, of "hash_ngram X ?g"] obtain w ring where
      "add_recent S (as_writer st1, as_ring st1) (hash_ngram X ?g) = (w, ring)" "writer_inv (insert (hash_ngram X ?g) H) w"
      "ring_inv (insert (hash_ngram X ?g) H) ring" "sw_id w = sw_id (as_writer st1)" by blast
    then show ?thesis using False run s1 by (simp add: add_inv_def)
  qed
qed

lemma add_ranges_visits:
  "sparse_ranges_from X (reader_byte r) rs = Inr ranges \<Longrightarrow> add_ranges X S r st rs = visit_all (add_gram_range X S r) st ranges"
proof (induction X "reader_byte r" rs arbitrary: st ranges rule: sparse_ranges_from.induct)
  case (1 X rs)
  from "1.prems" obtain nxt rs' where n: "next_with X (reader_byte r) rs = Inr (nxt, rs')"
    by (subst (asm) sparse_ranges_from.simps) (auto split: sum.splits)
  show ?case
  proof (cases nxt)
    case None
    then have "ranges = []" using "1.prems" n by (subst (asm) sparse_ranges_from.simps) simp
    then show ?thesis using None n by (subst add_ranges.simps) simp
  next
    case (Some rng)
    then obtain rest where rest: "sparse_ranges_from X (reader_byte r) rs' = Inr rest" "ranges = rng # rest"
      using "1.prems" n by (subst (asm) sparse_ranges_from.simps) (auto split: sum.splits)
    then show ?thesis using "1.hyps" [OF n refl Some rest(1)] Some n by (subst add_ranges.simps) (simp split: sum.split)
  qed
qed

lemma reader_ranges:
  assumes "reads_body body r"
  shows "sparse_ranges_from X (reader_byte r) (start_sparse_gram_ranges (rd_len r)) = Inr (ranges_from (data_weight X body) (length body - 1) 0)"
proof -
  have "\<forall>i<length body - 1. weight_at X (reader_byte r) i = Inr (data_weight X body i)"
    using reader_byte_body [OF assms] by (auto simp: weight_at_def data_weight_def)
  moreover have "rd_len r = length body" using assms by (simp add: reads_body_def)
  ultimately show ?thesis
    using sparse_ranges_from_refines [of "start_sparse_gram_ranges (length body)" X "reader_byte r" "data_weight X body"]
    by (simp add: start_sparse_gram_ranges_def remaining_ranges_def)
qed

lemma add_ranges_inv:
  assumes "radsort64_sorts S" "reads_body body r" "\<forall>(a, e)\<in>set ranges. a \<le> e \<and> e \<le> length body" "add_inv X H st"
  shows "\<exists>st'. visit_all (add_gram_range X S r) st ranges = Inr st' \<and> add_inv X (H \<union> hash_ngram X ` byte_range body ` set ranges) st' \<and>
    sw_id (as_writer st') = sw_id (as_writer st)"
  using assms(3,4)
proof (induction ranges arbitrary: H st)
  case (Cons rng ranges)
  obtain a e where rng: "rng = (a, e)" by (cases rng)
  from add_gram_range_inv [OF assms(1,2), of a e X H st] Cons.prems rng obtain st1 where
    s1: "add_gram_range X S r st rng = Inr st1" "add_inv X (insert (hash_ngram X (byte_range body rng)) H) st1" "sw_id (as_writer st1) = sw_id (as_writer st)" by auto
  from Cons.IH [OF _ s1(2)] Cons.prems(1) s1(1,3) show ?case by simp
qed simp

lemma add_reader_inv:
  assumes S: "radsort64_sorts S" and r: "reads_body body r" and inv: "writer_inv H w"
  shows "\<exists>w'. add_reader X S w r = Inr w' \<and> writer_inv (H \<union> text_hashes X body) w' \<and> sw_id w' = sw_id w"
proof -
  let ?rs = "ranges_from (data_weight X body) (length body - 1) 0"
  let ?st = "\<lparr>as_writer = w, as_ring = new_ring, as_pairs = replicate (2 ^ 16 div 64) 0,
      as_trigrams = (if rd_len r \<ge> SPARSE_TRIGRAM_BITMAP_MIN then Some (replicate (2 ^ 24 div 64) 0) else None)\<rparr>"
  have "add_inv X H ?st"
    using inv marks_inv_start [OF dvd_256(1), of X H] marks_inv_start [OF dvd_256(2), of X H] by (simp add: add_inv_def new_ring_inv)
  moreover have "\<forall>(a, e)\<in>set ?rs. a \<le> e \<and> e \<le> length body" by (auto simp: in_ranges_from)
  ultimately obtain st' where "visit_all (add_gram_range X S r) ?st ?rs = Inr st'" "add_inv X (H \<union> text_hashes X body) st'"
    "sw_id (as_writer st') = sw_id w"
    using add_ranges_inv [OF S r, of ?rs X H ?st] unfolding text_hashes_def by auto
  then show ?thesis unfolding add_reader_def add_ranges_visits [OF reader_ranges [OF r]] by (simp add: add_inv_def)
qed

section \<open>Runs of a chunk\<close>

lemma open_range_body:
  assumes "start + length body \<le> length file" "start + length body < 2 ^ 64" "body = sub_slice file start (start + length body)"
  shows "\<exists>r. open_range file start (length body) = Inr r \<and> reads_body body r"
  using assms by (auto simp: open_range_def add_u64_def reads_body_def) (simp_all add: sub_slice_def)

lemma add_range_inv:
  assumes "radsort64_sorts S" "writer_inv H w"
    and "start + length body \<le> length file" "start + length body < 2 ^ 64" "body = sub_slice file start (start + length body)"
  shows "\<exists>w'. add_range X S w file start (length body) = Inr w' \<and> writer_inv (H \<union> text_hashes X body) w' \<and> sw_id w' = sw_id w"
  using open_range_body [OF assms(3-5)] add_reader_inv [OF assms(1) _ assms(2)] by (fastforce simp: add_range_def)

definition sparse_doc_holds :: "bytes option \<Rightarrow> grammed_doc \<Rightarrow> bytes \<Rightarrow> bool" where
  "sparse_doc_holds spool doc body \<longleftrightarrow> gd_doc_id doc < 2 ^ 32 \<and>
     (case gd_grams doc of
        GSparse data \<Rightarrow> data = body
      | SparseFile file \<Rightarrow> file = body \<and> length body < 2 ^ 64
      | SparsePath file \<Rightarrow> file = body \<and> length body < 2 ^ 64
      | SparseSpool off len \<Rightarrow> \<exists>file. spool = Some file \<and> off + len \<le> length file \<and> off + len < 2 ^ 64 \<and> body = sub_slice file off (off + len)
      | _ \<Rightarrow> False)"

lemma finish_writer_runs:
  assumes S: "radsort64_sorts S" and inv: "writer_inv H w"
  shows "\<exists>rss. list_all2 (is_run Sparse) rss (finish_writer S w) \<and> set (concat rss) = id_records (sw_id w) H"
  using flush_run_inv [OF S inv] by (auto simp: finish_writer_def writer_inv_def id_records_def)

lemma write_sparse_doc_runs:
  assumes S: "radsort64_sorts S" and doc: "sparse_doc_holds spool doc body" and n: "0 < run_bytes"
  shows "\<exists>runs rss. write_sparse_doc X S spool run_bytes doc = Inr runs \<and> list_all2 (is_run Sparse) rss runs \<and>
    set (concat rss) = id_records (of_nat (gd_doc_id doc)) (text_hashes X body)"
proof -
  define w where "w = \<lparr>sw_id = of_nat (gd_doc_id doc), sw_entries = [], sw_run_bytes = run_bytes, sw_runs = []\<rparr>"
  have new: "new_run_writer (gd_doc_id doc) run_bytes = Inr w" using doc n by (simp add: new_run_writer_def w_def sparse_doc_holds_def)
  have inv: "writer_inv {} w" by (simp add: writer_inv_def id_records_def w_def)
  note text_added = add_text_inv [OF S inv, of X body]
  note file_added = add_range_inv [OF S inv, of 0 body body X]
  have "\<exists>w'. (case gd_grams doc of
         GSparse data \<Rightarrow> add_text X S w data
       | SparseFile file \<Rightarrow> add_file X S w file
       | SparsePath file \<Rightarrow> add_file X S w file
       | SparseSpool off len \<Rightarrow>
           and_then (context_of spool ''spooled grams have no content spool'') (\<lambda>file. add_range X S w file off len)
       | _ \<Rightarrow> Inl (Bail ''mixed gram strategies in build chunk'')) = Inr w' \<and> writer_inv (text_hashes X body) w' \<and> sw_id w' = sw_id w"
  proof (cases "gd_grams doc")
    case (SparseSpool off len)
    then obtain src where s: "spool = Some src" "off + len \<le> length src" "off + len < 2 ^ 64" "body = sub_slice src off (off + len)"
      using doc by (auto simp: sparse_doc_holds_def)
    then have b: "len = length body" by simp
    then show ?thesis using add_range_inv [OF S inv, of off body src X] s SparseSpool by simp
  qed (use doc text_added file_added in \<open>auto simp: sparse_doc_holds_def add_file_def sub_slice_def\<close>)
  then obtain w' where w': "(case gd_grams doc of
         GSparse data \<Rightarrow> add_text X S w data
       | SparseFile file \<Rightarrow> add_file X S w file
       | SparsePath file \<Rightarrow> add_file X S w file
       | SparseSpool off len \<Rightarrow>
           and_then (context_of spool ''spooled grams have no content spool'') (\<lambda>file. add_range X S w file off len)
       | _ \<Rightarrow> Inl (Bail ''mixed gram strategies in build chunk'')) = Inr w'" "writer_inv (text_hashes X body) w'" "sw_id w' = sw_id w" by blast
  from finish_writer_runs [OF S w'(2)] show ?thesis unfolding write_sparse_doc_def new w'(1) and_then_Inr by (auto simp: w'(3) w_def)
qed

text \<open>The contract of a build chunk, for both strategies: what its documents hold and which records their runs have.\<close>

definition chunk_doc :: "crates \<Rightarrow> bytes option \<Rightarrow> strategy \<Rightarrow> grammed_doc \<Rightarrow> bytes \<Rightarrow> bool" where
  "chunk_doc X spool strat doc body = (case strat of Trigram \<Rightarrow> doc_holds X spool doc body | Sparse \<Rightarrow> sparse_doc_holds spool doc body)"

definition doc_records :: "crates \<Rightarrow> strategy \<Rightarrow> grammed_doc \<Rightarrow> bytes \<Rightarrow> (u64 \<times> doc_id) set" where
  "doc_records X strat doc body =
     (case strat of Trigram \<Rightarrow> block_records X (gd_base doc) body | Sparse \<Rightarrow> id_records (of_nat (gd_doc_id doc)) (text_hashes X body))"

abbreviation chunk_records :: "crates \<Rightarrow> strategy \<Rightarrow> grammed_doc list \<Rightarrow> bytes list \<Rightarrow> (u64 \<times> doc_id) set" where
  "chunk_records X strat grammed bodies \<equiv> \<Union>(doc, body)\<in>set (zip grammed bodies). doc_records X strat doc body"

lemma write_runs_hold:
  assumes X: "radsort_sorts X" "radsort64_sorts S" and n: "0 < run_bytes" and docs: "list_all2 (chunk_doc X spool strat) grammed bodies"
  shows "\<exists>runs lines rss. write_posting_runs X S threads grammed strat run_bytes spool = Inr (runs, lines) \<and>
    list_all2 (is_run strat) rss runs \<and> set (concat rss) = chunk_records X strat grammed bodies"
proof (cases strat)
  case Trigram
  then have "list_all2 (doc_holds X spool) grammed bodies" using docs by (simp add: chunk_doc_def [abs_def])
  from write_block_runs_ok [OF X(1) this] show ?thesis by (auto simp: Trigram write_posting_runs_def doc_records_def)
next
  case Sparse
  have n': "0 < worker_run_bytes run_bytes threads" using n by (simp add: worker_run_bytes_def)
  have "list_all2 (sparse_doc_holds spool) grammed bodies" using docs by (simp add: chunk_doc_def [abs_def] Sparse)
  then have step: "\<exists>runs rss. visit_all (\<lambda>runs doc. and_then (write_sparse_doc X S spool (worker_run_bytes run_bytes threads) doc) (\<lambda>more. Inr (runs @ more)))
      before grammed = Inr (before @ runs) \<and> list_all2 (is_run Sparse) rss runs \<and> set (concat rss) = chunk_records X Sparse grammed bodies" for before
  proof (induction grammed bodies arbitrary: before rule: list_all2_induct)
    case (Cons doc docs body bodies)
    from write_sparse_doc_runs [OF X(2) Cons.hyps(1) n'] obtain runs rss where
      r: "write_sparse_doc X S spool (worker_run_bytes run_bytes threads) doc = Inr runs" "list_all2 (is_run Sparse) rss runs"
      "set (concat rss) = id_records (of_nat (gd_doc_id doc)) (text_hashes X body)" by blast
    from Cons.IH [of "before @ runs"] obtain runs' rss' where
      r': "visit_all (\<lambda>runs doc. and_then (write_sparse_doc X S spool (worker_run_bytes run_bytes threads) doc) (\<lambda>more. Inr (runs @ more)))
        (before @ runs) docs = Inr ((before @ runs) @ runs')" "list_all2 (is_run Sparse) rss' runs'" "set (concat rss') = chunk_records X Sparse docs bodies" by blast
    have "list_all2 (is_run Sparse) (rss @ rss') (runs @ runs')" using r(2) r'(2) by (rule list_all2_appendI)
    moreover have "set (concat (rss @ rss')) = chunk_records X Sparse (doc # docs) (body # bodies)"
      using r(3) r'(3) by (simp add: doc_records_def)
    ultimately show ?case using r(1) r'(1) by (intro exI [of _ "runs @ runs'"] exI [of _ "rss @ rss'"]) simp
  qed simp
  from step [of "[]"] show ?thesis by (auto simp: Sparse write_posting_runs_def)
qed

section \<open>Properties\<close>

text \<open>
  C20: Writing the posting runs of a build chunk loses nothing and adds nothing. For both strategies, whether a document is in memory, in a file
  or in the spool, however often the writer spills and whatever short cut (bitmaps of short grams, the ring of recent hashes) it takes,
  writing succeeds; every run is sorted, and the records in the runs are exactly those of the block trigrams with their blocks, or of the gram hashes with their documents. A record may come up in several
  runs after a spill; the merge drops the repeats.
\<close>

theorem written_runs_hold_the_grams:
  assumes "radsort_sorts X" "radsort64_sorts S" "0 < run_bytes" "list_all2 (chunk_doc X spool strat) grammed bodies"
  shows "\<exists>runs lines rss. write_posting_runs X S threads grammed strat run_bytes spool = Inr (runs, lines) \<and>
    list_all2 (is_run strat) rss runs \<and> set (concat rss) = chunk_records X strat grammed bodies"
  by (rule write_runs_hold [OF assms])

theorem written_runs_hold_the_grams_witness:
  "\<exists>runs lines rss. write_posting_runs sample_crates sort 2
      [\<lparr>gd_doc_id = 4, gd_base = 0, gd_grams = GSparse [1, 2, 3]\<rparr>, \<lparr>gd_doc_id = 5, gd_base = 0, gd_grams = SparseSpool 1 2\<rparr>] Sparse 64 (Some [7, 8, 9]) = Inr (runs, lines) \<and>
    list_all2 (is_run Sparse) rss runs \<and>
    set (concat rss) = id_records 4 (text_hashes sample_crates [1, 2, 3]) \<union> id_records 5 (text_hashes sample_crates [8, 9])"
proof -
  let ?docs = "[\<lparr>gd_doc_id = 4, gd_base = 0, gd_grams = GSparse [1, 2, 3]\<rparr>, \<lparr>gd_doc_id = 5, gd_base = 0, gd_grams = SparseSpool 1 2\<rparr>]"
  have "list_all2 (chunk_doc sample_crates (Some [7, 8, 9]) Sparse) ?docs [[1, 2, 3], [8, 9]]"
    by (simp add: chunk_doc_def sparse_doc_holds_def sub_slice_def)
  from written_runs_hold_the_grams [OF sample_crates_sorts _ _ this, of sort 64 2] show ?thesis
    by (auto simp: radsort64_sorts_def doc_records_def)
qed

end
