(* ===== verification/Index_Search.thy ===== *)
theory Index_Search
  imports Segment_Search Sparse_Runs
begin

text \<open>
  From documents to candidates: the runs that \<open>write_posting_runs\<close> wrote for the chunks of a build, merged by \<open>merge_posting_runs\<close> and searched
  by \<open>visit_candidate_selections\<close>. The contract of the run writer (\<open>write_runs_hold\<close>) discharges what the segment search asks of its records.
\<close>

section \<open>A segment of documents\<close>

text \<open>
  The chunks of a build, each with its spool and the texts of its documents, were written to runs and the runs merged; the blobs have less than
  \<open>2 ^ 64\<close> bytes and the id space covers the ids.
\<close>

type_synonym chunk = "grammed_doc list \<times> bytes option \<times> bytes list"

definition written_chunk :: "crates \<Rightarrow> sort64 \<Rightarrow> nat \<Rightarrow> nat \<Rightarrow> strategy \<Rightarrow> chunk \<Rightarrow> bytes list \<Rightarrow> bool" where
  "written_chunk X S threads run_bytes strat = (\<lambda>(grammed, spool, bodies) runs.
     list_all2 (chunk_doc X spool strat) grammed bodies \<and>
     (\<exists>lines. write_posting_runs X S threads grammed strat run_bytes spool = Inr (runs, lines)))"

definition records_of :: "crates \<Rightarrow> strategy \<Rightarrow> chunk list \<Rightarrow> (u64 \<times> doc_id) set" where
  "records_of X strat chunks = (\<Union>(grammed, spool, bodies)\<in>set chunks. chunk_records X strat grammed bodies)"

definition indexes_chunks ::
    "crates \<Rightarrow> sort64 \<Rightarrow> fst_crate \<Rightarrow> (bytes \<Rightarrow> bytes) \<Rightarrow> nat \<Rightarrow> nat \<Rightarrow> strategy \<Rightarrow> u32 \<Rightarrow> chunk list \<Rightarrow> merged_index \<Rightarrow> bool" where
  "indexes_chunks X S F sha threads run_bytes strat n chunks out \<longleftrightarrow>
     radsort_sorts X \<and> radsort64_sorts S \<and> fst_laws F \<and> (\<forall>x. length (sha x) = 32) \<and> 0 < run_bytes \<and>
     (\<forall>(key, i)\<in>records_of X strat chunks. i < n) \<and> length (terms_file out) < 2 ^ 64 \<and> length (postings_file out) < 2 ^ 64 \<and>
     (\<exists>runss. list_all2 (written_chunk X S threads run_bytes strat) chunks runss \<and> merge_posting_runs F sha (concat runss) strat n = Inr out)"

lemma written_chunks_runs:
  assumes "radsort_sorts X" "radsort64_sorts S" "0 < run_bytes" "list_all2 (written_chunk X S threads run_bytes strat) chunks runss"
  shows "\<exists>rss. list_all2 (is_run strat) rss (concat runss) \<and> set (concat rss) = records_of X strat chunks"
  using assms(4)
proof (induction chunks runss rule: list_all2_induct)
  case (Cons chunk chunks runs runss)
  obtain grammed spool bodies where c: "chunk = (grammed, spool, bodies)" by (cases chunk)
  then have "list_all2 (chunk_doc X spool strat) grammed bodies" using Cons.hyps(1) by (simp add: written_chunk_def)
  from write_runs_hold [OF assms(1-3) this, of threads] Cons.hyps(1) obtain rss where
    r: "list_all2 (is_run strat) rss runs" "set (concat rss) = chunk_records X strat grammed bodies" by (auto simp: c written_chunk_def)
  from Cons.IH obtain rss' where r': "list_all2 (is_run strat) rss' (concat runss)" "set (concat rss') = records_of X strat chunks" by blast
  have "list_all2 (is_run strat) (rss @ rss') (runs @ concat runss)" using r(1) r'(1) by (rule list_all2_appendI)
  moreover have "set (concat (rss @ rss')) = records_of X strat (chunk # chunks)" using r(2) r'(2) by (simp add: records_of_def c)
  ultimately show ?case by (intro exI [of _ "rss @ rss'"]) simp
qed (simp add: records_of_def)

lemma indexes_chunks_built:
  assumes "indexes_chunks X S F sha threads run_bytes strat n chunks out"
  shows "built F sha strat n (records_of X strat chunks) out"
proof -
  from assms obtain runss where r: "list_all2 (written_chunk X S threads run_bytes strat) chunks runss" "merge_posting_runs F sha (concat runss) strat n = Inr out"
    and laws: "radsort_sorts X" "radsort64_sorts S" "0 < run_bytes" by (auto simp: indexes_chunks_def)
  from written_chunks_runs [OF laws r(1)] r(2) assms show ?thesis unfolding built_def indexes_chunks_def by blast
qed

section \<open>Documents satisfy their queries\<close>

lemma trigram_key: "from_be_bytes (replicate 5 0 @ unpack_gram (pack_window w)) = ucast (pack_window w)"
proof -
  obtain a b c where w: "w = (a, b, c)" by (cases w)
  have "rev (replicate 5 0 @ [a, b, c]) = [c, b, a] @ replicate 5 0" by simp
  then have "from_be_bytes (replicate 5 0 @ [a, b, c]) = of_nat (horner_sum unat 256 ([c, b, a] @ replicate 5 (0 :: u8)))"
    by (simp add: from_be_bytes_def from_le_bytes_def)
  also have "horner_sum unat 256 ([c, b, a] @ replicate 5 (0 :: u8)) = unat (pack_window (a, b, c))"
  proof -
    have "horner_sum unat 256 (replicate k (0 :: u8)) = (0 :: nat)" for k by (induction k) simp_all
    then show ?thesis unfolding unat_pack_window base_sum_append by simp
  qed
  finally show ?thesis unfolding w unpack_pack_window by (simp add: unsigned_ucast_eq of_nat_unat del: pack_window.simps)
qed

lemma block_records_indexed:
  assumes X: "radsort_sorts X" and sub: "block_records X base body \<subseteq> R"
  shows "indexes_blocks X (index_postings X Trigram R) (unat base) body"
  unfolding indexes_blocks_def
proof safe
  fix b g assume bg: "(b, g) \<in> set (pack_trigram_block_grams X body)"
  then obtain w where w: "g = pack_window w" by (auto simp: pack_trigram_block_grams_set [OF X] simp del: pack_window.simps)
  have "(ucast g, base + b) \<in> R" using bg sub by (force simp: block_records_def)
  moreover have "gram_key X Trigram (unpack_gram g) = Some (ucast g)"
    using trigram_key [of w] by (simp add: gram_key_def w unpack_gram_def)
  ultimately show "of_nat (unat base) + b \<in> set (index_postings X Trigram R (unpack_gram g))"
    by (simp add: index_postings_def)
qed

lemma hashes_satisfy:
  assumes E: "regex_laws E" and m: "hir_match E h body i j" and sub: "id_records d (text_hashes X body) \<subseteq> R"
    and self: "\<And>i. fst (expand i) \<le> i \<and> i \<le> snd (expand i)"
  shows "query_holds {g. d \<in> hits (Some expand) (index_postings X Sparse R g)} (plan_hir E X h Sparse)"
proof -
  from sparse_all_set [of X body] obtain gs where gs: "sparse_grams_all_bytes X body = Inr gs"
    "set gs = {byte_range body (a, e) |a e. a + 2 \<le> e \<and> e \<le> length body \<and> (e = a + 2 \<or> ends_gram (data_weight X body) a (e - 2))}" by blast
  have whole: "sub_slice body 0 (length body) = body" by (simp add: sub_slice_def)
  have "query_holds (set gs) (plan_hir E X h Sparse)"
    unfolding plan_hir_def
  proof (rule hir_query_holds [OF _ _ E m, of X Sparse 0 "length body"])
    show "grams_index X (sub_slice body 0 (length body)) Sparse = Inr gs" using gs(1) by (simp add: grams_index_def whole)
    show "j \<le> length body" using regex_bounds [OF E m] by simp
  qed (simp_all add: scheme_ok_def)
  moreover have "set gs \<subseteq> {g. d \<in> hits (Some expand) (index_postings X Sparse R g)}"
  proof
    fix g assume "g \<in> set gs"
    then obtain a e where ae: "g = byte_range body (a, e)" "a + 2 \<le> e" "e \<le> length body" "e = a + 2 \<or> ends_gram (data_weight X body) a (e - 2)"
      using gs(2) by blast
    then have "(a, e) \<in> set (ranges_from (data_weight X body) (length body - 1) 0)" by (auto simp: in_ranges_from)
    then have "(hash_ngram X g, d) \<in> R" using sub ae(1) by (force simp: id_records_def text_hashes_def)
    then have "d \<in> set (index_postings X Sparse R g)" by (simp add: index_postings_def gram_key_def)
    then show "g \<in> {g. d \<in> hits (Some expand) (index_postings X Sparse R g)}" using self by (force simp: hits_def)
  qed
  ultimately show ?thesis by (rule query_holds_mono [rotated])
qed

section \<open>Properties\<close>

lemma chunk_doc_records:
  assumes "(grammed, spool, bodies) \<in> set chunks" "(doc, body) \<in> set (zip grammed bodies)"
  shows "doc_records C strat doc body \<subseteq> records_of C strat chunks"
  using assms unfolding records_of_def by fast

text \<open>
  C2: The trigram index loses no match. Take documents, written by the run writer in any chunks, from memory, a file or the spool, merged and published as a segment.
  Whatever the store and the cache return, if a batch of plans over the segment succeeds, then for every match of the pattern of a plan in a document, within the extent of
  the plan, the block in which the match starts is selected for that plan.
\<close>

theorem trigram_index_finds_matches:
  assumes ix: "indexes_chunks C S F (sha256 X) threads run_bytes Trigram n chunks out" "meta_of meta out"
    and nc: "no_collisions X (segment_data out)" "table_ok X (segment_data out) s"
    and run: "visit_candidate_selections plans n Trigram (map_lookup C (segment_map F Trigram out))
        (\<lambda>p. expand_closure bases t (plan_extent (plans ! p))) (segment_fetch X store range_cache Trigram meta n s) collect_selections [] = Inr sels"
    and p: "p < length plans" "plan_query (plans ! p) = plan_hir E C h Trigram"
    and doc: "(grammed, spool, bodies) \<in> set chunks" "(doc, body) \<in> set (zip grammed bodies)" "unat (gd_base doc) = bases ! d"
    and tbl: "build_block_bases t = Inr bases" "d < length (documents t)" "doc_size (documents t ! d) = length body"
    and E: "regex_laws E" and m: "hir_match E h body i j" "i < j" "extent_covers (plan_extent (plans ! p)) (max_line_len (documents t ! d)) i j"
  shows "sel_has (snd (sels ! p)) (of_nat (bases ! d + i div CANDIDATE_BLOCK_BYTES))"
proof -
  have X: "radsort_sorts C" using ix(1) by (simp add: indexes_chunks_def)
  have "block_records C (gd_base doc) body \<subseteq> records_of C Trigram chunks"
    using chunk_doc_records [OF doc(1,2), of C Trigram] by (simp add: doc_records_def)
  from block_records_indexed [OF X this] have idx: "indexes_blocks C (index_postings C Trigram (records_of C Trigram chunks)) (bases ! d) body"
    by (simp add: doc(3))
  show ?thesis
    using selections_complete [OF indexes_chunks_built [OF ix(1)] ix(2) nc run] match_block_satisfies [OF tbl X E m idx] p by metis
qed

text \<open>
  C3: The sparse index loses no match. In the same setting under the sparse strategy, a document with a match of the pattern of a plan is selected for that plan.
\<close>

theorem sparse_index_finds_matches:
  assumes ix: "indexes_chunks C S F (sha256 X) threads run_bytes Sparse n chunks out" "meta_of meta out"
    and nc: "no_collisions X (segment_data out)" "table_ok X (segment_data out) s"
    and run: "visit_candidate_selections plans n Sparse (map_lookup C (segment_map F Sparse out)) (\<lambda>p i. (i, i))
        (segment_fetch X store range_cache Sparse meta n s) collect_selections [] = Inr sels"
    and p: "p < length plans" "plan_query (plans ! p) = plan_hir E C h Sparse"
    and doc: "(grammed, spool, bodies) \<in> set chunks" "(doc, body) \<in> set (zip grammed bodies)"
    and E: "regex_laws E" and m: "hir_match E h body i j"
  shows "sel_has (snd (sels ! p)) (of_nat (gd_doc_id doc))"
proof -
  have "id_records (of_nat (gd_doc_id doc)) (text_hashes C body) \<subseteq> records_of C Sparse chunks"
    using chunk_doc_records [OF doc, of C Sparse] by (simp add: doc_records_def)
  from hashes_satisfy [OF E m this, of "\<lambda>i. (i, i)"] selections_complete [OF indexes_chunks_built [OF ix(1)] ix(2) nc run] p show ?thesis by auto
qed

subsection \<open>Witnesses\<close>

text \<open>Eight one-block documents, of which three hold a trigram.\<close>

definition sample_bodies :: "bytes list" where
  "sample_bodies = [[97], [97, 98, 99], [97, 98, 100], [97, 98, 99], [97], [98], [99], [100]]"

definition sample_grammed :: "grammed_doc list" where
  "sample_grammed = map (\<lambda>(d, body). \<lparr>gd_doc_id = d, gd_base = of_nat d, gd_grams = TrigramBlocks (pack_trigram_block_grams sample_crates body)\<rparr>) (enumerate 0 sample_bodies)"

lemma sample_block_grams:
  "pack_trigram_block_grams sample_crates [a, b, c] = [(0, pack_window (a, b, c))]" "pack_trigram_block_grams sample_crates [a] = []"
  "pack_trigram_block_grams sample_crates [] = []"
  by (simp_all add: pack_trigram_block_grams_def block_grams_from.simps pack_trigram_grams_def BITMAP_THRESHOLD_def BITMAP_WORDS_def Let_def
    sort_packed_grams_def RADIX_SORT_MIN_def CANDIDATE_BLOCK_BYTES_def del: pack_window.simps)

lemma sample_written:
  "write_posting_runs sample_crates sort 1 sample_grammed Trigram 64 None = Inr ([records Trigram sample_records], [])"
proof -
  have ids: "(27411250082217985 :: u32) = 1" "(27411250082217987 :: u32) = 3" "(27411254377185282 :: u32) = 2" by simp_all
  show ?thesis
    by (simp add: write_posting_runs_def write_trigram_block_runs_def sample_grammed_def sample_bodies_def sample_block_grams write_block_doc_def push_pair_def
      block_id_def checked_add_def push_entry_def SINK_CAP_def new_sink_def Let_def finish_sink_def spill_def entry_record_def pack_entry_def)
      (simp only: ids records_def sample_records_def list.map prod.case concat.simps append_Nil2)
qed

abbreviation sample_chunks :: "chunk list" where
  "sample_chunks \<equiv> [(sample_grammed, None, sample_bodies)]"

lemma sample_chunk_docs: "list_all2 (chunk_doc sample_crates None Trigram) sample_grammed sample_bodies"
  by (simp add: sample_grammed_def sample_bodies_def chunk_doc_def doc_holds_def div_ceil_def CANDIDATE_BLOCK_BYTES_def)

lemma sample_chunk_records: "records_of sample_crates Trigram sample_chunks = set sample_records"
  unfolding records_of_def by (simp add: sample_grammed_def sample_bodies_def doc_records_def block_records_def sample_block_grams sample_records_def) auto

lemma sample_indexed: "indexes_chunks sample_crates sort list_crate (sha256 sample_hashes) 1 64 Trigram 8 sample_chunks sample_index"
  unfolding indexes_chunks_def sample_chunk_records
proof (intro conjI exI)
  note b = sample_built(1) [unfolded built_def]
  show "fst_laws list_crate" "\<forall>x. length (sha256 sample_hashes x) = 32" "\<forall>(key, i)\<in>set sample_records. i < 8"
    "length (terms_file sample_index) < 2 ^ 64" "length (postings_file sample_index) < 2 ^ 64"
    using b by blast+
  show "merge_posting_runs list_crate (sha256 sample_hashes) (concat [[records Trigram sample_records]]) Trigram 8 = Inr sample_index"
    using sample_merged by auto
  show "list_all2 (written_chunk sample_crates sort 1 64 Trigram) sample_chunks [[records Trigram sample_records]]"
    using sample_chunk_docs sample_written by (simp add: written_chunk_def)
qed (simp_all add: radsort64_sorts_def sample_crates_sorts)

definition chunk_tables :: segment_tables where
  "chunk_tables = \<lparr>sources = [], documents = map (\<lambda>body. \<lparr>display_key = ''a'', source_id = 0, member_path = None, doc_size = length body,
     doc_first_block = 0, doc_block_offset = 0, max_line_len = length body, block_newlines = [0]\<rparr>) sample_bodies, table_blocks = []\<rparr>"

abbreviation chunk_search :: "(nat \<times> selection) list result" where
  "chunk_search \<equiv> visit_candidate_selections [sample_plan] 8 Trigram (map_lookup sample_crates (segment_map list_crate Trigram sample_index))
     (\<lambda>p. expand_closure sample_bases chunk_tables (plan_extent ([sample_plan] ! p)))
     (segment_fetch sample_hashes sample_ranges True Trigram sample_meta 8 fresh_state) collect_selections []"

theorem trigram_index_finds_matches_witness:
  "\<exists>sels. chunk_search = Inr sels \<and> sel_has (snd (sels ! 0)) 3"
proof -
  from selections_returned [OF sample_segment] obtain sels where run: "chunk_search = Inr sels" by blast
  have tbl: "build_block_bases chunk_tables = Inr sample_bases" "(3 :: nat) < length (documents chunk_tables)"
    "doc_size (documents chunk_tables ! 3) = length [97 :: u8, 98, 99]"
    by (simp_all add: build_block_bases_def chunk_tables_def sample_bodies_def div_ceil_def CANDIDATE_BLOCK_BYTES_def try_u32_def add_u32_def)
  have doc: "(sample_grammed, None, sample_bodies) \<in> set sample_chunks" "(sample_grammed ! 3, [97, 98, 99]) \<in> set (zip sample_grammed sample_bodies)"
    "unat (gd_base (sample_grammed ! 3)) = sample_bases ! 3"
    by (simp_all add: sample_grammed_def sample_bodies_def)
  have p: "0 < length [sample_plan]" "plan_query ([sample_plan] ! 0) = plan_hir literal_engine sample_crates (HLeaf [97, 98, 99]) Trigram"
    by (simp_all add: sample_plan_def)
  have ext: "extent_covers (plan_extent ([sample_plan] ! 0)) (max_line_len (documents chunk_tables ! 3)) 0 3"
    by (simp add: sample_plan_def extent_covers_def)
  have "sel_has (snd (sels ! 0)) (of_nat (sample_bases ! 3 + 0 div CANDIDATE_BLOCK_BYTES))"
    by (rule trigram_index_finds_matches [OF sample_indexed sample_segment(2-4) run p doc tbl sample_match_facts(5-7) ext])
  with run show ?thesis by auto
qed

text \<open>One document of two bytes under the sparse strategy: one gram, whose id is inline, and an empty postings region.\<close>

definition empty_tail :: bytes where
  "empty_tail = to_le_bytes 0 @ to_le_bytes 0 @ POSTINGS_MAGIC"

definition empty_hashes :: pack_crates where
  "empty_hashes = sample_zstd\<lparr>sha256 := \<lambda>x. if x = empty_tail then replicate 32 2 else replicate 32 0\<rparr>"

abbreviation pair_chunks :: "chunk list" where
  "pair_chunks \<equiv> [([\<lparr>gd_doc_id = 0, gd_base = 0, gd_grams = GSparse [97, 98]\<rparr>], None, [[97, 98]])]"

definition pair_index :: merged_index where
  "pair_index = projr (merge_posting_runs list_crate (sha256 empty_hashes) [records Sparse [(9832, 0)]] Sparse 1)"

lemma pair_hash: "hash_ngram sample_crates [97, 98] = 9832" "iterate_sparse_grams sample_crates [97, 98] = Inr [[97, 98]]"
proof -
  show "hash_ngram sample_crates [97, 98] = 9832" by (simp add: hash_ngram_def sample_crates_def)
  have "iterate_sparse_gram_ranges sample_crates (length [97 :: u8, 98]) (byte_of [97, 98]) = Inr [(0, 2)]"
    unfolding iterate_ranges_eq by (simp add: ranges_from_def tail_ranges_def)
  then show "iterate_sparse_grams sample_crates [97, 98] = Inr [[97, 98]]" unfolding iterate_sparse_grams_def by (simp only:) (simp add: byte_range_def)
qed

lemma pair_written:
  "write_posting_runs sample_crates sort 1 [\<lparr>gd_doc_id = 0, gd_base = 0, gd_grams = GSparse [97, 98]\<rparr>] Sparse 64 None = Inr ([records Sparse [(9832, 0)]], [])"
  by (simp add: write_posting_runs_def write_sparse_doc_def new_run_writer_def try_u32_def worker_run_bytes_def add_text_def pair_hash add_recent_def new_ring_def add_hash_def
    Let_def finish_writer_def flush_run_def write_sparse_run_def records_def)

lemma read_sparse_end: "read_record Sparse (write_posting_record Sparse k i) = Inr (Some ((k, i), []))" "read_record Sparse [] = Inr None"
  using read_write_record [OF good_sparse_key, of k i "[]"] by (simp_all add: read_record_def)

lemma pair_value: "write_value 1099511627776 None = Inr [1]"
proof -
  have "unpack_posting 1099511627776 = (0, 1)" by (simp add: unpack_posting_def OFFSET_BITS_def COUNT_BITS_def)
  then show ?thesis by (simp add: write_value_def write_varint.simps)
qed

lemma empty_hash: "sha256 empty_hashes empty_tail = replicate 32 2" "\<forall>x. length (sha256 empty_hashes x) = 32"
  "sha256 empty_hashes x = replicate 32 2 \<longleftrightarrow> x = empty_tail"
  by (simp_all add: empty_hashes_def replicate_eq_replicate)

lemma magic_lengths: "length POSTINGS_MAGIC = 8" "length SPARSE_TABLE_MAGIC = 8"
  by (simp_all add: POSTINGS_MAGIC_def SPARSE_TABLE_MAGIC_def)

lemma pair_merged:
  "merge_posting_runs list_crate (sha256 empty_hashes) [records Sparse [(9832, 0)]] Sparse 1 = Inr pair_index \<and> length (terms_file pair_index) < 2 ^ 64 \<and>
    postings_file pair_index = empty_tail \<and> postings_data_len pair_index = 0 \<and> postings_tail_hash pair_index = hex (replicate 32 2) \<and>
    blob_len (postings_blob pair_index) = 24"
  unfolding pair_index_def
  by (simp add: merge_posting_runs_def collapse_posting_runs.simps MAX_OPEN_POSTING_RUNS_def start_heap_def refill_def records_def
    read_sparse_end get_def add_u64_def uses_sharded_terms_def record_bytes_def key_bytes_def new_terms_def posting_step_def insert_posting_file_def
    Let_def pack_posting_def OFFSET_BITS_def COUNT_BITS_def list_crate_def new_postings_def finish_postings_def insert_sparse_def new_sparse_def
    pair_value BLOCK_BYTES_def finish_sparse_def flush_sparse_def)
    (simp add: empty_hash(1) [unfolded empty_tail_def] empty_hash(2) empty_tail_def index_entry_def magic_lengths)

lemma pair_indexed: "indexes_chunks sample_crates sort list_crate (sha256 empty_hashes) 1 64 Sparse 1 pair_chunks pair_index"
  unfolding indexes_chunks_def
proof (intro conjI exI)
  have doc: "list_all2 (chunk_doc sample_crates None Sparse) [\<lparr>gd_doc_id = 0, gd_base = 0, gd_grams = GSparse [97, 98]\<rparr>] [[97, 98]]"
    by (simp add: chunk_doc_def sparse_doc_holds_def)
  show "list_all2 (written_chunk sample_crates sort 1 64 Sparse) pair_chunks [[records Sparse [(9832, 0)]]]"
    using doc pair_written by (simp add: written_chunk_def)
  show "merge_posting_runs list_crate (sha256 empty_hashes) (concat [[records Sparse [(9832, 0)]]]) Sparse 1 = Inr pair_index"
    "length (terms_file pair_index) < 2 ^ 64" "length (postings_file pair_index) < 2 ^ 64"
    using pair_merged by (simp_all add: empty_tail_def POSTINGS_MAGIC_def)
  show "\<forall>(key, i)\<in>records_of sample_crates Sparse pair_chunks. i < 1" by (simp add: records_of_def doc_records_def id_records_def)
qed (simp_all add: radsort64_sorts_def sample_crates_sorts list_crate_laws empty_hash)

definition pair_meta :: segment_meta where
  "pair_meta = sample_meta\<lparr>meta_postings_len := 24, meta_postings_data_len := 0\<rparr>"

definition pair_ranges :: get_ranges where
  "pair_ranges name ranges = Inr (map (\<lambda>(off, len). sub_slice empty_tail off (off + len)) ranges)"

lemma pair_segment:
  "built list_crate (sha256 empty_hashes) Sparse 1 (records_of sample_crates Sparse pair_chunks) pair_index" "meta_of pair_meta pair_index"
  "no_collisions empty_hashes (segment_data pair_index)" "table_ok empty_hashes (segment_data pair_index) fresh_state"
  "honest empty_hashes pair_ranges pair_meta (segment_data pair_index)"
proof -
  have data: "segment_data pair_index = []" using pair_merged by (simp add: segment_data_def)
  have tail: "postings_tail (sha256 empty_hashes) [] = empty_tail" by (simp add: postings_tail_def data_blocks_def div_ceil_def VERIFY_BLOCK_BYTES_def empty_tail_def)
  show "built list_crate (sha256 empty_hashes) Sparse 1 (records_of sample_crates Sparse pair_chunks) pair_index" by (rule indexes_chunks_built [OF pair_indexed])
  show "meta_of pair_meta pair_index" using pair_merged by (simp add: meta_of_def pair_meta_def sample_meta_def)
  show "no_collisions empty_hashes (segment_data pair_index)"
    unfolding no_collisions_def data tail empty_hash(1,3) by (simp add: div_ceil_def VERIFY_BLOCK_BYTES_def)
  show "table_ok empty_hashes (segment_data pair_index) fresh_state" by (simp add: table_ok_def fresh_state_def)
  show "honest empty_hashes pair_ranges pair_meta (segment_data pair_index)" by (simp add: honest_def data tail pair_ranges_def)
qed

definition pair_plan :: candidate_plan where
  "pair_plan = \<lparr>plan_query = plan_hir literal_engine sample_crates (HLeaf [97, 98]) Sparse, plan_extent = EDocument\<rparr>"

abbreviation pair_search :: "(nat \<times> selection) list result" where
  "pair_search \<equiv> visit_candidate_selections [pair_plan] 1 Sparse (map_lookup sample_crates (segment_map list_crate Sparse pair_index)) (\<lambda>p i. (i, i))
     (segment_fetch empty_hashes pair_ranges True Sparse pair_meta 1 fresh_state) collect_selections []"

theorem sparse_index_finds_matches_witness: "\<exists>sels. pair_search = Inr sels \<and> sel_has (snd (sels ! 0)) 0"
proof -
  from selections_returned [OF pair_segment] obtain sels where run: "pair_search = Inr sels" by blast
  have p: "0 < length [pair_plan]" "plan_query ([pair_plan] ! 0) = plan_hir literal_engine sample_crates (HLeaf [97, 98]) Sparse" by (simp_all add: pair_plan_def)
  have m: "hir_match literal_engine (HLeaf [97, 98]) [97, 98] 0 2" by (simp add: literal_engine_def lit_match_leaf)
  let ?doc = "\<lparr>gd_doc_id = 0, gd_base = 0, gd_grams = GSparse [97, 98]\<rparr>"
  have doc: "([?doc], None, [[97, 98]]) \<in> set pair_chunks" "(?doc, [97, 98]) \<in> set (zip [?doc] [[97, 98]])" by simp_all
  have "sel_has (snd (sels ! 0)) (of_nat (gd_doc_id ?doc))"
    by (rule sparse_index_finds_matches [OF pair_indexed pair_segment(2-4) run p doc literal_engine_laws m])
  with run show ?thesis by simp
qed

end
