(* ===== verification/Segment_List.thy ===== *)
theory Segment_List
  imports Posting_Read Segment_Tables
begin

text \<open>
  The root of an index and what a segment loads, \<open>crates/index/src/segment.rs\<close>: the segment list \<open>segments.bin\<close> with its validation and the states a root can be in,
  the identity of the indexed source, the check of a document table against its metadata, the load of that table through the cache with
  its one retry, and the prune of segments by key prefix. The decoder of the \<open>postcard\<close> crate is the parameter \<open>root_crates\<close>, the store the argument of
  the loaders.
\<close>

section \<open>Source identity\<close>

datatype source_identity = Local_Source string | S3_Source string string string

definition ends_with_slash :: "string \<Rightarrow> bool" where
  "ends_with_slash p \<longleftrightarrow> p \<noteq> [] \<and> last p = CHR ''/''"

fun validate_identity :: "source_identity \<Rightarrow> unit result" where
  "validate_identity (Local_Source prefix) =
     ensure (prefix \<noteq> [] \<and> ends_with_slash prefix) ''local source identity must be a non-empty directory prefix'' (Inr ())"
| "validate_identity (S3_Source endpoint bucket prefix) =
     ensure (endpoint \<noteq> []) ''S3 source endpoint is empty''
     (ensure (bucket \<noteq> []) ''S3 source bucket is empty''
     (ensure (prefix = [] \<or> ends_with_slash prefix) ''S3 source prefix must be empty or end with /'' (Inr ())))"

definition starts_with :: "string \<Rightarrow> string \<Rightarrow> bool" where
  "starts_with s prefix \<longleftrightarrow> take (length prefix) s = prefix"

fun can_search :: "source_identity \<Rightarrow> source_identity \<Rightarrow> bool" where
  "can_search (Local_Source prefix) (Local_Source requested) \<longleftrightarrow> starts_with requested prefix"
| "can_search (S3_Source endpoint bucket prefix) (S3_Source requested_endpoint requested_bucket requested_prefix) \<longleftrightarrow>
     endpoint = requested_endpoint \<and> bucket = requested_bucket \<and> starts_with requested_prefix prefix"
| "can_search _ _ \<longleftrightarrow> False"

section \<open>The segment list\<close>

definition INDEX_FORMAT :: u32 where "INDEX_FORMAT = 20"

record segment_list =
  list_format :: u32
  list_source :: source_identity
  list_strategy :: strategy
  list_segments :: "segment_meta list"

record segment_list_payload =
  payload_source :: source_identity
  payload_strategy :: strategy
  payload_segments :: "segment_meta list"

text \<open>\<open>postcard\<close>: the readers of a leading integer, of the rest of a root, and of a leading identity.\<close>

record root_crates =
  take_format :: "bytes \<Rightarrow> (u32 \<times> bytes) option"
  take_payload :: "bytes \<Rightarrow> segment_list_payload option"
  take_source :: "bytes \<Rightarrow> (source_identity \<times> bytes) option"

datatype root_error = Format_Mismatch u32 | Root_Error error

definition is_newer_format :: "root_error \<Rightarrow> bool" where
  "is_newer_format e = (case e of Format_Mismatch found \<Rightarrow> found > INDEX_FORMAT | Root_Error _ \<Rightarrow> False)"

definition is_sha256 :: "string \<Rightarrow> bool" where
  "is_sha256 s \<longleftrightarrow> length s = 64 \<and> list_all (\<lambda>c. c \<in> {CHR ''0''..CHR ''9''} \<or> c \<in> {CHR ''a''..CHR ''f''}) s"

definition validate_meta :: "string set \<Rightarrow> segment_meta \<Rightarrow> string set result" where
  "validate_meta segment_ids segment =
     ensure (is_sha256 (seg_id segment)) ''segment ID is not a SHA-256 hash''
     (ensure (is_sha256 (terms_fst_hash segment) \<and> is_sha256 (meta_postings_hash segment) \<and> is_sha256 (meta_postings_tail_hash segment) \<and>
        is_sha256 (docs_hash segment)) ''segment blob hash is not a SHA-256 hash''
     (ensure (meta_postings_data_len segment \<le> meta_postings_len segment) ''postings data region exceeds its blob''
     (ensure (terms_tail_hash segment = [] \<or> is_sha256 (terms_tail_hash segment)) ''segment term tail hash is invalid''
     (ensure (seg_id segment \<notin> segment_ids) ''segment ID is duplicated''
     (ensure (min_key segment \<le> max_key segment) ''segment key bounds are reversed''
     (ensure (dead_hash segment = [] \<and> dead_len segment = 0 \<or> is_sha256 (dead_hash segment) \<and> dead_len segment > 0) ''segment dead-set metadata is invalid''
     (ensure (list_all (\<lambda>pack. is_sha256 (meta_hash pack) \<and> meta_len pack > 0) (meta_packs segment)) ''segment pack metadata is invalid''
     (Inr (insert (seg_id segment) segment_ids)))))))))"

definition parse_segment_list :: "root_crates \<Rightarrow> bytes \<Rightarrow> root_error + segment_list" where
  "parse_segment_list P bs =
     (case take_format P bs of
        None \<Rightarrow> Inl (Root_Error (Bail ''segments.bin format unreadable''))
      | Some (fmt, rest) \<Rightarrow>
          if fmt \<noteq> INDEX_FORMAT then Inl (Format_Mismatch fmt)
          else (case take_payload P rest of
            None \<Rightarrow> Inl (Root_Error (Bail ''segments.bin payload unreadable''))
          | Some payload \<Rightarrow>
              (case and_then (validate_identity (payload_source payload)) (\<lambda>_. visit_all validate_meta {} (payload_segments payload)) of
                 Inl e \<Rightarrow> Inl (Root_Error e)
               | Inr _ \<Rightarrow> Inr \<lparr>list_format = fmt, list_source = payload_source payload, list_strategy = payload_strategy payload,
                                list_segments = payload_segments payload\<rparr>)))"

definition parse_root_source :: "root_crates \<Rightarrow> bytes \<Rightarrow> source_identity option" where
  "parse_root_source P bs =
     Option.bind (take_format P bs) (\<lambda>(fmt, rest).
       if \<not> (12 \<le> fmt \<and> fmt \<le> INDEX_FORMAT) then None
       else Option.bind (take_source P rest) (\<lambda>(source, _).
         if validate_identity source = Inr () then Some source else None))"

datatype root_state = Loaded segment_list | Absent | Unreadable root_error bytes

type_synonym versioned = "(bytes \<times> string) option result"

definition load_segment_list :: "root_crates \<Rightarrow> versioned \<Rightarrow> root_error + (root_state \<times> string option)" where
  "load_segment_list P got =
     (case got of
        Inl e \<Rightarrow> Inl (Root_Error e)
      | Inr None \<Rightarrow> Inr (Absent, None)
      | Inr (Some (bs, v)) \<Rightarrow>
          (case parse_segment_list P bs of
             Inr list \<Rightarrow> Inr (Loaded list, Some v)
           | Inl e \<Rightarrow> if is_newer_format e then Inl e else Inr (Unreadable e bs, Some v)))"

section \<open>The document table of a segment\<close>

definition pack_end :: "pack_block list \<Rightarrow> nat \<Rightarrow> nat option" where
  "pack_end bs pack_id = map_option (\<lambda>b. offset b + compressed_len b) (find (\<lambda>b. pack b = pack_id) (rev bs))"

definition validate_segment_tables :: "segment_meta \<Rightarrow> segment_tables \<Rightarrow> unit result" where
  "validate_segment_tables meta t =
     ensure (length (documents t) = unat (segment_meta.doc_count meta)) ''segment document count does not match its metadata''
     (and_then (context_of (get (sources t) 0) ''segment has no sources'') (\<lambda>fst_source.
      and_then (context_of (get (sources t) (length (sources t) - 1)) ''segment has no sources'') (\<lambda>last_source.
      ensure (source_key fst_source = min_key meta \<and> source_key last_source = max_key meta) ''segment key bounds do not match its source table''
      (ensure ((if table_blocks t = [] then 0 else pack (last (table_blocks t)) + 1) = length (meta_packs meta)) ''segment pack count does not match its metadata''
      (visit_all (\<lambda>_ (pack_id, pm).
         and_then (context_of (pack_end (table_blocks t) pack_id) ''segment pack has no blocks'') (\<lambda>stop.
         ensure (stop = meta_len pm) ''segment pack length does not match its blocks'' (Inr ()))) () (enumerate 0 (meta_packs meta)))))))"

type_synonym get_blob = "string \<Rightarrow> bytes option result"

definition cached_blob :: "pack_crates \<Rightarrow> get_blob \<Rightarrow> disk \<Rightarrow> string \<Rightarrow> string \<Rightarrow> nat \<Rightarrow> string \<Rightarrow> (bytes \<times> disk) result" where
  "cached_blob X store d seg name expected_len expected_hash =
     and_then (cached_bytes X d seg name expected_hash (\<lambda>_.
       and_then (store (segment_blob seg name)) (\<lambda>got. context_of got ''segment blob missing from the store''))) (\<lambda>(bs, d).
     ensure (length bs = expected_len) ''segment blob has another length than expected'' (Inr (bs, d)))"

text \<open>Removing a cached file fails, and is ignored, where writing one does.\<close>

definition remove_file :: "disk \<Rightarrow> string \<Rightarrow> disk" where
  "remove_file d path = (if writable d path then d\<lparr>files := (files d)(path := None)\<rparr> else d)"

text \<open>One attempt. All a failed one can leave behind is the cached file, which is removed before the second.\<close>

definition load_tables ::
    "pack_crates \<Rightarrow> get_blob \<Rightarrow> (bytes \<Rightarrow> segment_tables option) \<Rightarrow> segment_meta \<Rightarrow> dead_set \<Rightarrow> disk \<Rightarrow> (segment_tables \<times> disk) result" where
  "load_tables X store from_bytes meta dead d =
     and_then (cached_blob X store d (seg_id meta) ''docs.bin'' (docs_len meta) (docs_hash meta)) (\<lambda>(bs, d).
     and_then (parse_tables from_bytes bs) (\<lambda>t.
     and_then (validate_segment_tables meta t) (\<lambda>_.
     and_then (validate_dead dead t) (\<lambda>_. Inr (t, d)))))"

definition load_segment_tables ::
    "pack_crates \<Rightarrow> get_blob \<Rightarrow> (bytes \<Rightarrow> segment_tables option) \<Rightarrow> segment_meta \<Rightarrow> dead_set \<Rightarrow> disk \<Rightarrow> (segment_tables \<times> disk) result" where
  "load_segment_tables X store from_bytes meta dead d =
     (case load_tables X store from_bytes meta dead d of
        Inr r \<Rightarrow> Inr r
      | Inl _ \<Rightarrow> load_tables X store from_bytes meta dead (remove_file d (seg_id meta @ ''/docs.bin'')))"

section \<open>Pruning by prefix\<close>

text \<open>The smallest string above every string with the prefix, or nothing; the loop pops bytes from the end.\<close>

function prefix_upper :: "string \<Rightarrow> string" where
  "prefix_upper p =
     (if p = [] then []
      else if last p = CHR 0xFF then prefix_upper (butlast p)
      else butlast p @ [char_of (of_char (last p) + 1 :: nat)])"
  by pat_completeness auto
termination by (relation "measure length") auto

declare prefix_upper.simps [simp del]

definition prefix_overlaps :: "segment_meta \<Rightarrow> string \<Rightarrow> bool" where
  "prefix_overlaps meta prefix \<longleftrightarrow> \<not> max_key meta < prefix \<and> (prefix_upper prefix = [] \<or> min_key meta < prefix_upper prefix)"

section \<open>What a prefix can reach\<close>

text \<open>The same bound built from the front, which is what induction needs.\<close>

fun bump :: "string \<Rightarrow> string" where
  "bump [] = []"
| "bump (c # cs) = (if bump cs \<noteq> [] then c # bump cs else if c = CHR 0xFF then [] else [char_of (of_char c + 1 :: nat)])"

lemma bump_snoc: "bump (xs @ [c]) = (if c = CHR 0xFF then bump xs else xs @ [char_of (of_char c + 1 :: nat)])"
  by (induction xs) auto

lemma prefix_upper_bump: "prefix_upper p = bump p"
proof (induction p rule: rev_induct)
  case Nil
  show ?case by (simp add: prefix_upper.simps)
next
  case (snoc c xs)
  then show ?case by (subst prefix_upper.simps) (simp add: bump_snoc)
qed

lemma char_not_max: "c \<noteq> CHR 0xFF \<Longrightarrow> (of_char c :: nat) < 255"
proof -
  assume "c \<noteq> CHR 0xFF"
  moreover have "c = CHR 0xFF" if "(of_char c :: nat) = 255"
    by (rule injD [OF inj_of_char [where 'a = nat]]) (simp add: that)
  ultimately have "(of_char c :: nat) \<noteq> 255" by blast
  with nat_of_char_less_256 [of c] show ?thesis by linarith
qed

lemma char_less_succ: "c \<noteq> CHR 0xFF \<Longrightarrow> (k < char_of (Suc (of_char c))) = (k \<le> c)"
  using char_not_max [of c] by (simp add: less_char_def less_eq_char_def less_Suc_eq_le)

lemma char_le_max: "(k::char) \<le> CHR 0xFF"
  using nat_of_char_less_256 [of k] by (simp add: less_eq_char_def less_Suc_eq_le flip: less_Suc_eq_le)

lemma starts_with_Cons: "starts_with (k # ks) (c # cs) = (k = c \<and> starts_with ks cs)"
  and starts_with_Nil: "starts_with ks []" "starts_with [] (c # cs) = False"
  by (auto simp: starts_with_def)

lemma bump_interval: "(p \<le> k \<and> (bump p = [] \<or> k < bump p)) = starts_with k p"
proof (induction p arbitrary: k)
  case Nil
  show ?case by (simp add: starts_with_Nil)
next
  case (Cons c cs)
  show ?case
  proof (cases k)
    case Nil
    then show ?thesis by (simp add: starts_with_Nil)
  next
    case (Cons x xs)
    then show ?thesis using Cons.IH [of xs] char_le_max [of x]
      by (auto simp: starts_with_Cons char_less_succ)
  qed
qed

lemma prefix_interval: "starts_with k p \<longleftrightarrow> p \<le> k \<and> (prefix_upper p = [] \<or> k < prefix_upper p)"
  by (simp only: prefix_upper_bump bump_interval)

lemma starts_with_refl: "starts_with p p"
  by (simp add: starts_with_def)

lemma prefix_below_upper: "prefix_upper p = [] \<or> p < prefix_upper p"
  using prefix_interval [of p p] starts_with_refl by blast

lemma lowercase_hex: "c \<in> {CHR ''0''..CHR ''9''} \<or> c \<in> {CHR ''a''..CHR ''f''} \<longleftrightarrow> c \<in> set ''0123456789abcdef''"
proof -
  have "c \<in> char_of ` ({48..57} \<union> {97..102 :: nat}) \<longleftrightarrow> of_char c \<in> {48..57} \<union> {97..102 :: nat}"
    by (force intro: image_eqI [of _ _ "of_char c :: nat"])
  moreover have "char_of ` ({48..57} \<union> {97..102 :: nat}) = set (map char_of ([48..<58] @ [97..<103 :: nat]))"
    by (auto simp only: set_map set_append set_upt image_Un) auto
  moreover have "map char_of ([48..<58] @ [97..<103 :: nat]) = ''0123456789abcdef''" by code_simp
  ultimately show ?thesis by (simp add: less_eq_char_def)
qed

lemma hex_digit_surj: "c \<in> set ''0123456789abcdef'' \<Longrightarrow> \<exists>n<16. c = hex_digit n"
  unfolding hex_digit_def in_set_conv_nth by (elim exE conjE, intro exI conjI) (auto simp del: nth_Cons_numeral)

lemma hex_Cons: "hex (b # bs) = hex_digit (unat b div 16) # hex_digit (unat b mod 16) # hex bs"
  by (simp add: hex_def)

lemma hex_join: "x < 16 \<Longrightarrow> y < 16 \<Longrightarrow> hex (word_of_nat (16 * x + y) # bs) = hex_digit x # hex_digit y # hex bs"
  by (simp add: hex_Cons unat_of_nat del: of_nat_add of_nat_mult)

lemma hex_of_digits:
  "list_all (\<lambda>c. c \<in> set ''0123456789abcdef'') s \<Longrightarrow> length s = 2 * n \<Longrightarrow> \<exists>bs. length bs = n \<and> s = hex bs"
proof (induction n arbitrary: s)
  case 0
  then show ?case by (simp add: hex_def)
next
  case (Suc n)
  then obtain c d r where s: "s = c # d # r" by (cases s; cases "tl s") auto
  with Suc obtain bs where "length bs = n" "r = hex bs" by (auto simp del: list.set)
  moreover from Suc.prems s obtain x y where "x < 16" "y < 16" "c = hex_digit x" "d = hex_digit y"
    by (metis (no_types, lifting) hex_digit_surj list.pred_inject(2))
  ultimately show ?case using s by (intro exI [of _ "word_of_nat (16 * x + y) # bs"]) (simp add: hex_join del: of_nat_add of_nat_mult)
qed

lemma hex_digit_in: "n < 16 \<Longrightarrow> hex_digit n \<in> set ''0123456789abcdef''"
  unfolding hex_digit_def by (rule nth_mem) simp

lemma hex_digits_of: "list_all (\<lambda>c. c \<in> set ''0123456789abcdef'') (hex bs) \<and> length (hex bs) = 2 * length bs"
proof (induction bs)
  case Nil
  show ?case by (simp add: hex_def)
next
  case (Cons b bs)
  have "unat b < 256" using unsigned_less [of b] by simp
  then have "unat b div 16 < 16" "unat b mod 16 < 16" by (simp_all add: less_mult_imp_div_less)
  with Cons show ?case by (simp add: hex_Cons hex_digit_in del: list.set)
qed

lemma is_sha256_iff: "is_sha256 s \<longleftrightarrow> (\<exists>bs. length bs = 32 \<and> s = hex bs)"
  unfolding is_sha256_def lowercase_hex
  using hex_of_digits [of s 32] hex_digits_of by (metis mult_2 numeral_Bit0)

section \<open>What a parsed root is\<close>

text \<open>The contract of a root, stated on the record alone: every hash is the hexadecimal text of 32 bytes.\<close>

definition sha_text :: "string \<Rightarrow> bool" where
  "sha_text s \<longleftrightarrow> (\<exists>bs. length bs = 32 \<and> s = hex bs)"

definition meta_ok :: "segment_meta \<Rightarrow> bool" where
  "meta_ok m \<longleftrightarrow>
     sha_text (seg_id m) \<and> sha_text (terms_fst_hash m) \<and> sha_text (meta_postings_hash m) \<and> sha_text (meta_postings_tail_hash m) \<and>
     sha_text (docs_hash m) \<and> meta_postings_data_len m \<le> meta_postings_len m \<and> (terms_tail_hash m = [] \<or> sha_text (terms_tail_hash m)) \<and>
     min_key m \<le> max_key m \<and> (if dead_hash m = [] then dead_len m = 0 else sha_text (dead_hash m) \<and> dead_len m > 0) \<and>
     list_all (\<lambda>pm. sha_text (meta_hash pm) \<and> meta_len pm > 0) (meta_packs m)"

fun identity_ok :: "source_identity \<Rightarrow> bool" where
  "identity_ok (Local_Source prefix) \<longleftrightarrow> (\<exists>dir. prefix = dir @ ''/'')"
| "identity_ok (S3_Source endpoint bucket prefix) \<longleftrightarrow> endpoint \<noteq> [] \<and> bucket \<noteq> [] \<and> (prefix = [] \<or> (\<exists>dir. prefix = dir @ ''/''))"

lemma sha_text_not_empty: "\<not> sha_text []"
proof -
  have "length bs = 0" if "[] = hex bs" for bs using hex_digits_of [of bs] that by simp
  then show ?thesis unfolding sha_text_def by force
qed

lemma sha_text_is: "is_sha256 s = sha_text s"
  by (simp only: is_sha256_iff sha_text_def)

lemma ends_with_slash_iff: "ends_with_slash p \<longleftrightarrow> (\<exists>dir. p = dir @ ''/'')"
  by (cases p rule: rev_cases) (auto simp: ends_with_slash_def)

lemma validate_identity_ok: "validate_identity s = Inr () \<longleftrightarrow> identity_ok s"
  by (cases s) (auto simp: ensure_def ends_with_slash_iff)

lemma validate_meta_ok: "validate_meta ids m = Inr r \<longleftrightarrow> meta_ok m \<and> seg_id m \<notin> ids \<and> r = insert (seg_id m) ids"
  using sha_text_not_empty by (auto simp: validate_meta_def meta_ok_def ensure_def sha_text_is)

lemma validate_metas_ok:
  "visit_all validate_meta ids ms = Inr r \<longleftrightarrow>
     list_all meta_ok ms \<and> distinct (map seg_id ms) \<and> set (map seg_id ms) \<inter> ids = {} \<and> r = ids \<union> set (map seg_id ms)"
proof (induction ms arbitrary: ids)
  case Nil
  show ?case by auto
next
  case (Cons m ms)
  show ?case
  proof (cases "meta_ok m \<and> seg_id m \<notin> ids")
    case True
    then have "validate_meta ids m = Inr (insert (seg_id m) ids)" by (simp add: validate_meta_ok)
    with True show ?thesis by (auto simp: Cons.IH)
  next
    case False
    then have "\<nexists>r. validate_meta ids m = Inr r" by (auto simp: validate_meta_ok)
    then obtain e where "validate_meta ids m = Inl e" by (cases "validate_meta ids m") auto
    with False show ?thesis by auto
  qed
qed

definition payload_ok :: "segment_list_payload \<Rightarrow> bool" where
  "payload_ok p \<longleftrightarrow> identity_ok (payload_source p) \<and> distinct (map seg_id (payload_segments p)) \<and> list_all meta_ok (payload_segments p)"

definition payload_list :: "segment_list_payload \<Rightarrow> segment_list" where
  "payload_list p = \<lparr>list_format = INDEX_FORMAT, list_source = payload_source p, list_strategy = payload_strategy p, list_segments = payload_segments p\<rparr>"

lemma checked_payload:
  "(case and_then (validate_identity (payload_source p)) (\<lambda>_. visit_all validate_meta {} (payload_segments p)) of Inl e \<Rightarrow> Inl (f e) | Inr _ \<Rightarrow> Inr y) = Inr z
   \<longleftrightarrow> payload_ok p \<and> y = z"
  using validate_identity_ok [of "payload_source p"] validate_metas_ok [of "{}" "payload_segments p"]
  by (cases "validate_identity (payload_source p)"; cases "visit_all validate_meta {} (payload_segments p)") (auto simp: payload_ok_def)

lemma newer_format:
  "(\<exists>e. parse_segment_list P bs = Inl e \<and> is_newer_format e) \<longleftrightarrow> (\<exists>f rest. take_format P bs = Some (f, rest) \<and> INDEX_FORMAT < f)"
  by (auto simp: parse_segment_list_def is_newer_format_def split: option.splits sum.splits if_splits)

text \<open>
  C14: Validation is exact. A root parses to a list if and only if it carries this format, its payload decodes to that list, and the list keeps its contract:
  the source identity is well formed, segment ids are distinct, and every segment has 32-byte hexadecimal hashes, ordered key bounds, a data region inside its
  postings blob, a dead set present exactly when its length is positive, and packs that are not empty.
\<close>

theorem parsed_list_is_well_formed:
  "parse_segment_list P bs = Inr l \<longleftrightarrow>
     (\<exists>rest. take_format P bs = Some (INDEX_FORMAT, rest) \<and>
        take_payload P rest = Some \<lparr>payload_source = list_source l, payload_strategy = list_strategy l, payload_segments = list_segments l\<rparr>) \<and>
     list_format l = INDEX_FORMAT \<and> identity_ok (list_source l) \<and> distinct (map seg_id (list_segments l)) \<and> list_all meta_ok (list_segments l)"
proof (cases "take_format P bs")
  case None
  then show ?thesis by (simp add: parse_segment_list_def)
next
  case (Some r)
  obtain fmt rest where r: "r = (fmt, rest)" by (cases r)
  show ?thesis
  proof (cases "take_payload P rest")
    case None
    with Some r show ?thesis by (auto simp: parse_segment_list_def)
  next
    case (Some payload)
    have "parse_segment_list P bs = Inr l \<longleftrightarrow> fmt = INDEX_FORMAT \<and> payload_ok payload \<and> l = payload_list payload"
      using \<open>take_format P bs = Some r\<close> r Some by (auto simp: parse_segment_list_def checked_payload payload_list_def)
    also have "\<dots> \<longleftrightarrow> fmt = INDEX_FORMAT \<and> payload = \<lparr>payload_source = list_source l, payload_strategy = list_strategy l, payload_segments = list_segments l\<rparr> \<and>
        list_format l = INDEX_FORMAT \<and> payload_ok payload"
      by (cases l; cases payload) (auto simp: payload_list_def)
    finally show ?thesis using \<open>take_format P bs = Some r\<close> r Some by (auto simp: payload_ok_def)
  qed
qed

text \<open>
  A root becomes an error only when the store fails or a newer program wrote it; then no run may rebuild over it. A missing root is the only one reported as absent, and
  a root reported unreadable carries the bytes that the store returned and the version they had.
\<close>

lemma root_states:
  "((\<exists>e. load_segment_list P got = Inl e) \<longleftrightarrow>
      (\<exists>e. got = Inl e) \<or> (\<exists>bs v f rest. got = Inr (Some (bs, v)) \<and> take_format P bs = Some (f, rest) \<and> INDEX_FORMAT < f)) \<and>
   (load_segment_list P got = Inr (Absent, v) \<longleftrightarrow> got = Inr None \<and> v = None) \<and>
   ((\<exists>e. load_segment_list P got = Inr (Unreadable e bs, v)) \<longleftrightarrow>
      (\<exists>w. got = Inr (Some (bs, w)) \<and> v = Some w) \<and> (\<nexists>l. parse_segment_list P bs = Inr l) \<and>
      (\<nexists>f rest. take_format P bs = Some (f, rest) \<and> INDEX_FORMAT < f))"
proof -
  have "(\<exists>e. load_segment_list P got = Inl e) \<longleftrightarrow> (\<exists>e. got = Inl e) \<or> (\<exists>bs v. got = Inr (Some (bs, v)) \<and> (\<exists>f rest. take_format P bs = Some (f, rest) \<and> INDEX_FORMAT < f))"
    unfolding newer_format [symmetric] by (auto simp: load_segment_list_def split: sum.splits option.splits)
  moreover have "load_segment_list P got = Inr (Absent, v) \<longleftrightarrow> got = Inr None \<and> v = None"
    by (auto simp: load_segment_list_def split: sum.splits option.splits)
  moreover have "(\<exists>e. load_segment_list P got = Inr (Unreadable e bs, v)) \<longleftrightarrow>
      (\<exists>w. got = Inr (Some (bs, w)) \<and> v = Some w) \<and> (\<nexists>l. parse_segment_list P bs = Inr l) \<and>
      (\<nexists>f rest. take_format P bs = Some (f, rest) \<and> INDEX_FORMAT < f)"
    unfolding newer_format [symmetric] by (auto simp: load_segment_list_def split: sum.splits option.splits)
  ultimately show ?thesis by simp
qed

text \<open>
  C33: The prune of segments by prefix is exact: a segment is kept if and only if some key with the prefix lies between its smallest and its largest key.
\<close>

theorem prefix_overlaps_exact:
  assumes "min_key meta \<le> max_key meta"
  shows "prefix_overlaps meta p \<longleftrightarrow> (\<exists>k. starts_with k p \<and> min_key meta \<le> k \<and> k \<le> max_key meta)"
proof
  assume o: "prefix_overlaps meta p"
  show "\<exists>k. starts_with k p \<and> min_key meta \<le> k \<and> k \<le> max_key meta"
  proof (cases "min_key meta \<le> p")
    case True
    with o starts_with_refl show ?thesis by (intro exI [of _ p]) (simp add: prefix_overlaps_def not_less)
  next
    case False
    with o have "starts_with (min_key meta) p" by (auto simp: prefix_overlaps_def prefix_interval)
    with assms show ?thesis by blast
  qed
next
  assume "\<exists>k. starts_with k p \<and> min_key meta \<le> k \<and> k \<le> max_key meta"
  then show "prefix_overlaps meta p" by (auto simp: prefix_overlaps_def prefix_interval)
qed

definition pruned_meta :: segment_meta where
  "pruned_meta = sample_meta\<lparr>segment_meta.doc_count := 2, docs_len := 1, docs_hash := ''09'', min_key := ''a'', max_key := ''b'',
     meta_packs := [\<lparr>meta_hash = [], meta_len = 6\<rparr>]\<rparr>"

theorem prefix_overlaps_exact_witness:
  "prefix_overlaps pruned_meta ''a'' \<and> (\<exists>k. starts_with k ''a'' \<and> ''a'' \<le> k \<and> k \<le> ''b'') \<and> \<not> prefix_overlaps pruned_meta ''c''"
proof -
  have "min_key pruned_meta \<le> max_key pruned_meta" by (simp add: pruned_meta_def less_eq_char_def)
  note exact = prefix_overlaps_exact [OF this]
  have "prefix_overlaps pruned_meta ''a''" by (simp add: prefix_overlaps_def pruned_meta_def less_char_def prefix_upper.simps)
  moreover have "\<not> prefix_overlaps pruned_meta ''c''" by (simp add: prefix_overlaps_def pruned_meta_def less_char_def)
  ultimately show ?thesis using exact [of "''a''"] by (simp add: pruned_meta_def)
qed

section \<open>Loading a document table\<close>

text \<open>
  C32: Loading a segment's tables heals the cache. When the store holds the table that the metadata names, and that table parses and validates, the load returns it
  whatever the cache holds, stale or corrupt, and whether or not the cache can be written.
\<close>

theorem tables_load_heals:
  assumes "docs_hash meta = hex (sha256 X c)" "docs_len meta = length c" "\<forall>x. sha256 X x = sha256 X c \<longrightarrow> x = c"
    and "store (segment_blob (seg_id meta) ''docs.bin'') = Inr (Some c)"
    and "parse_tables from_bytes c = Inr t" "validate_segment_tables meta t = Inr ()" "validate_dead dead t = Inr ()"
  shows "\<exists>d'. load_segment_tables X store from_bytes meta dead d = Inr (t, d')"
proof -
  have "\<exists>d'. cached_blob X store d (seg_id meta) ''docs.bin'' (docs_len meta) (docs_hash meta) = Inr (c, d')"
    using assms(1-4) by (auto simp: cached_blob_def cached_bytes_def read_verified_def Let_def context_of_def ensure_def dest!: hex_inj split: option.splits)
  then show ?thesis using assms(5-7) by (auto simp: load_segment_tables_def load_tables_def)
qed

theorem tables_load_heals_witness:
  "\<exists>d'. load_segment_tables sample_zstd (\<lambda>_. Inr (Some [9])) (\<lambda>_. Some sample_tables) pruned_meta \<lparr>dead_sources = [], dead_documents = []\<rparr>
     \<lparr>files = [''s/docs.bin'' \<mapsto> [1, 2]], writable = (\<lambda>_. False)\<rparr> = Inr (sample_tables, d')"
proof -
  have "parse_tables (\<lambda>_. Some sample_tables) [9] = Inr sample_tables" by (simp add: parse_tables_def sample_tables_valid)
  then show ?thesis by (rule tables_load_heals [rotated 4])
    (simp_all add: pruned_meta_def sample_zstd_def hex_def hex_digit_def validate_segment_tables_def validate_dead_def sample_tables_def sample_out_def get_def ensure_def pack_end_def enumerate_eq_zip)
qed

text \<open>A loaded document table is the published one, whatever the store returns and the cache holds.\<close>

lemma load_tables_authentic:
  assumes "load_tables X store from_bytes meta dead d = Inr (t, d')" "docs_hash meta = hex (sha256 X c)" "\<forall>x. sha256 X x = sha256 X c \<longrightarrow> x = c"
  shows "parse_tables from_bytes c = Inr t \<and> length c = docs_len meta \<and> validate_segment_tables meta t = Inr () \<and> validate_dead dead t = Inr ()"
  using assms unfolding load_tables_def cached_blob_def
  by (auto simp: ensure_def split: if_splits dest!: cached_bytes_known)

lemma tables_load_authentic:
  assumes "load_segment_tables X store from_bytes meta dead d = Inr (t, d')"
    and "docs_hash meta = hex (sha256 X c)" "\<forall>x. sha256 X x = sha256 X c \<longrightarrow> x = c"
  shows "parse_tables from_bytes c = Inr t \<and> length c = docs_len meta \<and> validate_segment_tables meta t = Inr () \<and> validate_dead dead t = Inr ()"
  using assms load_tables_authentic [OF _ assms(2,3)] by (auto simp: load_segment_tables_def split: sum.splits)

end
