(* ===== verification/Remote_Terms.thy ===== *)
theory Remote_Terms
  imports Index_Lookup Posting_Read
begin

text \<open>
  Sparse dictionaries read in place, \<open>crates/index/src/remote_terms.rs\<close> and \<open>read_term_values\<close> of \<open>crates/index/src/segment.rs\<close>: opening fetches the block index
  alone, and a query fetches the blocks its grams fall into, each checked against the index. The store and SHA-256 are parameters.
\<close>

section \<open>Definitions\<close>

type_synonym get_one_range = "string \<Rightarrow> nat \<Rightarrow> nat \<Rightarrow> bytes result"

definition fetch_index_tail :: "get_one_range \<Rightarrow> string \<Rightarrow> nat \<Rightarrow> bytes result" where
  "fetch_index_tail store blob table_len =
     ensure (table_len > FOOTER_BYTES) ''sparse term table is too short for its footer''
     (and_then (store blob (table_len - FOOTER_BYTES) FOOTER_BYTES) (\<lambda>footer.
      ensure (length footer = FOOTER_BYTES) ''sparse term table footer response is too short''
      (let index_offset = read_u64 (sub_slice footer 16 24)
       in ensure (index_offset < table_len) ''sparse table index offset is out of bounds''
          (let tail_len = table_len - index_offset
           in and_then (store blob index_offset tail_len) (\<lambda>tail.
              ensure (length tail = tail_len) ''sparse term table tail response is truncated''
              (Inr tail))))))"

definition parse_index_tail :: "pack_crates \<Rightarrow> nat \<Rightarrow> bytes \<Rightarrow> string \<Rightarrow> sparse_table_index result" where
  "parse_index_tail X table_len tail expected_tail_hash =
     ensure (hex (sha256 X tail) = expected_tail_hash) ''sparse term table tail hash mismatch: index is not trustworthy''
     (parse_sparse table_len tail)"

definition collect_gram_hashes :: "crates \<Rightarrow> bytes list \<Rightarrow> u64 list" where
  "collect_gram_hashes C grams = remdups_adj (sort (map (hash_ngram C) grams))"

definition terms_block_path :: "string \<Rightarrow> sparse_block_ref \<Rightarrow> string" where
  "terms_block_path seg r = seg @ ''/terms-block-'' @ hex_u64 (ref_offset r)"

definition probe_terms ::
    "pack_crates \<Rightarrow> sparse_table_index \<Rightarrow> string \<Rightarrow> disk \<Rightarrow> payloads \<times> nat list \<Rightarrow> nat \<Rightarrow> (payloads \<times> nat list) result" where
  "probe_terms X idx seg d = (\<lambda>(held, missing) block_id.
     and_then (or_panic (get (index_blocks idx) block_id)) (\<lambda>r.
     Inr (case read_verified X d (terms_block_path seg r) (hex (ref_hash r)) of
            Some bs \<Rightarrow> (held(block_id \<mapsto> bs), missing)
          | None \<Rightarrow> (held, missing @ [block_id]))))"

definition accept_terms ::
    "pack_crates \<Rightarrow> sparse_table_index \<Rightarrow> string \<Rightarrow> payloads \<times> disk \<Rightarrow> nat \<times> bytes \<Rightarrow> (payloads \<times> disk) result" where
  "accept_terms X idx seg = (\<lambda>(held, d) (block_id, raw).
     and_then (or_panic (get (index_blocks idx) block_id)) (\<lambda>r.
     ensure (sha256 X raw = ref_hash r) ''sparse term table block hash mismatch''
     (Inr (held(block_id \<mapsto> raw), write_back d (terms_block_path seg r) raw))))"

definition fetch_terms ::
    "pack_crates \<Rightarrow> get_ranges \<Rightarrow> string \<Rightarrow> sparse_table_index \<Rightarrow> string \<Rightarrow> payloads \<Rightarrow> nat list \<Rightarrow> disk \<Rightarrow> (payloads \<times> disk) result" where
  "fetch_terms X store blob idx seg held missing d =
     (if missing = [] then Inr (held, d)
      else and_then (visit_all (\<lambda>rs b. and_then (or_panic (get (index_blocks idx) b)) (\<lambda>r. Inr (rs @ [(ref_offset r, ref_len r)]))) [] missing) (\<lambda>ranges.
        and_then (store blob ranges) (\<lambda>fetched.
        ensure (length fetched = length ranges) ''get_ranges returned other blocks than asked''
        (visit_all (accept_terms X idx seg) (held, d) (zip missing fetched)))))"

text \<open>The blocks come from a hash map, whose order does not matter: each is decoded on its own.\<close>

definition decode_terms :: "payloads \<Rightarrow> decoded_blocks result" where
  "decode_terms held =
     visit_all (\<lambda>decoded block_id.
       and_then (for_each_entry (the (held block_id)) (\<lambda>es h v l. Inr (es @ [(h, v, l)])) []) (\<lambda>es.
       Inr (decoded(block_id \<mapsto> es)))) Map.empty (sorted_list_of_set (dom held))"

type_synonym gram_values = "u64 \<rightharpoonup> u64 \<times> u64 option"

definition find_value :: "sparse_table_index \<Rightarrow> decoded_blocks \<Rightarrow> gram_values \<Rightarrow> u64 \<Rightarrow> gram_values result" where
  "find_value idx decoded values hash =
     (case block_for idx hash of
        None \<Rightarrow> Inr values
      | Some block_id \<Rightarrow>
          and_then (context_of (decoded block_id) ''sparse term table block was not fetched'') (\<lambda>es.
          Inr (case binary_search_by_hash es hash of
                 Some (_, v, l) \<Rightarrow> values(hash \<mapsto> (v, l))
               | None \<Rightarrow> values)))"

definition fetch_gram_values ::
    "crates \<Rightarrow> pack_crates \<Rightarrow> get_ranges \<Rightarrow> string \<Rightarrow> sparse_table_index \<Rightarrow> bytes list \<Rightarrow> disk \<Rightarrow> string \<Rightarrow> (gram_values \<times> disk) result" where
  "fetch_gram_values C X store blob idx grams d seg =
     (let hashes = collect_gram_hashes C grams;
          needed_blocks = remdups_adj (List.map_filter (block_for idx) hashes)
      in if needed_blocks = [] then Inr (Map.empty, d)
         else and_then (visit_all (probe_terms X idx seg d) (Map.empty, []) needed_blocks) (\<lambda>(held, missing).
           and_then (fetch_terms X store blob idx seg held missing d) (\<lambda>(held, d).
           and_then (decode_terms held) (\<lambda>decoded.
           and_then (visit_all (find_value idx decoded) Map.empty hashes) (\<lambda>values. Inr (values, d))))))"

type_synonym term_values = "bytes \<rightharpoonup> term_value option"

definition read_term_values ::
    "crates \<Rightarrow> pack_crates \<Rightarrow> get_ranges \<Rightarrow> segment_meta \<Rightarrow> term_map \<Rightarrow> query list \<Rightarrow> disk \<Rightarrow> (term_values \<times> disk) result" where
  "read_term_values C X store meta m queries d =
     (let grams = collect_query_grams queries
      in and_then (case m of
             SparseRemote idx \<Rightarrow>
               and_then (fetch_gram_values C X store (segment_blob (seg_id meta) ''terms.fst'') idx grams d (seg_id meta)) (\<lambda>(values, d).
                 Inr (Some values, d))
           | _ \<Rightarrow> Inr (None, d)) (\<lambda>(remote, d).
         and_then (visit_all (\<lambda>out gram.
             and_then (case remote of
                 Some values \<Rightarrow> Inr (map_option (\<lambda>(v, l). \<lparr>packed = v, tv_len = l\<rparr>) (values (hash_ngram C gram)))
               | None \<Rightarrow> map_lookup C m gram) (\<lambda>value. Inr (out(gram \<mapsto> value)))) Map.empty grams) (\<lambda>out.
         Inr (out, d))))"

section \<open>The values of a remote dictionary\<close>

text \<open>No other bytes have the hash of a block of the table.\<close>

definition groups_unforgeable :: "pack_crates \<Rightarrow> entry list list \<Rightarrow> bool" where
  "groups_unforgeable X gs \<longleftrightarrow> (\<forall>g\<in>set gs. \<forall>x. sha256 X x = sha256 X (enc_block g) \<longrightarrow> x = enc_block g)"

definition holds_payloads :: "entry list list \<Rightarrow> payloads \<Rightarrow> bool" where
  "holds_payloads gs held \<longleftrightarrow> (\<forall>k bs. held k = Some bs \<longrightarrow> k < length gs \<and> bs = enc_block (gs ! k))"

lemma group_ref:
  assumes "holds_groups sha idx bs gs" "get (index_blocks idx) k = Some r"
  shows "k < length gs" "r = index_blocks idx ! k" "ref_hash r = sha (enc_block (gs ! k))"
  using assms by (auto simp: holds_groups_def get_def nth_refs_of split: if_splits)

lemma probe_terms_known:
  assumes "holds_groups (sha256 X) idx bs gs" "groups_unforgeable X gs" "visit_all (probe_terms X idx seg d) (b0, m0) needed = Inr (held, missing)"
    and "holds_payloads gs b0" "set m0 \<subseteq> {..<length gs}"
  shows "holds_payloads gs held \<and> set missing \<subseteq> {..<length gs} \<and> dom held \<union> set missing = dom b0 \<union> set m0 \<union> set needed"
  using assms(3-5)
proof (induction needed arbitrary: b0 m0)
  case (Cons k needed)
  from Cons.prems(1) obtain b1 m1 where step: "probe_terms X idx seg d (b0, m0) k = Inr (b1, m1)"
    "visit_all (probe_terms X idx seg d) (b1, m1) needed = Inr (held, missing)" by (auto simp: visit_all_Cons simp del: visit_all.simps(2))
  from step(1) obtain r where r: "get (index_blocks idx) k = Some r" by (auto simp: probe_terms_def)
  note ref = group_ref [OF assms(1) r]
  have known: "x = enc_block (gs ! k)" if "read_verified X d p (hex (ref_hash r)) = Some x" for x p
    using that assms(2) ref(1,3) by (auto simp: read_verified_def groups_unforgeable_def split: option.splits if_splits dest!: hex_inj)
  from step(1) r known ref(1) Cons.prems(2,3) have "holds_payloads gs b1" "set m1 \<subseteq> {..<length gs}" "dom b1 \<union> set m1 = dom b0 \<union> set m0 \<union> {k}"
    by (auto simp: probe_terms_def holds_payloads_def split: option.splits if_splits)
  with Cons.IH [OF step(2)] show ?case by auto
qed auto

lemma accept_terms_known:
  assumes "holds_groups (sha256 X) idx bs gs" "groups_unforgeable X gs" "visit_all (accept_terms X idx seg) (b0, d0) pairs = Inr (held, d)" "holds_payloads gs b0"
  shows "holds_payloads gs held \<and> dom held = dom b0 \<union> fst ` set pairs"
  using assms(3,4)
proof (induction pairs arbitrary: b0 d0)
  case (Cons p pairs)
  obtain k raw where p: "p = (k, raw)" by (cases p)
  from Cons.prems(1) obtain r d1 where step: "get (index_blocks idx) k = Some r" "sha256 X raw = ref_hash r"
    "visit_all (accept_terms X idx seg) (b0(k \<mapsto> raw), d1) pairs = Inr (held, d)"
    by (auto simp: p visit_all_Cons accept_terms_def simp del: visit_all.simps(2))
  note ref = group_ref [OF assms(1) step(1)]
  with step(2) assms(2) have "raw = enc_block (gs ! k)" by (auto simp: groups_unforgeable_def)
  with Cons.prems(2) ref(1) have "holds_payloads gs (b0(k \<mapsto> raw))" by (auto simp: holds_payloads_def)
  from Cons.IH [OF step(3) this] show ?case by (auto simp: p)
qed auto

lemma fetch_terms_known:
  assumes "holds_groups (sha256 X) idx bs gs" "groups_unforgeable X gs" "fetch_terms X store blob idx seg b0 missing d0 = Inr (held, d)" "holds_payloads gs b0"
  shows "holds_payloads gs held \<and> dom held = dom b0 \<union> set missing"
proof (cases "missing = []")
  case False
  have len: "visit_all (\<lambda>rs b. and_then (or_panic (get (index_blocks idx) b)) (\<lambda>r. Inr (rs @ [(ref_offset r, ref_len r)]))) acc missing = Inr ranges \<Longrightarrow>
      length ranges = length acc + length missing" for acc ranges
    by (induction missing arbitrary: acc) (auto simp: visit_all_Cons simp del: visit_all.simps(2))
  from False assms(3) obtain fetched where f: "length fetched = length missing" "visit_all (accept_terms X idx seg) (b0, d0) (zip missing fetched) = Inr (held, d)"
    by (auto simp: fetch_terms_def dest!: len)
  from accept_terms_known [OF assms(1,2) f(2) assms(4)] f(1) show ?thesis by (metis length_map map_fst_zip set_map)
qed (use assms in \<open>simp add: fetch_terms_def\<close>)

lemma decode_payloads:
  assumes "holds_groups (sha256 X) idx bs gs" "holds_payloads gs held" "finite (dom held)"
  shows "\<exists>decoded. decode_terms held = Inr decoded \<and> dom decoded = dom held \<and> (\<forall>k\<in>dom held. decoded k = Some (gs ! k))"
proof -
  let ?step = "\<lambda>decoded block_id. and_then (for_each_entry (the (held block_id)) (\<lambda>es h v l. Inr (es @ [(h, v, l)])) []) (\<lambda>es. Inr (decoded(block_id \<mapsto> es)))"
  have "for_each_entry (the (held k)) (\<lambda>es h v l. Inr (es @ [(h, v, l)])) [] = Inr (gs ! k)" if "k \<in> dom held" for k
    using that assms(2) group_visit [OF assms(1), of k "\<lambda>es h v l. Inr (es @ [(h, v, l)])" "[]"] visit_push [of "[]" "gs ! k"] by (auto simp: holds_payloads_def)
  note one = this
  have "visit_all ?step acc ks = Inr (\<lambda>k. if k \<in> set ks then Some (gs ! k) else acc k)" if "set ks \<subseteq> dom held" for ks acc
    using that
  proof (induction ks arbitrary: acc)
    case (Cons k ks)
    have "?step acc k = Inr (acc(k \<mapsto> gs ! k))" using one [of k] Cons.prems by simp
    then show ?case using Cons by (auto simp: fun_eq_iff)
  qed simp
  from this [of "sorted_list_of_set (dom held)" Map.empty] assms(3) show ?thesis
    by (simp add: decode_terms_def dom_def)
qed

lemma find_values_known:
  assumes "holds_groups sha idx bs gs" "\<forall>h\<in>set hs. \<forall>k. block_for idx h = Some k \<longrightarrow> decoded k = Some (gs ! k)"
  shows "visit_all (find_value idx decoded) acc hs =
    Inr (\<lambda>h. if h \<in> set hs \<and> map_of (concat gs) h \<noteq> None then map_of (concat gs) h else acc h)"
  using assms(2)
proof (induction hs arbitrary: acc)
  case (Cons h hs)
  from assms(1) have g: "ascending (hashes (concat gs))" "\<forall>g\<in>set gs. g \<noteq> []" "map first_hash (index_blocks idx) = map (\<lambda>g. fst (hd g)) gs"
    by (auto simp: holds_groups_def map_first_hash_refs)
  have found: "(case binary_search_by_hash es h of Some (_, v, l) \<Rightarrow> acc(h \<mapsto> (v, l)) | None \<Rightarrow> acc) =
      (case map_of es h of Some v \<Rightarrow> acc(h \<mapsto> v) | None \<Rightarrow> acc)" for es :: "entry list"
    by (induction es) (auto simp: binary_search_by_hash_def)
  have "find_value idx decoded acc h = Inr (case map_of (concat gs) h of Some v \<Rightarrow> acc(h \<mapsto> v) | None \<Rightarrow> acc)"
    using block_for_group [OF g, of h] Cons.prems by (cases "block_for idx h") (simp_all add: find_value_def found)
  with Cons show ?case by (auto simp: fun_eq_iff split: option.splits)
qed simp

lemma set_map_filter: "set (List.map_filter f xs) = {y. \<exists>x\<in>set xs. f x = Some y}"
  by (force simp: List.map_filter_def)

lemma fetch_gram_values_known:
  assumes "holds_groups (sha256 X) idx bs gs" "groups_unforgeable X gs" "fetch_gram_values C X store blob idx grams d seg = Inr (vals, d')" "gram \<in> set grams"
  shows "vals (hash_ngram C gram) = map_of (concat gs) (hash_ngram C gram)"
proof -
  let ?hs = "collect_gram_hashes C grams"
  let ?needed = "remdups_adj (List.map_filter (block_for idx) ?hs)"
  have mem: "hash_ngram C gram \<in> set ?hs" using assms(4) by (simp add: collect_gram_hashes_def)
  from assms(1) have g: "ascending (hashes (concat gs))" "\<forall>g\<in>set gs. g \<noteq> []" "map first_hash (index_blocks idx) = map (\<lambda>g. fst (hd g)) gs"
    by (auto simp: holds_groups_def map_first_hash_refs)
  show ?thesis
  proof (cases "?needed = []")
    case True
    with mem have "block_for idx (hash_ngram C gram) = None" using set_map_filter [of "block_for idx" ?hs] by (cases "block_for idx (hash_ngram C gram)") auto
    with block_for_group [OF g, of "hash_ngram C gram"] True assms(3) show ?thesis by (auto simp: fetch_gram_values_def Let_def)
  next
    case False
    with assms(3) obtain held missing held' decoded where run: "visit_all (probe_terms X idx seg d) (Map.empty, []) ?needed = Inr (held, missing)"
      "fetch_terms X store blob idx seg held missing d = Inr (held', d')" "decode_terms held' = Inr decoded"
      "visit_all (find_value idx decoded) Map.empty ?hs = Inr vals"
      by (auto simp: fetch_gram_values_def Let_def)
    have probe: "holds_payloads gs held" "dom held \<union> set missing = set ?needed"
      using probe_terms_known [OF assms(1,2) run(1)] by (auto simp: holds_payloads_def)
    with fetch_terms_known [OF assms(1,2) run(2)] have fetch: "holds_payloads gs held'" "dom held' = set ?needed" by auto
    then have "finite (dom held')" by simp
    from decode_payloads [OF assms(1) fetch(1) this] run(3) fetch(2) have "\<forall>k\<in>set ?needed. decoded k = Some (gs ! k)" by auto
    then have "\<forall>h\<in>set ?hs. \<forall>k. block_for idx h = Some k \<longrightarrow> decoded k = Some (gs ! k)" using set_map_filter [of "block_for idx" ?hs] by auto
    from find_values_known [OF assms(1) this, of Map.empty] run(4) mem show ?thesis
      by (cases "map_of (concat gs) (hash_ngram C gram)") auto
  qed
qed

lemma visit_all_update:
  "visit_all (\<lambda>out g. and_then (f g) (\<lambda>v. Inr (out(g \<mapsto> v)))) acc gs = Inr out \<Longrightarrow>
     (\<forall>g\<in>set gs. \<exists>v. f g = Inr v \<and> out g = Some v) \<and> (\<forall>g. g \<notin> set gs \<longrightarrow> out g = acc g)"
proof (induction gs arbitrary: acc)
  case (Cons g gs)
  from Cons.prems obtain v where v: "f g = Inr v" "visit_all (\<lambda>out g. and_then (f g) (\<lambda>v. Inr (out(g \<mapsto> v)))) (acc(g \<mapsto> v)) gs = Inr out"
    by (auto simp: visit_all_Cons simp del: visit_all.simps(2) fun_upd_apply)
  from Cons.IH [OF v(2)] v(1) show ?case by (cases "g \<in> set gs") auto
qed simp

lemma read_term_values_known:
  assumes "holds_groups (sha256 X) idx bs gs" "groups_unforgeable X gs" "read_term_values C X store meta (SparseRemote idx) queries d = Inr (out, d')"
    and "gram \<in> set (collect_query_grams queries)"
  shows "\<exists>v. out gram = Some v \<and> map_lookup C (SparseMap idx bs) gram = Inr v"
proof -
  let ?grams = "collect_query_grams queries"
  from assms(3) obtain vals where f: "fetch_gram_values C X store (segment_blob (seg_id meta) ''terms.fst'') idx ?grams d (seg_id meta) = Inr (vals, d')"
    "visit_all (\<lambda>out g. and_then (Inr (map_option (\<lambda>(v, l). \<lparr>packed = v, tv_len = l\<rparr>) (vals (hash_ngram C g)))) (\<lambda>v. Inr (out(g \<mapsto> v)))) Map.empty ?grams = Inr out"
    by (auto simp: read_term_values_def Let_def)
  have "out gram = Some (map_option (\<lambda>(v, l). \<lparr>packed = v, tv_len = l\<rparr>) (map_of (concat gs) (hash_ngram C gram)))"
    using visit_all_update [OF f(2)] assms(4) fetch_gram_values_known [OF assms(1,2) f(1) assms(4)] by auto
  moreover have "map_lookup C (SparseMap idx bs) gram = Inr (map_option (\<lambda>(v, l). \<lparr>packed = v, tv_len = l\<rparr>) (map_of (concat gs) (hash_ngram C gram)))"
    using get_sparse [OF assms(1), of Map.empty C gram] by (auto simp: map_lookup_def cache_ok_def)
  ultimately show ?thesis by blast
qed

section \<open>Opening\<close>

text \<open>The first half of \<open>load_segment\<close>: the index tail through the cache, then its parse.\<close>

definition open_remote_terms :: "pack_crates \<Rightarrow> get_one_range \<Rightarrow> segment_meta \<Rightarrow> disk \<Rightarrow> (term_map \<times> disk) result" where
  "open_remote_terms X store meta d =
     and_then (cached_bytes X d (seg_id meta) ''terms.tail'' (terms_tail_hash meta)
       (\<lambda>_. fetch_index_tail store (segment_blob (seg_id meta) ''terms.fst'') (terms_fst_len meta))) (\<lambda>(tail, d).
     and_then (parse_index_tail X (terms_fst_len meta) tail (terms_tail_hash meta)) (\<lambda>idx. Inr (SparseRemote idx, d)))"

text \<open>Two strings with the same hash, where it is a recorded one, are equal.\<close>

definition tail_unforgeable :: "pack_crates \<Rightarrow> string \<Rightarrow> bool" where
  "tail_unforgeable X h \<longleftrightarrow> (\<forall>x y. hex (sha256 X x) = h \<longrightarrow> hex (sha256 X y) = h \<longrightarrow> x = y)"

definition blocks_unforgeable :: "pack_crates \<Rightarrow> sparse_table_index \<Rightarrow> bool" where
  "blocks_unforgeable X idx \<longleftrightarrow> (\<forall>r\<in>set (index_blocks idx). \<forall>x y. sha256 X x = ref_hash r \<longrightarrow> sha256 X y = ref_hash r \<longrightarrow> x = y)"

lemma blocks_groups_unforgeable:
  assumes "holds_groups (sha256 X) idx bs gs" "blocks_unforgeable X idx"
  shows "groups_unforgeable X gs"
  unfolding groups_unforgeable_def
proof (intro ballI allI impI)
  fix g x assume "g \<in> set gs" "sha256 X x = sha256 X (enc_block g)"
  then obtain k where k: "k < length gs" "g = gs ! k" by (auto simp: in_set_conv_nth)
  then have "get (index_blocks idx) k = Some (index_blocks idx ! k)" "index_blocks idx ! k \<in> set (index_blocks idx)"
    using assms(1) by (auto simp: holds_groups_def get_def)
  with group_ref(3) [OF assms(1) this(1)] assms(2) k(2) \<open>sha256 X x = sha256 X (enc_block g)\<close> show "x = enc_block g"
    unfolding blocks_unforgeable_def by metis
qed

text \<open>A written table: what \<open>finish_sparse_blob\<close> says of the file, and the hash of its tail.\<close>

lemma finish_sparse_tail:
  assumes "visit_all (insert_sparse sha) new_sparse es = Inr w" "finish_sparse sha w = (blob, tail_hash)"
  shows "\<exists>gs. concat gs = es \<and> list_all Sparse_Table.block_fits gs \<and> ascending (hashes es) \<and> list_all writable_entry es \<and>
    blob = SPARSE_TABLE_MAGIC @ concat (map enc_block gs) @ concat (map index_entry (refs_of sha (length SPARSE_TABLE_MAGIC) gs))
      @ to_le_bytes (of_nat (length es)) @ to_le_bytes (of_nat (length gs))
      @ to_le_bytes (of_nat (length SPARSE_TABLE_MAGIC + length (concat (map enc_block gs)))) @ SPARSE_TABLE_MAGIC \<and>
    tail_hash = hex (sha (drop (group_offset gs (length gs)) blob))"
proof -
  from inserts_sparse_inv [OF assms(1) new_sparse_inv] obtain gs cur where
    inv: "sparse_inv sha w gs cur" and es: "concat gs @ cur = es" by auto
  let ?gs = "if cur = [] then gs else gs @ [cur]"
  have "sparse_inv sha (flush_sparse sha w) ?gs []"
    using inv by (auto simp: sparse_inv_def flush_sparse_def refs_of_append Sparse_Table.block_fits_def BLOCK_BYTES_def)
  with assms(2) es show ?thesis
    by (intro exI [of _ ?gs]) (auto simp: finish_sparse_def Let_def sparse_inv_def group_offset_def)
qed

text \<open>The local form of a written table and the tail its metadata names.\<close>

lemma written_table:
  assumes sha: "\<forall>x. length (sha x) = 32" and b: "build_terms F sha Sparse False ents = Inr (bs, Some th)" and small: "length bs < 2 ^ 64"
  obtains idx gs t where "open_terms F bs Sparse = Inr (SparseMap idx bs)" "holds_groups sha idx bs gs" "th = hex (sha (drop t bs))"
    "t = read_u64 (sub_slice (drop (length bs - FOOTER_BYTES) bs) 16 24)" "FOOTER_BYTES < length bs" "t < length bs" "parse_sparse (length bs) (drop t bs) = Inr idx"
    "concat gs = map entry_of ents"
proof -
  from b obtain w0 where w0: "visit_all (insert_term F sha) (SparseBuilder new_sparse) ents = Inr w0" "finish_terms F sha w0 = Inr (bs, Some th)"
    by (auto simp: build_terms_def new_terms_def)
  with insert_terms_sparse obtain w where w: "visit_all (insert_sparse sha) new_sparse (map entry_of ents) = Inr w" "finish_sparse sha w = (bs, th)"
    by (fastforce split: prod.splits)
  from finish_sparse_tail [OF w] obtain gs where g: "concat gs = map entry_of ents" "list_all Sparse_Table.block_fits gs" "ascending (hashes (map entry_of ents))"
    "list_all writable_entry (map entry_of ents)"
    "bs = SPARSE_TABLE_MAGIC @ concat (map enc_block gs) @ concat (map index_entry (refs_of sha (length SPARSE_TABLE_MAGIC) gs))
      @ to_le_bytes (of_nat (length (map entry_of ents))) @ to_le_bytes (of_nat (length gs))
      @ to_le_bytes (of_nat (length SPARSE_TABLE_MAGIC + length (concat (map enc_block gs)))) @ SPARSE_TABLE_MAGIC"
    "th = hex (sha (drop (group_offset gs (length gs)) bs))" by blast
  let ?idx = "\<lparr>index_entries = length (map entry_of ents), index_blocks = refs_of sha (length SPARSE_TABLE_MAGIC) gs\<rparr>" and ?t = "group_offset gs (length gs)"
  note parse = parse_finished [OF sha g(1-5) small]
  have mag: "length SPARSE_TABLE_MAGIC = 8" by (simp add: SPARSE_TABLE_MAGIC_def)
  have t: "?t = length SPARSE_TABLE_MAGIC + length (concat (map enc_block gs))" by (simp add: group_offset_def)
  show ?thesis
  proof (rule that)
    show "concat gs = map entry_of ents" by (rule g(1))
    show "parse_sparse (length bs) (drop ?t bs) = Inr ?idx" by (rule parse) simp
    show "open_terms F bs Sparse = Inr (SparseMap ?idx bs)" using parse [of 0] by (simp add: open_terms_def)
    show "holds_groups sha ?idx bs gs" unfolding holds_groups_def
    proof (intro conjI)
      show "\<exists>rest. bs = SPARSE_TABLE_MAGIC @ concat (map enc_block gs) @ rest" using g(5) by blast
      show "\<forall>g\<in>set gs. g \<noteq> []" using g(2) by (auto simp: Sparse_Table.block_fits_def list_all_iff)
    qed (use g(1,3,4) small in \<open>simp_all del: length_map\<close>)
    show "th = hex (sha (drop ?t bs))" by (rule g(6))
    show "?t < length bs" using g(5) t by (simp add: mag)
    then show "FOOTER_BYTES < length bs" using g(5) by (simp add: FOOTER_BYTES_def mag)
    have "drop (length bs - FOOTER_BYTES) bs = to_le_bytes (of_nat (length ents)) @ to_le_bytes (of_nat (length gs))
      @ to_le_bytes (of_nat ?t) @ SPARSE_TABLE_MAGIC" using g(5) t by (simp add: FOOTER_BYTES_def mag)
    then show "?t = read_u64 (sub_slice (drop (length bs - FOOTER_BYTES) bs) 16 24)"
      using \<open>?t < length bs\<close> small by (simp add: sub_slice_def unat_of_nat)
  qed
qed

section \<open>A remote dictionary and a local one\<close>

lemma open_remote_known:
  assumes sha: "\<forall>x. length (sha256 X x) = 32" and b: "build_terms F (sha256 X) Sparse False ents = Inr (bs, Some (terms_tail_hash meta))" "length bs < 2 ^ 64" "terms_fst_len meta = length bs"
    and t: "tail_unforgeable X (terms_tail_hash meta)" and o: "open_remote_terms X store meta d = Inr (m, d')"
  shows "\<exists>idx gs. m = SparseRemote idx \<and> open_terms F bs Sparse = Inr (SparseMap idx bs) \<and> holds_groups (sha256 X) idx bs gs \<and> concat gs = map entry_of ents"
proof -
  from written_table [OF sha b(1,2)] obtain idx gs t where w: "concat gs = map entry_of ents" "open_terms F bs Sparse = Inr (SparseMap idx bs)" "holds_groups (sha256 X) idx bs gs"
    "terms_tail_hash meta = hex (sha256 X (drop t bs))" "parse_sparse (length bs) (drop t bs) = Inr idx" by metis
  from o obtain tail idx' where p: "m = SparseRemote idx'" "hex (sha256 X tail) = terms_tail_hash meta" "parse_sparse (length bs) tail = Inr idx'"
    by (auto simp: open_remote_terms_def parse_index_tail_def b(3))
  with t w(4) have "tail = drop t bs" unfolding tail_unforgeable_def by metis
  with p w show ?thesis by auto
qed

text \<open>A store that serves the file.\<close>

definition serves_terms_file :: "get_one_range \<Rightarrow> get_ranges \<Rightarrow> string \<Rightarrow> bytes \<Rightarrow> bool" where
  "serves_terms_file one many blob bs \<longleftrightarrow>
     (\<forall>off len. off + len \<le> length bs \<longrightarrow> one blob off len = Inr (sub_slice bs off (off + len))) \<and>
     (\<forall>ranges. (\<forall>(off, len)\<in>set ranges. off + len \<le> length bs) \<longrightarrow> many blob ranges = Inr (map (\<lambda>(off, len). sub_slice bs off (off + len)) ranges))"

lemma open_remote_returns:
  assumes sha: "\<forall>x. length (sha256 X x) = 32" and b: "build_terms F (sha256 X) Sparse False ents = Inr (bs, Some (terms_tail_hash meta))" "length bs < 2 ^ 64" "terms_fst_len meta = length bs"
    and t: "tail_unforgeable X (terms_tail_hash meta)" and st: "serves_terms_file one many (segment_blob (seg_id meta) ''terms.fst'') bs"
  shows "\<exists>m d'. open_remote_terms X one meta d = Inr (m, d')"
proof -
  from written_table [OF sha b(1,2)] obtain idx gs t where w: "terms_tail_hash meta = hex (sha256 X (drop t bs))" "parse_sparse (length bs) (drop t bs) = Inr idx"
    "t = read_u64 (sub_slice (drop (length bs - FOOTER_BYTES) bs) 16 24)" "FOOTER_BYTES < length bs" "t < length bs" by metis
  have one: "one (segment_blob (seg_id meta) ''terms.fst'') off (length bs - off) = Inr (drop off bs)" if "off \<le> length bs" for off
    using st that by (simp add: serves_terms_file_def sub_slice_def)
  have foot: "length bs - (length bs - FOOTER_BYTES) = FOOTER_BYTES" using w(4) by simp
  have fetch: "fetch_index_tail one (segment_blob (seg_id meta) ''terms.fst'') (length bs) = Inr (drop t bs)"
    using one [of "length bs - FOOTER_BYTES", unfolded foot] one [of t] w(3-5) by (simp add: fetch_index_tail_def Let_def)
  have "\<exists>d'. cached_bytes X d (seg_id meta) ''terms.tail'' (terms_tail_hash meta)
      (\<lambda>_. fetch_index_tail one (segment_blob (seg_id meta) ''terms.fst'') (length bs)) = Inr (drop t bs, d')"
  proof (cases "read_verified X d (seg_id meta @ ''/'' @ ''terms.tail'') (terms_tail_hash meta)")
    case None
    with fetch w(1) show ?thesis by (simp add: cached_bytes_def Let_def ensure_def)
  next
    case (Some x)
    then have "hex (sha256 X x) = terms_tail_hash meta" by (auto simp: read_verified_def split: option.splits if_splits)
    with t w(1) have "x = drop t bs" unfolding tail_unforgeable_def by metis
    with Some show ?thesis by (simp add: cached_bytes_def Let_def)
  qed
  then obtain d' where "cached_bytes X d (seg_id meta) ''terms.tail'' (terms_tail_hash meta)
      (\<lambda>_. fetch_index_tail one (segment_blob (seg_id meta) ''terms.fst'') (length bs)) = Inr (drop t bs, d')" by blast
  with w(1,2) b(3) have "open_remote_terms X one meta d = Inr (SparseRemote idx, d')"
    by (simp add: open_remote_terms_def parse_index_tail_def ensure_def del: and_then_eq_Inr)
  then show ?thesis by blast
qed

lemma fetch_terms_returns:
  assumes h: "holds_groups (sha256 X) idx bs gs" and st: "serves_terms_file one many blob bs" and m: "set missing \<subseteq> {..<length gs}"
  shows "\<exists>r. fetch_terms X many blob idx seg held missing d = Inr r"
proof -
  let ?range = "\<lambda>k. (ref_offset (index_blocks idx ! k), ref_len (index_blocks idx ! k))"
  have blk: "get (index_blocks idx) k = Some (index_blocks idx ! k)" if "k < length gs" for k
    using h that by (simp add: holds_groups_def get_def)
  have ranges: "set ks \<subseteq> {..<length gs} \<Longrightarrow> visit_all (\<lambda>rs b. and_then (or_panic (get (index_blocks idx) b)) (\<lambda>r. Inr (rs @ [(ref_offset r, ref_len r)]))) acc ks = Inr (acc @ map ?range ks)"
    for ks acc by (induction ks arbitrary: acc) (auto simp: blk)
  have part: "sub_slice bs (fst (?range k)) (fst (?range k) + snd (?range k)) = enc_block (gs ! k) \<and> fst (?range k) + snd (?range k) \<le> length bs" if "k < length gs" for k
    using group_bytes(1) [OF h that] by (simp add: get_range_eq_Some)
  with m have got: "many blob (map ?range missing) = Inr (map (\<lambda>k. enc_block (gs ! k)) missing)"
    using st unfolding serves_terms_file_def by (auto simp: subset_iff)
  have "set ks \<subseteq> {..<length gs} \<Longrightarrow> \<exists>r. visit_all (accept_terms X idx seg) acc (zip ks (map (\<lambda>k. enc_block (gs ! k)) ks)) = Inr r" for ks acc
  proof (induction ks arbitrary: acc)
    case (Cons k ks)
    obtain hd0 d0 where a: "acc = (hd0, d0)" by (cases acc)
    have "k < length gs" using Cons.prems by simp
    then have "\<exists>acc'. accept_terms X idx seg acc (k, enc_block (gs ! k)) = Inr acc'"
      using blk [of k] group_ref(3) [OF h, of k] by (simp add: a accept_terms_def ensure_def)
    with Cons show ?case by auto
  qed simp
  from this [OF m] ranges [OF m, of "[]"] got show ?thesis by (simp add: fetch_terms_def)
qed

lemma probe_terms_returns:
  assumes "holds_groups (sha256 X) idx bs gs" "set needed \<subseteq> {..<length gs}"
  shows "\<exists>r. visit_all (probe_terms X idx seg d) acc needed = Inr r"
  using assms(2)
proof (induction needed arbitrary: acc)
  case (Cons k needed)
  have "get (index_blocks idx) k = Some (index_blocks idx ! k)" using Cons.prems assms(1) by (simp add: holds_groups_def get_def)
  then have "\<exists>acc'. probe_terms X idx seg d acc k = Inr acc'" by (cases acc) (simp add: probe_terms_def)
  with Cons show ?case by auto
qed simp

lemma fetch_gram_values_returns:
  assumes h: "holds_groups (sha256 X) idx bs gs" and u: "groups_unforgeable X gs" and st: "serves_terms_file one many blob bs"
  shows "\<exists>r. fetch_gram_values C X many blob idx grams d seg = Inr r"
proof -
  let ?hs = "collect_gram_hashes C grams"
  let ?needed = "remdups_adj (List.map_filter (block_for idx) ?hs)"
  from h have g: "ascending (hashes (concat gs))" "\<forall>g\<in>set gs. g \<noteq> []" "map first_hash (index_blocks idx) = map (\<lambda>g. fst (hd g)) gs"
    by (auto simp: holds_groups_def map_first_hash_refs)
  have "k < length gs" if "block_for idx x = Some k" for x k using block_for_group [OF g, of x] that by simp
  then have sub: "set ?needed \<subseteq> {..<length gs}" by (auto simp: set_map_filter)
  from probe_terms_returns [OF h this] obtain held missing where p: "visit_all (probe_terms X idx seg d) (Map.empty, []) ?needed = Inr (held, missing)" by fastforce
  have probe: "holds_payloads gs held" "set missing \<subseteq> {..<length gs}" "dom held \<union> set missing = set ?needed"
    using probe_terms_known [OF h u p] by (auto simp: holds_payloads_def)
  from fetch_terms_returns [OF h st probe(2)] obtain held' d' where f: "fetch_terms X many blob idx seg held missing d = Inr (held', d')" by fastforce
  from fetch_terms_known [OF h u f probe(1)] probe(3) have fetch: "holds_payloads gs held'" "dom held' = set ?needed" by auto
  then have "finite (dom held')" by simp
  from decode_payloads [OF h fetch(1) this] fetch(2) obtain decoded where dec: "decode_terms held' = Inr decoded" "\<forall>k\<in>set ?needed. decoded k = Some (gs ! k)" by auto
  then have "\<forall>h\<in>set ?hs. \<forall>k. block_for idx h = Some k \<longrightarrow> decoded k = Some (gs ! k)" using set_map_filter [of "block_for idx" ?hs] by auto
  from find_values_known [OF h this, of Map.empty] show ?thesis using p f dec by (simp add: fetch_gram_values_def Let_def del: and_then_eq_Inr)
qed

lemma read_term_values_returns:
  assumes "holds_groups (sha256 X) idx bs gs" "groups_unforgeable X gs" "serves_terms_file one many (segment_blob (seg_id meta) ''terms.fst'') bs"
  shows "\<exists>out d'. read_term_values C X many meta (SparseRemote idx) queries d = Inr (out, d')"
proof -
  obtain vals d' where f: "fetch_gram_values C X many (segment_blob (seg_id meta) ''terms.fst'') idx (collect_query_grams queries) d (seg_id meta) = Inr (vals, d')"
    using fetch_gram_values_returns [OF assms, of C "collect_query_grams queries" d "seg_id meta"] by fastforce
  let ?v = "\<lambda>g. map_option (\<lambda>(v, l). \<lparr>packed = v, tv_len = l\<rparr>) (vals (hash_ngram C g))"
  have step: "\<exists>out. visit_all (\<lambda>out g. and_then (Inr (?v g)) (\<lambda>v. Inr (out(g \<mapsto> v)))) acc grams = Inr out" for acc grams
    by (induction grams arbitrary: acc) auto
  then obtain out where "visit_all (\<lambda>out g. and_then (Inr (?v g)) (\<lambda>v. Inr (out(g \<mapsto> v)))) Map.empty (collect_query_grams queries) = Inr out" by blast
  with f have "read_term_values C X many meta (SparseRemote idx) queries d = Inr (out, d')"
    by (simp add: read_term_values_def Let_def del: and_then_eq_Inr)
  then show ?thesis by blast
qed

text \<open>
  C13: A dictionary read in place is the dictionary. For a sparse table that the builder wrote, opened from its tail alone: whatever the store returns and whatever the cache holds, when the values of
  the grams of some queries are read they are the values that the whole table, opened locally, has for those grams. The only assumption on SHA-256 is that
  the hashes recorded for this table have no second preimage.
\<close>

theorem remote_dictionary_is_local:
  assumes "\<forall>x. length (sha256 X x) = 32" "build_terms F (sha256 X) Sparse False ents = Inr (bs, Some (terms_tail_hash meta))" "length bs < 2 ^ 64" "terms_fst_len meta = length bs"
    and "tail_unforgeable X (terms_tail_hash meta)" "open_remote_terms X store meta d = Inr (m, d')" "\<forall>idx. m = SparseRemote idx \<longrightarrow> blocks_unforgeable X idx"
    and "read_term_values C X stores meta m queries d'' = Inr (out, d''')" "gram \<in> set (collect_query_grams queries)"
  shows "\<exists>local v. open_terms F bs Sparse = Inr local \<and> map_lookup C local gram = Inr v \<and> out gram = Some v"
proof -
  from open_remote_known [OF assms(1-6)] obtain idx gs where m: "m = SparseRemote idx" "open_terms F bs Sparse = Inr (SparseMap idx bs)" "holds_groups (sha256 X) idx bs gs" by blast
  from blocks_groups_unforgeable [OF m(3)] assms(7) m(1) have "groups_unforgeable X gs" by blast
  from read_term_values_known [OF m(3) this _ assms(9)] assms(8) m(1,2) show ?thesis by blast
qed

subsection \<open>Witness\<close>

text \<open>A table of one entry, the gram \<open>ab\<close> in document 5.\<close>

definition one_block :: bytes where
  "one_block = [0, 0, 0, 0, 0, 0, 38, 104, 11]"

definition one_tail :: bytes where
  "one_tail = to_le_bytes 9832 @ to_le_bytes 8 @ replicate 32 1 @ to_le_bytes 1 @ to_le_bytes 1 @ to_le_bytes 17 @ SPARSE_TABLE_MAGIC"

definition one_hashes :: pack_crates where
  "one_hashes = sample_zstd\<lparr>sha256 := \<lambda>x. if x = one_block then replicate 32 1 else if x = one_tail then replicate 32 2 else replicate 32 0\<rparr>"

abbreviation one_table :: bytes where "one_table \<equiv> SPARSE_TABLE_MAGIC @ one_block @ one_tail"
abbreviation one_entry :: "(bytes \<times> u64 \<times> u64 option) list" where "one_entry \<equiv> [(to_be_bytes 9832, 0x10000000005, None)]"

definition one_meta :: segment_meta where
  "one_meta = sample_meta\<lparr>terms_fst_len := 97, terms_tail_hash := hex (replicate 32 2)\<rparr>"

lemma one_lengths: "length one_tail = 80" "length one_block = 9" "length one_table = 97"
  by (simp_all add: one_tail_def one_block_def SPARSE_TABLE_MAGIC_def)

lemma one_ne: "one_tail \<noteq> one_block" "one_block \<noteq> one_tail"
  using one_lengths by auto

lemma one_bytes: "to_be_bytes 9832 @ [11] = one_block" "write_value 0x10000000005 None = Inr [11]"
  by code_simp+

lemma one_built: "build_terms list_crate (sha256 one_hashes) Sparse False one_entry = Inr (one_table, Some (hex (replicate 32 2)))"
proof -
  have tail: "to_le_bytes 9832 @ to_le_bytes 8 @ replicate 32 1 @ to_le_bytes 1 @ to_le_bytes 1 @ to_le_bytes 17 @ SPARSE_TABLE_MAGIC = one_tail" by (simp only: one_tail_def)
  have sha: "sha256 one_hashes one_block = replicate 32 1" "sha256 one_hashes one_tail = replicate 32 2" using one_ne by (simp_all add: one_hashes_def)
  have fresh: "sw_block new_sparse = []" "last_hash new_sparse = None" "entry_count new_sparse = 0" "sw_index new_sparse = []" "sw_out new_sparse = SPARSE_TABLE_MAGIC" "written new_sparse = 8"
    by (simp_all add: new_sparse_def SPARSE_TABLE_MAGIC_def)
  have ins: "insert_sparse (sha256 one_hashes) new_sparse (9832, 0x10000000005, None) =
      Inr (new_sparse\<lparr>block_first_hash := 9832, sw_block := one_block, last_hash := Some 9832, entry_count := Suc 0\<rparr>)"
    using one_bytes(1) one_lengths(2) by (simp add: insert_sparse_def fresh one_bytes(2) BLOCK_BYTES_def Let_def)
  have ne: "one_block \<noteq> []" by (simp add: one_block_def)
  have fin: "finish_sparse (sha256 one_hashes) (new_sparse\<lparr>block_first_hash := 9832, sw_block := one_block, last_hash := Some 9832, entry_count := Suc 0\<rparr>)
      = (one_table, hex (replicate 32 2))"
    using one_lengths(2) tail sha
    by (simp add: finish_sparse_def flush_sparse_def fresh Let_def index_entry_def ne)
  show ?thesis by (simp add: build_terms_def new_terms_def ins fin)
qed

theorem remote_dictionary_is_local_witness:
  "\<exists>m d1 out d2 local v. open_remote_terms one_hashes (\<lambda>_ off len. Inr (sub_slice one_table off (off + len))) one_meta (ps_disk fresh_state) = Inr (m, d1) \<and>
     read_term_values sample_crates one_hashes (\<lambda>_ ranges. Inr (map (\<lambda>(off, len). sub_slice one_table off (off + len)) ranges)) one_meta m [QGram [97, 98]] d1 = Inr (out, d2) \<and>
     open_terms list_crate one_table Sparse = Inr local \<and> map_lookup sample_crates local [97, 98] = Inr v \<and> out [97, 98] = Some v"
proof -
  let ?one = "\<lambda>_ off len. Inr (sub_slice one_table off (off + len)) :: bytes result" and ?many = "\<lambda>_ ranges. Inr (map (\<lambda>(off, len). sub_slice one_table off (off + len)) ranges) :: bytes list result"
  have rep: "(replicate 32 a :: bytes) = replicate 32 b \<longleftrightarrow> a = b" for a b by (simp add: replicate_eq_replicate)
  have sha: "\<forall>x. length (sha256 one_hashes x) = 32" by (simp add: one_hashes_def)
  have b: "build_terms list_crate (sha256 one_hashes) Sparse False one_entry = Inr (one_table, Some (terms_tail_hash one_meta))" "length one_table < 2 ^ 64" "terms_fst_len one_meta = length one_table"
    using one_built one_lengths by (simp_all add: one_meta_def)
  have tail: "tail_unforgeable one_hashes (terms_tail_hash one_meta)"
    by (auto simp: tail_unforgeable_def one_meta_def one_hashes_def rep dest!: hex_inj split: if_splits)
  have st: "serves_terms_file ?one ?many blob one_table" for blob by (simp add: serves_terms_file_def)
  from open_remote_returns [OF sha b tail st] obtain m d1 where o: "open_remote_terms one_hashes ?one one_meta (ps_disk fresh_state) = Inr (m, d1)" by blast
  from open_remote_known [OF sha b tail o] obtain idx gs where m: "m = SparseRemote idx" "holds_groups (sha256 one_hashes) idx one_table gs" "concat gs = [entry_of (hd one_entry)]" by auto
  have "\<forall>g\<in>set gs. g \<noteq> []" using m(2) by (simp add: holds_groups_def)
  with m(3) have gs: "gs = [[entry_of (hd one_entry)]]" by (cases gs) (auto simp: append_eq_Cons_conv)
  have "enc_block [entry_of (hd one_entry)] = one_block" using one_bytes by (simp add: entry_of_def)
  then have "ref_hash r = replicate 32 1" if "r \<in> set (index_blocks idx)" for r
    using that m(2) by (auto simp: gs holds_groups_def one_hashes_def)
  then have u: "blocks_unforgeable one_hashes idx" by (auto simp: blocks_unforgeable_def one_hashes_def rep split: if_splits)
  from read_term_values_returns [OF m(2) blocks_groups_unforgeable [OF m(2) u] st] m(1) obtain out d2 where
    r: "read_term_values sample_crates one_hashes ?many one_meta m [QGram [97, 98]] d1 = Inr (out, d2)" by blast
  have "[97, 98] \<in> set (collect_query_grams [QGram [97, 98]])" by (simp add: collect_query_grams_spec)
  from remote_dictionary_is_local [OF sha b tail o _ r this] u m(1) o r show ?thesis by blast
qed

end
