(* ===== verification/Pack_Batch.thy ===== *)
theory Pack_Batch
  imports Pack_Read
begin

text \<open>
  The shared table of decoded blocks of a \<open>PackBatch\<close>, \<open>crates/index/src/pack.rs\<close>: the pass that claims the missing
  blocks, their load, and the read of an arbitrary byte range of a document over the loaded blocks.
  Everything here runs on one thread; the claims of several threads are in the theory
  on loading claims. A decoded block is its bytes, in memory or in a temporary
  file. The lemmas show that a range read returns those bytes of the document, for any store and any
  cache, and that it succeeds when the store serves the pack files.
\<close>

section \<open>Definitions\<close>

text \<open>The shared table of decoded blocks.\<close>

datatype block_entry = Loading | Ready bytes

type_synonym block_state = "nat \<rightharpoonup> block_entry"

definition is_ready :: "block_state \<Rightarrow> nat \<Rightarrow> bool" where
  "is_ready st i \<longleftrightarrow> (case st i of Some (Ready _) \<Rightarrow> True | _ \<Rightarrow> False)"

lemma is_ready_iff: "is_ready st i \<longleftrightarrow> (\<exists>bs. st i = Some (Ready bs))"
  by (auto simp: is_ready_def split: option.split block_entry.split)

datatype claim = AllReady | MustWait | Claimed "nat set" block_state

text \<open>One pass under the lock: return, wait, or mark the missing blocks as loading.\<close>

definition claim_blocks :: "nat set \<Rightarrow> block_state \<Rightarrow> claim" where
  "claim_blocks ids st =
     (if \<forall>i\<in>ids. is_ready st i then AllReady
      else if \<exists>i\<in>ids. st i = Some Loading then MustWait
      else let missing = {i\<in>ids. st i = None}
           in Claimed missing (\<lambda>i. if i \<in> missing then Some Loading else st i))"

definition publish_block :: "block_state \<Rightarrow> nat \<Rightarrow> bytes \<Rightarrow> block_state" where
  "publish_block st i decoded = (if st i = Some Loading then st(i \<mapsto> Ready decoded) else st)"

definition drop_claims :: "nat set \<Rightarrow> block_state \<Rightarrow> block_state" where
  "drop_claims claimed st = (\<lambda>i. if i \<in> claimed \<and> st i = Some Loading then None else st i)"

record pack_env =
  env_crates :: pack_crates
  env_store :: get_ranges
  env_cache :: pack_cache
  env_metas :: "pack_meta list"
  env_blocks :: "pack_block list"

type_synonym batch = "block_state \<times> disk"

text \<open>On one thread no block is ever loading when a load starts, so the wait is not reached.\<close>

definition load_blocks :: "pack_env \<Rightarrow> nat set \<Rightarrow> batch \<Rightarrow> batch result" where
  "load_blocks E ids = (\<lambda>(st, d).
     if ids = {} then Inr (st, d)
     else case claim_blocks ids st of
            AllReady \<Rightarrow> Inr (st, d)
          | MustWait \<Rightarrow> Inl (Bail ''waits for the thread that holds the claim'')
          | Claimed claimed st1 \<Rightarrow>
              and_then (block_runs (sorted_list_of_set claimed) (env_blocks E)) (\<lambda>runs.
              and_then (visit_blocks (env_crates E) (env_store E) (env_cache E) (env_metas E) (env_blocks E) runs
                  RANGE_BYTES (\<lambda>st i decoded. Inr (publish_block st i decoded)) st1 d) (\<lambda>(st2, d2).
              ensure (\<forall>i\<in>ids. is_ready st2 i) ''decoded pack block is missing''
                (Inr (drop_claims claimed st2, d2)))))"

definition read_part :: "block_state \<Rightarrow> nat \<times> nat \<Rightarrow> doc_part \<Rightarrow> bytes result" where
  "read_part st r part =
     (let part_end = part_start part + part_len part;
          from = max (fst r) (part_start part) - part_start part;
          upto = min (snd r) part_end - part_start part
      in case st (part_block part) of
           Some (Ready decoded) \<Rightarrow>
             context_of (get_range decoded (part_offset part + from) (part_offset part + upto))
               ''document block range is out of bounds''
         | _ \<Rightarrow> Inl (Bail ''decoded pack block is missing''))"

definition read_range :: "pack_env \<Rightarrow> doc_part list \<Rightarrow> batch \<Rightarrow> nat \<times> nat \<Rightarrow> (bytes \<times> batch) result" where
  "read_range E parts s r =
     and_then (context_of (checked_sub (snd r) (fst r)) ''document range is invalid'') (\<lambda>len.
       if len = 0 then Inr ([], s)
       else let matching = filter (part_hits r) parts
            in and_then (load_blocks E (part_block ` set matching) s) (\<lambda>(st, d).
                 case matching of
                   [part] \<Rightarrow>
                     and_then (read_part st r part) (\<lambda>out.
                     ensure (length out = len) ''document range is incomplete'' (Inr (out, (st, d))))
                 | _ \<Rightarrow>
                     and_then (visit_all (\<lambda>out part. and_then (read_part st r part) (\<lambda>bs. Inr (out @ bs))) [] matching) (\<lambda>out.
                     ensure (length out = len) ''document range is incomplete'' (Inr (out, (st, d))))))"

definition parts_size :: "doc_part list \<Rightarrow> nat" where
  "parts_size parts = (if parts = [] then 0 else sat_add_u64 (part_start (last parts)) (part_len (last parts)))"

section \<open>The parts of a document\<close>

text \<open>\<open>tiles ds doc p parts\<close>: from position \<open>p\<close> on the parts cut the document into pieces of decoded blocks.\<close>

fun tiles :: "bytes list \<Rightarrow> bytes \<Rightarrow> nat \<Rightarrow> doc_part list \<Rightarrow> bool" where
  "tiles ds doc p [] \<longleftrightarrow> p = length doc"
| "tiles ds doc p (q # qs) \<longleftrightarrow>
     part_start q = p \<and> 0 < part_len q \<and> p + part_len q \<le> length doc \<and> part_block q < length ds \<and>
     part_offset q + part_len q \<le> length (ds ! part_block q) \<and>
     sub_slice (ds ! part_block q) (part_offset q) (part_offset q + part_len q) = sub_slice doc p (p + part_len q) \<and>
     tiles ds doc (p + part_len q) qs"

lemma tiles_le: "tiles ds doc p parts \<Longrightarrow> p \<le> length doc"
  by (induction parts arbitrary: p) auto

lemma tiles_starts: "tiles ds doc p parts \<Longrightarrow> q \<in> set parts \<Longrightarrow> p \<le> part_start q"
  by (induction parts arbitrary: p) fastforce+

lemma tiles_blocks: "tiles ds doc p parts \<Longrightarrow> q \<in> set parts \<Longrightarrow> part_block q < length ds"
  by (induction parts arbitrary: p) auto

lemma tiles_part:
  "tiles ds doc p parts \<Longrightarrow> q \<in> set parts \<Longrightarrow> part_start q + part_len q \<le> length doc"
  by (induction parts arbitrary: p) auto

lemma part_steps_tile:
  "sized bs ds \<Longrightarrow> span_loop bs k off n = Inr e \<Longrightarrow> p + n = length doc \<Longrightarrow>
     sub_slice doc p (length doc) = take n (drop off (concat (drop k ds))) \<Longrightarrow>
     \<exists>qs off'. visit_all (part_step bs) (parts, n, p, off) [k..<e] = Inr (parts @ qs, 0, length doc, off') \<and> tiles ds doc p qs"
proof (induction bs k off n arbitrary: p parts rule: span_loop.induct)
  case (1 bs k off n)
  show ?case
  proof (cases "n = 0")
    case True
    with "1.prems" show ?thesis by (simp add: span_loop.simps)
  next
    case False
    define d where "d = ds ! k"
    define m where "m = min n (length d - off)"
    have step: "k < length bs \<and> off < decoded_len (bs ! k) \<and>
        span_loop bs (Suc k) 0 (n - min n (decoded_len (bs ! k) - off)) = Inr e"
      by (rule span_loop_step [OF "1.prems"(2)]) (use False in auto)
    then have dl: "decoded_len (bs ! k) = length d" using sized_nth [OF "1.prems"(1)] by (simp add: d_def)
    from step have kb: "k < length bs" "off < length d" "span_loop bs (Suc k) 0 (n - m) = Inr e"
      unfolding dl m_def by auto
    have m: "0 < m" "m \<le> n" "off + m \<le> length d" using False kb by (auto simp: m_def)
    have kd: "k < length ds" using kb sized_length [OF "1.prems"(1)] by simp
    let ?q = "\<lparr>part_block = k, part_start = p, part_offset = off, part_len = m\<rparr>"
    have whole: "sub_slice doc p (length doc) = take n (drop off d) @ take (n - (length d - off)) (concat (drop (Suc k) ds))"
      using "1.prems"(4) take_drop_Cons_block [OF kd, of off n] kb by (simp add: d_def)
    have tk: "take n (drop off d) = take m (drop off d)" by (auto simp: m_def min_def)
    have rest: "n - (length d - off) = n - m" by (auto simp: m_def)
    have len1: "length (take m (drop off d)) = m" using m by simp
    have drp: "sub_slice doc p (length doc) = drop p doc" by (simp add: sub_slice_def)
    have piece: "sub_slice doc p (p + m) = take m (drop off d)"
      using whole [unfolded tk rest drp] len1 by (simp add: sub_slice_def)
    have "sub_slice doc (p + m) (length doc) = drop m (drop p doc)" by (simp add: sub_slice_def add.commute)
    also have "\<dots> = take (n - m) (drop 0 (concat (drop (Suc k) ds)))"
      unfolding whole [unfolded tk rest drp] using len1 by simp
    finally have nxt: "sub_slice doc (p + m) (length doc) = take (n - m) (drop 0 (concat (drop (Suc k) ds)))" .
    have eq: "decoded_len (bs ! k) - off = length d - off" by (simp add: dl)
    have IH: "\<exists>qs off'. visit_all (part_step bs) (parts @ [?q], n - m, p + m, 0) [Suc k..<e]
        = Inr ((parts @ [?q]) @ qs, 0, length doc, off') \<and> tiles ds doc (p + m) qs"
      by (rule "1.IH" [of "bs ! k" "length d - off", unfolded m_def [symmetric]])
        (use False kb m "1.prems" nxt dl in \<open>auto simp: m_def\<close>)
    then obtain qs off' where IH: "visit_all (part_step bs) (parts @ [?q], n - m, p + m, 0) [Suc k..<e]
        = Inr ((parts @ [?q]) @ qs, 0, length doc, off')" "tiles ds doc (p + m) qs" by blast
    have ke: "[k..<e] = k # [Suc k..<e]" using span_loop_ge [OF "1.prems"(2)] False by (simp add: upt_conv_Cons)
    have "part_step bs (parts, n, p, off) k = Inr (parts @ [?q], n - m, p + m, 0)"
      using kb by (simp add: part_step_def dl Let_def m_def get_def checked_sub_def)
    with IH ke have "visit_all (part_step bs) (parts, n, p, off) [k..<e] = Inr (parts @ ?q # qs, 0, length doc, off')"
      by simp
    moreover have "tiles ds doc p (?q # qs)"
      using IH(2) m piece kd "1.prems"(3) by (simp add: d_def sub_slice_def)
    ultimately show ?thesis by blast
  qed
qed

lemma document_blocks_tile:
  assumes "sized bs ds" "take (length doc) (drop (block_offset sl) (concat (drop (first_block sl) ds))) = doc"
    and "document_blocks sl (length doc) bs = Inr parts"
  shows "tiles ds doc 0 parts"
proof (cases "doc = []")
  case False
  with assms(3) obtain e r where e: "span_loop bs (first_block sl) (block_offset sl) (length doc) = Inr e"
    "visit_all (part_step bs) ([], length doc, 0, block_offset sl) [first_block sl..<e] = Inr (parts, r)"
    by (auto simp: document_blocks_def block_span_def)
  from part_steps_tile [OF assms(1) e(1), of 0 doc "[]"] e(2) assms(2) show ?thesis by (auto simp: sub_slice_def)
qed (use assms in \<open>auto simp: document_blocks_def block_span_def\<close>)

lemma document_blocks_total:
  assumes "sized bs ds" "\<forall>d\<in>set ds. d \<noteq> []" "located ds sl doc"
  shows "\<exists>parts. document_blocks sl (length doc) bs = Inr parts \<and> tiles ds doc 0 parts"
proof -
  from located_span [OF assms(3,1,2)] obtain i e where sp: "block_span sl (length doc) bs = Inr (i, e)" by blast
  have "\<exists>parts. document_blocks sl (length doc) bs = Inr parts"
  proof (cases "doc = []")
    case False
    with sp have "span_loop bs (first_block sl) (block_offset sl) (length doc) = Inr e" "i = first_block sl"
      by (auto simp: block_span_def)
    with part_steps_tile [OF assms(1) this(1), of 0 doc "[]"] located_bytes [OF assms(3)] sp
    show ?thesis by (auto simp: document_blocks_def sub_slice_def)
  qed (use sp in \<open>auto simp: document_blocks_def block_span_def\<close>)
  with document_blocks_tile [OF assms(1) located_bytes [OF assms(3)]] show ?thesis by blast
qed

section \<open>Loading\<close>

text \<open>Between calls the table holds decoded blocks only.\<close>

definition batch_ok :: "bytes list \<Rightarrow> block_state \<Rightarrow> bool" where
  "batch_ok ds st \<longleftrightarrow> (\<forall>i e. st i = Some e \<longrightarrow> e = Ready (ds ! i))"

lemma batch_ok_empty [simp]: "batch_ok ds Map.empty"
  by (simp add: batch_ok_def)

lemma batch_ok_ready: "batch_ok ds st \<Longrightarrow> is_ready st i \<Longrightarrow> st i = Some (Ready (ds ! i))"
  by (auto simp: batch_ok_def is_ready_iff)

lemma publish_all:
  "visit_decoded ds (\<lambda>st i decoded. Inr (publish_block st i decoded)) st ids =
     Inr (\<lambda>i. if i \<in> set ids \<and> st i = Some Loading then Some (Ready (ds ! i)) else st i)"
proof (induction ids arbitrary: st)
  case (Cons j ids)
  let ?st = "publish_block st j (ds ! j)"
  have "visit_decoded ds (\<lambda>st i decoded. Inr (publish_block st i decoded)) st (j # ids) =
      visit_decoded ds (\<lambda>st i decoded. Inr (publish_block st i decoded)) ?st ids"
    by (simp add: visit_decoded_def)
  also have "\<dots> = Inr (\<lambda>i. if i \<in> set (j # ids) \<and> st i = Some Loading then Some (Ready (ds ! i)) else st i)"
    unfolding Cons.IH by (auto simp: publish_block_def fun_eq_iff)
  finally show ?case .
qed (simp add: visit_decoded_def)

lemma load_blocks_outcome:
  assumes "batch_ok ds st" "finite ids"
    and "claim_blocks ids st = Claimed claimed st1"
    and "visit_decoded ds (\<lambda>st i decoded. Inr (publish_block st i decoded)) st1 (sorted_list_of_set claimed) = Inr st2"
  shows "batch_ok ds (drop_claims claimed st2)" "\<forall>i\<in>ids. is_ready st2 i"
    "\<forall>i\<in>ids. is_ready (drop_claims claimed st2) i"
proof -
  have c: "claimed = {i\<in>ids. st i = None}" and st1: "st1 = (\<lambda>i. if i \<in> claimed then Some Loading else st i)"
    using assms(3) by (auto simp: claim_blocks_def Let_def split: if_splits)
  have fin: "finite claimed" using assms(2) c by simp
  have st2: "st2 = (\<lambda>i. if i \<in> claimed then Some (Ready (ds ! i)) else st i)"
  proof -
    have "(\<lambda>i. if i \<in> claimed \<and> st1 i = Some Loading then Some (Ready (ds ! i)) else st1 i) = st2"
      using assms(4) fin unfolding publish_all by simp
    then show ?thesis by (auto simp: st1)
  qed
  show "batch_ok ds (drop_claims claimed st2)" using assms(1) by (auto simp: st2 batch_ok_def drop_claims_def)
  show r: "\<forall>i\<in>ids. is_ready st2 i"
  proof
    fix i assume "i \<in> ids"
    then show "is_ready st2 i" using assms(1) by (cases "st i") (auto simp: st2 c is_ready_iff batch_ok_def)
  qed
  then show "\<forall>i\<in>ids. is_ready (drop_claims claimed st2) i" by (auto simp: is_ready_iff drop_claims_def)
qed

lemma claim_not_waiting: "batch_ok ds st \<Longrightarrow> claim_blocks ids st \<noteq> MustWait"
  by (auto simp: claim_blocks_def batch_ok_def Let_def)

lemma claim_all_ready: "claim_blocks ids st = AllReady \<Longrightarrow> \<forall>i\<in>ids. is_ready st i"
  by (auto simp: claim_blocks_def Let_def split: if_splits)

lemma load_blocks_known:
  assumes "zstd_laws (env_crates E)" "list_all2 (known (env_crates E)) (env_blocks E) ds"
    and "batch_ok ds st" "finite ids" "load_blocks E ids (st, d) = Inr (st', d')"
  shows "batch_ok ds st'" "\<forall>i\<in>ids. is_ready st' i"
proof -
  have "batch_ok ds st' \<and> (\<forall>i\<in>ids. is_ready st' i)"
  proof (cases "ids = {} \<or> claim_blocks ids st = AllReady")
    case True
    then have "st' = st" using assms(5) by (cases "ids = {}") (simp_all add: load_blocks_def)
    moreover have "\<forall>i\<in>ids. is_ready st i" using True claim_all_ready by auto
    ultimately show ?thesis using assms(3) by simp
  next
    case False
    with assms(5) claim_not_waiting [OF assms(3)] obtain claimed st1 where
      c: "claim_blocks ids st = Claimed claimed st1" by (cases "claim_blocks ids st") (auto simp: load_blocks_def)
    with False assms(5) obtain runs st2 where r: "block_runs (sorted_list_of_set claimed) (env_blocks E) = Inr runs"
      "visit_blocks (env_crates E) (env_store E) (env_cache E) (env_metas E) (env_blocks E) runs
          RANGE_BYTES (\<lambda>st i decoded. Inr (publish_block st i decoded)) st1 d = Inr (st2, d')"
      "st' = drop_claims claimed st2"
      by (auto simp: load_blocks_def)
    from visit_blocks_known [OF assms(1,2) r(2)] have
      "visit_decoded ds (\<lambda>st i decoded. Inr (publish_block st i decoded)) st1 (sorted_list_of_set claimed) = Inr st2"
      by (simp only: block_runs_blocks [OF r(1)])
    from load_blocks_outcome [OF assms(3,4) c this] r(3) show ?thesis by simp
  qed
  then show "batch_ok ds st'" "\<forall>i\<in>ids. is_ready st' i" by simp_all
qed

lemma load_blocks_ok:
  assumes "zstd_laws (env_crates E)" "list_all2 (stored (env_crates E) fs) (env_blocks E) ds"
    and "unforgeable (env_crates E) (env_blocks E)" "serves (env_store E) (env_metas E) fs"
    and "batch_ok ds st" "finite ids" "\<forall>i\<in>ids. i < length ds"
  shows "\<exists>s'. load_blocks E ids (st, d) = Inr s'"
proof (cases "ids = {} \<or> claim_blocks ids st = AllReady")
  case True
  then show ?thesis by (auto simp: load_blocks_def)
next
  case False
  with claim_not_waiting [OF assms(5)] obtain claimed st1 where
    c: "claim_blocks ids st = Claimed claimed st1" by (cases "claim_blocks ids st") auto
  then have sub: "claimed \<subseteq> ids" by (auto simp: claim_blocks_def Let_def split: if_splits)
  have lens: "\<forall>f\<in>set fs. length f < 2 ^ 64" using assms(4) by (auto simp: serves_def in_set_conv_nth)
  have "\<forall>i\<in>set (sorted_list_of_set claimed). i < length (env_blocks E)"
    using sub assms(6,7) list_all2_lengthD [OF assms(2)] by (auto simp: finite_subset)
  from block_runs_ok [OF assms(2) this lens] obtain runs where
    r: "block_runs (sorted_list_of_set claimed) (env_blocks E) = Inr runs" "\<forall>run\<in>set runs. run_ok (env_blocks E) fs run"
    by blast
  let ?v = "\<lambda>st i decoded. Inr (publish_block st i decoded)"
  obtain st2 where st2: "visit_decoded ds ?v st1 (sorted_list_of_set claimed) = Inr st2"
    unfolding publish_all by blast
  obtain d' where "visit_blocks (env_crates E) (env_store E) (env_cache E) (env_metas E) (env_blocks E) runs RANGE_BYTES ?v st1 d
      = and_then (visit_decoded ds ?v st1 (concat (map run_blocks runs))) (\<lambda>s'. Inr (s', d'))"
    using visit_blocks_ok [OF assms(1) stored_known [OF assms(2,3)] stored_hashes_match [OF assms(2)] assms(4) r(2),
        where cache = "env_cache E" and m = RANGE_BYTES and visit = ?v and s = st1 and d = d] by (elim exE)
  with st2 have "visit_blocks (env_crates E) (env_store E) (env_cache E) (env_metas E) (env_blocks E) runs RANGE_BYTES ?v st1 d
      = Inr (st2, d')" by (simp only: block_runs_blocks [OF r(1)] and_then_Inr)
  with False c r(1) load_blocks_outcome(2) [OF assms(5,6) c st2] show ?thesis by (simp add: load_blocks_def)
qed

section \<open>Range reads\<close>

lemma read_part_ok:
  assumes "st (part_block q) = Some (Ready (ds ! part_block q))" "tiles ds doc p (q # qs)" "part_hits (a, b) q" "a \<le> b"
  shows "read_part st (a, b) q = Inr (sub_slice doc (max a p) (min b (p + part_len q)))"
proof -
  let ?l = "part_len q" and ?o = "part_offset q" and ?d = "ds ! part_block q"
  from assms have q: "part_start q = p" "?o + ?l \<le> length ?d"
    "sub_slice ?d ?o (?o + ?l) = sub_slice doc p (p + ?l)" "p + ?l > a" "p < b" by (auto simp: part_hits_def)
  let ?f = "max a p - p" and ?u = "min b (p + ?l) - p"
  have fu: "?f \<le> ?u" "?u \<le> ?l" using q assms(4) by auto
  have "sub_slice ?d (?o + ?f) (?o + ?u) = sub_slice (sub_slice ?d ?o (?o + ?l)) ?f ?u"
    using fu by (simp add: sub_slice_sub_slice)
  also have "\<dots> = sub_slice doc (p + ?f) (p + ?u)" unfolding q(3) using fu by (simp add: sub_slice_sub_slice)
  also have "\<dots> = sub_slice doc (max a p) (min b (p + ?l))" using q by simp
  finally show ?thesis using assms(1) q fu by (simp add: read_part_def Let_def get_range_def)
qed

lemma read_parts_ok:
  assumes "tiles ds doc p parts" "a \<le> b" "\<forall>q\<in>set (filter (part_hits (a, b)) parts). st (part_block q) = Some (Ready (ds ! part_block q))"
  shows "visit_all (\<lambda>out part. and_then (read_part st (a, b) part) (\<lambda>bs. Inr (out @ bs))) out (filter (part_hits (a, b)) parts)
     = Inr (out @ sub_slice doc (max a p) b)"
  using assms
proof (induction parts arbitrary: p out)
  case Nil
  then show ?case by (simp add: sub_slice_def)
next
  case (Cons q qs)
  let ?e = "p + part_len q"
  have IH: "visit_all (\<lambda>out part. and_then (read_part st (a, b) part) (\<lambda>bs. Inr (out @ bs))) out (filter (part_hits (a, b)) qs)
     = Inr (out @ sub_slice doc (max a ?e) b)" for out
    using Cons by (auto split: if_splits)
  show ?case
  proof (cases "part_hits (a, b) q")
    case True
    with Cons.prems read_part_ok [OF _ Cons.prems(1) True assms(2)]
    have r: "read_part st (a, b) q = Inr (sub_slice doc (max a p) (min b ?e))" by simp
    have h: "a < ?e" "p < b" using True Cons.prems(1) by (auto simp: part_hits_def)
    have "sub_slice doc (max a p) (min b ?e) @ sub_slice doc (max a ?e) b = sub_slice doc (max a p) b"
    proof (cases "b \<le> ?e")
      case True
      with h show ?thesis by (simp add: sub_slice_def min_def max_def)
    next
      case False
      with h sub_slice_join [of "max a p" ?e b doc] show ?thesis by (simp add: max_def min_def split: if_splits)
    qed
    with IH r True show ?thesis by (simp add: visit_all_Cons del: visit_all.simps(2))
  next
    case False
    then consider "?e \<le> a" | "b \<le> p" using Cons.prems(1) by (auto simp: part_hits_def)
    then have "sub_slice doc (max a ?e) b = sub_slice doc (max a p) b"
      using Cons.prems(1) by cases (auto simp: max_def sub_slice_def)
    with IH False show ?thesis by simp
  qed
qed

lemma read_one_part:
  "visit_all (\<lambda>out part. and_then (read_part st r part) (\<lambda>bs. Inr (out @ bs))) [] [q] = read_part st r q"
  by (cases "read_part st r q") simp_all

text \<open>Both branches at the end of \<open>read_range\<close> are one loop.\<close>

lemma read_range_loop:
  "read_range E parts s (a, b) =
     and_then (context_of (checked_sub b a) ''document range is invalid'') (\<lambda>len.
       if len = 0 then Inr ([], s)
       else and_then (load_blocks E (part_block ` set (filter (part_hits (a, b)) parts)) s) (\<lambda>(st, d).
         and_then (visit_all (\<lambda>out part. and_then (read_part st (a, b) part) (\<lambda>bs. Inr (out @ bs))) [] (filter (part_hits (a, b)) parts)) (\<lambda>out.
           ensure (length out = len) ''document range is incomplete'' (Inr (out, (st, d))))))"
proof (cases "filter (part_hits (a, b)) parts")
  case Nil
  then show ?thesis unfolding read_range_def by (simp only: fst_conv snd_conv Let_def list.case)
next
  case (Cons q qs)
  show ?thesis
  proof (cases qs)
    case Nil
    with Cons show ?thesis unfolding read_range_def by (simp only: fst_conv snd_conv Let_def list.case read_one_part)
  next
    case (Cons q' rest)
    with \<open>filter _ _ = _\<close> show ?thesis unfolding read_range_def by (simp only: fst_conv snd_conv Let_def list.case)
  qed
qed

definition env_holds :: "pack_env \<Rightarrow> bytes list \<Rightarrow> bool" where
  "env_holds E ds \<longleftrightarrow> zstd_laws (env_crates E) \<and> list_all2 (known (env_crates E)) (env_blocks E) ds"

text \<open>The state in which a document can be read: its blocks are known and the table holds decoded blocks.\<close>

definition reading :: "pack_env \<Rightarrow> bytes list \<Rightarrow> doc_part list \<Rightarrow> bytes \<Rightarrow> batch \<Rightarrow> bool" where
  "reading E ds parts doc s \<longleftrightarrow> env_holds E ds \<and> tiles ds doc 0 parts \<and> batch_ok ds (fst s)"

lemma read_range_known:
  assumes "env_holds E ds" "tiles ds doc 0 parts" "batch_ok ds (fst s)" "read_range E parts s (a, b) = Inr (bs, s')"
  shows "bs = sub_slice doc a b" "batch_ok ds (fst s')"
proof -
  have ab: "a \<le> b" using assms(4) by (simp add: read_range_loop)
  have "bs = sub_slice doc a b \<and> batch_ok ds (fst s')"
  proof (cases "a = b")
    case True
    with assms show ?thesis by (auto simp: read_range_loop sub_slice_def)
  next
    case False
    let ?m = "filter (part_hits (a, b)) parts"
    from False ab assms(4) obtain st d where l: "load_blocks E (part_block ` set ?m) s = Inr (st, d)" "s' = (st, d)"
      "visit_all (\<lambda>out part. and_then (read_part st (a, b) part) (\<lambda>bs. Inr (out @ bs))) [] ?m = Inr bs"
      by (fastforce simp: read_range_loop)
    have bk: "batch_ok ds st" "\<forall>i\<in>part_block ` set ?m. is_ready st i"
      using load_blocks_known [of E ds "fst s" "part_block ` set ?m" "snd s" st d] assms l by (auto simp: env_holds_def)
    with batch_ok_ready [OF bk(1)] have "\<forall>q\<in>set ?m. st (part_block q) = Some (Ready (ds ! part_block q))" by blast
    from read_parts_ok [OF assms(2) ab this, of "[]"] l bk show ?thesis by simp
  qed
  then show "bs = sub_slice doc a b" "batch_ok ds (fst s')" by simp_all
qed

lemma reading_step:
  assumes "reading E ds parts doc s" "read_range E parts s (a, b) = Inr (bs, s')"
  shows "bs = sub_slice doc a b \<and> reading E ds parts doc s'"
  using assms read_range_known unfolding reading_def by metis

definition env_serves :: "pack_env \<Rightarrow> bytes list \<Rightarrow> bool" where
  "env_serves E ds \<longleftrightarrow> zstd_laws (env_crates E) \<and> unforgeable (env_crates E) (env_blocks E) \<and>
     (\<exists>fs. list_all2 (stored (env_crates E) fs) (env_blocks E) ds \<and> serves (env_store E) (env_metas E) fs)"

lemma env_serves_holds: "env_serves E ds \<Longrightarrow> env_holds E ds"
  by (auto simp: env_serves_def env_holds_def intro: stored_known)

lemma env_holds_sized: "env_holds E ds \<Longrightarrow> sized (env_blocks E) ds" "env_holds E ds \<Longrightarrow> \<forall>d\<in>set ds. d \<noteq> []"
  by (auto simp: env_holds_def sized_def known_def list_all2_conv_all_nth in_set_conv_nth elim: list_all2_mono)

lemma env_load:
  assumes "env_serves E ds" "batch_ok ds (fst s)" "finite ids" "\<forall>i\<in>ids. i < length ds"
  obtains s' where "load_blocks E ids s = Inr s'" "batch_ok ds (fst s')" "\<forall>i\<in>ids. is_ready (fst s') i"
proof -
  from assms obtain fs where fs: "list_all2 (stored (env_crates E) fs) (env_blocks E) ds" "serves (env_store E) (env_metas E) fs"
    "zstd_laws (env_crates E)" "unforgeable (env_crates E) (env_blocks E)" by (auto simp: env_serves_def)
  from load_blocks_ok [OF fs(3,1,4,2) assms(2-4), of "snd s"] obtain s' where s': "load_blocks E ids s = Inr s'" by auto
  then have "load_blocks E ids (fst s, snd s) = Inr (fst s', snd s')" by simp
  from load_blocks_known [OF fs(3) stored_known [OF fs(1,4)] assms(2,3) this] s' show ?thesis by (intro that) auto
qed

lemma read_range_ok:
  assumes "env_serves E ds" "tiles ds doc 0 parts" "batch_ok ds (fst s)" "a \<le> b" "b \<le> length doc"
  shows "\<exists>s'. read_range E parts s (a, b) = Inr (sub_slice doc a b, s') \<and> batch_ok ds (fst s')"
proof (cases "a = b")
  case True
  with assms show ?thesis by (simp add: read_range_loop sub_slice_def checked_sub_def)
next
  case False
  let ?m = "filter (part_hits (a, b)) parts"
  have "\<forall>i\<in>part_block ` set ?m. i < length ds" using tiles_blocks [OF assms(2)] by auto
  from env_load [OF assms(1,3) _ this] obtain s' where
    l: "load_blocks E (part_block ` set ?m) s = Inr s'" "batch_ok ds (fst s')" "\<forall>i\<in>part_block ` set ?m. is_ready (fst s') i"
    by blast
  with batch_ok_ready [OF l(2)] have "\<forall>q\<in>set ?m. fst s' (part_block q) = Some (Ready (ds ! part_block q))" by blast
  from read_parts_ok [OF assms(2,4) this, of "[]"] l False assms(4,5) show ?thesis
    by (cases s') (simp add: read_range_loop checked_sub_def)
qed

end
