(* ===== verification/Pack_Lines.thy ===== *)
theory Pack_Lines
  imports Pack_Batch Grams
begin

text \<open>
  Lines of a document that is read by byte ranges, \<open>crates/index/src/pack.rs\<close>: a range is extended to whole lines with
  context, and a position gets its line number, from the newline counts of the candidate
  blocks and as few reads as possible.
\<close>

section \<open>Lines\<close>

text \<open>
  The two inner loops over the bytes of a block: count down \<open>needed\<close> at every newline and stop at
  the newline that makes it zero.
\<close>

fun scan_newlines :: "(nat \<times> u8) list \<Rightarrow> nat \<Rightarrow> nat \<times> nat option" where
  "scan_newlines [] needed = (needed, None)"
| "scan_newlines ((at, b) # xs) needed =
     (if b = 10 then (if needed - 1 = 0 then (0, Some at) else scan_newlines xs (needed - 1))
      else scan_newlines xs needed)"

type_synonym 's reader = "'s \<Rightarrow> nat \<times> nat \<Rightarrow> (bytes \<times> 's) result"

abbreviation (input) block_start :: "nat \<Rightarrow> nat" where
  "block_start b \<equiv> b * CANDIDATE_BLOCK_BYTES"

lemma candidate_block_pos: "0 < CANDIDATE_BLOCK_BYTES"
  by (simp add: CANDIDATE_BLOCK_BYTES_def)

lemma block_start_less: "0 < start \<Longrightarrow> block_start ((start - 1) div CANDIDATE_BLOCK_BYTES) < start"
  by (metis One_nat_def Suc_pred div_times_less_eq_dividend le_imp_less_Suc)

lemma next_block_end:
  "e < dsize \<Longrightarrow> dsize - min (block_start (e div CANDIDATE_BLOCK_BYTES + 1)) dsize < dsize - e"
proof (rule diff_less_mono2)
  assume "e < dsize"
  moreover have "e < block_start (e div CANDIDATE_BLOCK_BYTES + 1)"
    using candidate_block_pos by (metis dividend_less_times_div add.commute mult.commute mult_Suc Suc_eq_plus1)
  ultimately show "e < min (block_start (e div CANDIDATE_BLOCK_BYTES + 1)) dsize" by simp
qed

function extend_back :: "'s reader \<Rightarrow> nat list \<Rightarrow> nat \<Rightarrow> nat \<Rightarrow> 's \<Rightarrow> (nat \<times> nat \<times> 's) result" where
  "extend_back read newlines start needed s =
     (if start > 0 \<and> needed > 0
      then let b = (start - 1) div CANDIDATE_BLOCK_BYTES
           in and_then (context_of (get newlines b) ''document newline block is missing'') (\<lambda>n.
                if n = 0 then extend_back read newlines (block_start b) needed s
                else and_then (read s (block_start b, start)) (\<lambda>(bs, s').
                  case scan_newlines (rev (enumerate 0 bs)) needed of
                    (_, Some at) \<Rightarrow> Inr (block_start b + (at + 1), 0, s')
                  | (needed', None) \<Rightarrow> extend_back read newlines (block_start b) needed' s'))
      else Inr (start, needed, s))"
  by pat_completeness auto
termination
  by (relation "measure (\<lambda>(read, newlines, start, needed, s). start)") (auto simp: block_start_less [simplified])

text \<open>Sizes are \<open>u64\<close> values, so the saturating product of the code is the product here.\<close>

function extend_forward :: "'s reader \<Rightarrow> nat list \<Rightarrow> nat \<Rightarrow> nat \<Rightarrow> nat \<Rightarrow> 's \<Rightarrow> (nat \<times> nat \<times> 's) result" where
  "extend_forward read newlines dsize e needed s =
     (if e < dsize \<and> needed > 0
      then let b = e div CANDIDATE_BLOCK_BYTES; block_end = min (block_start (b + 1)) dsize
           in and_then (context_of (get newlines b) ''document newline block is missing'') (\<lambda>n.
                if n = 0 then extend_forward read newlines dsize block_end needed s
                else and_then (read s (e, block_end)) (\<lambda>(bs, s').
                  case scan_newlines (enumerate 0 bs) needed of
                    (_, Some at) \<Rightarrow> and_then (context_of (add_u64 e (at + 1)) ''document line range overflows'') (\<lambda>e'. Inr (e', 0, s'))
                  | (needed', None) \<Rightarrow> extend_forward read newlines dsize block_end needed' s'))
      else Inr (e, needed, s))"
  by pat_completeness auto
termination
  by (relation "measure (\<lambda>(read, newlines, dsize, e, needed, s). dsize - e)")
    (auto intro: next_block_end [simplified])

declare extend_back.simps [simp del] extend_forward.simps [simp del]

definition extend_line_range ::
    "'s reader \<Rightarrow> nat list \<Rightarrow> nat \<Rightarrow> nat \<times> nat \<Rightarrow> nat \<times> nat \<Rightarrow> 's \<Rightarrow> ((nat \<times> nat) \<times> 's) result" where
  "extend_line_range read newlines dsize r context s =
     and_then (context_of (add_u64 (fst context) 1) ''line context overflows'') (\<lambda>needed.
     and_then (extend_back read newlines (fst r) needed s) (\<lambda>(start, needed, s).
     let start = (if needed > 0 then 0 else start)
     in and_then (if snd r > 0 then and_then (read s (snd r - 1, snd r)) (\<lambda>(bs, s). Inr (bs = [10], s)) else Inr (False, s)) (\<lambda>(ends_line, s).
        and_then (context_of (add_u64 (snd context) (if ends_line then 0 else 1)) ''line context overflows'') (\<lambda>needed.
        and_then (extend_forward read newlines dsize (snd r) needed s) (\<lambda>(e, needed, s).
        Inr ((start, if needed > 0 then dsize else e), s))))))"

text \<open>\<open>rposition\<close> of a newline.\<close>

definition last_newline :: "bytes \<Rightarrow> nat option" where
  "last_newline bs = (if 10 \<in> set bs then Some (length bs - 1 - length (takeWhile (\<lambda>b. b \<noteq> 10) (rev bs))) else None)"

fun locate_previous :: "'s reader \<Rightarrow> nat list \<Rightarrow> nat \<Rightarrow> nat \<Rightarrow> 's \<Rightarrow> (nat \<times> 's) result" where
  "locate_previous read newlines dsize 0 s = Inr (0, s)"
| "locate_previous read newlines dsize (Suc p) s =
     (if newlines ! p = 0 then locate_previous read newlines dsize p s
      else and_then (read s (block_start p, min (block_start p + CANDIDATE_BLOCK_BYTES) dsize)) (\<lambda>(bs, s).
           and_then (context_of (last_newline bs) ''document newline count is inconsistent'') (\<lambda>at.
             Inr (block_start p + (at + 1), s))))"

definition locate_line :: "'s reader \<Rightarrow> nat list \<Rightarrow> nat \<Rightarrow> nat \<Rightarrow> 's \<Rightarrow> ((nat \<times> nat) \<times> 's) result" where
  "locate_line read newlines dsize off s =
     (if off = 0 then Inr ((1, 0), s)
      else ensure (off \<le> dsize) ''document range is out of bounds''
       (let b = off div CANDIDATE_BLOCK_BYTES
        in ensure (b \<le> length newlines) ''document newline block is missing''
           (and_then (visit_all (\<lambda>sum n. context_of (add_u64 sum n) ''document line number overflows'') 0 (take b newlines)) (\<lambda>before.
            and_then (if b < length newlines \<and> newlines ! b > 0 then read s (block_start b, off) else Inr ([], s)) (\<lambda>(within, s).
            and_then (context_of (case add_u64 before (count_list within 10) of None \<Rightarrow> None | Some c \<Rightarrow> add_u64 c 1)
                ''document line number overflows'') (\<lambda>line.
            case last_newline within of
              Some at \<Rightarrow> Inr ((line, block_start b + (at + 1)), s)
            | None \<Rightarrow> and_then (locate_previous read newlines dsize b s) (\<lambda>(line_offset, s). Inr ((line, line_offset), s))))))))"

section \<open>Newlines of a document\<close>

definition nls :: "bytes \<Rightarrow> nat \<Rightarrow> nat \<Rightarrow> nat" where
  "nls doc a b = count_list (sub_slice doc a b) 10"

text \<open>The table holds the number of newlines of every candidate block of the document.\<close>

definition counts_newlines :: "bytes \<Rightarrow> nat list \<Rightarrow> bool" where
  "counts_newlines doc newlines \<longleftrightarrow>
     length newlines = div_ceil (length doc) CANDIDATE_BLOCK_BYTES \<and>
     (\<forall>b<length newlines. newlines ! b = nls doc (block_start b) (block_start (b + 1)))"

lemma nls_split: "a \<le> b \<Longrightarrow> b \<le> c \<Longrightarrow> nls doc a c = nls doc a b + nls doc b c"
  unfolding nls_def by (simp only: sub_slice_join [of a b c, symmetric] count_list_append)

lemma nls_mono: "a \<le> b \<Longrightarrow> b \<le> c \<Longrightarrow> nls doc a b \<le> nls doc a c"
  by (simp add: nls_split [of a b c])

lemma nls_empty [simp]: "b \<le> a \<Longrightarrow> nls doc a b = 0"
  by (simp add: nls_def sub_slice_def)

lemma nls_newline: "a < length doc \<Longrightarrow> doc ! a = 10 \<Longrightarrow> nls doc a (Suc a) = 1"
  by (simp add: nls_def sub_slice_def take_Suc_conv_app_nth)

lemma nls_beyond: "length doc \<le> b \<Longrightarrow> nls doc a b = nls doc a (length doc)"
  by (simp add: nls_def sub_slice_def)

lemma count_list_0: "count_list xs x = 0 \<longleftrightarrow> x \<notin> set xs"
  by (simp add: count_list_0_iff)

lemma next_block: "e < block_start (e div CANDIDATE_BLOCK_BYTES + 1)"
  using candidate_block_pos by (metis dividend_less_times_div add.commute mult.commute mult_Suc Suc_eq_plus1)

section \<open>The inner loops\<close>

lemma enumerate_split:
  assumes "enumerate 0 bs = us @ (at, c) # vs"
  shows "at < length bs" "bs ! at = c" "map snd us = take at bs" "map snd vs = drop (Suc at) bs"
proof -
  have "map fst (enumerate 0 bs) = [0..<length bs]" by (simp add: map_fst_enumerate)
  then have fst: "map fst us @ at # map fst vs = [0..<length bs]" by (simp add: assms)
  then have len: "length us < length bs" by (metis add_Suc_right length_Cons length_append length_map length_upt less_add_Suc1 minus_nat.diff_0)
  have "(map fst us @ at # map fst vs) ! length us = at" by (simp add: nth_append)
  with fst len have at: "at = length us" by simp
  have "map snd (enumerate 0 bs) = bs" by (rule map_snd_enumerate)
  then have bs: "bs = map snd us @ c # map snd vs" by (simp add: assms)
  show "at < length bs" using at len by simp
  show "bs ! at = c" "map snd us = take at bs" "map snd vs = drop (Suc at) bs" by (simp_all add: bs at nth_append)
qed

lemma scan_newlines_None:
  "scan_newlines xs n = (m, None) \<Longrightarrow> 0 < n \<Longrightarrow> 0 < m \<and> m + count_list (map snd xs) 10 = n"
  by (induction xs n rule: scan_newlines.induct) (auto split: if_splits)

lemma scan_newlines_Some:
  "scan_newlines xs n = (m, Some at) \<Longrightarrow> 0 < n \<Longrightarrow>
     m = 0 \<and> (\<exists>ys zs. xs = ys @ (at, 10) # zs \<and> count_list (map snd ys) 10 + 1 = n)"
proof (induction xs n rule: scan_newlines.induct)
  case (2 pos b xs n)
  show ?case
  proof (cases "b = 10 \<and> n - 1 = 0")
    case True
    with 2 have "m = 0 \<and> (pos, b) # xs = [] @ (at, 10) # xs \<and> count_list (map snd []) (10::u8) + 1 = n" by auto
    then show ?thesis by blast
  next
    case False
    let ?n = "if b = 10 then n - 1 else n"
    from False 2 have "m = 0 \<and> (\<exists>ys zs. xs = ys @ (at, 10) # zs \<and> count_list (map snd ys) 10 + 1 = ?n)"
      by (auto split: if_splits)
    then obtain ys zs where "m = 0" "(pos, b) # xs = ((pos, b) # ys) @ (at, 10) # zs" "count_list (map snd ys) 10 + 1 = ?n"
      by auto
    moreover from this have "count_list (map snd ((pos, b) # ys)) 10 + 1 = n" using "2.prems" by (auto split: if_splits)
    ultimately show ?thesis by blast
  qed
qed simp

lemma scan_back:
  assumes "scan_newlines (rev (enumerate 0 (sub_slice doc a b))) n = (m, Some at)" "0 < n" "a \<le> b" "b \<le> length doc"
  shows "m = 0" "a + at < b" "doc ! (a + at) = 10" "nls doc (Suc (a + at)) b + 1 = n"
proof -
  from scan_newlines_Some [OF assms(1,2)] obtain ys zs where
    y: "m = 0" "rev (enumerate 0 (sub_slice doc a b)) = ys @ (at, 10) # zs" "count_list (map snd ys) 10 + 1 = n" by blast
  then have "enumerate 0 (sub_slice doc a b) = rev zs @ (at, 10) # rev ys" by (metis rev_rev_ident rev.simps(2) rev_append append.assoc append_Cons append_Nil)
  note e = enumerate_split [OF this]
  show "m = 0" by (rule y(1))
  show at: "a + at < b" using e(1) assms(3,4) by simp
  then show "doc ! (a + at) = 10" using e(1,2) assms(4) by (simp add: sub_slice_def)
  have "drop (Suc at) (sub_slice doc a b) = sub_slice doc (Suc (a + at)) b"
    by (simp add: sub_slice_def drop_take add.commute)
  then have "count_list (rev (map snd ys)) 10 = nls doc (Suc (a + at)) b" unfolding nls_def using e(4) by (simp add: rev_map)
  with y(3) show "nls doc (Suc (a + at)) b + 1 = n" by simp
qed

lemma scan_forward:
  assumes "scan_newlines (enumerate 0 (sub_slice doc a b)) n = (m, Some at)" "0 < n" "a \<le> b" "b \<le> length doc"
  shows "m = 0" "a + at < b" "doc ! (a + at) = 10" "nls doc a (a + at) + 1 = n"
proof -
  from scan_newlines_Some [OF assms(1,2)] obtain ys zs where
    y: "m = 0" "enumerate 0 (sub_slice doc a b) = ys @ (at, 10) # zs" "count_list (map snd ys) 10 + 1 = n" by blast
  note e = enumerate_split [OF y(2)]
  show "m = 0" by (rule y(1))
  show at: "a + at < b" using e(1) assms(3,4) by simp
  then show "doc ! (a + at) = 10" using e(1,2) assms(4) by (simp add: sub_slice_def)
  have "take at (sub_slice doc a b) = sub_slice doc a (a + at)" using at by (simp add: sub_slice_def min_def)
  with y(3) e(3) show "nls doc a (a + at) + 1 = n" by (simp add: nls_def)
qed

lemma scan_none:
  assumes "scan_newlines xs n = (m, None)" "0 < n" "xs = enumerate 0 (sub_slice doc a b) \<or> xs = rev (enumerate 0 (sub_slice doc a b))"
  shows "0 < m" "m + nls doc a b = n"
proof -
  have "count_list (map snd xs) 10 = nls doc a b"
    using assms(3) unfolding nls_def by (auto simp: map_snd_enumerate simp flip: rev_map)
  with scan_newlines_None [OF assms(1,2)] show "0 < m" "m + nls doc a b = n" by simp_all
qed

lemma takeWhile_shorter: "\<exists>x\<in>set xs. \<not> P x \<Longrightarrow> length (takeWhile P xs) < length xs"
  by (induction xs) auto

lemma last_newline_Some:
  assumes "last_newline bs = Some at"
  shows "at < length bs" "bs ! at = 10" "10 \<notin> set (drop (Suc at) bs)"
proof -
  let ?t = "takeWhile (\<lambda>b. b \<noteq> 10) (rev bs)"
  from assms have m: "10 \<in> set bs" and at: "at = length bs - 1 - length ?t" by (auto simp: last_newline_def split: if_splits)
  then have "\<exists>b\<in>set (rev bs). \<not> (b \<noteq> 10)" by auto
  then have lt: "length ?t < length (rev bs)" by (rule takeWhile_shorter)
  then show "at < length bs" using at by simp
  have "rev bs ! length ?t = 10" using nth_length_takeWhile [OF lt] by simp
  then show "bs ! at = 10" using lt by (simp add: rev_nth at)
  have "Suc at = length bs - length ?t" using lt at by simp
  then have "drop (Suc at) bs = rev (take (length ?t) (rev bs))" by (simp add: drop_rev take_rev)
  also have "\<dots> = rev ?t" by (simp add: takeWhile_eq_take [symmetric])
  finally show "10 \<notin> set (drop (Suc at) bs)" using set_takeWhileD [of 10 "\<lambda>b. b \<noteq> 10" "rev bs"] by auto
qed

lemma last_newline_None: "last_newline bs = None \<longleftrightarrow> 10 \<notin> set bs"
  by (simp add: last_newline_def)

lemma last_newline_slice:
  assumes "last_newline (sub_slice doc a b) = Some at" "b \<le> length doc"
  shows "a + at < b" "doc ! (a + at) = 10" "nls doc (Suc (a + at)) b = 0"
proof -
  note l = last_newline_Some [OF assms(1)]
  then have "at < b - a" by simp
  then show "a + at < b" by linarith
  with l assms(2) show "doc ! (a + at) = 10" by (simp add: sub_slice_def)
  have "drop (Suc at) (sub_slice doc a b) = sub_slice doc (Suc (a + at)) b"
    by (simp add: sub_slice_def drop_take add.commute)
  with l show "nls doc (Suc (a + at)) b = 0" by (simp add: nls_def count_list_0)
qed

section \<open>What the readers of lines promise\<close>

definition back_to :: "bytes \<Rightarrow> nat \<Rightarrow> nat \<Rightarrow> nat \<times> nat \<Rightarrow> bool" where
  "back_to doc start n = (\<lambda>(a, m).
     (m = 0 \<and> 0 < a \<and> a \<le> start \<and> doc ! (a - 1) = 10 \<and> nls doc a start + 1 = n) \<or>
     (0 < m \<and> a = 0 \<and> nls doc 0 start + m = n))"

definition forward_to :: "bytes \<Rightarrow> nat \<Rightarrow> nat \<Rightarrow> nat \<times> nat \<Rightarrow> bool" where
  "forward_to doc e n = (\<lambda>(x, m).
     (m = 0 \<and> e \<le> x \<and> x \<le> length doc \<and> (if n = 0 then x = e else e < x \<and> doc ! (x - 1) = 10) \<and> nls doc e x = n) \<or>
     (0 < m \<and> x = length doc \<and> nls doc e x + m = n))"

text \<open>
  The range \<open>(a', b')\<close> is \<open>(a, b)\<close> with the lines it touches made whole, \<open>before\<close> lines in front of it and \<open>after\<close>
  lines behind it, as far as the document has them.
\<close>

definition whole_lines :: "bytes \<Rightarrow> nat \<times> nat \<Rightarrow> nat \<times> nat \<Rightarrow> nat \<times> nat \<Rightarrow> bool" where
  "whole_lines doc = (\<lambda>(a, b) (before, after) (a', b').
     a' \<le> a \<and> b \<le> b' \<and> b' \<le> length doc \<and>
     (a' = 0 \<and> nls doc 0 a \<le> before \<or> 0 < a' \<and> doc ! (a' - 1) = 10 \<and> nls doc a' a = before) \<and>
     (let need = after + (if 0 < b \<and> doc ! (b - 1) = 10 then 0 else 1)
      in b' = length doc \<and> nls doc b b' < need \<or> 0 < b' \<and> doc ! (b' - 1) = 10 \<and> nls doc b b' = need))"

text \<open>Lines count from 1, and \<open>line_offset\<close> is where the line of the position starts.\<close>

definition line_at :: "bytes \<Rightarrow> nat \<Rightarrow> nat \<times> nat \<Rightarrow> bool" where
  "line_at doc off = (\<lambda>(line, line_offset).
     line = nls doc 0 off + 1 \<and> line_offset \<le> off \<and> nls doc line_offset off = 0 \<and>
     (line_offset = 0 \<or> doc ! (line_offset - 1) = 10))"

lemma extend_line_range_steps:
  assumes "extend_line_range read newlines dsize (a, b) (before, after) s = Inr (r, s')"
  shows "\<exists>a' m s1 ends s2 x k. extend_back read newlines a (before + 1) s = Inr (a', m, s1) \<and>
    (if b > 0 then and_then (read s1 (b - 1, b)) (\<lambda>(bs, s). Inr (bs = [10], s)) else Inr (False, s1)) = Inr (ends, s2) \<and>
    extend_forward read newlines dsize b (after + (if ends then 0 else 1)) s2 = Inr (x, k, s') \<and>
    r = (if m > 0 then 0 else a', if k > 0 then dsize else x)"
proof -
  note run = assms [unfolded extend_line_range_def fst_conv snd_conv Let_def]
  from run obtain a' m s1 where 1: "extend_back read newlines a (before + 1) s = Inr (a', m, s1)" and n: "before + 1 < 2 ^ 64"
    by auto
  from run 1 n obtain ends s2 where
    2: "(if b > 0 then and_then (read s1 (b - 1, b)) (\<lambda>(bs, s). Inr (bs = [10], s)) else Inr (False, s1)) = Inr (ends, s2)"
    by (auto simp: add_u64_def split del: if_split)
  from run 1 2 n have "\<exists>w. extend_forward read newlines dsize b (after + (if ends then 0 else 1)) s2 = Inr w"
    by (auto split del: if_split)
  then obtain x k s3 where 3: "extend_forward read newlines dsize b (after + (if ends then 0 else 1)) s2 = Inr (x, k, s3)"
    by auto
  with run 1 2 n have "r = (if m > 0 then 0 else a', if k > 0 then dsize else x)" "s3 = s'"
    by (auto split del: if_split)
  with 1 2 3 show ?thesis by blast
qed

section \<open>Readers of byte ranges\<close>

text \<open>A reader that returns, when it succeeds, the bytes of the document.\<close>

locale range_reader =
  fixes read :: "'s reader" and ok :: "'s \<Rightarrow> bool" and doc :: bytes
  assumes read_ok: "ok s \<Longrightarrow> a \<le> b \<Longrightarrow> b \<le> length doc \<Longrightarrow> read s (a, b) = Inr (bs, s') \<Longrightarrow>
    bs = sub_slice doc a b \<and> ok s'"
begin

lemma extend_back_ok:
  assumes "counts_newlines doc newlines" "start \<le> length doc" "0 < n" "ok s"
    and "extend_back read newlines start n s = Inr (a, m, s')"
  shows "back_to doc start n (a, m) \<and> ok s'"
  using assms(2-)
proof (induction start arbitrary: n s rule: less_induct)
  case (less start)
  show ?case
  proof (cases "start = 0")
    case True
    with less.prems show ?thesis by (subst (asm) extend_back.simps) (auto simp: back_to_def)
  next
    case False
    define b where "b = (start - 1) div CANDIDATE_BLOCK_BYTES"
    have b1: "block_start b < start" unfolding b_def using False by (intro block_start_less) simp
    have b2: "start \<le> block_start (b + 1)" using next_block [of "start - 1"] unfolding b_def [symmetric] by linarith
    from less.prems False have step: "b < length newlines \<and>
        (if newlines ! b = 0 then extend_back read newlines (block_start b) n s = Inr (a, m, s')
         else \<exists>bs s1. read s (block_start b, start) = Inr (bs, s1) \<and>
           (case scan_newlines (rev (enumerate 0 bs)) n of
              (_, Some at) \<Rightarrow> Inr (block_start b + (at + 1), 0, s1)
            | (n', None) \<Rightarrow> extend_back read newlines (block_start b) n' s1) = Inr (a, m, s'))"
      by (subst (asm) extend_back.simps) (auto simp: b_def Let_def split: if_splits)
    then have cnt: "newlines ! b = nls doc (block_start b) (block_start (b + 1))"
      using assms(1) by (auto simp: counts_newlines_def)
    have bk0: "back_to doc start n (a, m)" if "back_to doc (block_start b) n' (a, m)" "n' + nls doc (block_start b) start = n" for n'
      using that b1 nls_split [of 0 "block_start b" start doc] nls_split [of a "block_start b" start doc]
      by (auto simp: back_to_def)
    show ?thesis
    proof (cases "newlines ! b = 0")
      case True
      with step have "back_to doc (block_start b) n (a, m) \<and> ok s'" using b1 less by auto
      moreover have "nls doc (block_start b) start = 0" using True cnt nls_mono [OF less_imp_le [OF b1] b2, of doc] by simp
      ultimately show ?thesis using bk0 by auto
    next
      case False
      with step obtain bs s1 where r: "read s (block_start b, start) = Inr (bs, s1)"
        "(case scan_newlines (rev (enumerate 0 bs)) n of
              (_, Some at) \<Rightarrow> Inr (block_start b + (at + 1), 0, s1)
            | (n', None) \<Rightarrow> extend_back read newlines (block_start b) n' s1) = Inr (a, m, s')" by auto
      from read_ok [OF less.prems(3) less_imp_le [OF b1] less.prems(1) r(1)]
      have bs: "bs = sub_slice doc (block_start b) start" "ok s1" by simp_all
      obtain n' at where sc: "scan_newlines (rev (enumerate 0 bs)) n = (n', at)" by (cases "scan_newlines (rev (enumerate 0 bs)) n")
      show ?thesis
      proof (cases at)
        case (Some x)
        note f = scan_back [OF sc [unfolded Some bs(1)] less.prems(2) less_imp_le [OF b1] less.prems(1)]
        from r(2) sc Some have "a = Suc (block_start b + x)" "m = 0" "s' = s1" by simp_all
        with f bs show ?thesis by (simp add: back_to_def)
      next
        case None
        note f = scan_none [OF sc [unfolded None] less.prems(2) disjI2 [OF arg_cong [OF bs(1), of "\<lambda>x. rev (enumerate 0 x)"]]]
        from r(2) sc None have "extend_back read newlines (block_start b) n' s1 = Inr (a, m, s')" by simp
        with b1 less.prems bs f less.IH have "back_to doc (block_start b) n' (a, m) \<and> ok s'" by auto
        with bk0 f show ?thesis by auto
      qed
    qed
  qed
qed

lemma extend_forward_ok:
  assumes "counts_newlines doc newlines" "e \<le> length doc" "ok s"
    and "extend_forward read newlines (length doc) e n s = Inr (x, m, s')"
  shows "forward_to doc e n (x, m) \<and> ok s'"
  using assms(2-)
proof (induction "length doc - e" arbitrary: e n s rule: less_induct)
  case less
  show ?case
  proof (cases "e < length doc \<and> 0 < n")
    case False
    with less.prems show ?thesis by (subst (asm) extend_forward.simps) (auto simp: forward_to_def)
  next
    case True
    define b where "b = e div CANDIDATE_BLOCK_BYTES"
    define stop where "stop = min (block_start (b + 1)) (length doc)"
    have b1: "block_start b \<le> e" by (simp add: b_def)
    have b2: "e < stop" "stop \<le> length doc" using True next_block [of e] by (auto simp: stop_def b_def)
    from less.prems True have step: "b < length newlines \<and>
        (if newlines ! b = 0 then extend_forward read newlines (length doc) stop n s = Inr (x, m, s')
         else \<exists>bs s1. read s (e, stop) = Inr (bs, s1) \<and>
           (case scan_newlines (enumerate 0 bs) n of
              (_, Some at) \<Rightarrow> and_then (context_of (add_u64 e (at + 1)) ''document line range overflows'') (\<lambda>e'. Inr (e', 0, s1))
            | (n', None) \<Rightarrow> extend_forward read newlines (length doc) stop n' s1) = Inr (x, m, s'))"
      by (subst (asm) extend_forward.simps) (auto simp: b_def stop_def Let_def split: if_splits)
    then have cnt: "newlines ! b = nls doc (block_start b) (block_start (b + 1))"
      using assms(1) by (auto simp: counts_newlines_def)
    have dec: "length doc - stop < length doc - e" using b2 by simp
    have fwd: "forward_to doc e n (x, m)" if "forward_to doc stop n' (x, m)" "n' + nls doc e stop = n" "0 < n'" for n'
      using that b2 nls_split [of e stop x doc] by (auto simp: forward_to_def)
    show ?thesis
    proof (cases "newlines ! b = 0")
      case True
      with step have "forward_to doc stop n (x, m) \<and> ok s'" using less(1) [OF dec b2(2) less.prems(2)] by auto
      moreover have "nls doc e stop = 0"
      proof -
        have "block_start b \<le> stop" "stop \<le> block_start (b + 1)" using b1 b2 by (auto simp: stop_def)
        with True cnt nls_mono [of "block_start b" stop "block_start (b + 1)" doc] nls_split [of "block_start b" e stop doc] b1 b2
        show ?thesis by simp
      qed
      ultimately show ?thesis using fwd \<open>e < length doc \<and> 0 < n\<close> by auto
    next
      case False
      with step obtain bs s1 where r: "read s (e, stop) = Inr (bs, s1)"
        "(case scan_newlines (enumerate 0 bs) n of
              (_, Some at) \<Rightarrow> and_then (context_of (add_u64 e (at + 1)) ''document line range overflows'') (\<lambda>e'. Inr (e', 0, s1))
            | (n', None) \<Rightarrow> extend_forward read newlines (length doc) stop n' s1) = Inr (x, m, s')" by auto
      from read_ok [OF less.prems(2) less_imp_le [OF b2(1)] b2(2) r(1)]
      have bs: "bs = sub_slice doc e stop" "ok s1" by simp_all
      obtain n' at where sc: "scan_newlines (enumerate 0 bs) n = (n', at)" by (cases "scan_newlines (enumerate 0 bs) n")
      have n: "0 < n" using \<open>e < length doc \<and> 0 < n\<close> by simp
      show ?thesis
      proof (cases at)
        case (Some y)
        note f = scan_forward [OF sc [unfolded Some bs(1)] n less_imp_le [OF b2(1)] b2(2)]
        from r(2) sc Some have "x = Suc (e + y)" "m = 0" "s' = s1" by simp_all
        moreover have "nls doc e (Suc (e + y)) = n"
          using f b2 nls_split [of e "e + y" "Suc (e + y)" doc] nls_newline [of "e + y" doc] by simp
        ultimately show ?thesis using f bs b2 n by (simp add: forward_to_def)
      next
        case None
        note f = scan_none [OF sc [unfolded None] n disjI1 [OF arg_cong [OF bs(1), of "enumerate 0"]]]
        from r(2) sc None have "extend_forward read newlines (length doc) stop n' s1 = Inr (x, m, s')" by simp
        with less(1) [OF dec b2(2) bs(2)] have "forward_to doc stop n' (x, m) \<and> ok s'" by simp
        with fwd f show ?thesis by auto
      qed
    qed
  qed
qed

lemma last_byte: "0 < b \<Longrightarrow> b \<le> length doc \<Longrightarrow> sub_slice doc (b - 1) b = [10] \<longleftrightarrow> doc ! (b - 1) = 10"
  by (simp add: sub_slice_def take_Suc_conv_app_nth)

lemma extend_line_range_ok:
  assumes "counts_newlines doc newlines" "a \<le> b" "b \<le> length doc" "ok s"
    and "extend_line_range read newlines (length doc) (a, b) ctx s = Inr (r, s')"
  shows "whole_lines doc (a, b) ctx r \<and> ok s'"
proof -
  obtain before after where c: "ctx = (before, after)" by (cases ctx)
  from extend_line_range_steps [OF assms(5) [unfolded c]] obtain a' m s1 ends s2 x k where
    bk0: "extend_back read newlines a (before + 1) s = Inr (a', m, s1)"
    and peek: "(if b > 0 then and_then (read s1 (b - 1, b)) (\<lambda>(bs, s). Inr (bs = [10], s)) else Inr (False, s1)) = Inr (ends, s2)"
    and fwd: "extend_forward read newlines (length doc) b (after + (if ends then 0 else 1)) s2 = Inr (x, k, s')"
    and r: "r = (if m > 0 then 0 else a', if k > 0 then length doc else x)" by blast
  have 1: "back_to doc a (before + 1) (a', m)" "ok s1"
    using extend_back_ok [OF assms(1) _ _ assms(4) bk0] assms by auto
  have 2: "ok s2 \<and> (ends \<longleftrightarrow> 0 < b \<and> doc ! (b - 1) = 10)"
  proof (cases "b = 0")
    case False
    with peek obtain bs where "read s1 (b - 1, b) = Inr (bs, s2)" "ends = (bs = [10])" by (auto split: if_splits)
    with read_ok [OF 1(2) _ assms(3), of "b - 1"] last_byte [of b] False assms(3) show ?thesis by auto
  qed (use peek 1 in auto)
  then have 3: "forward_to doc b (after + (if ends then 0 else 1)) (x, k)" "ok s'"
    using extend_forward_ok [OF assms(1,3) _ fwd] by auto
  have bk: "fst r \<le> a \<and> (fst r = 0 \<and> nls doc 0 a \<le> before \<or> 0 < fst r \<and> doc ! (fst r - 1) = 10 \<and> nls doc (fst r) a = before)"
    using 1(1) by (auto simp: r back_to_def)
  have fw: "b \<le> snd r \<and> snd r \<le> length doc \<and> (let need = after + (if 0 < b \<and> doc ! (b - 1) = 10 then 0 else 1)
      in snd r = length doc \<and> nls doc b (snd r) < need \<or> 0 < snd r \<and> doc ! (snd r - 1) = 10 \<and> nls doc b (snd r) = need)"
    using 2 3(1) assms(3) by (auto simp: r forward_to_def Let_def split: if_splits)
  show ?thesis using bk fw 3(2) by (auto simp: whole_lines_def c split_beta)
qed

lemma locate_previous_ok:
  assumes "counts_newlines doc newlines" "p \<le> length newlines" "block_start p \<le> length doc" "ok s"
    and "locate_previous read newlines (length doc) p s = Inr (lo, s')"
  shows "lo \<le> block_start p \<and> nls doc lo (block_start p) = 0 \<and> (lo = 0 \<or> doc ! (lo - 1) = 10) \<and> ok s'"
  using assms(2-)
proof (induction p arbitrary: s)
  case (Suc p)
  have le: "block_start p \<le> block_start (Suc p)" by simp
  have cnt: "newlines ! p = nls doc (block_start p) (block_start (Suc p))"
    using assms(1) Suc.prems(1) by (simp add: counts_newlines_def)
  show ?case
  proof (cases "newlines ! p = 0")
    case True
    then have IH: "lo \<le> block_start p \<and> nls doc lo (block_start p) = 0 \<and> (lo = 0 \<or> doc ! (lo - 1) = 10) \<and> ok s'"
      using Suc by auto
    with True cnt nls_split [of lo "block_start p" "block_start (Suc p)" doc] show ?thesis by auto
  next
    case False
    have m: "min (block_start p + CANDIDATE_BLOCK_BYTES) (length doc) = block_start (Suc p)"
      using Suc.prems(2) by simp
    from False Suc.prems(4) obtain bs at where
      r: "read s (block_start p, block_start (Suc p)) = Inr (bs, s')" "last_newline bs = Some at" "lo = block_start p + (at + 1)"
      by (auto simp: m [simplified])
    from read_ok [OF Suc.prems(3) le Suc.prems(2) r(1)] have "bs = sub_slice doc (block_start p) (block_start (Suc p))" "ok s'"
      by simp_all
    with last_newline_slice [of doc "block_start p" "block_start (Suc p)" at] r Suc.prems(2) show ?thesis by simp
  qed
qed simp

lemma sum_newlines:
  assumes "counts_newlines doc newlines"
  shows "b \<le> length newlines \<Longrightarrow>
    visit_all (\<lambda>sum n. context_of (add_u64 sum n) msg) 0 (take b newlines) = Inr t \<Longrightarrow> t = nls doc 0 (block_start b)"
proof (induction b arbitrary: t)
  case (Suc b)
  then obtain u where u: "visit_all (\<lambda>sum n. context_of (add_u64 sum n) msg) 0 (take b newlines) = Inr u" "t = u + newlines ! b"
    by (auto simp: take_Suc_conv_app_nth visit_all_snoc)
  with Suc have "u = nls doc 0 (block_start b)" by simp
  moreover have "newlines ! b = nls doc (block_start b) (block_start (Suc b))"
    using assms Suc.prems(1) by (simp add: counts_newlines_def)
  ultimately show ?case using u(2) nls_split [of 0 "block_start b" "block_start (Suc b)" doc] by simp
qed simp

lemma locate_line_ok:
  assumes "counts_newlines doc newlines" "off \<le> length doc" "ok s"
    and "locate_line read newlines (length doc) off s = Inr (l, s')"
  shows "line_at doc off l \<and> ok s'"
proof (cases "off = 0")
  case True
  with assms(3,4) show ?thesis by (auto simp: locate_line_def line_at_def)
next
  case False
  define b where "b = off div CANDIDATE_BLOCK_BYTES"
  have b1: "block_start b \<le> off" and b2: "off \<le> block_start (b + 1)" using next_block [of off] by (simp_all add: b_def)
  from False assms(4) obtain before within s1 line lo where
    len: "b \<le> length newlines"
    and sum: "visit_all (\<lambda>sum n. context_of (add_u64 sum n) ''document line number overflows'') 0 (take b newlines) = Inr before"
    and rd: "(if b < length newlines \<and> newlines ! b > 0 then read s (block_start b, off) else Inr ([], s)) = Inr (within, s1)"
    and line: "line = before + count_list within 10 + 1"
    and lo: "(case last_newline within of Some at \<Rightarrow> Inr ((line, block_start b + (at + 1)), s1)
            | None \<Rightarrow> and_then (locate_previous read newlines (length doc) b s1) (\<lambda>(line_offset, s). Inr ((line, line_offset), s))) = Inr ((line, lo), s')"
    and l: "l = (line, lo)"
    unfolding locate_line_def b_def [symmetric] Let_def by (fastforce split: option.splits)
  have before: "before = nls doc 0 (block_start b)" by (rule sum_newlines [OF assms(1) len sum])
  have within: "ok s1 \<and> (within = sub_slice doc (block_start b) off \<or> within = [] \<and> nls doc (block_start b) off = 0)"
  proof (cases "b < length newlines \<and> newlines ! b > 0")
    case True
    with rd read_ok [OF assms(3) b1 assms(2)] show ?thesis by auto
  next
    case no: False
    have "nls doc (block_start b) off = 0"
    proof (cases "b < length newlines")
      case True
      with no assms(1) have "nls doc (block_start b) (block_start (b + 1)) = 0" by (auto simp: counts_newlines_def)
      with nls_mono [OF b1 b2, of doc] show ?thesis by simp
    next
      case False
      with assms(1) have "div_ceil (length doc) CANDIDATE_BLOCK_BYTES \<le> b" by (simp add: counts_newlines_def)
      then have "CANDIDATE_BLOCK_BYTES * div_ceil (length doc) CANDIDATE_BLOCK_BYTES \<le> CANDIDATE_BLOCK_BYTES * b" by (rule mult_le_mono2)
      with div_ceil_bounds(1) [OF candidate_block_pos, of "length doc"] assms(2) b1 have "block_start b = off"
        unfolding mult.commute [of b] by linarith
      then show ?thesis by simp
    qed
    moreover have "within = []" "s1 = s" using no rd by (auto split: if_splits)
    ultimately show ?thesis using assms(3) by simp
  qed
  then have cw: "count_list within 10 = nls doc (block_start b) off" by (auto simp: nls_def)
  have total: "line = nls doc 0 off + 1" using nls_split [of 0 "block_start b" off doc] b1 by (simp add: line before cw)
  show ?thesis
  proof (cases "last_newline within")
    case (Some at)
    then have w: "within = sub_slice doc (block_start b) off" using within by (auto simp: last_newline_def)
    from lo Some have "lo = block_start b + (at + 1)" "s' = s1" by simp_all
    with last_newline_slice [OF Some [unfolded w] assms(2)] within total show ?thesis by (simp add: line_at_def l)
  next
    case None
    then have z: "nls doc (block_start b) off = 0" using cw by (simp add: last_newline_None flip: cw)
    from lo None have "locate_previous read newlines (length doc) b s1 = Inr (lo, s')" by auto
    with locate_previous_ok [OF assms(1) len _ _ this] within assms(2) b1
    have "lo \<le> block_start b \<and> nls doc lo (block_start b) = 0 \<and> (lo = 0 \<or> doc ! (lo - 1) = 10) \<and> ok s'" by simp
    with total z b1 nls_split [of lo "block_start b" off doc] show ?thesis by (auto simp: line_at_def l)
  qed
qed

end

section \<open>Readers that always succeed\<close>

lemma nls_le: "nls doc a b \<le> length doc"
proof -
  have "nls doc a b \<le> length (sub_slice doc a b)" unfolding nls_def by (rule count_le_length)
  also have "\<dots> \<le> length doc" by (simp add: min_le_iff_disj)
  finally show ?thesis .
qed

lemma block_in_table: "counts_newlines doc newlines \<Longrightarrow> x < length doc \<Longrightarrow> x div CANDIDATE_BLOCK_BYTES < length newlines"
proof -
  assume c: "counts_newlines doc newlines" and x: "x < length doc"
  have "x < CANDIDATE_BLOCK_BYTES * length newlines"
    using x div_ceil_bounds(1) [OF candidate_block_pos, of "length doc"] c by (simp add: counts_newlines_def)
  then show ?thesis by (simp add: less_mult_imp_div_less mult.commute)
qed

text \<open>A reader that succeeds on every range of the document, as over a store that serves its files.\<close>

locale range_server = range_reader +
  assumes read_total: "ok s \<Longrightarrow> a \<le> b \<Longrightarrow> b \<le> length doc \<Longrightarrow> \<exists>p. read s (a, b) = Inr p"
begin

lemma read_serves:
  assumes "ok s" "a \<le> b" "b \<le> length doc"
  obtains s' where "read s (a, b) = Inr (sub_slice doc a b, s')" "ok s'"
proof -
  from read_total [OF assms] obtain bs s' where "read s (a, b) = Inr (bs, s')" by auto
  with read_ok [OF assms this] that show ?thesis by auto
qed

lemma extend_back_total:
  assumes "counts_newlines doc newlines" "start \<le> length doc" "ok s"
  shows "\<exists>p. extend_back read newlines start n s = Inr p"
  using assms(2-)
proof (induction start arbitrary: n s rule: less_induct)
  case (less start)
  show ?case
  proof (cases "start > 0 \<and> n > 0")
    case True
    define b where "b = (start - 1) div CANDIDATE_BLOCK_BYTES"
    have b1: "block_start b < start" unfolding b_def using True by (intro block_start_less) simp
    have bl: "b < length newlines" unfolding b_def using block_in_table [OF assms(1), of "start - 1"] less.prems True by linarith
    from read_serves [OF less.prems(2) less_imp_le [OF b1] less.prems(1)] obtain s1 where
      r: "read s (block_start b, start) = Inr (sub_slice doc (block_start b) start, s1)" "ok s1" .
    have "\<exists>p. extend_back read newlines (block_start b) n' s' = Inr p" if "ok s'" for n' s'
      using less.IH [OF b1] that b1 less.prems(1) by simp
    then have "\<exists>p. extend_back read newlines (block_start b) n s = Inr p"
      "\<exists>p. (case scan_newlines (rev (enumerate 0 (sub_slice doc (block_start b) start))) n of
          (_, Some at) \<Rightarrow> Inr (block_start b + (at + 1), 0, s1)
        | (n', None) \<Rightarrow> extend_back read newlines (block_start b) n' s1) = Inr p"
      using less.prems(2) r(2) by (simp, auto split: prod.split option.split)
    with r bl True show ?thesis
      by (subst extend_back.simps) (simp add: b_def [symmetric, simplified] Let_def get_def)
  qed (subst extend_back.simps, auto)
qed

lemma extend_forward_total:
  assumes "counts_newlines doc newlines" "e \<le> length doc" "ok s" "length doc < 2 ^ 64"
  shows "\<exists>p. extend_forward read newlines (length doc) e n s = Inr p"
  using assms(2,3)
proof (induction "length doc - e" arbitrary: e n s rule: less_induct)
  case less
  show ?case
  proof (cases "e < length doc \<and> 0 < n")
    case True
    define b where "b = e div CANDIDATE_BLOCK_BYTES"
    define stop where "stop = min (block_start (b + 1)) (length doc)"
    have b2: "e < stop" "stop \<le> length doc" using True next_block [of e] by (auto simp: stop_def b_def)
    have bl: "b < length newlines" unfolding b_def using block_in_table [OF assms(1), of e] True by simp
    from read_serves [OF less.prems(2) less_imp_le [OF b2(1)] b2(2)] obtain s1 where
      r: "read s (e, stop) = Inr (sub_slice doc e stop, s1)" "ok s1" .
    have IH: "\<exists>p. extend_forward read newlines (length doc) stop n' s' = Inr p" if "ok s'" for n' s'
      using less(1) [of stop] that b2 by simp
    have "\<exists>p. (case scan_newlines (enumerate 0 (sub_slice doc e stop)) n of
        (_, Some at) \<Rightarrow> and_then (context_of (add_u64 e (at + 1)) ''document line range overflows'') (\<lambda>e'. Inr (e', 0, s1))
      | (n', None) \<Rightarrow> extend_forward read newlines (length doc) stop n' s1) = Inr p"
    proof -
      obtain n' at where sc: "scan_newlines (enumerate 0 (sub_slice doc e stop)) n = (n', at)"
        by (cases "scan_newlines (enumerate 0 (sub_slice doc e stop)) n")
      show ?thesis
      proof (cases at)
        case (Some y)
        with scan_forward(2) [OF sc [unfolded Some] _ less_imp_le [OF b2(1)] b2(2)] True b2 assms(4)
        have "e + (y + 1) < 2 ^ 64" by simp
        with sc Some show ?thesis by (simp add: add_u64_def)
      qed (use sc IH r in simp)
    qed
    with r bl IH less.prems(2) True show ?thesis
      by (subst extend_forward.simps) (simp add: b_def [symmetric] stop_def [symmetric, simplified] Let_def get_def)
  qed (subst extend_forward.simps, auto)
qed

lemma extend_line_range_total:
  assumes "counts_newlines doc newlines" "a \<le> b" "b \<le> length doc" "ok s" "length doc < 2 ^ 64"
    and "before + 1 < 2 ^ 64" "after + 1 < 2 ^ 64"
  shows "\<exists>p. extend_line_range read newlines (length doc) (a, b) (before, after) s = Inr p"
proof -
  have al: "a \<le> length doc" using assms(2,3) by simp
  from extend_back_total [OF assms(1) al assms(4)] obtain a' m s1 where
    1: "extend_back read newlines a (before + 1) s = Inr (a', m, s1)" by (metis prod_cases3)
  from extend_back_ok [OF assms(1) al _ assms(4) 1] have "ok s1" by simp
  have "\<exists>ends s2. (if b > 0 then and_then (read s1 (b - 1, b)) (\<lambda>(bs, s). Inr (bs = [10], s)) else Inr (False, s1)) = Inr (ends, s2) \<and> ok s2"
  proof (cases "b = 0")
    case False
    from read_serves [OF \<open>ok s1\<close> diff_le_self assms(3)] obtain s2 where
      "read s1 (b - 1, b) = Inr (sub_slice doc (b - 1) b, s2)" "ok s2" .
    with False show ?thesis by simp
  qed (use \<open>ok s1\<close> in auto)
  then obtain ends s2 where
    2: "(if b > 0 then and_then (read s1 (b - 1, b)) (\<lambda>(bs, s). Inr (bs = [10], s)) else Inr (False, s1)) = Inr (ends, s2)" "ok s2"
    by blast
  from extend_forward_total [OF assms(1,3) 2(2) assms(5)] obtain x k s3 where
    "extend_forward read newlines (length doc) b (after + (if ends then 0 else 1)) s2 = Inr (x, k, s3)" by (metis prod_cases3)
  moreover have "add_u64 before 1 = Some (before + 1)" "add_u64 after (if ends then 0 else 1) = Some (after + (if ends then 0 else 1))"
    using assms(6,7) by auto
  ultimately show ?thesis unfolding extend_line_range_def fst_conv snd_conv Let_def
    using 1 2 by (simp only: context_of_simps and_then_Inr prod.case) simp
qed

lemma locate_previous_total:
  assumes "counts_newlines doc newlines" "p \<le> length newlines" "block_start p \<le> length doc" "ok s"
  shows "\<exists>q. locate_previous read newlines (length doc) p s = Inr q"
  using assms(2-)
proof (induction p arbitrary: s)
  case (Suc p)
  have le: "block_start p \<le> block_start (Suc p)" by simp
  have m: "min (block_start p + CANDIDATE_BLOCK_BYTES) (length doc) = block_start (Suc p)"
    using Suc.prems(2) by simp
  from read_serves [OF Suc.prems(3) le Suc.prems(2)] obtain s1 where
    r: "read s (block_start p, block_start (Suc p)) = Inr (sub_slice doc (block_start p) (block_start (Suc p)), s1)" .
  have "newlines ! p = nls doc (block_start p) (block_start (Suc p))"
    using assms(1) Suc.prems(1) by (simp add: counts_newlines_def)
  then have "newlines ! p = 0 \<or> last_newline (sub_slice doc (block_start p) (block_start (Suc p))) \<noteq> None"
    by (simp only: last_newline_None nls_def) (simp add: count_list_0)
  with Suc r m show ?case by (simp add: m [simplified]) auto
qed simp

lemma sum_newlines_total:
  assumes "counts_newlines doc newlines" "length doc < 2 ^ 64"
  shows "b \<le> length newlines \<Longrightarrow> \<exists>t. visit_all (\<lambda>sum n. context_of (add_u64 sum n) msg) 0 (take b newlines) = Inr t"
proof (induction b)
  case (Suc b)
  then obtain t where t: "visit_all (\<lambda>sum n. context_of (add_u64 sum n) msg) 0 (take b newlines) = Inr t" by auto
  with Suc.prems have "t = nls doc 0 (block_start b)" by (intro sum_newlines [OF assms(1)]) auto
  moreover have "newlines ! b = nls doc (block_start b) (block_start (Suc b))"
    using assms(1) Suc.prems by (simp add: counts_newlines_def)
  moreover have "nls doc 0 (block_start (Suc b)) = nls doc 0 (block_start b) + nls doc (block_start b) (block_start (Suc b))"
    by (rule nls_split) simp_all
  ultimately have "t + newlines ! b < 2 ^ 64" using nls_le [of doc 0 "block_start (Suc b)"] assms(2) by linarith
  with t Suc.prems show ?case by (simp add: take_Suc_conv_app_nth visit_all_snoc add_u64_def)
qed simp

lemma locate_line_total:
  assumes "counts_newlines doc newlines" "off \<le> length doc" "ok s" "length doc + 1 < 2 ^ 64"
  shows "\<exists>p. locate_line read newlines (length doc) off s = Inr p"
proof (cases "off = 0")
  case False
  define b where "b = off div CANDIDATE_BLOCK_BYTES"
  have b1: "block_start b \<le> off" by (simp add: b_def)
  have bl: "b \<le> length newlines"
  proof (cases "off = length doc")
    case True
    have "length doc \<le> CANDIDATE_BLOCK_BYTES * length newlines"
      using div_ceil_bounds(1) [OF candidate_block_pos, of "length doc"] assms(1) by (simp add: counts_newlines_def)
    then have "length doc div CANDIDATE_BLOCK_BYTES \<le> CANDIDATE_BLOCK_BYTES * length newlines div CANDIDATE_BLOCK_BYTES"
      by (rule div_le_mono)
    then show ?thesis using True candidate_block_pos by (simp add: b_def)
  qed (use block_in_table [OF assms(1), of off] assms(2) in \<open>simp add: b_def\<close>)
  from sum_newlines_total [OF assms(1) _ bl] assms(4) obtain before where
    sum: "visit_all (\<lambda>sum n. context_of (add_u64 sum n) ''document line number overflows'') 0 (take b newlines) = Inr before"
    by fastforce
  have before: "before = nls doc 0 (block_start b)" by (rule sum_newlines [OF assms(1) bl sum])
  obtain within s1 where rd: "(if b < length newlines \<and> newlines ! b > 0 then read s (block_start b, off) else Inr ([], s)) = Inr (within, s1)"
      "ok s1" "count_list within 10 \<le> nls doc (block_start b) off"
  proof (cases "b < length newlines \<and> newlines ! b > 0")
    case True
    with read_serves [OF assms(3) b1 assms(2)] that show ?thesis unfolding nls_def by (metis order_refl)
  qed (use that assms(3) in auto)
  have "before + count_list within 10 + 1 < 2 ^ 64"
    using rd(3) before nls_split [of 0 "block_start b" off doc] b1 nls_le [of doc 0 off] assms(4) by linarith
  then have line: "context_of (case add_u64 before (count_list within 10) of None \<Rightarrow> None | Some c \<Rightarrow> add_u64 c 1)
      ''document line number overflows'' = Inr (before + count_list within 10 + 1)" by (simp add: add_u64_def)
  have "block_start b \<le> length doc" using b1 assms(2) by simp
  from locate_previous_total [OF assms(1) bl this rd(2)] obtain q where
    "locate_previous read newlines (length doc) b s1 = Inr q" by blast
  then show ?thesis using False assms(2) bl sum rd(1) line unfolding locate_line_def b_def [symmetric] Let_def
    by (simp only: ensure_True if_False and_then_Inr prod.case) (auto split: option.split prod.split)
qed (simp add: locate_line_def)

end

section \<open>The documents of a batch\<close>

interpretation batch: range_reader "read_range E parts" "reading E ds parts doc" doc
  by unfold_locales (rule reading_step)

text \<open>Over a store that serves the pack files every read succeeds.\<close>

definition served :: "pack_env \<Rightarrow> bytes list \<Rightarrow> doc_part list \<Rightarrow> bytes \<Rightarrow> batch \<Rightarrow> bool" where
  "served E ds parts doc s \<longleftrightarrow> env_serves E ds \<and> tiles ds doc 0 parts \<and> batch_ok ds (fst s)"

interpretation served: range_server "read_range E parts" "served E ds parts doc" doc
proof unfold_locales
  fix s a b bs s'
  assume "served E ds parts doc s" and ab: "a \<le> b" "b \<le> length doc"
  then have ds: "env_serves E ds" "tiles ds doc 0 parts" "batch_ok ds (fst s)" by (auto simp: served_def)
  then show "\<exists>p. read_range E parts s (a, b) = Inr p" using read_range_ok ab by blast
  assume "read_range E parts s (a, b) = Inr (bs, s')"
  with read_range_known [OF env_serves_holds [OF ds(1)] ds(2,3) this] ds
  show "bs = sub_slice doc a b \<and> served E ds parts doc s'" by (auto simp: served_def)
qed

section \<open>Property\<close>

text \<open>
  C30: Lines of a packed document. Over a store that serves the pack files, the extension of a range to
  whole lines and the location of a line always succeed; the first gives the range with its first and last line
  made whole and the asked number of lines of context on both sides (as far as the document has
  them), the second the number of newlines before the position plus one and the start of its line.
\<close>

theorem lines_of_served_documents:
  assumes "served E ds parts doc s" "counts_newlines doc newlines" "length doc + 1 < 2 ^ 64"
    and "a \<le> b" "b \<le> length doc" "before + 1 < 2 ^ 64" "after + 1 < 2 ^ 64"
  shows "(\<exists>r s'. extend_line_range (read_range E parts) newlines (length doc) (a, b) (before, after) s = Inr (r, s') \<and>
      whole_lines doc (a, b) (before, after) r) \<and>
    (\<exists>l s'. locate_line (read_range E parts) newlines (length doc) a s = Inr (l, s') \<and> line_at doc a l)"
proof
  have len: "length doc < 2 ^ 64" "a \<le> length doc" using assms(3-5) by simp_all
  obtain r s' where "extend_line_range (read_range E parts) newlines (length doc) (a, b) (before, after) s = Inr (r, s')"
    using served.extend_line_range_total [OF assms(2,4,5,1) len(1) assms(6,7)] by auto
  with served.extend_line_range_ok [OF assms(2,4,5,1) this] show "\<exists>r s'. extend_line_range (read_range E parts) newlines
      (length doc) (a, b) (before, after) s = Inr (r, s') \<and> whole_lines doc (a, b) (before, after) r" by blast
  obtain l s' where "locate_line (read_range E parts) newlines (length doc) a s = Inr (l, s')"
    using served.locate_line_total [OF assms(2) len(2) assms(1,3)] by auto
  with served.locate_line_ok [OF assms(2) len(2) assms(1) this] show "\<exists>l s'. locate_line (read_range E parts) newlines
      (length doc) a s = Inr (l, s') \<and> line_at doc a l" by blast
qed

lemma built_env_serves:
  assumes "zstd_laws X" "unforgeable X (built_blocks out)" "holds_blocks X out ds"
    and "serves store (map pack_file_meta (built_files out)) (map content (built_files out))"
  shows "env_serves \<lparr>env_crates = X, env_store = store, env_cache = cache, env_metas = map pack_file_meta (built_files out),
    env_blocks = built_blocks out\<rparr> ds"
  using assms unfolding env_serves_def holds_blocks_def by auto

definition sample_env :: pack_env where
  "sample_env = \<lparr>env_crates = sample_zstd, env_store = sample_store, env_cache = None,
     env_metas = map pack_file_meta (built_files sample_out), env_blocks = built_blocks sample_out\<rparr>"

lemma sample_env_serves: "env_serves sample_env [[7, 8], [9, 5]]"
proof -
  have "holds_blocks sample_zstd sample_out [[7, 8], [9, 5]]"
    by (simp add: holds_blocks_def sample_out_def stored_def sample_zstd_def laid_out_def chained_def pack_file_ok_def
        sub_slice_def hex_def hex_digit_def Let_def)
  from built_env_serves [OF sample_laws(1) sample_laws(2) this sample_laws(3)] show ?thesis by (simp add: sample_env_def)
qed

definition sample_parts :: "doc_part list" where
  "sample_parts = [\<lparr>part_block = 0, part_start = 0, part_offset = 0, part_len = 2\<rparr>, \<lparr>part_block = 1, part_start = 2, part_offset = 0, part_len = 1\<rparr>]"

lemma sample_document_blocks:
  "document_blocks \<lparr>first_block = 0, block_offset = 0\<rparr> 3 (env_blocks sample_env) = Inr sample_parts"
  by (simp add: document_blocks_def block_span_def span_loop.simps sample_env_def sample_out_def part_step_def get_def checked_sub_def
      Let_def sample_parts_def upt_rec)

theorem lines_of_served_documents_witness:
  "(\<exists>r s'. extend_line_range (read_range sample_env sample_parts) [0] (length [7, 8, 9 :: u8]) (1, 2) (0, 0)
      (Map.empty, \<lparr>files = Map.empty, writable = (\<lambda>_. True)\<rparr>) = Inr (r, s') \<and> whole_lines [7, 8, 9] (1, 2) (0, 0) r) \<and>
    (\<exists>l s'. locate_line (read_range sample_env sample_parts) [0] (length [7, 8, 9 :: u8]) 1
      (Map.empty, \<lparr>files = Map.empty, writable = (\<lambda>_. True)\<rparr>) = Inr (l, s') \<and> line_at [7, 8, 9] 1 l)"
proof (rule lines_of_served_documents)
  show "served sample_env [[7, 8], [9, 5]] sample_parts [7, 8, 9] (Map.empty, \<lparr>files = Map.empty, writable = (\<lambda>_. True)\<rparr>)"
    using sample_env_serves by (simp add: served_def sample_parts_def sub_slice_def)
  show "counts_newlines [7, 8, 9] [0]"
    by (simp add: counts_newlines_def nls_def sub_slice_def div_ceil_def CANDIDATE_BLOCK_BYTES_def)
qed simp_all

end
