(* ===== verification/Pack_Regions.thy ===== *)
theory Pack_Regions
  imports Pack_Lines
begin

text \<open>
  Regional reads, \<open>crates/index/src/pack.rs\<close>: the planning of byte ranges of a document, the windows of a batch of
  requests, and the two entry points \<open>fetch_documents\<close> and \<open>fetch_regions\<close>.
\<close>

section \<open>Planning\<close>

definition LARGE_DOCUMENT_BYTES :: nat where "LARGE_DOCUMENT_BYTES = 16 * 1024 * 1024"
definition WINDOW_BYTES :: nat where "WINDOW_BYTES = 32 * 1024 * 1024"
definition WINDOW_DOCUMENTS :: nat where "WINDOW_DOCUMENTS = 1024"
definition REGION_GAP_BYTES :: nat where "REGION_GAP_BYTES = 1024 * 1024"
definition REGION_MAX_RANGES :: nat where "REGION_MAX_RANGES = 512"

datatype pack_range =
    Regional nat nat nat
  | FullLines nat nat nat nat

datatype planned_read = ReadRegional | ReadFullLines nat nat

record planned_range =
  planned_start :: nat
  planned_end :: nat
  planned_read_as :: planned_read

record region_request =
  region_index :: nat
  region_slice :: pack_slice
  region_size :: nat
  region_ranges :: "pack_range list"
  region_newlines :: "nat list"

fun join_reads :: "planned_read \<Rightarrow> planned_read \<Rightarrow> planned_read" where
  "join_reads (ReadFullLines b a) (ReadFullLines b' a') = ReadFullLines (max b b') (max a a')"
| "join_reads ReadRegional (ReadFullLines b a) = ReadFullLines b a"
| "join_reads r _ = r"

definition merge_planned_step :: "nat \<Rightarrow> planned_range list \<Rightarrow> planned_range \<Rightarrow> planned_range list" where
  "merge_planned_step gap merged r =
     (if merged \<noteq> [] \<and> planned_start r - planned_end (last merged) \<le> gap
      then butlast merged @ [(last merged)\<lparr>planned_end := max (planned_end (last merged)) (planned_end r),
             planned_read_as := join_reads (planned_read_as (last merged)) (planned_read_as r)\<rparr>]
      else merged @ [r])"

text \<open>The sort is unstable in the code; ranges with equal starts merge into one, in any order.\<close>

definition merge_planned_ranges :: "planned_range list \<Rightarrow> nat \<Rightarrow> planned_range list" where
  "merge_planned_ranges ranges gap = foldl (merge_planned_step gap) [] (sort_key planned_start ranges)"

definition plan_range :: "nat \<Rightarrow> pack_range \<Rightarrow> planned_range result" where
  "plan_range dsize r =
     (let (a, b) = (case r of Regional a b _ \<Rightarrow> (a, b) | FullLines a b _ _ \<Rightarrow> (a, b))
      in ensure (a < b \<and> b \<le> dsize) ''candidate byte range is outside the document''
         (case r of
            Regional a b span \<Rightarrow>
              and_then (context_of (checked_sub span 1) ''regional span must be positive'') (\<lambda>overlap.
                Inr \<lparr>planned_start = a - overlap, planned_end = min (sat_add_u64 b overlap) dsize,
                     planned_read_as = ReadRegional\<rparr>)
          | FullLines a b before after \<Rightarrow>
              Inr \<lparr>planned_start = a, planned_end = b, planned_read_as = ReadFullLines before after\<rparr>))"

definition plan_pack_ranges :: "region_request \<Rightarrow> planned_range list option result" where
  "plan_pack_ranges req =
     and_then (visit_all (\<lambda>out r. and_then (plan_range (region_size req) r) (\<lambda>p. Inr (out @ [p]))) [] (region_ranges req)) (\<lambda>planned.
       let ranges = merge_planned_ranges planned REGION_GAP_BYTES
       in and_then (visit_all (\<lambda>covered r. context_of (add_u64 covered (planned_end r - planned_start r))
              ''candidate range coverage overflows'') 0 ranges) (\<lambda>covered.
            if length ranges > REGION_MAX_RANGES \<or> min (covered * 2) (2 ^ 64 - 1) > region_size req
            then Inr None else Inr (Some ranges)))"

section \<open>Entry points\<close>

datatype region_program = ProgramRegional | ProgramFull

record document_region =
  region_start :: nat
  region_line :: nat
  region_line_offset :: nat
  region_bytes :: bytes
  region_prog :: region_program

datatype fetched_document = Whole bytes | Regions nat "document_region list"

definition is_large_request :: "pack_request \<Rightarrow> bool" where
  "is_large_request req \<longleftrightarrow> decoded_size req \<ge> LARGE_DOCUMENT_BYTES"

function window_end :: "pack_request list \<Rightarrow> nat \<Rightarrow> nat \<Rightarrow> nat \<Rightarrow> nat" where
  "window_end reqs start e sz =
     (if e < length reqs \<and> e - start < WINDOW_DOCUMENTS
      then let req = reqs ! e; nxt = decoded_size req
           in if e > start \<and> (is_large_request req \<or> nxt > WINDOW_BYTES - sz) then e
              else if is_large_request req then Suc e
              else window_end reqs start (Suc e) (sat_add_u64 sz nxt)
      else e)"
  by pat_completeness auto
termination by (relation "measure (\<lambda>(reqs, start, e, sz). length reqs - e)") auto

declare window_end.simps [simp del]

lemma window_end_cases:
  obtains (stop) "window_end reqs start e sz = e"
      "e < length reqs \<and> e - start < WINDOW_DOCUMENTS \<longrightarrow>
         e > start \<and> (is_large_request (reqs ! e) \<or> decoded_size (reqs ! e) > WINDOW_BYTES - sz)"
  | (large) "window_end reqs start e sz = Suc e" "e < length reqs" "e - start < WINDOW_DOCUMENTS" "e \<le> start" "is_large_request (reqs ! e)"
  | (go) "window_end reqs start e sz = window_end reqs start (Suc e) (sat_add_u64 sz (decoded_size (reqs ! e)))"
      "e < length reqs" "e - start < WINDOW_DOCUMENTS" "\<not> is_large_request (reqs ! e)"
      "e \<le> start \<or> decoded_size (reqs ! e) \<le> WINDOW_BYTES - sz"
proof (cases "e < length reqs \<and> e - start < WINDOW_DOCUMENTS")
  case False
  then have "window_end reqs start e sz = e" by (subst window_end.simps) (simp only: if_False)
  with False that(1) show ?thesis by blast
next
  case True
  then show ?thesis
  proof (cases "e > start \<and> (is_large_request (reqs ! e) \<or> decoded_size (reqs ! e) > WINDOW_BYTES - sz)")
    case stop: True
    with True have "window_end reqs start e sz = e" by (subst window_end.simps) (simp only: if_True Let_def simp_thms)
    with stop that(1) show ?thesis by blast
  next
    case go: False
    have eq: "window_end reqs start e sz = (if is_large_request (reqs ! e) then Suc e
        else window_end reqs start (Suc e) (sat_add_u64 sz (decoded_size (reqs ! e))))"
      by (subst window_end.simps) (simp only: if_True if_False Let_def go True simp_thms)
    show ?thesis
    proof (cases "is_large_request (reqs ! e)")
      case large: True
      with eq have "window_end reqs start e sz = Suc e" by (simp only: if_True)
      with large go True show ?thesis by (intro that(2)) auto
    next
      case small: False
      with eq have "window_end reqs start e sz = window_end reqs start (Suc e) (sat_add_u64 sz (decoded_size (reqs ! e)))"
        by (simp only: if_False)
      with small go True show ?thesis by (intro that(3)) auto
    qed
  qed
qed

lemma window_end_bounds:
  "e \<le> length reqs \<Longrightarrow> e \<le> window_end reqs start e sz \<and> window_end reqs start e sz \<le> length reqs"
proof (induction "length reqs - e" arbitrary: e sz rule: less_induct)
  case less
  show ?case
  proof (cases rule: window_end_cases [of reqs start e sz])
    case go
    have "Suc e \<le> window_end reqs start (Suc e) (sat_add_u64 sz (decoded_size (reqs ! e)))
       \<and> window_end reqs start (Suc e) (sat_add_u64 sz (decoded_size (reqs ! e))) \<le> length reqs"
      using go(2) by (intro less(1)) linarith+
    with go(1) show ?thesis by linarith
  qed (use less in simp_all)
qed

lemma window_end_progress:
  assumes "start < length reqs"
  shows "start < window_end reqs start start 0"
proof (cases rule: window_end_cases [of reqs start start 0])
  case stop
  with assms show ?thesis by (simp add: WINDOW_DOCUMENTS_def)
next
  case go
  with window_end_bounds [of "Suc start" reqs start] show ?thesis by (simp add: Suc_le_eq)
qed simp

function request_windows_from :: "pack_request list \<Rightarrow> nat \<Rightarrow> (nat \<times> nat) list" where
  "request_windows_from reqs start =
     (if start \<ge> length reqs then []
      else let e = window_end reqs start start 0 in (start, e) # request_windows_from reqs e)"
  by pat_completeness auto
termination
proof (relation "measure (\<lambda>(reqs, start). length reqs - start)")
  fix reqs :: "pack_request list" and start e
  assume "\<not> length reqs \<le> start" and "e = window_end reqs start start 0"
  then show "((reqs, e), reqs, start) \<in> measure (\<lambda>(reqs, start). length reqs - start)"
    using window_end_progress [of start reqs] by (simp add: diff_less_mono2)
qed simp

declare request_windows_from.simps [simp del]

definition request_windows :: "pack_request list \<Rightarrow> (nat \<times> nat) list" where
  "request_windows reqs = request_windows_from reqs 0"

text \<open>\<open>consume\<close> is the caller's callback, with its state.\<close>

type_synonym ('c, 'd) consumer = "'c \<Rightarrow> nat \<Rightarrow> 'd \<Rightarrow> 'c result"

definition window_parts :: "pack_env \<Rightarrow> nat set \<times> doc_part list list \<Rightarrow> pack_request \<Rightarrow> (nat set \<times> doc_part list list) result" where
  "window_parts E = (\<lambda>(ids, parts) req.
     and_then (document_blocks (request_slice req) (decoded_size req) (env_blocks E)) (\<lambda>document_parts.
     and_then (if decoded_size req > 0
         then collect_request_blocks (request_slice req) (decoded_size req) [(0, decoded_size req)] (env_blocks E) ids
         else Inr ids) (\<lambda>ids'. Inr (ids', parts @ [document_parts]))))"

definition fetch_window ::
    "pack_env \<Rightarrow> ('c, bytes) consumer \<Rightarrow> pack_request list \<Rightarrow> 'c \<times> batch \<Rightarrow> ('c \<times> batch) result" where
  "fetch_window E consume reqs = (\<lambda>(c, st, d).
     if length reqs = 1 \<and> is_large_request (hd reqs)
     then and_then (fetch_large (env_crates E) (env_store E) (env_cache E) (env_metas E) (env_blocks E) (hd reqs) d) (\<lambda>(body, d').
          and_then (consume c (request_index (hd reqs)) body) (\<lambda>c'. Inr (c', st, d')))
     else and_then (visit_all (window_parts E) ({}, []) reqs) (\<lambda>(ids, parts).
          and_then (load_blocks E ids (st, d)) (\<lambda>s.
          visit_all (\<lambda>(c, s) (req, ps).
              and_then (read_range E ps s (0, decoded_size req)) (\<lambda>(bs, s').
              and_then (consume c (request_index req) bs) (\<lambda>c'. Inr (c', s')))) (c, s) (zip reqs parts))))"

definition fetch_documents ::
    "pack_env \<Rightarrow> ('c, bytes) consumer \<Rightarrow> pack_request list \<Rightarrow> 'c \<Rightarrow> batch \<Rightarrow> ('c \<times> batch) result" where
  "fetch_documents E consume reqs c s =
     visit_all (\<lambda>cs (i, e). fetch_window E consume (sub_slice reqs i e) cs) (c, s) (request_windows reqs)"

definition spool_part :: "pack_env \<Rightarrow> doc_part list \<Rightarrow> bytes \<times> batch \<Rightarrow> doc_part \<Rightarrow> (bytes \<times> batch) result" where
  "spool_part E parts = (\<lambda>(spool, s) part.
     and_then (context_of (add_u64 (part_start part) (part_len part)) ''document block range overflows'') (\<lambda>e.
     and_then (read_range E parts s (part_start part, e)) (\<lambda>(bs, s).
     and_then (write_at spool (part_start part) bs) (\<lambda>spool. Inr (spool, s)))))"

definition fetch_large_reusing_blocks :: "pack_env \<Rightarrow> pack_request \<Rightarrow> batch \<Rightarrow> (bytes \<times> batch) result" where
  "fetch_large_reusing_blocks E req s =
     and_then (document_blocks (request_slice req) (decoded_size req) (env_blocks E)) (\<lambda>parts.
     and_then (load_blocks E (part_block ` set parts) s) (\<lambda>s.
     visit_all (spool_part E parts) (new_spool (decoded_size req), s) parts))"

datatype planned_request =
    PlanWhole "doc_part list"
  | PlanRegions "doc_part list" "planned_range list"

definition plan_region_request ::
    "pack_env \<Rightarrow> nat set \<times> planned_request list \<Rightarrow> region_request \<Rightarrow> (nat set \<times> planned_request list) result" where
  "plan_region_request E = (\<lambda>(ids, plans) req.
     and_then (document_blocks (region_slice req) (region_size req) (env_blocks E)) (\<lambda>parts.
     and_then (plan_pack_ranges req) (\<lambda>planned.
     case planned of
       None \<Rightarrow>
         and_then (if region_size req < LARGE_DOCUMENT_BYTES \<and> region_size req > 0
             then collect_request_blocks (region_slice req) (region_size req) [(0, region_size req)] (env_blocks E) ids
             else Inr ids) (\<lambda>ids'. Inr (ids', plans @ [PlanWhole parts]))
     | Some ranges \<Rightarrow>
         and_then (collect_request_blocks (region_slice req) (region_size req)
             (map (\<lambda>r. (planned_start r, planned_end r)) ranges) (env_blocks E) ids)
           (\<lambda>ids'. Inr (ids', plans @ [PlanRegions parts ranges])))))"

definition exact_range ::
    "'s reader \<Rightarrow> region_request \<Rightarrow> planned_range list \<times> 's \<Rightarrow> planned_range \<Rightarrow> (planned_range list \<times> 's) result" where
  "exact_range read req = (\<lambda>(exact, s) r.
     case planned_read_as r of
       ReadRegional \<Rightarrow> Inr (exact @ [r], s)
     | ReadFullLines before after \<Rightarrow>
         and_then (extend_line_range read (region_newlines req) (region_size req) (planned_start r, planned_end r) (before, after) s)
           (\<lambda>((a, b), s'). Inr (exact @ [\<lparr>planned_start = a, planned_end = b, planned_read_as = ReadFullLines before after\<rparr>], s')))"

definition read_region ::
    "'s reader \<Rightarrow> nat list \<Rightarrow> nat \<Rightarrow> document_region list \<times> 's \<Rightarrow> planned_range \<Rightarrow> (document_region list \<times> 's) result" where
  "read_region read newlines dsize = (\<lambda>(regions, s) r.
     and_then (locate_line read newlines dsize (planned_start r) s) (\<lambda>((line, line_offset), s).
     and_then (read s (planned_start r, planned_end r)) (\<lambda>(bs, s).
       Inr (regions @ [\<lparr>region_start = planned_start r, region_line = line, region_line_offset = line_offset, region_bytes = bs,
              region_prog = (case planned_read_as r of ReadRegional \<Rightarrow> ProgramRegional | ReadFullLines _ _ \<Rightarrow> ProgramFull)\<rparr>], s))))"

definition fetch_region ::
    "pack_env \<Rightarrow> ('c, fetched_document) consumer \<Rightarrow> 'c \<times> batch \<Rightarrow> region_request \<times> planned_request \<Rightarrow> ('c \<times> batch) result" where
  "fetch_region E consume = (\<lambda>(c, s) (req, plan).
     case plan of
       PlanWhole parts \<Rightarrow>
         if region_size req \<ge> LARGE_DOCUMENT_BYTES
         then and_then (fetch_large_reusing_blocks E \<lparr>request_index = region_index req, request_slice = region_slice req,
                  decoded_size = region_size req\<rparr> s) (\<lambda>(body, s').
              and_then (consume c (region_index req) (Whole body)) (\<lambda>c'. Inr (c', s')))
         else and_then (read_range E parts s (0, region_size req)) (\<lambda>(bs, s').
              and_then (consume c (region_index req) (Whole bs)) (\<lambda>c'. Inr (c', s')))
     | PlanRegions parts ranges \<Rightarrow>
         and_then (visit_all (exact_range (read_range E parts) req) ([], s) ranges) (\<lambda>(exact, s).
         and_then (visit_all (read_region (read_range E parts) (region_newlines req) (parts_size parts)) ([], s)
             (merge_planned_ranges exact 0)) (\<lambda>(regions, s).
         and_then (consume c (region_index req) (Regions (region_size req) regions)) (\<lambda>c'. Inr (c', s)))))"

definition fetch_regions ::
    "pack_env \<Rightarrow> ('c, fetched_document) consumer \<Rightarrow> region_request list \<Rightarrow> 'c \<Rightarrow> batch \<Rightarrow> ('c \<times> batch) result" where
  "fetch_regions E consume reqs c s =
     and_then (visit_all (plan_region_request E) ({}, []) reqs) (\<lambda>(ids, plans).
     and_then (load_blocks E ids s) (\<lambda>s'. visit_all (fetch_region E consume) (c, s') (zip reqs plans)))"

section \<open>Merged ranges cover what was asked\<close>

fun covers_read :: "planned_read \<Rightarrow> planned_read \<Rightarrow> bool" where
  "covers_read ReadRegional r \<longleftrightarrow> True"
| "covers_read (ReadFullLines b a) (ReadFullLines b' a') \<longleftrightarrow> b \<le> b' \<and> a \<le> a'"
| "covers_read (ReadFullLines b a) ReadRegional \<longleftrightarrow> False"

definition within :: "planned_range \<Rightarrow> planned_range \<Rightarrow> bool" where
  "within r r' \<longleftrightarrow> planned_start r' \<le> planned_start r \<and> planned_end r \<le> planned_end r' \<and>
     covers_read (planned_read_as r) (planned_read_as r')"

lemma covers_read_refl [simp]: "covers_read r r"
  by (cases r) auto

lemma covers_read_trans: "covers_read r r' \<Longrightarrow> covers_read r' r'' \<Longrightarrow> covers_read r r''"
  by (cases r; cases r'; cases r'') auto

lemma covers_read_join [simp]: "covers_read r (join_reads r r')" "covers_read r' (join_reads r r')"
  by (cases r; cases r'; simp)+

lemma within_refl: "within r r"
  by (simp add: within_def)

lemma within_trans: "within r r' \<Longrightarrow> within r' r'' \<Longrightarrow> within r r''"
  unfolding within_def using covers_read_trans by (meson order_trans)

definition valid_range :: "nat \<Rightarrow> planned_range \<Rightarrow> bool" where
  "valid_range dsize r \<longleftrightarrow> planned_start r < planned_end r \<and> planned_end r \<le> dsize"

lemma merge_step_within:
  assumes "merged \<noteq> [] \<longrightarrow> planned_start (last merged) \<le> planned_start r"
  shows "\<exists>r''\<in>set (merge_planned_step gap merged r). within r r''"
    and "r' \<in> set merged \<Longrightarrow> \<exists>r''\<in>set (merge_planned_step gap merged r). within r' r''"
    and "planned_start (last (merge_planned_step gap merged r)) \<le> planned_start r"
    and "merge_planned_step gap merged r \<noteq> []"
proof -
  show "\<exists>r''\<in>set (merge_planned_step gap merged r). within r r''"
    using assms by (auto simp: merge_planned_step_def within_def Let_def)
  show "planned_start (last (merge_planned_step gap merged r)) \<le> planned_start r"
    "merge_planned_step gap merged r \<noteq> []"
    using assms by (auto simp: merge_planned_step_def)
  assume r': "r' \<in> set merged"
  let ?l = "(last merged)\<lparr>planned_end := max (planned_end (last merged)) (planned_end r),
    planned_read_as := join_reads (planned_read_as (last merged)) (planned_read_as r)\<rparr>"
  have l: "within (last merged) ?l" by (simp add: within_def)
  show "\<exists>r''\<in>set (merge_planned_step gap merged r). within r' r''"
  proof (cases "r' = last merged")
    case True
    with r' l within_refl [of r'] show ?thesis unfolding merge_planned_step_def by auto
  next
    case False
    with r' have "r' \<in> set (butlast merged)" by (induction merged) auto
    with r' within_refl [of r'] show ?thesis unfolding merge_planned_step_def by auto
  qed
qed

lemma merge_fold_within:
  "sorted (map planned_start rs) \<Longrightarrow> \<forall>r\<in>set rs. merged \<noteq> [] \<longrightarrow> planned_start (last merged) \<le> planned_start r \<Longrightarrow>
     r' \<in> set merged \<union> set rs \<Longrightarrow> \<exists>r''\<in>set (foldl (merge_planned_step gap) merged rs). within r' r''"
proof (induction rs arbitrary: merged r')
  case Nil
  then show ?case using within_refl by auto
next
  case (Cons r rs)
  note s = merge_step_within [of merged r]
  have next_le: "\<forall>r1\<in>set rs. merge_planned_step gap merged r \<noteq> [] \<longrightarrow>
      planned_start (last (merge_planned_step gap merged r)) \<le> planned_start r1"
  proof (intro ballI impI)
    fix r1 assume r1: "r1 \<in> set rs"
    have "planned_start (last (merge_planned_step gap merged r)) \<le> planned_start r" using Cons.prems(2) by (intro s(3)) simp
    also have "\<dots> \<le> planned_start r1" using Cons.prems(1) r1 by simp
    finally show "planned_start (last (merge_planned_step gap merged r)) \<le> planned_start r1" .
  qed
  have "\<exists>r1\<in>set (merge_planned_step gap merged r) \<union> set rs. within r' r1"
  proof (cases "r' \<in> set merged \<or> r' = r")
    case True
    have "merged \<noteq> [] \<longrightarrow> planned_start (last merged) \<le> planned_start r" using Cons.prems(2) by simp
    with True s(1,2) show ?thesis by blast
  next
    case False
    with Cons.prems(3) within_refl [of r'] show ?thesis by auto
  qed
  then obtain r1 where r1: "r1 \<in> set (merge_planned_step gap merged r) \<union> set rs" "within r' r1" by blast
  from Cons.IH [OF _ next_le r1(1)] Cons.prems(1) obtain r2 where
    "r2 \<in> set (foldl (merge_planned_step gap) (merge_planned_step gap merged r) rs)" "within r1 r2" by auto
  with within_trans [OF r1(2)] show ?case by auto
qed

lemma merge_planned_within: "r \<in> set rs \<Longrightarrow> \<exists>r'\<in>set (merge_planned_ranges rs gap). within r r'"
  unfolding merge_planned_ranges_def by (rule merge_fold_within) auto

lemma merge_fold_valid:
  "\<forall>r\<in>set merged \<union> set rs. valid_range dsize r \<Longrightarrow> \<forall>r\<in>set (foldl (merge_planned_step gap) merged rs). valid_range dsize r"
proof (induction rs arbitrary: merged)
  case (Cons r rs)
  have "\<forall>r'\<in>set (merge_planned_step gap merged r). valid_range dsize r'"
    using Cons.prems unfolding merge_planned_step_def
    by (auto simp: valid_range_def less_max_iff_disj dest: in_set_butlastD)
  with Cons show ?case by auto
qed simp

lemma merge_planned_valid:
  "\<forall>r\<in>set rs. valid_range dsize r \<Longrightarrow> r \<in> set (merge_planned_ranges rs gap) \<Longrightarrow> valid_range dsize r"
  unfolding merge_planned_ranges_def using merge_fold_valid [of "[]" "sort_key planned_start rs" dsize gap] by auto

text \<open>\<open>asks dsize r p\<close>: the planned range \<open>p\<close> covers the request \<open>r\<close>, a regional one with \<open>span - 1\<close> bytes on both sides.\<close>

fun asks :: "nat \<Rightarrow> pack_range \<Rightarrow> planned_range \<Rightarrow> bool" where
  "asks dsize (Regional a b span) p \<longleftrightarrow>
     0 < span \<and> planned_start p \<le> a - (span - 1) \<and> min (b + (span - 1)) dsize \<le> planned_end p"
| "asks dsize (FullLines a b before after) p \<longleftrightarrow>
     planned_start p \<le> a \<and> b \<le> planned_end p \<and> covers_read (ReadFullLines before after) (planned_read_as p)"

lemma asks_within: "asks dsize r p \<Longrightarrow> within p p' \<Longrightarrow> asks dsize r p'"
  by (cases r) (auto simp: within_def intro: covers_read_trans)

definition pack_range_bytes :: "pack_range \<Rightarrow> nat \<times> nat" where
  "pack_range_bytes r = (case r of Regional a b _ \<Rightarrow> (a, b) | FullLines a b _ _ \<Rightarrow> (a, b))"

lemma plan_range_asks:
  assumes "plan_range dsize r = Inr p" "dsize < 2 ^ 64"
  shows "asks dsize r p" "valid_range dsize p"
    "fst (pack_range_bytes r) < snd (pack_range_bytes r)" "snd (pack_range_bytes r) \<le> dsize"
  using assms by (cases r; auto simp: plan_range_def valid_range_def sat_add_u64_def pack_range_bytes_def Let_def)+

lemma collect_visited:
  assumes "visit_all (\<lambda>out r. and_then (f r) (\<lambda>p. Inr (out @ [p]))) out rs = Inr ps"
  shows "\<exists>qs. ps = out @ qs \<and> list_all2 (\<lambda>r p. f r = Inr p) rs qs"
  using assms
proof (induction rs arbitrary: out)
  case (Cons r rs)
  then obtain p where p: "f r = Inr p" "visit_all (\<lambda>out r. and_then (f r) (\<lambda>p. Inr (out @ [p]))) (out @ [p]) rs = Inr ps"
    by (auto simp: visit_all_Cons simp del: visit_all.simps(2))
  from Cons.IH [OF p(2)] p(1) show ?case by auto
qed simp

lemma list_all2_setD: "list_all2 P xs ys \<Longrightarrow> y \<in> set ys \<Longrightarrow> \<exists>x\<in>set xs. P x y"
  by (auto simp: list_all2_conv_all_nth in_set_conv_nth) (metis nth_mem)

lemma list_all2_swap: "list_all2 P xs ys \<Longrightarrow> list_all2 (\<lambda>y x. P x y) ys xs"
  by (simp add: list_all2_conv_all_nth)

lemma plan_pack_ranges_asks:
  assumes "plan_pack_ranges req = Inr planned" "region_size req < 2 ^ 64" "r \<in> set (region_ranges req)"
  shows "fst (pack_range_bytes r) < snd (pack_range_bytes r)" "snd (pack_range_bytes r) \<le> region_size req"
    and "planned = Some ranges \<Longrightarrow> \<exists>p\<in>set ranges. asks (region_size req) r p"
proof -
  from assms(1) obtain ps where
    "visit_all (\<lambda>out r. and_then (plan_range (region_size req) r) (\<lambda>p. Inr (out @ [p]))) [] (region_ranges req) = Inr ps"
    and m: "planned = Some ranges \<Longrightarrow> ranges = merge_planned_ranges ps REGION_GAP_BYTES"
    by (auto simp: plan_pack_ranges_def Let_def split: if_splits)
  from collect_visited [OF this(1)] have l: "list_all2 (\<lambda>r p. plan_range (region_size req) r = Inr p) (region_ranges req) ps" by simp
  from assms(3) obtain k where "k < length (region_ranges req)" "r = region_ranges req ! k" by (auto simp: in_set_conv_nth)
  with l have p: "ps ! k \<in> set ps" "plan_range (region_size req) r = Inr (ps ! k)" by (auto simp: list_all2_conv_all_nth)
  note a = plan_range_asks [OF p(2) assms(2)]
  show "fst (pack_range_bytes r) < snd (pack_range_bytes r)" "snd (pack_range_bytes r) \<le> region_size req" by (rule a)+
  assume "planned = Some ranges"
  with m merge_planned_within [OF p(1), of REGION_GAP_BYTES] asks_within [OF a(1)]
  show "\<exists>p\<in>set ranges. asks (region_size req) r p" by auto
qed

lemma plan_pack_ranges_valid:
  assumes "plan_pack_ranges req = Inr (Some ranges)" "region_size req < 2 ^ 64" "p \<in> set ranges"
  shows "valid_range (region_size req) p"
proof -
  from assms(1) obtain ps where
    "visit_all (\<lambda>out r. and_then (plan_range (region_size req) r) (\<lambda>p. Inr (out @ [p]))) [] (region_ranges req) = Inr ps"
    and m: "ranges = merge_planned_ranges ps REGION_GAP_BYTES"
    by (auto simp: plan_pack_ranges_def Let_def split: if_splits)
  from collect_visited [OF this(1)] have "list_all2 (\<lambda>r p. plan_range (region_size req) r = Inr p) (region_ranges req) ps" by simp
  then have "\<forall>p\<in>set ps. valid_range (region_size req) p"
    using plan_range_asks(2) [OF _ assms(2)] by (blast dest: list_all2_setD)
  with merge_planned_valid assms(3) m show ?thesis by blast
qed

section \<open>Whole lines of nested ranges\<close>

lemma newline_inside: "a \<le> x \<Longrightarrow> x < b \<Longrightarrow> x < length doc \<Longrightarrow> doc ! x = 10 \<Longrightarrow>
    nls doc a b = nls doc a x + 1 + nls doc (Suc x) b"
  using nls_split [of a x b doc] nls_split [of x "Suc x" b doc] nls_newline [of x doc] by simp

lemma whole_lines_nested:
  assumes w: "whole_lines doc (a, b) (before, after) (a', b')" and w': "whole_lines doc (A, B) (Before, After) (A', B')"
    and in_range: "A \<le> a" "a \<le> b" "b \<le> B" "B \<le> length doc" and ctx: "before \<le> Before" "after \<le> After"
  shows "A' \<le> a' \<and> b' \<le> B'"
proof
  show "A' \<le> a'"
  proof (rule ccontr)
    assume n: "\<not> A' \<le> a'"
    with w' have A: "0 < A'" "doc ! (A' - 1) = 10" "nls doc A' A = Before" "A' \<le> A" by (auto simp: whole_lines_def)
    have "nls doc a' a = nls doc a' (A' - 1) + 1 + nls doc A' a"
      using newline_inside [of a' "A' - 1" a doc] n A in_range by simp
    moreover have "nls doc A' a \<ge> Before" using nls_mono [of A' A a doc] A in_range by simp
    moreover have "nls doc a' a \<le> before" using w by (auto simp: whole_lines_def)
    ultimately show False using ctx by linarith
  qed
  show "b' \<le> B'"
  proof (rule ccontr)
    assume n: "\<not> b' \<le> B'"
    define ends where "ends x = (if 0 < x \<and> doc ! (x - 1) = 10 then 0 else 1 :: nat)" for x
    from w have b: "b \<le> b'" "b' \<le> length doc"
      "b' = length doc \<and> nls doc b b' < after + ends b \<or> 0 < b' \<and> doc ! (b' - 1) = 10 \<and> nls doc b b' = after + ends b"
      by (auto simp: whole_lines_def Let_def ends_def)
    from w' n b(2) have B: "B \<le> B'" "nls doc B B' = After + ends B" by (auto simp: whole_lines_def Let_def ends_def)
    have "ends b \<le> nls doc b B + ends B"
    proof (cases "b = B")
      case False
      with in_range newline_inside [of b "B - 1" B doc] show ?thesis by (auto simp: ends_def)
    qed simp
    then have need: "after + ends b \<le> nls doc b B'" using nls_split [of b B B' doc] B in_range ctx by linarith
    from b(3) show False
    proof (elim disjE conjE)
      assume "b' = length doc" "nls doc b b' < after + ends b"
      with need nls_mono [of b B' b' doc] B in_range n show False by linarith
    next
      assume "0 < b'" "doc ! (b' - 1) = 10" "nls doc b b' = after + ends b"
      moreover from this have "nls doc b b' = nls doc b (b' - 1) + 1"
        using newline_inside [of b "b' - 1" b' doc] n B in_range b by simp
      moreover have "nls doc b B' \<le> nls doc b (b' - 1)" using nls_mono [of b B' "b' - 1" doc] n B in_range by simp
      ultimately show False using need by linarith
    qed
  qed
qed

text \<open>Every range has its whole lines: the reference reader over the document in memory finds them.\<close>

interpretation in_memory: range_server "\<lambda>s (a, b). Inr (sub_slice doc a b, s)" "\<lambda>_. True" doc
  by unfold_locales auto

lemma counts_newlines_exists: "\<exists>newlines. counts_newlines doc newlines"
  by (rule exI [of _ "map (\<lambda>b. nls doc (block_start b) (block_start (b + 1))) [0..<div_ceil (length doc) CANDIDATE_BLOCK_BYTES]"])
    (simp add: counts_newlines_def)

lemma nls_le_diff: "nls doc a b \<le> length doc - a"
  unfolding nls_def using count_le_length [of "sub_slice doc a b" 10] by simp

lemma whole_lines_exists:
  assumes "a \<le> b" "b \<le> length doc" "length doc < 2 ^ 64" "before + 1 < 2 ^ 64"
  shows "\<exists>a' b'. whole_lines doc (a, b) (before, after) (a', b')"
proof -
  obtain newlines where n: "counts_newlines doc newlines" using counts_newlines_exists by blast
  have ex: "\<exists>r. whole_lines doc (a, b) (before, k) r" if k: "k + 1 < 2 ^ 64" for k
  proof -
    from in_memory.extend_line_range_total [OF n assms(1,2) TrueI assms(3,4) k, of "()"] obtain r s where
      "extend_line_range (\<lambda>s (a, b). Inr (sub_slice doc a b, s)) newlines (length doc) (a, b) (before, k) () = Inr (r, s)" by auto
    from in_memory.extend_line_range_ok [OF n assms(1,2) TrueI this] show ?thesis by blast
  qed
  show ?thesis
  proof (cases "after + 1 < 2 ^ 64")
    case True
    from ex [OF this] show ?thesis by auto
  next
    case False
    from ex [of 0] obtain a' b' where w: "whole_lines doc (a, b) (before, 0) (a', b')" by auto
    have "nls doc b (length doc) < after + (if 0 < b \<and> doc ! (b - 1) = 10 then 0 else 1)"
      using nls_le_diff [of doc b "length doc"] False assms(2,3) by (cases "b = 0") auto
    with w assms(2) have "whole_lines doc (a, b) (before, after) (a', length doc)" by (auto simp: whole_lines_def Let_def)
    then show ?thesis by blast
  qed
qed

section \<open>Regions of a document\<close>

text \<open>Each planned full-line range becomes its whole lines; a regional range stays.\<close>

definition exactly :: "bytes \<Rightarrow> planned_range \<Rightarrow> planned_range \<Rightarrow> bool" where
  "exactly doc p q \<longleftrightarrow> planned_read_as q = planned_read_as p \<and>
     (case planned_read_as p of
        ReadRegional \<Rightarrow> q = p
      | ReadFullLines before after \<Rightarrow> before + 1 < 2 ^ 64 \<and>
          whole_lines doc (planned_start p, planned_end p) (before, after) (planned_start q, planned_end q))"

lemma exactly_within: "exactly doc p q \<Longrightarrow> within p q"
  by (auto simp: exactly_def within_def whole_lines_def split: planned_read.splits)

lemma exactly_valid: "exactly doc p q \<Longrightarrow> valid_range (length doc) p \<Longrightarrow> valid_range (length doc) q"
  by (auto simp: exactly_def valid_range_def whole_lines_def split: planned_read.splits)

definition region_of :: "bytes \<Rightarrow> planned_range \<Rightarrow> document_region \<Rightarrow> bool" where
  "region_of doc p g \<longleftrightarrow> region_start g = planned_start p \<and>
     region_bytes g = sub_slice doc (planned_start p) (planned_end p) \<and>
     line_at doc (planned_start p) (region_line g, region_line_offset g) \<and>
     region_prog g = (case planned_read_as p of ReadRegional \<Rightarrow> ProgramRegional | ReadFullLines _ _ \<Rightarrow> ProgramFull)"

lemma extend_line_range_before:
  "extend_line_range read newlines dsize r (before, after) s = Inr x \<Longrightarrow> before + 1 < 2 ^ 64"
  by (auto simp: extend_line_range_def)

context range_reader
begin

lemma exact_ranges_ok:
  assumes "counts_newlines doc (region_newlines req)" "region_size req = length doc"
    and "\<forall>p\<in>set ranges. valid_range (length doc) p" "ok s"
    and "visit_all (exact_range read req) (exact, s) ranges = Inr (out, s')"
  shows "\<exists>qs. out = exact @ qs \<and> list_all2 (exactly doc) ranges qs \<and> ok s'"
  using assms(3-)
proof (induction ranges arbitrary: exact s)
  case (Cons p ranges)
  from Cons.prems(3) obtain exact1 s1 where
    1: "exact_range read req (exact, s) p = Inr (exact1, s1)" "visit_all (exact_range read req) (exact1, s1) ranges = Inr (out, s')"
    by (auto simp: visit_all_Cons simp del: visit_all.simps(2))
  have "\<exists>q. exact1 = exact @ [q] \<and> exactly doc p q \<and> ok s1"
  proof (cases "planned_read_as p")
    case ReadRegional
    with 1(1) Cons.prems(2) show ?thesis by (auto simp: exact_range_def exactly_def)
  next
    case (ReadFullLines before after)
    with 1(1) obtain a b where e: "exact1 = exact @ [\<lparr>planned_start = a, planned_end = b, planned_read_as = ReadFullLines before after\<rparr>]"
      "extend_line_range read (region_newlines req) (length doc) (planned_start p, planned_end p) (before, after) s = Inr ((a, b), s1)"
      by (auto simp: exact_range_def assms(2))
    have v: "planned_start p \<le> planned_end p" "planned_end p \<le> length doc" using Cons.prems(1) by (auto simp: valid_range_def)
    from extend_line_range_ok [OF assms(1) v Cons.prems(2) e(2)] extend_line_range_before [OF e(2)] e(1) ReadFullLines
    show ?thesis by (auto simp: exactly_def)
  qed
  then obtain q where q: "exact1 = exact @ [q]" "exactly doc p q" "ok s1" by blast
  from Cons.IH [OF _ q(3) 1(2)] Cons.prems(1) q show ?case by auto
qed simp

lemma read_regions_ok:
  assumes "counts_newlines doc newlines" "\<forall>p\<in>set ranges. valid_range (length doc) p" "ok s"
    and "visit_all (read_region read newlines (length doc)) (regions, s) ranges = Inr (out, s')"
  shows "\<exists>gs. out = regions @ gs \<and> list_all2 (region_of doc) ranges gs \<and> ok s'"
  using assms(2-)
proof (induction ranges arbitrary: regions s)
  case (Cons p ranges)
  from Cons.prems(3) obtain regions1 s1 where
    1: "read_region read newlines (length doc) (regions, s) p = Inr (regions1, s1)"
      "visit_all (read_region read newlines (length doc)) (regions1, s1) ranges = Inr (out, s')"
    by (auto simp: visit_all_Cons simp del: visit_all.simps(2))
  from 1(1) obtain line lo s2 bs where
    2: "locate_line read newlines (length doc) (planned_start p) s = Inr ((line, lo), s2)"
      "read s2 (planned_start p, planned_end p) = Inr (bs, s1)"
      "regions1 = regions @ [\<lparr>region_start = planned_start p, region_line = line, region_line_offset = lo, region_bytes = bs,
        region_prog = (case planned_read_as p of ReadRegional \<Rightarrow> ProgramRegional | ReadFullLines _ _ \<Rightarrow> ProgramFull)\<rparr>]"
    by (auto simp: read_region_def)
  have v: "planned_start p \<le> length doc" "planned_start p \<le> planned_end p" "planned_end p \<le> length doc"
    using Cons.prems(1) by (auto simp: valid_range_def)
  from locate_line_ok [OF assms(1) v(1) Cons.prems(2) 2(1)] have l: "line_at doc (planned_start p) (line, lo)" "ok s2" by simp_all
  from read_ok [OF l(2) v(2,3) 2(2)] l(1) 2(3) have
    g: "\<exists>g. regions1 = regions @ [g] \<and> region_of doc p g" "ok s1" by (auto simp: region_of_def)
  then obtain g where "regions1 = regions @ [g]" "region_of doc p g" by blast
  with Cons.IH [OF _ g(2) 1(2)] Cons.prems(1) show ?case by auto
qed simp

end

text \<open>What a consumer gets for a request: the document, or regions of it that cover every requested range.\<close>

definition genuine :: "bytes \<Rightarrow> document_region \<Rightarrow> bool" where
  "genuine doc g \<longleftrightarrow> region_start g + length (region_bytes g) \<le> length doc \<and>
     region_bytes g = sub_slice doc (region_start g) (region_start g + length (region_bytes g)) \<and>
     line_at doc (region_start g) (region_line g, region_line_offset g)"

fun served_by :: "bytes \<Rightarrow> pack_range \<Rightarrow> document_region \<Rightarrow> bool" where
  "served_by doc (Regional a b span) g \<longleftrightarrow>
     region_start g \<le> a - (span - 1) \<and> min (b + (span - 1)) (length doc) \<le> region_start g + length (region_bytes g)"
| "served_by doc (FullLines a b before after) g \<longleftrightarrow> region_prog g = ProgramFull \<and>
     (\<exists>a' b'. whole_lines doc (a, b) (before, after) (a', b') \<and>
        region_start g \<le> a' \<and> b' \<le> region_start g + length (region_bytes g))"

fun delivered :: "bytes \<Rightarrow> pack_range list \<Rightarrow> fetched_document \<Rightarrow> bool" where
  "delivered doc asked (Whole body) \<longleftrightarrow> body = doc"
| "delivered doc asked (Regions n regions) \<longleftrightarrow> n = length doc \<and> (\<forall>g\<in>set regions. genuine doc g) \<and>
     (\<forall>r\<in>set asked. \<exists>g\<in>set regions. served_by doc r g)"

lemma region_of_end:
  "region_of doc p g \<Longrightarrow> valid_range (length doc) p \<Longrightarrow> region_start g + length (region_bytes g) = planned_end p"
  by (auto simp: region_of_def valid_range_def)

lemma region_of_genuine: "region_of doc p g \<Longrightarrow> valid_range (length doc) p \<Longrightarrow> genuine doc g"
  using region_of_end [of doc p g] by (auto simp: genuine_def region_of_def valid_range_def)

lemma region_serves:
  assumes asks: "asks (length doc) r p" and p: "valid_range (length doc) p" and ex: "exactly doc p q"
    and q: "within q q'" "valid_range (length doc) q'" and g: "region_of doc q' g"
    and r: "fst (pack_range_bytes r) < snd (pack_range_bytes r)" "snd (pack_range_bytes r) \<le> length doc"
    and fits: "length doc < 2 ^ 64"
  shows "served_by doc r g"
proof (cases r)
  case (Regional a b span)
  from exactly_within [OF ex] q(1) have "within p q'" by (rule within_trans)
  note a = asks_within [OF asks this, unfolded Regional asks.simps]
  have "region_start g = planned_start q'" using g by (simp add: region_of_def)
  with a show ?thesis unfolding Regional served_by.simps region_of_end [OF g q(2)] by (simp only: simp_thms)
next
  case (FullLines a b before after)
  with asks obtain Before After where c: "planned_read_as p = ReadFullLines Before After" "before \<le> Before" "after \<le> After"
    "planned_start p \<le> a" "b \<le> planned_end p" by (cases "planned_read_as p") auto
  with ex have w: "whole_lines doc (planned_start p, planned_end p) (Before, After) (planned_start q, planned_end q)"
    "Before + 1 < 2 ^ 64" by (auto simp: exactly_def)
  have ab: "a \<le> b" "b \<le> length doc" using r FullLines by (auto simp: pack_range_bytes_def)
  obtain a' b' where w': "whole_lines doc (a, b) (before, after) (a', b')"
    using whole_lines_exists [OF ab fits] w(2) c(2) by fastforce
  have "planned_start q \<le> a' \<and> b' \<le> planned_end q"
    using whole_lines_nested [OF w' w(1) c(4) ab(1) c(5) _ c(2,3)] p by (simp add: valid_range_def)
  moreover have "planned_read_as q' \<noteq> ReadRegional" using q(1) ex c(1) by (cases "planned_read_as q'") (auto simp: exactly_def within_def)
  ultimately have "region_start g \<le> a' \<and> b' \<le> planned_end q' \<and> region_prog g = ProgramFull"
    using q(1) g by (cases "planned_read_as q'") (auto simp: region_of_def within_def)
  with w' show ?thesis unfolding FullLines served_by.simps region_of_end [OF g q(2)] by blast
qed

section \<open>Whole documents\<close>

lemma parts_size_doc: "tiles ds doc 0 parts \<Longrightarrow> length doc < 2 ^ 64 \<Longrightarrow> parts_size parts = length doc"
proof -
  have "tiles ds doc p parts \<Longrightarrow> parts \<noteq> [] \<Longrightarrow> part_start (last parts) + part_len (last parts) = length doc" for p
    by (induction parts arbitrary: p) auto
  then show "tiles ds doc 0 parts \<Longrightarrow> length doc < 2 ^ 64 \<Longrightarrow> parts_size parts = length doc"
    by (cases "parts = []") (auto simp: parts_size_def sat_add_u64_def)
qed

lemma spool_parts:
  assumes "env_holds E ds" "tiles ds doc 0 parts"
  shows "tiles ds doc p qs \<Longrightarrow> length spool = length doc \<Longrightarrow> take p spool = take p doc \<Longrightarrow> batch_ok ds (fst s) \<Longrightarrow>
    visit_all (spool_part E parts) (spool, s) qs = Inr (spool', s') \<Longrightarrow> spool' = doc \<and> batch_ok ds (fst s')"
proof (induction qs arbitrary: p spool s)
  case (Cons q qs)
  from Cons.prems(5) obtain spool1 s1 where
    1: "spool_part E parts (spool, s) q = Inr (spool1, s1)" "visit_all (spool_part E parts) (spool1, s1) qs = Inr (spool', s')"
    by (auto simp: visit_all_Cons simp del: visit_all.simps(2))
  have t: "part_start q = p" "p + part_len q \<le> length doc" "tiles ds doc (p + part_len q) qs" using Cons.prems(1) by auto
  from 1(1) t(1) obtain bs where 2: "read_range E parts s (p, p + part_len q) = Inr (bs, s1)" "write_at spool p bs = Inr spool1"
    by (auto simp: spool_part_def)
  note rr = read_range_known [OF assms Cons.prems(4) 2(1)]
  have "length bs = part_len q" using rr(1) t(2) by simp
  with 2(2) have sp: "spool1 = take p spool @ bs @ drop (p + part_len q) spool" by (auto simp: write_at_def)
  have "take (p + part_len q) spool1 = take (p + part_len q) doc"
    unfolding sp Cons.prems(3) rr(1) using t(2) by (simp add: sub_slice_def take_add)
  moreover have "length spool1 = length doc" using sp \<open>length bs = part_len q\<close> t(2) Cons.prems(2) by simp
  ultimately show ?case using Cons.IH [OF t(3) _ _ rr(2) 1(2)] by simp
qed auto

lemma fetch_large_reusing_known:
  assumes "env_holds E ds" "located ds (request_slice req) doc" "decoded_size req = length doc" "batch_ok ds (fst s)"
    and "fetch_large_reusing_blocks E req s = Inr (body, s')"
  shows "body = doc \<and> batch_ok ds (fst s')"
proof -
  from assms(5) obtain parts s1 where
    1: "document_blocks (request_slice req) (length doc) (env_blocks E) = Inr parts"
      "load_blocks E (part_block ` set parts) s = Inr s1"
      "visit_all (spool_part E parts) (new_spool (length doc), s1) parts = Inr (body, s')"
    unfolding fetch_large_reusing_blocks_def assms(3) by auto
  have t: "tiles ds doc 0 parts"
    by (rule document_blocks_tile [OF env_holds_sized(1) [OF assms(1)] located_bytes [OF assms(2)] 1(1)])
  have "batch_ok ds (fst s1)"
    using load_blocks_known(1) [of E ds "fst s" "part_block ` set parts" "snd s" "fst s1" "snd s1"] assms(1,4) 1(2)
    by (simp add: env_holds_def)
  from spool_parts [OF assms(1) t t _ _ this 1(3)] show ?thesis by (simp add: new_spool_def)
qed

section \<open>The region entry point\<close>

fun plan_ok :: "bytes list \<Rightarrow> bytes \<Rightarrow> region_request \<Rightarrow> planned_request \<Rightarrow> bool" where
  "plan_ok ds doc req (PlanWhole parts) \<longleftrightarrow> tiles ds doc 0 parts"
| "plan_ok ds doc req (PlanRegions parts ranges) \<longleftrightarrow> tiles ds doc 0 parts \<and> plan_pack_ranges req = Inr (Some ranges)"

text \<open>The request is for this document of the packs: its coordinates, its size and its newline counts.\<close>

definition requests :: "bytes list \<Rightarrow> region_request \<Rightarrow> bytes \<Rightarrow> bool" where
  "requests ds req doc \<longleftrightarrow> located ds (region_slice req) doc \<and> region_size req = length doc \<and>
     counts_newlines doc (region_newlines req) \<and> length doc < 2 ^ 64"

lemma fetch_regional:
  assumes "env_holds E ds" "requests ds req doc" "batch_ok ds (fst s)" "tiles ds doc 0 parts"
    and plan: "plan_pack_ranges req = Inr (Some ranges)"
    and exact: "visit_all (exact_range (read_range E parts) req) ([], s) ranges = Inr (exact, s1)"
    and read: "visit_all (read_region (read_range E parts) (region_newlines req) (parts_size parts)) ([], s1)
      (merge_planned_ranges exact 0) = Inr (regions, s2)"
  shows "delivered doc (region_ranges req) (Regions (region_size req) regions) \<and> batch_ok ds (fst s2)"
proof -
  from assms(2) have req: "region_size req = length doc" "counts_newlines doc (region_newlines req)" "length doc < 2 ^ 64"
    by (auto simp: requests_def)
  have rd: "reading E ds parts doc s" using assms by (simp add: reading_def)
  have fits: "region_size req < 2 ^ 64" using req by simp
  have valid: "\<forall>p\<in>set ranges. valid_range (length doc) p"
    using plan_pack_ranges_valid [OF plan fits] unfolding req(1) by blast
  from batch.exact_ranges_ok [OF req(2,1) valid rd exact] have
    e: "list_all2 (exactly doc) ranges exact" and rd1: "reading E ds parts doc s1" by simp_all
  have "\<forall>q\<in>set exact. valid_range (length doc) q"
    using e valid exactly_valid by (auto dest!: list_all2_setD)
  then have validm: "\<forall>q\<in>set (merge_planned_ranges exact 0). valid_range (length doc) q" using merge_planned_valid by blast
  from batch.read_regions_ok [OF req(2) validm rd1 read [unfolded parts_size_doc [OF assms(4) req(3)]]] have
    g: "list_all2 (region_of doc) (merge_planned_ranges exact 0) regions" and rd2: "reading E ds parts doc s2" by auto
  have gen: "\<forall>g\<in>set regions. genuine doc g" using g validm region_of_genuine by (blast dest!: list_all2_setD)
  have "\<exists>g\<in>set regions. served_by doc r g" if r: "r \<in> set (region_ranges req)" for r
  proof -
    note pr = plan_pack_ranges_asks [OF plan fits r, unfolded req(1)]
    from pr(3) [OF refl] obtain p where p: "p \<in> set ranges" "asks (length doc) r p" by blast
    obtain q where q: "q \<in> set exact" "exactly doc p q" using list_all2_setD [OF e [THEN list_all2_swap] p(1)] by blast
    obtain q' where q': "q' \<in> set (merge_planned_ranges exact 0)" "within q q'" using merge_planned_within [OF q(1)] by blast
    obtain gg where gg: "gg \<in> set regions" "region_of doc q' gg" using list_all2_setD [OF g [THEN list_all2_swap] q'(1)] by blast
    have "served_by doc r gg"
      by (rule region_serves [OF p(2) _ q(2) q'(2) _ gg(2) pr(1,2) req(3)]) (use valid validm p q' in blast)+
    with gg show ?thesis by blast
  qed
  with gen rd2 req(1) show ?thesis by (simp add: reading_def)
qed

lemma fetch_region_ok:
  assumes "env_holds E ds" "requests ds req doc" "batch_ok ds (fst s)" "plan_ok ds doc req plan"
    and "fetch_region E consume (c, s) (req, plan) = Inr (c', s')"
  shows "\<exists>d. consume c (region_index req) d = Inr c' \<and> delivered doc (region_ranges req) d \<and> batch_ok ds (fst s')"
proof (cases plan)
  case (PlanWhole parts)
  show ?thesis
  proof (cases "region_size req \<ge> LARGE_DOCUMENT_BYTES")
    case True
    let ?req = "\<lparr>request_index = region_index req, request_slice = region_slice req, decoded_size = region_size req\<rparr>"
    from True assms(5) PlanWhole obtain body where b: "fetch_large_reusing_blocks E ?req s = Inr (body, s')"
      "consume c (region_index req) (Whole body) = Inr c'" by (auto simp: fetch_region_def)
    from fetch_large_reusing_known [OF assms(1) _ _ assms(3) b(1), of doc] assms(2)
    have "body = doc \<and> batch_ok ds (fst s')" by (simp add: requests_def)
    with b(2) show ?thesis by (intro exI [of _ "Whole body"]) simp
  next
    case False
    with assms(5) PlanWhole obtain bs where b: "read_range E parts s (0, region_size req) = Inr (bs, s')"
      "consume c (region_index req) (Whole bs) = Inr c'" by (auto simp: fetch_region_def)
    from read_range_known [OF assms(1) _ assms(3) b(1), of doc] assms(2,4) PlanWhole
    have "bs = doc \<and> batch_ok ds (fst s')" by (simp add: requests_def sub_slice_def)
    with b(2) show ?thesis by (intro exI [of _ "Whole bs"]) simp
  qed
next
  case (PlanRegions parts ranges)
  with assms(5) obtain exact s1 regions where
    "visit_all (exact_range (read_range E parts) req) ([], s) ranges = Inr (exact, s1)"
    "visit_all (read_region (read_range E parts) (region_newlines req) (parts_size parts)) ([], s1)
      (merge_planned_ranges exact 0) = Inr (regions, s')"
    and c: "consume c (region_index req) (Regions (region_size req) regions) = Inr c'"
    by (auto simp: fetch_region_def)
  from fetch_regional [OF assms(1-3) _ _ this(1,2)] assms(4) PlanRegions c show ?thesis by fastforce
qed

lemma plan_requests_ok:
  assumes "env_holds E ds"
  shows "list_all2 (requests ds) reqs docs \<Longrightarrow> finite ids \<Longrightarrow>
    visit_all (plan_region_request E) (ids, plans) reqs = Inr (ids', plans') \<Longrightarrow>
    finite ids' \<and> (\<exists>ps. plans' = plans @ ps \<and> list_all2 (\<lambda>(req, doc). plan_ok ds doc req) (zip reqs docs) ps)"
proof (induction reqs docs arbitrary: ids plans rule: list_all2_induct)
  case (Cons req reqs doc docs)
  from Cons.prems(2) obtain ids1 plans1 where
    1: "plan_region_request E (ids, plans) req = Inr (ids1, plans1)" "visit_all (plan_region_request E) (ids1, plans1) reqs = Inr (ids', plans')"
    by (auto simp: visit_all_Cons simp del: visit_all.simps(2))
  have req: "located ds (region_slice req) doc" "region_size req = length doc" using Cons.hyps(1) by (auto simp: requests_def)
  from 1(1) obtain parts where parts: "document_blocks (region_slice req) (length doc) (env_blocks E) = Inr parts"
    by (auto simp: plan_region_request_def req(2))
  then have t: "tiles ds doc 0 parts"
    using document_blocks_tile [OF env_holds_sized(1) [OF assms] located_bytes [OF req(1)]] by blast
  have "\<exists>plan. plans1 = plans @ [plan] \<and> plan_ok ds doc req plan \<and> finite ids1"
    using 1(1) t parts Cons.prems(1)
    by (auto simp: plan_region_request_def req(2) collect_request_blocks_def split: option.splits if_splits)
  with Cons.IH [OF _ 1(2)] show ?case by fastforce
qed simp

lemma fetch_all_regions_ok:
  assumes "env_holds E ds"
  shows "list_all2 (requests ds) reqs docs \<Longrightarrow> list_all2 (\<lambda>(req, doc). plan_ok ds doc req) (zip reqs docs) plans \<Longrightarrow>
    batch_ok ds (fst s) \<Longrightarrow> visit_all (fetch_region E consume) (c, s) (zip reqs plans) = Inr (c', s') \<Longrightarrow>
    \<exists>outs. list_all2 (\<lambda>(req, doc). delivered doc (region_ranges req)) (zip reqs docs) outs \<and>
      visit_all (\<lambda>c (req, d). consume c (region_index req) d) c (zip reqs outs) = Inr c' \<and> batch_ok ds (fst s')"
proof (induction reqs docs arbitrary: plans c s rule: list_all2_induct)
  case (Cons req reqs doc docs)
  from Cons.prems(1) obtain plan plans1 where p: "plans = plan # plans1" "plan_ok ds doc req plan"
    "list_all2 (\<lambda>(req, doc). plan_ok ds doc req) (zip reqs docs) plans1" by (cases plans) auto
  with Cons.prems(3) obtain c1 s1 where
    1: "fetch_region E consume (c, s) (req, plan) = Inr (c1, s1)" "visit_all (fetch_region E consume) (c1, s1) (zip reqs plans1) = Inr (c', s')"
    by (auto simp: visit_all_Cons simp del: visit_all.simps(2))
  from fetch_region_ok [OF assms Cons.hyps(1) Cons.prems(2) p(2) 1(1)] obtain d where
    d: "consume c (region_index req) d = Inr c1" "delivered doc (region_ranges req) d" "batch_ok ds (fst s1)" by blast
  from Cons.IH [OF p(3) d(3) 1(2)] obtain outs where
    "list_all2 (\<lambda>(req, doc). delivered doc (region_ranges req)) (zip reqs docs) outs"
    "visit_all (\<lambda>c (req, d). consume c (region_index req) d) c1 (zip reqs outs) = Inr c'" "batch_ok ds (fst s')" by blast
  with d show ?case by (intro exI [of _ "d # outs"]) simp
qed simp

lemma fetch_regions_known:
  assumes "env_holds E ds" "list_all2 (requests ds) reqs docs" "batch_ok ds (fst s)"
    and "fetch_regions E consume reqs c s = Inr (c', s')"
  shows "\<exists>outs. list_all2 (\<lambda>(req, doc). delivered doc (region_ranges req)) (zip reqs docs) outs \<and>
      visit_all (\<lambda>c (req, d). consume c (region_index req) d) c (zip reqs outs) = Inr c'"
proof -
  from assms(4) obtain ids plans s1 where
    1: "visit_all (plan_region_request E) ({}, []) reqs = Inr (ids, plans)" "load_blocks E ids s = Inr s1"
      "visit_all (fetch_region E consume) (c, s1) (zip reqs plans) = Inr (c', s')"
    by (auto simp: fetch_regions_def)
  from plan_requests_ok [OF assms(1,2) _ 1(1)] have
    p: "finite ids" "list_all2 (\<lambda>(req, doc). plan_ok ds doc req) (zip reqs docs) plans" by auto
  have "batch_ok ds (fst s1)"
    using load_blocks_known(1) [of E ds "fst s" ids "snd s" "fst s1" "snd s1"] assms(1,3) 1(2) p(1) by (simp add: env_holds_def)
  from fetch_all_regions_ok [OF assms(1,2) p(2) this 1(3)] show ?thesis by blast
qed

section \<open>The document entry point\<close>

definition wants :: "bytes list \<Rightarrow> pack_request \<Rightarrow> bytes \<Rightarrow> bool" where
  "wants ds req doc \<longleftrightarrow> located ds (request_slice req) doc \<and> decoded_size req = length doc \<and> length doc < 2 ^ 64"

text \<open>The consumer's calls, in order.\<close>

abbreviation hand_over :: "('c, bytes) consumer \<Rightarrow> 'c \<Rightarrow> pack_request list \<Rightarrow> bytes list \<Rightarrow> 'c result" where
  "hand_over consume c reqs docs \<equiv> visit_all (\<lambda>c (req, doc). consume c (request_index req) doc) c (zip reqs docs)"

lemma window_parts_ok:
  assumes "env_holds E ds"
  shows "list_all2 (wants ds) reqs docs \<Longrightarrow> finite ids \<Longrightarrow> \<forall>i\<in>ids. i < length ds \<Longrightarrow>
    \<exists>ids' ps. visit_all (window_parts E) (ids, parts) reqs = Inr (ids', parts @ ps) \<and> finite ids' \<and> (\<forall>i\<in>ids'. i < length ds) \<and>
      list_all2 (\<lambda>doc. tiles ds doc 0) docs ps"
proof (induction reqs docs arbitrary: ids parts rule: list_all2_induct)
  case (Cons req reqs doc docs)
  from Cons.hyps(1) have w: "located ds (request_slice req) doc" "decoded_size req = length doc" by (auto simp: wants_def)
  from document_blocks_total [OF env_holds_sized [OF assms] w(1)] obtain ps where
    ps: "document_blocks (request_slice req) (length doc) (env_blocks E) = Inr ps" "tiles ds doc 0 ps" by blast
  define ids1 where "ids1 = (if length doc > 0 then ids \<union> part_block ` set (filter (part_hits (0, length doc)) ps) else ids)"
  have step: "window_parts E (ids, parts) req = Inr (ids1, parts @ [ps])"
    using ps(1) by (simp add: window_parts_def w(2) ids1_def collect_request_blocks_def)
  have "finite ids1" "\<forall>i\<in>ids1. i < length ds"
    using Cons.prems tiles_blocks [OF ps(2)] by (auto simp: ids1_def)
  from Cons.IH [OF this, of "parts @ [ps]"] step ps(2) show ?case by fastforce
qed simp

lemma hand_over_window:
  assumes "env_serves E ds"
  shows "list_all2 (wants ds) reqs docs \<Longrightarrow> list_all2 (\<lambda>doc. tiles ds doc 0) docs ps \<Longrightarrow> batch_ok ds (fst s) \<Longrightarrow>
    \<exists>s'. visit_all (\<lambda>(c, s) (req, ps).
        and_then (read_range E ps s (0, decoded_size req)) (\<lambda>(bs, s').
        and_then (consume c (request_index req) bs) (\<lambda>c'. Inr (c', s')))) (c, s) (zip reqs ps)
      = and_then (hand_over consume c reqs docs) (\<lambda>c'. Inr (c', s')) \<and> batch_ok ds (fst s')"
proof (induction reqs docs arbitrary: ps c s rule: list_all2_induct)
  case (Cons req reqs doc docs)
  from Cons.prems(1) obtain p qs where p: "ps = p # qs" "tiles ds doc 0 p" "list_all2 (\<lambda>doc. tiles ds doc 0) docs qs"
    by (cases ps) auto
  have w: "decoded_size req = length doc" using Cons.hyps(1) by (auto simp: wants_def)
  from read_range_ok [OF assms p(2) Cons.prems(2), of 0 "length doc"] obtain s1 where
    r: "read_range E p s (0, length doc) = Inr (doc, s1)" "batch_ok ds (fst s1)" by (auto simp: sub_slice_def)
  show ?case
  proof (cases "consume c (request_index req) doc")
    case (Inl e)
    with r p(1) w show ?thesis by (intro exI [of _ s1]) simp
  next
    case (Inr c1)
    from Cons.IH [OF p(3) r(2), of c1] Inr r(1) p(1) w show ?thesis by simp
  qed
qed auto

lemma fetch_window_ok:
  assumes "env_serves E ds" "list_all2 (wants ds) reqs docs" "batch_ok ds (fst s)"
  shows "\<exists>s'. fetch_window E consume reqs (c, s) = and_then (hand_over consume c reqs docs) (\<lambda>c'. Inr (c', s')) \<and> batch_ok ds (fst s')"
proof (cases "length reqs = 1 \<and> is_large_request (hd reqs)")
  case True
  with assms(2) obtain req doc where one: "reqs = [req]" "docs = [doc]" "wants ds req doc"
    by (cases reqs; cases docs) auto
  from assms(1) obtain fs where fs: "zstd_laws (env_crates E)" "list_all2 (stored (env_crates E) fs) (env_blocks E) ds"
    "unforgeable (env_crates E) (env_blocks E)" "serves (env_store E) (env_metas E) fs" by (auto simp: env_serves_def)
  have w: "located ds (request_slice req) doc" "length doc < 2 ^ 64"
    and req: "\<lparr>request_index = request_index req, request_slice = request_slice req, decoded_size = length doc\<rparr> = req"
    using one(3) by (auto simp: wants_def)
  from fetch_large_ok [OF fs w, of "env_cache E" "request_index req" "snd s"] obtain d' where
    "fetch_large (env_crates E) (env_store E) (env_cache E) (env_metas E) (env_blocks E) req (snd s) = Inr (doc, d')"
    unfolding req by blast
  then have "fetch_window E consume reqs (c, s) = and_then (consume c (request_index req) doc) (\<lambda>c'. Inr (c', fst s, d'))"
    using True one by (cases s) (simp add: fetch_window_def)
  moreover have "hand_over consume c reqs docs = consume c (request_index req) doc"
    using one by (cases "consume c (request_index req) doc") simp_all
  ultimately show ?thesis using assms(3) by (intro exI [of _ "(fst s, d')"]) simp
next
  case False
  from window_parts_ok [OF env_serves_holds [OF assms(1)] assms(2), of "{}" "[]"] obtain ids ps where
    p: "visit_all (window_parts E) ({}, []) reqs = Inr (ids, ps)" "finite ids" "\<forall>i\<in>ids. i < length ds"
      "list_all2 (\<lambda>doc. tiles ds doc 0) docs ps" by auto
  from env_load [OF assms(1,3) p(2,3)] obtain s1 where s1: "load_blocks E ids s = Inr s1" "batch_ok ds (fst s1)" .
  obtain st d where s: "s = (st, d)" by (cases s)
  have "fetch_window E consume reqs (c, s) = visit_all (\<lambda>(c, s) (req, ps).
        and_then (read_range E ps s (0, decoded_size req)) (\<lambda>(bs, s').
        and_then (consume c (request_index req) bs) (\<lambda>c'. Inr (c', s')))) (c, s1) (zip reqs ps)"
    using p(1) s1(1) unfolding fetch_window_def s prod.case if_not_P [OF False] by simp
  with hand_over_window [OF assms(1,2) p(4) s1(2), of consume c] show ?thesis by (simp only:)
qed

lemma drop_slice: "i \<le> e \<Longrightarrow> drop i xs = sub_slice xs i e @ drop e xs"
  by (metis sub_slice_def append_take_drop_id drop_drop le_add_diff_inverse2)

lemma zip_drop_split:
  "i \<le> e \<Longrightarrow> length reqs = length docs \<Longrightarrow>
     zip (drop i reqs) (drop i docs) = zip (sub_slice reqs i e) (sub_slice docs i e) @ zip (drop e reqs) (drop e docs)"
  by (subst (1 2) drop_slice [of i e]) simp_all

lemma fetch_windows_ok:
  assumes "env_serves E ds" "list_all2 (wants ds) reqs docs"
  shows "batch_ok ds (fst s) \<Longrightarrow>
    \<exists>s'. visit_all (\<lambda>cs (i, e). fetch_window E consume (sub_slice reqs i e) cs) (c, s) (request_windows_from reqs start)
      = and_then (hand_over consume c (drop start reqs) (drop start docs)) (\<lambda>c'. Inr (c', s'))"
proof (induction "length reqs - start" arbitrary: start c s rule: less_induct)
  case less
  show ?case
  proof (cases "start \<ge> length reqs")
    case True
    then show ?thesis by (subst request_windows_from.simps) auto
  next
    case False
    define e where "e = window_end reqs start start 0"
    have e: "start < e" "e \<le> length reqs"
      using False window_end_progress [of start reqs] window_end_bounds [of start reqs start 0] by (auto simp: e_def)
    have eq: "request_windows_from reqs start = (start, e) # request_windows_from reqs e"
      using False by (subst request_windows_from.simps) (simp add: e_def Let_def)
    have "list_all2 (wants ds) (sub_slice reqs start e) (sub_slice docs start e)"
      using assms(2) by (simp add: sub_slice_def list_all2_takeI list_all2_dropI)
    from fetch_window_ok [OF assms(1) this less.prems, of consume c] obtain s1 where
      w: "fetch_window E consume (sub_slice reqs start e) (c, s)
        = and_then (hand_over consume c (sub_slice reqs start e) (sub_slice docs start e)) (\<lambda>c'. Inr (c', s1))"
      "batch_ok ds (fst s1)" by blast
    have split: "hand_over consume c (drop start reqs) (drop start docs) =
        and_then (hand_over consume c (sub_slice reqs start e) (sub_slice docs start e)) (\<lambda>c1. hand_over consume c1 (drop e reqs) (drop e docs))"
      using zip_drop_split [of start e reqs docs] e list_all2_lengthD [OF assms(2)] by (simp add: visit_all_append and_then_def)
    show ?thesis
    proof (cases "hand_over consume c (sub_slice reqs start e) (sub_slice docs start e)")
      case (Inl err)
      with w eq split show ?thesis by simp
    next
      case (Inr c1)
      have "length reqs - e < length reqs - start" using e by simp
      from less(1) [OF this w(2), of c1] obtain s' where
        "visit_all (\<lambda>cs (i, e). fetch_window E consume (sub_slice reqs i e) cs) (c1, s1) (request_windows_from reqs e)
          = and_then (hand_over consume c1 (drop e reqs) (drop e docs)) (\<lambda>c'. Inr (c', s'))" by blast
      with Inr w eq split show ?thesis by (intro exI [of _ s']) simp
    qed
  qed
qed

section \<open>Windows\<close>

lemma window_end_size:
  "start < e \<Longrightarrow> e \<le> length reqs \<Longrightarrow> sz = sum_list (map decoded_size (sub_slice reqs start e)) \<Longrightarrow>
     (\<forall>req\<in>set reqs. decoded_size req < 2 ^ 64) \<Longrightarrow> (\<forall>req\<in>set (sub_slice reqs start e). \<not> is_large_request req) \<Longrightarrow>
     e - start \<le> WINDOW_DOCUMENTS \<Longrightarrow> sz \<le> WINDOW_BYTES \<Longrightarrow>
     sum_list (map decoded_size (sub_slice reqs start (window_end reqs start e sz))) \<le> WINDOW_BYTES \<and>
     window_end reqs start e sz - start \<le> WINDOW_DOCUMENTS \<and>
     (\<forall>req\<in>set (sub_slice reqs start (window_end reqs start e sz)). \<not> is_large_request req)"
proof (induction "length reqs - e" arbitrary: e sz rule: less_induct)
  case less
  show ?case
  proof (cases rule: window_end_cases [of reqs start e sz])
    case stop
    with less.prems show ?thesis by simp
  next
    case large
    with less.prems show ?thesis by simp
  next
    case go
    let ?n = "decoded_size (reqs ! e)"
    have fit: "?n \<le> WINDOW_BYTES - sz" using go(5) less.prems(1) by simp
    have sat: "sat_add_u64 sz ?n = sz + ?n" using fit less.prems(7) by (simp add: sat_add_u64_def WINDOW_BYTES_def)
    have snoc: "sub_slice reqs start (Suc e) = sub_slice reqs start e @ [reqs ! e]"
    proof -
      have "Suc e - start = Suc (e - start)" using less.prems(1) by simp
      then show ?thesis using go(2) less.prems(1) by (simp add: sub_slice_def take_Suc_conv_app_nth)
    qed
    have "length reqs - Suc e < length reqs - e" using go(2) by simp
    from less(1) [OF this, of "sz + ?n"] less.prems go fit snoc show ?thesis unfolding go(1) sat by simp
  qed
qed

lemma window_bounds:
  assumes "start < length reqs" "\<forall>req\<in>set reqs. decoded_size req < 2 ^ 64"
  defines "e \<equiv> window_end reqs start start 0"
  shows "e - start \<le> WINDOW_DOCUMENTS \<and> (e = Suc start \<or>
    sum_list (map decoded_size (sub_slice reqs start e)) \<le> WINDOW_BYTES \<and> (\<forall>req\<in>set (sub_slice reqs start e). \<not> is_large_request req))"
proof (cases rule: window_end_cases [of reqs start start 0])
  case stop
  with assms window_end_progress [of start reqs] show ?thesis by simp
next
  case large
  then show ?thesis by (simp add: e_def WINDOW_DOCUMENTS_def)
next
  case go
  let ?n = "decoded_size (reqs ! start)"
  have sat: "sat_add_u64 0 ?n = ?n" using assms(1,2) nth_mem [of start reqs] by (fastforce simp: sat_add_u64_def)
  have one: "sub_slice reqs start (Suc start) = [reqs ! start]" using assms(1) by (simp add: sub_slice_def take_Suc_conv_app_nth)
  have small: "?n \<le> WINDOW_BYTES" using go(4) by (simp add: is_large_request_def LARGE_DOCUMENT_BYTES_def WINDOW_BYTES_def)
  from window_end_size [of start "Suc start" reqs ?n] assms(1,2) go(4) one small
  show ?thesis unfolding e_def go(1) sat by (simp add: WINDOW_DOCUMENTS_def)
qed

lemma request_windows_from_bounds:
  assumes "\<forall>req\<in>set reqs. decoded_size req < 2 ^ 64"
  shows "(i, e) \<in> set (request_windows_from reqs start) \<Longrightarrow>
    i < e \<and> e \<le> length reqs \<and> e - i \<le> WINDOW_DOCUMENTS \<and> (e = Suc i \<or>
    sum_list (map decoded_size (sub_slice reqs i e)) \<le> WINDOW_BYTES \<and> (\<forall>req\<in>set (sub_slice reqs i e). \<not> is_large_request req))"
proof (induction "length reqs - start" arbitrary: start rule: less_induct)
  case less
  let ?e = "window_end reqs start start 0"
  have "start < length reqs" using less.prems by (subst (asm) request_windows_from.simps) (auto split: if_splits)
  note w = window_bounds [OF this assms] window_end_progress [OF this]
  have le: "?e \<le> length reqs" using window_end_bounds [of start reqs start 0] \<open>start < length reqs\<close> by simp
  from less.prems \<open>start < length reqs\<close> consider "(i, e) = (start, ?e)" | "(i, e) \<in> set (request_windows_from reqs ?e)"
    by (subst (asm) request_windows_from.simps) (auto simp: Let_def)
  then show ?case
  proof cases
    case 1
    with w le show ?thesis by simp
  next
    case 2
    show ?thesis by (rule less(1) [OF _ 2]) (use w(2) le in simp)
  qed
qed

lemma concat_request_windows:
  "start \<le> length reqs \<Longrightarrow> concat (map (\<lambda>(i, e). sub_slice reqs i e) (request_windows_from reqs start)) = drop start reqs"
proof (induction "length reqs - start" arbitrary: start rule: less_induct)
  case less
  show ?case
  proof (cases "start \<ge> length reqs")
    case True
    then show ?thesis by (subst request_windows_from.simps) simp
  next
    case False
    let ?e = "window_end reqs start start 0"
    have e: "start < ?e" "?e \<le> length reqs"
      using False window_end_progress [of start reqs] window_end_bounds [of start reqs start 0] by auto
    have "length reqs - ?e < length reqs - start" using e by simp
    from less(1) [OF this e(2)] False e show ?thesis
      by (subst request_windows_from.simps) (simp add: Let_def drop_slice [of start ?e])
  qed
qed

section \<open>Properties\<close>

definition request_all :: "pack_slice list \<Rightarrow> bytes list \<Rightarrow> pack_request list" where
  "request_all slices docs =
     map (\<lambda>(i, sl, doc). \<lparr>request_index = i, request_slice = sl, decoded_size = length doc\<rparr>) (enumerate 0 (zip slices docs))"

text \<open>
  C27: Delivery of documents. Documents packed by the builder and requested at the coordinates it returned reach the
  consumer in order, each once and byte for byte: the fetch, over windows of large and small
  documents and any cache, is the run of the consumer on the documents, and fails only where the
  consumer does. Hypotheses: the compressor inverts, the store serves the pack files, no other
  bytes have the hash of a stored block.
\<close>

theorem fetch_documents_deliver:
  assumes "zstd_laws X"
    and "new_builder bb pb = Inr b" "append_all X b docs = Inr (slices, b')" "finish_builder X b' = Inr out"
    and "unforgeable X (built_blocks out)"
    and "serves store (map pack_file_meta (built_files out)) (map content (built_files out))"
    and "\<forall>doc\<in>set docs. length doc < 2 ^ 64"
  shows "\<exists>s'. fetch_documents \<lparr>env_crates = X, env_store = store, env_cache = cache,
        env_metas = map pack_file_meta (built_files out), env_blocks = built_blocks out\<rparr>
      consume (request_all slices docs) c (Map.empty, d) =
    and_then (visit_all (\<lambda>c (i, doc). consume c i doc) c (enumerate 0 docs)) (\<lambda>c'. Inr (c', s'))"
proof -
  from build_packs_holds [OF assms(2-4)] obtain ds where
    ds: "holds_blocks X out ds" "list_all2 (located ds) slices docs" by blast
  note E = built_env_serves [OF assms(1,5) ds(1) assms(6), of cache]
  let ?reqs = "request_all slices docs"
  have len: "length slices = length docs" using ds(2) by (rule list_all2_lengthD)
  have w: "list_all2 (wants ds) ?reqs docs"
    using ds(2) assms(7) len by (auto simp: list_all2_conv_all_nth request_all_def nth_enumerate_eq wants_def)
  have calls: "zip ?reqs docs = map (\<lambda>(i, sl, doc). (\<lparr>request_index = i, request_slice = sl, decoded_size = length doc\<rparr>, doc)) (enumerate 0 (zip slices docs))"
    using len by (intro nth_equalityI) (auto simp: request_all_def nth_enumerate_eq)
  have over: "visit_all (\<lambda>c (req, doc). consume c (request_index req) doc) c
      (map (\<lambda>(i, sl, doc). (\<lparr>request_index = i, request_slice = sl, decoded_size = length doc\<rparr>, doc)) (enumerate n (zip slices docs)))
    = visit_all (\<lambda>c (i, doc). consume c i doc) c (enumerate n docs)" for n
    using len by (induction slices docs arbitrary: c n rule: list_induct2) (auto split: sum.split)
  from fetch_windows_ok [OF E w, of "(Map.empty, d)" consume c 0] show ?thesis
    unfolding fetch_documents_def request_windows_def drop_0 calls over by simp
qed

theorem fetch_documents_deliver_witness:
  "\<exists>s'. fetch_documents \<lparr>env_crates = sample_zstd, env_store = sample_store, env_cache = Some ''seg'',
        env_metas = map pack_file_meta (built_files sample_out), env_blocks = built_blocks sample_out\<rparr>
      (\<lambda>c i d. Inr (c @ [(i, d)])) (request_all [\<lparr>first_block = 0, block_offset = 0\<rparr>, \<lparr>first_block = 0, block_offset = 0\<rparr>,
        \<lparr>first_block = 1, block_offset = 1\<rparr>] [[7, 8, 9], [], [5]]) [] (Map.empty, \<lparr>files = Map.empty, writable = (\<lambda>_. True)\<rparr>)
    = Inr ([(0, [7, 8, 9]), (1, []), (2, [5])], s')"
proof -
  let ?b = "\<lparr>block_bytes = 2, pack_bytes = 100, open_block = [], blocks = [], packs = [], active = None\<rparr>"
  have nb: "new_builder 2 100 = Inr ?b" by (simp add: new_builder_def)
  obtain b' where ap: "append_all sample_zstd ?b [[7, 8, 9], [], [5]] =
      Inr ([\<lparr>first_block = 0, block_offset = 0\<rparr>, \<lparr>first_block = 0, block_offset = 0\<rparr>,
        \<lparr>first_block = 1, block_offset = 1\<rparr>], b')" "finish_builder sample_zstd b' = Inr sample_out"
    using sample_build [OF refl] by blast
  have "\<forall>doc\<in>set [[7, 8, 9], [], [5 :: u8]]. length doc < 2 ^ 64" by simp
  from fetch_documents_deliver [OF sample_laws(1) nb ap sample_laws(2,3) this, where cache = "Some ''seg''" and
      consume = "\<lambda>c i d. Inr (c @ [(i, d)])" and c = "[]" and d = "\<lparr>files = Map.empty, writable = (\<lambda>_. True)\<rparr>"]
  show ?thesis by (simp add: numeral_2_eq_2)
qed

text \<open>
  C31: Windows. Every window of a batch holds at least one request and at most 1024, it is a single request or its
  documents decode to at most 32 MiB in total with no large document among them, and the windows
  in order are the batch.
\<close>

theorem request_windows_bounded:
  assumes "\<forall>req\<in>set reqs. decoded_size req < 2 ^ 64"
  shows "concat (map (\<lambda>(i, e). sub_slice reqs i e) (request_windows reqs)) = reqs \<and>
    (\<forall>i e. (i, e) \<in> set (request_windows reqs) \<longrightarrow> i < e \<and> e - i \<le> WINDOW_DOCUMENTS \<and>
      (e = Suc i \<or> sum_list (map decoded_size (sub_slice reqs i e)) \<le> WINDOW_BYTES \<and>
        (\<forall>req\<in>set (sub_slice reqs i e). \<not> is_large_request req)))"
  unfolding request_windows_def
  using concat_request_windows [of 0 reqs] request_windows_from_bounds [OF assms, of _ _ 0] by auto

theorem request_windows_bounded_witness:
  "concat (map (\<lambda>(i, e). sub_slice [\<lparr>request_index = 0, request_slice = \<lparr>first_block = 0, block_offset = 0\<rparr>, decoded_size = 20000000\<rparr>]
     i e) (request_windows [\<lparr>request_index = 0, request_slice = \<lparr>first_block = 0, block_offset = 0\<rparr>, decoded_size = 20000000\<rparr>])) =
   [\<lparr>request_index = 0, request_slice = \<lparr>first_block = 0, block_offset = 0\<rparr>, decoded_size = 20000000\<rparr>]"
  using request_windows_bounded [of "[\<lparr>request_index = 0, request_slice = \<lparr>first_block = 0, block_offset = 0\<rparr>, decoded_size = 20000000\<rparr>]"]
  by (simp only: list.set ball_simps simp_thms) simp

text \<open>
  C26: Regions. For an arbitrary store, cache and consumer, when a fetch of regions succeeds the consumer was called
  once per request in order, with the document itself or with regions of it: each region is the
  bytes of the document at its offset with the right line number and line start, and every
  requested range lies in a region, a regional one with \<open>span - 1\<close> bytes on both sides, a
  full-line one with its lines whole and the requested lines of context.
\<close>

theorem fetched_regions_are_genuine:
  assumes "zstd_laws X"
    and "new_builder bb pb = Inr b" "append_all X b docs = Inr (slices, b')" "finish_builder X b' = Inr out"
    and "unforgeable X (built_blocks out)"
    and "list_all2 (\<lambda>req i. i < length docs \<and> region_slice req = slices ! i \<and> region_size req = length (docs ! i) \<and>
      counts_newlines (docs ! i) (region_newlines req) \<and> length (docs ! i) < 2 ^ 64) reqs ids"
    and "fetch_regions \<lparr>env_crates = X, env_store = store, env_cache = cache, env_metas = metas, env_blocks = built_blocks out\<rparr>
      consume reqs c (Map.empty, d) = Inr (c', s')"
  shows "\<exists>outs. list_all2 (\<lambda>(req, doc). delivered doc (region_ranges req)) (zip reqs (map ((!) docs) ids)) outs \<and>
    visit_all (\<lambda>c (req, d). consume c (region_index req) d) c (zip reqs outs) = Inr c'"
proof -
  from build_packs_holds [OF assms(2-4)] obtain ds where
    ds: "holds_blocks X out ds" "list_all2 (located ds) slices docs" by blast
  have E: "env_holds \<lparr>env_crates = X, env_store = store, env_cache = cache, env_metas = metas, env_blocks = built_blocks out\<rparr> ds"
    using assms(1,5) ds(1) stored_known by (auto simp: env_holds_def holds_blocks_def)
  have "list_all2 (requests ds) reqs (map ((!) docs) ids)"
    using ds(2) assms(6) by (auto simp: list_all2_conv_all_nth requests_def)
  from fetch_regions_known [OF E this _ assms(7)] show ?thesis by simp
qed

definition sample_region :: region_request where
  "sample_region = \<lparr>region_index = 0, region_slice = \<lparr>first_block = 0, block_offset = 0\<rparr>, region_size = 3,
     region_ranges = [Regional 1 2 1], region_newlines = [0]\<rparr>"

lemma sample_regions:
  "\<exists>s'. fetch_regions sample_env (\<lambda>c i d. Inr (c @ [d])) [sample_region] [] (Map.empty, d) =
     Inr ([Regions 3 [\<lparr>region_start = 1, region_line = 1, region_line_offset = 0, region_bytes = [8], region_prog = ProgramRegional\<rparr>]], s')"
proof -
  have tile: "tiles [[7, 8], [9, 5]] [7, 8, 9] 0 sample_parts" by (simp add: sample_parts_def sub_slice_def)
  let ?p = "\<lparr>planned_start = 1, planned_end = 2, planned_read_as = ReadRegional\<rparr>"
  have plan: "plan_pack_ranges sample_region = Inr (Some [?p])"
    by (simp add: plan_pack_ranges_def sample_region_def plan_range_def merge_planned_ranges_def merge_planned_step_def
        checked_sub_def sat_add_u64_def add_u64_def REGION_MAX_RANGES_def)
  have "plan_region_request sample_env ({}, []) sample_region = Inr ({0}, [PlanRegions sample_parts [?p]])"
  proof -
    have "part_block ` set (filter (part_hits (1, 2)) sample_parts) = {0}"
      by (simp add: sample_parts_def part_hits_def del: set_filter)
    moreover have "region_slice sample_region = \<lparr>first_block = 0, block_offset = 0\<rparr>" "region_size sample_region = 3"
      by (simp_all add: sample_region_def)
    ultimately show ?thesis using plan sample_document_blocks
      by (simp add: plan_region_request_def collect_request_blocks_def del: set_filter)
  qed
  moreover obtain s1 where s1: "load_blocks sample_env {0} (Map.empty, d) = Inr s1" "batch_ok [[7, 8], [9, 5]] (fst s1)"
    by (rule env_load [OF sample_env_serves, of "(Map.empty, d)" "{0}"]) auto
  moreover obtain s2 where "read_range sample_env sample_parts s1 (1, 2) = Inr ([8], s2)"
    using read_range_ok [OF sample_env_serves tile s1(2), of 1 2] by (auto simp: sub_slice_def)
  then have "read_region (read_range sample_env sample_parts) [0] 3 ([], s1) ?p =
      Inr ([\<lparr>region_start = 1, region_line = 1, region_line_offset = 0, region_bytes = [8], region_prog = ProgramRegional\<rparr>], s2)"
    by (simp add: read_region_def locate_line_def CANDIDATE_BLOCK_BYTES_def add_u64_def last_newline_def)
  moreover have "parts_size sample_parts = 3" by (simp add: parts_size_def sample_parts_def sat_add_u64_def)
  moreover have "merge_planned_ranges [?p] 0 = [?p]" by (simp add: merge_planned_ranges_def merge_planned_step_def)
  moreover have "region_newlines sample_region = [0]" "region_size sample_region = 3" by (simp_all add: sample_region_def)
  ultimately show ?thesis by (simp add: fetch_regions_def fetch_region_def exact_range_def)
qed

theorem fetched_regions_are_genuine_witness:
  "\<exists>outs. list_all2 (\<lambda>(req, doc). delivered doc (region_ranges req)) (zip [sample_region] (map ((!) [[7, 8, 9], [], [5]]) [0])) outs \<and>
    visit_all (\<lambda>c (req, d). Inr (c @ [d])) [] (zip [sample_region] outs) = Inr [Regions 3
      [\<lparr>region_start = 1, region_line = 1, region_line_offset = 0, region_bytes = [8], region_prog = ProgramRegional\<rparr>]]"
proof -
  let ?b = "\<lparr>block_bytes = 2, pack_bytes = 100, open_block = [], blocks = [], packs = [], active = None\<rparr>"
  have nb: "new_builder 2 100 = Inr ?b" by (simp add: new_builder_def)
  obtain b' where ap: "append_all sample_zstd ?b [[7, 8, 9], [], [5]] =
      Inr ([\<lparr>first_block = 0, block_offset = 0\<rparr>, \<lparr>first_block = 0, block_offset = 0\<rparr>,
        \<lparr>first_block = 1, block_offset = 1\<rparr>], b')" "finish_builder sample_zstd b' = Inr sample_out"
    using sample_build [OF refl] by blast
  have "counts_newlines [7, 8, 9] [0]"
    by (simp add: counts_newlines_def nls_def sub_slice_def div_ceil_def CANDIDATE_BLOCK_BYTES_def)
  then have l: "list_all2 (\<lambda>req i. i < length [[7, 8, 9], [], [5]] \<and>
      region_slice req = [\<lparr>first_block = 0, block_offset = 0\<rparr>, \<lparr>first_block = 0, block_offset = 0\<rparr>, \<lparr>first_block = 1, block_offset = 1\<rparr>] ! i \<and>
      region_size req = length ([[7, 8, 9], [], [5]] ! i) \<and> counts_newlines ([[7, 8, 9], [], [5]] ! i) (region_newlines req) \<and>
      length ([[7, 8, 9], [], [5 :: u8]] ! i) < 2 ^ 64) [sample_region] [0]"
    by (simp add: sample_region_def)
  obtain s' where "fetch_regions sample_env (\<lambda>c i d. Inr (c @ [d])) [sample_region] []
      (Map.empty, \<lparr>files = Map.empty, writable = (\<lambda>_. True)\<rparr>) = Inr ([Regions 3
      [\<lparr>region_start = 1, region_line = 1, region_line_offset = 0, region_bytes = [8], region_prog = ProgramRegional\<rparr>]], s')"
    using sample_regions by blast
  from fetched_regions_are_genuine [OF sample_laws(1) nb ap sample_laws(2) l this [unfolded sample_env_def]] show ?thesis .
qed

end
