(* ===== verification/Candidate_Batches.thy ===== *)
theory Candidate_Batches
  imports Index_Search Segment_List Remote_Terms Pack_Regions
begin

text \<open>
  The candidates of an index, \<open>read_candidate_batches\<close> and \<open>read_candidate_docs\<close> of \<open>crates/index/src/segment.rs\<close>: the segments a prefix may reach, the tables and
  dictionary values of each, the selections of the plans, and the live documents they select, cut into batches by count and by decoded bytes and handed to a visitor that
  may stop the run. The context that an error gains when the root of the index changed meanwhile is not kept. A segment's cache files are its own, so each
  segment brings the cache it finds.
\<close>

section \<open>Addresses\<close>

record index_address =
  ia_segment :: nat
  ia_document :: nat
  ia_ranges :: "candidate_range list option"

record doc_address =
  da_display_key :: string
  da_source_key :: string
  da_source_version :: string
  da_encoded_size :: nat
  da_encoding :: source_encoding
  da_member_path :: "string option"
  da_index :: "index_address option"

definition doc_address_of :: "nat \<Rightarrow> doc_entry \<Rightarrow> source_entry \<Rightarrow> nat \<times> candidate_range list option \<Rightarrow> doc_address" where
  "doc_address_of segment document source = (\<lambda>(i, ranges).
     \<lparr>da_display_key = display_key document, da_source_key = source_key source, da_source_version = version source,
       da_encoded_size = encoded_size source, da_encoding = encoding source, da_member_path = member_path document,
       da_index = Some \<lparr>ia_segment = segment, ia_document = i, ia_ranges = ranges\<rparr>\<rparr>)"

section \<open>Batches\<close>

text \<open>The visitor of batches answers whether the run goes on.\<close>

type_synonym 's batch_visitor = "'s \<Rightarrow> doc_address list \<Rightarrow> ('s \<times> bool) result"

record batch_state =
  cur_batch :: "doc_address list"
  cur_bytes :: nat
  cur_blocks :: "nat set"

definition empty_batch :: batch_state where
  "empty_batch = \<lparr>cur_batch = [], cur_bytes = 0, cur_blocks = {}\<rparr>"

definition U64_MAX :: nat where "U64_MAX = 2 ^ 64 - 1"

definition document_span :: "batch_limits \<Rightarrow> segment_tables \<Rightarrow> doc_entry \<Rightarrow> (nat \<times> nat) result" where
  "document_span limits t document =
     (if limit_bytes limits \<noteq> U64_MAX
      then block_span \<lparr>first_block = doc_first_block document, block_offset = doc_block_offset document\<rparr> (doc_size document) (table_blocks t)
      else Inr (0, 0))"

definition sum_decoded :: "string \<Rightarrow> segment_tables \<Rightarrow> nat list \<Rightarrow> nat result" where
  "sum_decoded msg t = visit_all (\<lambda>total_bytes block_id.
     and_then (or_panic (get (table_blocks t) block_id)) (\<lambda>b. context_of (add_u64 total_bytes (decoded_len b)) msg)) 0"

text \<open>The subtraction is reached only with a batch that is not empty and not full.\<close>

definition exceeds_limits :: "batch_limits \<Rightarrow> batch_state \<Rightarrow> nat \<Rightarrow> bool result" where
  "exceeds_limits limits st added_bytes =
     (if cur_batch st = [] then Inr False
      else if length (cur_batch st) \<ge> limit_documents limits then Inr True
      else and_then (or_panic (checked_sub (limit_bytes limits) (cur_bytes st))) (\<lambda>room. Inr (added_bytes > room)))"

definition add_blocks :: "segment_tables \<Rightarrow> batch_state \<Rightarrow> nat list \<Rightarrow> batch_state result" where
  "add_blocks t = visit_all (\<lambda>st block_id.
     if block_id \<in> cur_blocks st then Inr st
     else and_then (or_panic (get (table_blocks t) block_id)) (\<lambda>b.
       and_then (context_of (add_u64 (cur_bytes st) (decoded_len b)) ''candidate batch physical bytes overflow'') (\<lambda>total_bytes.
       Inr (st\<lparr>cur_bytes := total_bytes, cur_blocks := insert block_id (cur_blocks st)\<rparr>))))"

text \<open>One document: the state after it, or the visitor's state when the visitor stops the run.\<close>

definition flush_batch :: "'s batch_visitor \<Rightarrow> bool \<Rightarrow> 's \<Rightarrow> batch_state \<Rightarrow> ('s \<times> batch_state \<times> bool) result" where
  "flush_batch visit due s st =
     (if due then and_then (visit s (cur_batch st)) (\<lambda>(s, go). Inr (s, empty_batch, go)) else Inr (s, st, True))"

definition batch_step ::
    "'s batch_visitor \<Rightarrow> batch_limits \<Rightarrow> segment_tables \<Rightarrow> nat \<Rightarrow> 's \<Rightarrow> batch_state \<Rightarrow> nat \<times> candidate_range list option \<Rightarrow> ('s \<times> batch_state \<times> bool) result" where
  "batch_step visit limits t segment s st = (\<lambda>(i, ranges).
     and_then (or_panic (get (documents t) i)) (\<lambda>document.
     and_then (document_span limits t document) (\<lambda>(a, e).
     and_then (sum_decoded ''candidate document physical bytes overflow'' t [a..<e]) (\<lambda>document_bytes.
     and_then (sum_decoded ''candidate batch physical bytes overflow'' t (filter (\<lambda>b. b \<notin> cur_blocks st) [a..<e])) (\<lambda>added_bytes.
     let isolated = limit_bytes limits \<noteq> U64_MAX \<and> (doc_size document \<ge> LARGE_DOCUMENT_BYTES \<or> document_bytes > limit_bytes limits)
     in and_then (exceeds_limits limits st added_bytes) (\<lambda>exceeds.
        and_then (flush_batch visit ((isolated \<or> exceeds) \<and> cur_batch st \<noteq> []) s st) (\<lambda>(s, st, go).
        if \<not> go then Inr (s, st, False)
        else and_then (or_panic (get (sources t) (source_id document))) (\<lambda>source.
          and_then (try_u32 segment) (\<lambda>segment.
          and_then (add_blocks t (st\<lparr>cur_batch := cur_batch st @ [doc_address_of segment document source (i, ranges)]\<rparr>) [a..<e]) (\<lambda>st.
          flush_batch visit isolated s st))))))))))"

fun batch_loop ::
    "'s batch_visitor \<Rightarrow> batch_limits \<Rightarrow> segment_tables \<Rightarrow> nat \<Rightarrow> 's \<Rightarrow> batch_state \<Rightarrow> (nat \<times> candidate_range list option) list \<Rightarrow> ('s \<times> bool) result" where
  "batch_loop visit limits t segment s st [] = (if cur_batch st \<noteq> [] then visit s (cur_batch st) else Inr (s, True))"
| "batch_loop visit limits t segment s st (x # xs) =
     and_then (batch_step visit limits t segment s st x) (\<lambda>(s, st, go). if go then batch_loop visit limits t segment s st xs else Inr (s, False))"

section \<open>One segment\<close>

record open_segment =
  os_meta :: segment_meta
  os_dead :: dead_set
  os_map :: term_map
  os_state :: posting_state

definition segment_block_bases :: "segment_meta \<Rightarrow> segment_tables \<Rightarrow> nat list result" where
  "segment_block_bases meta t =
     and_then (build_block_bases t) (\<lambda>bases.
     ensure ((if bases = [] then 0 else last bases) = block_count meta) ''segment candidate block count differs from its document table'' (Inr bases))"

definition candidate_lookup ::
    "crates \<Rightarrow> pack_crates \<Rightarrow> get_ranges \<Rightarrow> candidate_plan list \<Rightarrow> open_segment \<Rightarrow> disk \<Rightarrow> (lookup \<times> disk) result" where
  "candidate_lookup C X store plans seg d =
     (case os_map seg of
        SparseRemote idx \<Rightarrow>
          and_then (read_term_values C X store (os_meta seg) (os_map seg) (map plan_query plans) d) (\<lambda>(vals, d).
          Inr (\<lambda>gram. Inr (case vals gram of Some v \<Rightarrow> v | None \<Rightarrow> None), d))
      | m \<Rightarrow> Inr (map_lookup C m, d))"

type_synonym selected = "selection option \<times> (nat \<rightharpoonup> candidate_range list option)"

definition note_selection :: "candidate_plan list \<Rightarrow> strategy \<Rightarrow> segment_meta \<Rightarrow> nat list option \<Rightarrow> selected \<Rightarrow> nat \<Rightarrow> selection \<Rightarrow> selected result" where
  "note_selection plans strat meta bases = (\<lambda>(single, docs) p sel.
     if length plans = 1 then Inr (Some sel, docs)
     else and_then (add_candidate_selection docs sel (plan_extent (plans ! p)) strat (unat (segment_meta.doc_count meta)) bases) (\<lambda>docs. Inr (single, docs)))"

definition segment_candidates ::
    "crates \<Rightarrow> pack_crates \<Rightarrow> get_ranges \<Rightarrow> bool \<Rightarrow> strategy \<Rightarrow> candidate_plan list \<Rightarrow> open_segment \<Rightarrow> segment_tables \<Rightarrow> nat list option \<Rightarrow> disk \<Rightarrow>
     (nat \<times> candidate_range list option) list result" where
  "segment_candidates C X store range_cache strat plans seg t bases d =
     (let meta = os_meta seg
      in and_then (candidate_lookup C X store plans seg d) (\<lambda>(lookup, d).
         and_then (try_u32 (block_count meta)) (\<lambda>id_space.
         and_then (visit_candidate_selections plans (of_nat id_space) strat lookup
             (\<lambda>p i. case bases of Some bs \<Rightarrow> expand_closure bs t (plan_extent (plans ! p)) i | None \<Rightarrow> (i, i))
             (segment_fetch X store range_cache strat meta (of_nat id_space) ((os_state seg)\<lparr>ps_disk := d\<rparr>))
             (note_selection plans strat meta bases) (None, Map.empty)) (\<lambda>(single, docs).
         case single of
           Some sel \<Rightarrow> candidate_documents sel (plan_extent (plans ! 0)) strat (unat (segment_meta.doc_count meta)) bases
         | None \<Rightarrow> Inr (map (\<lambda>i. (i, the (docs i))) (sorted_list_of_set (dom docs)))))))"

text \<open>The parameters of a search that do not change from segment to segment.\<close>

record search_env =
  env_grams :: crates
  env_packs :: pack_crates
  env_get :: get_blob
  env_ranges :: get_ranges
  env_tables :: "bytes \<Rightarrow> segment_tables option"
  env_range_cache :: bool
  env_strategy :: strategy

fun source_part :: "string \<Rightarrow> string" where
  "source_part (c # d # cs) = (if c = CHR ''!'' \<and> d = CHR ''/'' then [] else c # source_part (d # cs))"
| "source_part cs = cs"

definition segment_batches ::
    "search_env \<Rightarrow> candidate_plan list \<Rightarrow> string option \<Rightarrow> batch_limits \<Rightarrow> 's batch_visitor \<Rightarrow> 's \<Rightarrow> nat \<times> open_segment \<Rightarrow> ('s \<times> bool) result" where
  "segment_batches Env plans key_prefix limits visit s = (\<lambda>(segment_id, seg).
     if (case key_prefix of None \<Rightarrow> False | Some p \<Rightarrow> \<not> prefix_overlaps (os_meta seg) (source_part p)) then Inr (s, True)
     else and_then (load_segment_tables (env_packs Env) (env_get Env) (env_tables Env) (os_meta seg) (os_dead seg) (ps_disk (os_state seg))) (\<lambda>(t, d).
       and_then (case env_strategy Env of Trigram \<Rightarrow> and_then (segment_block_bases (os_meta seg) t) (\<lambda>bases. Inr (Some bases)) | Sparse \<Rightarrow> Inr None) (\<lambda>bases.
       and_then (segment_candidates (env_grams Env) (env_packs Env) (env_ranges Env) (env_range_cache Env) (env_strategy Env) plans seg t bases d) (\<lambda>docs.
       batch_loop visit limits t segment_id s empty_batch (filter (\<lambda>(i, _). i \<notin> set (dead_documents (os_dead seg))) docs)))))"

fun segments_loop ::
    "search_env \<Rightarrow> candidate_plan list \<Rightarrow> string option \<Rightarrow> batch_limits \<Rightarrow> 's batch_visitor \<Rightarrow> 's \<Rightarrow> (nat \<times> open_segment) list \<Rightarrow> 's result" where
  "segments_loop Env plans key_prefix limits visit s [] = Inr s"
| "segments_loop Env plans key_prefix limits visit s (x # xs) =
     and_then (segment_batches Env plans key_prefix limits visit s x) (\<lambda>(s, go). if go then segments_loop Env plans key_prefix limits visit s xs else Inr s)"

definition read_candidate_batches ::
    "search_env \<Rightarrow> open_segment list \<Rightarrow> candidate_plan list \<Rightarrow> string option \<Rightarrow> batch_limits \<Rightarrow> 's batch_visitor \<Rightarrow> 's \<Rightarrow> 's result" where
  "read_candidate_batches Env segs plans key_prefix limits visit s =
     and_then (validate_candidate_plans plans limits) (\<lambda>_. segments_loop Env plans key_prefix limits visit s (enumerate 0 segs))"

text \<open>The sort is unstable in the code, so documents with equal display keys come in some order; here they keep theirs.\<close>

definition read_candidate_docs :: "search_env \<Rightarrow> open_segment list \<Rightarrow> query \<Rightarrow> string option \<Rightarrow> doc_address list result" where
  "read_candidate_docs Env segs q key_prefix =
     and_then (read_candidate_batches Env segs [\<lparr>plan_query = q, plan_extent = ELines\<rparr>] key_prefix \<lparr>limit_documents = 16384, limit_bytes = U64_MAX\<rparr>
       (\<lambda>docs batch. Inr (docs @ batch, True)) []) (\<lambda>docs. Inr (sort_key da_display_key docs))"

text \<open>\<open>KeyScope\<close> of \<open>crates/index/src/search/mod.rs\<close>: the caller of a run hands its prefix to the run and admits display keys by the whole scope.\<close>

record key_scope =
  scope_prefix :: "string option"
  scope_matches :: "(string \<Rightarrow> bool) option"

definition admits :: "key_scope \<Rightarrow> string \<Rightarrow> bool" where
  "admits scope key =
     (if (case scope_prefix scope of Some prefix \<Rightarrow> \<not> starts_with key prefix | None \<Rightarrow> False) then False
      else (case scope_matches scope of Some matches \<Rightarrow> matches key | None \<Rightarrow> True))"

section \<open>Batching\<close>

definition bytes_of :: "segment_tables \<Rightarrow> nat set \<Rightarrow> nat" where
  "bytes_of t B = (\<Sum>k\<in>B. decoded_len (table_blocks t ! k))"

definition span_set :: "batch_limits \<Rightarrow> segment_tables \<Rightarrow> nat \<Rightarrow> nat set" where
  "span_set limits t i = (case document_span limits t (documents t ! i) of Inr (a, e) \<Rightarrow> {a..<e} | Inl _ \<Rightarrow> {})"

definition table_address :: "segment_tables \<Rightarrow> nat \<Rightarrow> nat \<times> candidate_range list option \<Rightarrow> doc_address" where
  "table_address t segment x = doc_address_of segment (documents t ! fst x) (sources t ! source_id (documents t ! fst x)) x"

abbreviation collect_batches :: "doc_address list list \<Rightarrow> doc_address list \<Rightarrow> (doc_address list list \<times> bool) result" where
  "collect_batches batches b \<equiv> Inr (batches @ [b], True)"

text \<open>The documents of the table have sources and spans of blocks, and its blocks decode to less than \<open>2 ^ 64\<close> bytes.\<close>

definition batchable :: "batch_limits \<Rightarrow> segment_tables \<Rightarrow> nat \<Rightarrow> bool" where
  "batchable limits t i \<longleftrightarrow> i < length (documents t) \<and> source_id (documents t ! i) < length (sources t) \<and>
     (\<exists>a e. document_span limits t (documents t ! i) = Inr (a, e) \<and> e \<le> length (table_blocks t))"

lemma bytes_of_mono: "A \<subseteq> B \<Longrightarrow> finite B \<Longrightarrow> bytes_of t A \<le> bytes_of t B"
  by (simp add: bytes_of_def sum_mono2)

lemma sum_decoded_total:
  assumes "distinct ks" "set ks \<subseteq> {..<length (table_blocks t)}" "bytes_of t {..<length (table_blocks t)} < 2 ^ 64"
  shows "sum_decoded msg t ks = Inr (bytes_of t (set ks))"
proof -
  have loop: "distinct ks \<Longrightarrow> set ks \<subseteq> {..<length (table_blocks t)} \<Longrightarrow> acc + bytes_of t (set ks) < 2 ^ 64 \<Longrightarrow>
    visit_all (\<lambda>s k. and_then (or_panic (get (table_blocks t) k)) (\<lambda>b. context_of (add_u64 s (decoded_len b)) msg)) acc ks = Inr (acc + bytes_of t (set ks))" for acc ks
  proof (induction ks arbitrary: acc)
    case (Cons k ks)
    then have "bytes_of t (set (k # ks)) = decoded_len (table_blocks t ! k) + bytes_of t (set ks)" by (simp add: bytes_of_def)
    with Cons show ?case by (simp add: get_def add_u64_def)
  qed (simp add: bytes_of_def)
  have "bytes_of t (set ks) < 2 ^ 64" using bytes_of_mono [OF assms(2), of t] assms(3) by simp
  with loop [of ks 0] assms(1,2) show ?thesis by (simp add: sum_decoded_def)
qed

lemma add_blocks_total:
  assumes "bytes_of t {..<length (table_blocks t)} < 2 ^ 64" "set ks \<subseteq> {..<length (table_blocks t)}"
    and "cur_blocks st \<subseteq> {..<length (table_blocks t)}" "cur_bytes st = bytes_of t (cur_blocks st)"
  shows "add_blocks t st ks = Inr (st\<lparr>cur_bytes := bytes_of t (cur_blocks st \<union> set ks), cur_blocks := cur_blocks st \<union> set ks\<rparr>)"
  using assms(2-4)
proof (induction ks arbitrary: st)
  case Nil
  then show ?case by (simp add: add_blocks_def)
next
  case (Cons k ks)
  note unfold = add_blocks_def [of t, THEN fun_cong, THEN fun_cong]
  show ?case
  proof (cases "k \<in> cur_blocks st")
    case True
    then have "add_blocks t st (k # ks) = add_blocks t st ks" by (simp add: unfold)
    with Cons True show ?thesis by (simp add: insert_absorb)
  next
    case False
    let ?st = "st\<lparr>cur_bytes := bytes_of t (insert k (cur_blocks st)), cur_blocks := insert k (cur_blocks st)\<rparr>"
    have sum: "bytes_of t (insert k (cur_blocks st)) = cur_bytes st + decoded_len (table_blocks t ! k)"
      using False Cons.prems finite_subset [OF Cons.prems(2)] by (simp add: bytes_of_def)
    have "bytes_of t (insert k (cur_blocks st)) \<le> bytes_of t {..<length (table_blocks t)}" using Cons.prems by (intro bytes_of_mono) auto
    with sum assms(1) have "add_blocks t st (k # ks) = add_blocks t ?st ks"
      using False Cons.prems by (simp add: unfold get_def add_u64_def)
    also have "\<dots> = Inr (?st\<lparr>cur_bytes := bytes_of t (cur_blocks ?st \<union> set ks), cur_blocks := cur_blocks ?st \<union> set ks\<rparr>)"
      using Cons.prems by (intro Cons.IH) auto
    finally show ?thesis by (simp add: insert_commute)
  qed
qed

text \<open>The open batch: the blocks of its documents, within both limits, and no document of it is large.\<close>

definition address_span :: "batch_limits \<Rightarrow> segment_tables \<Rightarrow> doc_address \<Rightarrow> nat set" where
  "address_span limits t a = (case da_index a of Some ix \<Rightarrow> span_set limits t (ia_document ix) | None \<Rightarrow> {})"

definition batch_blocks :: "batch_limits \<Rightarrow> segment_tables \<Rightarrow> doc_address list \<Rightarrow> nat set" where
  "batch_blocks limits t b = (\<Union>a\<in>set b. address_span limits t a)"

definition batch_inv :: "batch_limits \<Rightarrow> segment_tables \<Rightarrow> batch_state \<Rightarrow> bool" where
  "batch_inv limits t st \<longleftrightarrow> cur_blocks st = batch_blocks limits t (cur_batch st) \<and> cur_blocks st \<subseteq> {..<length (table_blocks t)} \<and>
     cur_bytes st = bytes_of t (cur_blocks st) \<and> length (cur_batch st) \<le> limit_documents limits \<and> cur_bytes st \<le> limit_bytes limits"

definition batch_within :: "batch_limits \<Rightarrow> segment_tables \<Rightarrow> doc_address list \<Rightarrow> bool" where
  "batch_within limits t b \<longleftrightarrow> b \<noteq> [] \<and> length b \<le> limit_documents limits \<and> (length b = 1 \<or> bytes_of t (batch_blocks limits t b) \<le> limit_bytes limits)"

lemma table_address_span [simp]: "address_span limits t (table_address t segment x) = span_set limits t (fst x)"
  by (simp add: table_address_def doc_address_of_def address_span_def split: prod.splits)

lemma batch_inv_within: "batch_inv limits t st \<Longrightarrow> cur_batch st \<noteq> [] \<Longrightarrow> batch_within limits t (cur_batch st)"
  by (auto simp: batch_inv_def batch_within_def)

lemma empty_batch_inv: "batch_inv limits t empty_batch"
  by (simp add: batch_inv_def empty_batch_def batch_blocks_def bytes_of_def)

definition isolated_doc :: "batch_limits \<Rightarrow> segment_tables \<Rightarrow> nat \<Rightarrow> bool" where
  "isolated_doc limits t i \<longleftrightarrow> limit_bytes limits \<noteq> U64_MAX \<and>
     (doc_size (documents t ! i) \<ge> LARGE_DOCUMENT_BYTES \<or> bytes_of t (span_set limits t i) > limit_bytes limits)"

definition batch_full :: "batch_limits \<Rightarrow> segment_tables \<Rightarrow> batch_state \<Rightarrow> nat \<Rightarrow> bool" where
  "batch_full limits t st i \<longleftrightarrow> cur_batch st \<noteq> [] \<and>
     (length (cur_batch st) \<ge> limit_documents limits \<or> bytes_of t (span_set limits t i - cur_blocks st) > limit_bytes limits - cur_bytes st)"

definition add_document_to :: "batch_limits \<Rightarrow> segment_tables \<Rightarrow> nat \<Rightarrow> batch_state \<Rightarrow> nat \<times> candidate_range list option \<Rightarrow> batch_state" where
  "add_document_to limits t segment st x =
     \<lparr>cur_batch = cur_batch st @ [table_address t segment x], cur_bytes = bytes_of t (cur_blocks st \<union> span_set limits t (fst x)),
       cur_blocks = cur_blocks st \<union> span_set limits t (fst x)\<rparr>"

definition flush_due :: "batch_limits \<Rightarrow> segment_tables \<Rightarrow> batch_state \<Rightarrow> nat \<Rightarrow> bool" where
  "flush_due limits t st i \<longleftrightarrow> (isolated_doc limits t i \<or> batch_full limits t st i) \<and> cur_batch st \<noteq> []"

lemma add_document_eval:
  assumes "bytes_of t {..<length (table_blocks t)} < 2 ^ 64" "span_set limits t (fst x) = {a..<e}" "e \<le> length (table_blocks t)" "batch_inv limits t st"
  shows "add_blocks t (st\<lparr>cur_batch := cur_batch st @ [table_address t segment x]\<rparr>) [a..<e] = Inr (add_document_to limits t segment st x)"
proof -
  have "{a..<e} \<subseteq> {..<length (table_blocks t)}" using assms(3) by auto
  with assms(4) add_blocks_total [OF assms(1), of "[a..<e]" "st\<lparr>cur_batch := cur_batch st @ [table_address t segment x]\<rparr>"] show ?thesis
    unfolding batch_inv_def add_document_to_def assms(2) by (cases st) auto
qed

lemma batch_step_eval:
  assumes t: "bytes_of t {..<length (table_blocks t)} < 2 ^ 64" and x: "batchable limits t (fst x)" and seg: "segment < 2 ^ 32" and inv: "batch_inv limits t st"
  shows "batch_step collect_batches limits t segment out st x =
    (let due = flush_due limits t st (fst x); st1 = add_document_to limits t segment (if due then empty_batch else st) x; out1 = (if due then out @ [cur_batch st] else out)
     in Inr (if isolated_doc limits t (fst x) then (out1 @ [cur_batch st1], empty_batch, True) else (out1, st1, True)))"
proof -
  obtain i ranges where xi: "x = (i, ranges)" by (cases x)
  let ?doc = "documents t ! i" and ?addr = "table_address t segment x"
  from x obtain a e where d: "i < length (documents t)" "source_id ?doc < length (sources t)" "document_span limits t ?doc = Inr (a, e)" "e \<le> length (table_blocks t)"
    by (auto simp: batchable_def xi)
  have sp: "span_set limits t i = {a..<e}" by (simp add: span_set_def d(3))
  have sub: "{a..<e} \<subseteq> {..<length (table_blocks t)}" using d(4) by auto
  have docs: "sum_decoded m t [a..<e] = Inr (bytes_of t {a..<e})" for m using sum_decoded_total [OF _ _ t, of "[a..<e]" m] sub by simp
  have filt: "set (filter (\<lambda>b. b \<notin> cur_blocks st) [a..<e]) = {a..<e} - cur_blocks st" by auto
  have adds: "sum_decoded m t (filter (\<lambda>b. b \<notin> cur_blocks st) [a..<e]) = Inr (bytes_of t ({a..<e} - cur_blocks st))" for m
    using sum_decoded_total [OF _ _ t, of "filter (\<lambda>b. b \<notin> cur_blocks st) [a..<e]" m] sub unfolding filt by auto
  have exc: "exceeds_limits limits st (bytes_of t ({a..<e} - cur_blocks st)) = Inr (batch_full limits t st i)"
    using inv by (auto simp: exceeds_limits_def batch_full_def checked_sub_def batch_inv_def sp)
  have iso: "(limit_bytes limits \<noteq> U64_MAX \<and> (doc_size ?doc \<ge> LARGE_DOCUMENT_BYTES \<or> bytes_of t {a..<e} > limit_bytes limits)) = isolated_doc limits t i"
    by (simp add: isolated_doc_def sp)
  have addr: "doc_address_of segment ?doc (sources t ! source_id ?doc) (i, ranges) = ?addr" by (simp add: table_address_def xi)
  have add: "add_blocks t (s\<lparr>cur_batch := cur_batch s @ [?addr]\<rparr>) [a..<e] = Inr (add_document_to limits t segment s x)" if "batch_inv limits t s" for s
    using add_document_eval [OF t _ d(4) that, of x a segment] by (simp add: sp xi)
  have get: "get (documents t) i = Some ?doc" "get (sources t) (source_id ?doc) = Some (sources t ! source_id ?doc)" using d(1,2) by (simp_all add: get_def)
  show ?thesis
    unfolding batch_step_def xi prod.case fst_conv get(1) or_panic_simps and_then_Inr d(3) docs adds iso Let_def exc flush_due_def [symmetric] get(2)
    using add [OF inv] add [OF empty_batch_inv] seg by (simp add: flush_batch_def try_u32_def addr [unfolded xi] xi del: and_then_eq_Inr)
qed

lemma add_document_inv:
  assumes inv: "batch_inv limits t st" and x: "batchable limits t (fst x)" and lim: "0 < limit_documents limits"
    and ok: "\<not> isolated_doc limits t (fst x)" "\<not> batch_full limits t st (fst x)"
  shows "batch_inv limits t (add_document_to limits t segment st x)"
proof -
  let ?S = "span_set limits t (fst x)" and ?A = "cur_blocks st"
  have S: "?S \<subseteq> {..<length (table_blocks t)}" using x by (auto simp: batchable_def span_set_def)
  have fin: "finite ?A" "finite ?S" using inv S by (auto simp: batch_inv_def intro: finite_subset)
  have split: "bytes_of t (?A \<union> ?S) = bytes_of t ?A + bytes_of t (?S - ?A)"
    using fin sum.union_disjoint [of ?A "?S - ?A" "\<lambda>k. decoded_len (table_blocks t ! k)"] by (auto simp: bytes_of_def)
  have "bytes_of t (?A \<union> ?S) \<le> limit_bytes limits \<and> length (cur_batch st) < limit_documents limits"
  proof (cases "cur_batch st = []")
    case True
    then have "?A = {}" using inv by (simp add: batch_inv_def batch_blocks_def)
    moreover have "bytes_of t ?S \<le> limit_bytes limits"
    proof (cases "limit_bytes limits = U64_MAX")
      case True
      then have "?S = {}" by (simp add: span_set_def document_span_def)
      then show ?thesis by (simp add: bytes_of_def)
    next
      case False
      with ok(1) show ?thesis by (simp add: isolated_doc_def)
    qed
    ultimately show ?thesis using True lim by simp
  next
    case False
    with ok(2) inv split show ?thesis by (auto simp: batch_full_def batch_inv_def)
  qed
  then show ?thesis using inv S by (auto simp: batch_inv_def add_document_to_def batch_blocks_def)
qed

lemma batch_step_total:
  assumes t: "bytes_of t {..<length (table_blocks t)} < 2 ^ 64" and x: "batchable limits t (fst x)" and seg: "segment < 2 ^ 32"
    and lim: "0 < limit_documents limits" and inv: "batch_inv limits t st"
  shows "\<exists>new st'. batch_step collect_batches limits t segment out st x = Inr (out @ new, st', True) \<and> batch_inv limits t st' \<and>
    concat new @ cur_batch st' = cur_batch st @ [table_address t segment x] \<and> list_all (batch_within limits t) new"
proof -
  let ?due = "flush_due limits t st (fst x)" and ?iso = "isolated_doc limits t (fst x)"
  define st0 where "st0 = (if ?due then empty_batch else st)"
  define st1 where "st1 = add_document_to limits t segment st0 x"
  define old where "old = (if ?due then [cur_batch st] else [])"
  have step: "batch_step collect_batches limits t segment out st x =
      Inr (out @ old @ (if ?iso then [cur_batch st1] else []), if ?iso then empty_batch else st1, True)"
    by (simp add: batch_step_eval [OF t x seg inv] Let_def st0_def st1_def old_def)
  have old: "list_all (batch_within limits t) old" using batch_inv_within [OF inv] by (auto simp: old_def flush_due_def)
  have cat: "concat old @ cur_batch st1 = cur_batch st @ [table_address t segment x]"
    by (simp add: st1_def st0_def old_def add_document_to_def empty_batch_def)
  have st1: "batch_within limits t (cur_batch st1) \<and> cur_batch st0 = []" if ?iso
    using that lim by (auto simp: st1_def st0_def add_document_to_def batch_within_def flush_due_def empty_batch_def Suc_le_eq)
  have inv1: "batch_inv limits t st1" if "\<not> ?iso"
    unfolding st1_def using that inv empty_batch_inv
    by (intro add_document_inv [OF _ x lim]) (auto simp: st0_def flush_due_def batch_full_def empty_batch_def)
  show ?thesis
  proof (cases ?iso)
    case True
    with st1 old cat show ?thesis by (intro exI [of _ "old @ [cur_batch st1]"] exI [of _ empty_batch]) (simp_all add: step empty_batch_inv, simp_all add: empty_batch_def)
  next
    case False
    with inv1 old cat show ?thesis by (intro exI [of _ old] exI [of _ st1]) (simp add: step)
  qed
qed

lemma batch_loop_total:
  assumes t: "bytes_of t {..<length (table_blocks t)} < 2 ^ 64" and seg: "segment < 2 ^ 32" and lim: "0 < limit_documents limits"
    and inv: "batch_inv limits t st" and xs: "\<forall>x\<in>set xs. batchable limits t (fst x)"
  shows "\<exists>new. batch_loop collect_batches limits t segment out st xs = Inr (out @ new, True) \<and>
    concat new = cur_batch st @ map (table_address t segment) xs \<and> list_all (batch_within limits t) new"
  using inv xs
proof (induction xs arbitrary: out st)
  case Nil
  then show ?case using batch_inv_within [OF Nil.prems(1)] by (intro exI [of _ "if cur_batch st = [] then [] else [cur_batch st]"]) simp
next
  case (Cons x xs)
  from Cons.prems have x: "batchable limits t (fst x)" by simp
  from batch_step_total [OF t x seg lim Cons.prems(1)] obtain new st' where step:
    "batch_step collect_batches limits t segment out st x = Inr (out @ new, st', True)" "batch_inv limits t st'"
    "concat new @ cur_batch st' = cur_batch st @ [table_address t segment x]" "list_all (batch_within limits t) new" by blast
  from Cons.prems(2) have "\<forall>x\<in>set xs. batchable limits t (fst x)" by simp
  from Cons.IH [OF step(2) this, of "out @ new"] obtain new' where
    rest: "batch_loop collect_batches limits t segment (out @ new) st' xs = Inr ((out @ new) @ new', True)"
    "concat new' = cur_batch st' @ map (table_address t segment) xs" "list_all (batch_within limits t) new'" by blast
  have "concat (new @ new') = (concat new @ cur_batch st') @ map (table_address t segment) xs" by (simp add: rest(2))
  then have "concat (new @ new') = cur_batch st @ map (table_address t segment) (x # xs)" unfolding step(3) by simp
  with step(1,4) rest(1,3) show ?case by (intro exI [of _ "new @ new'"]) simp
qed

text \<open>Without any assumption on the tables: a run that returns has handed over the addresses of all documents in order.\<close>

lemma add_blocks_batch: "add_blocks t st ks = Inr st' \<Longrightarrow> cur_batch st' = cur_batch st"
proof -
  assume a: "add_blocks t st ks = Inr st'"
  show ?thesis
    by (rule visit_all_invariant [OF a [unfolded add_blocks_def], where P = "\<lambda>s. cur_batch s = cur_batch st"]) (auto split: if_splits)
qed

lemma flush_batch_collects:
  "flush_batch collect_batches due out st = Inr (out', st', go) \<Longrightarrow> go \<and> concat out' @ cur_batch st' = concat out @ cur_batch st"
  by (auto simp: flush_batch_def empty_batch_def split: if_splits)

lemma batch_step_collects:
  assumes "batch_step collect_batches limits t segment out st x = Inr (out', st', go)"
  shows "go \<and> concat out' @ cur_batch st' = (concat out @ cur_batch st) @ [table_address t segment x]"
proof -
  obtain i ranges where xi: "x = (i, ranges)" by (cases x)
  from assms obtain due out1 st1 go1 where f: "flush_batch collect_batches due out st = Inr (out1, st1, go1)"
    "\<not> go1 \<longrightarrow> (out', st', go) = (out1, st1, False)"
    "go1 \<longrightarrow> (\<exists>ks iso st2. add_blocks t (st1\<lparr>cur_batch := cur_batch st1 @ [table_address t segment x]\<rparr>) ks = Inr st2 \<and>
       flush_batch collect_batches iso out1 st2 = Inr (out', st', go))"
    by (auto simp: batch_step_def xi Let_def try_u32_def table_address_def split: if_splits) blast+
  from flush_batch_collects [OF f(1)] have 1: go1 "concat out1 @ cur_batch st1 = concat out @ cur_batch st" by auto
  with f(3) obtain ks iso st2 where s2: "add_blocks t (st1\<lparr>cur_batch := cur_batch st1 @ [table_address t segment x]\<rparr>) ks = Inr st2"
    "flush_batch collect_batches iso out1 st2 = Inr (out', st', go)" by blast
  have "cur_batch st2 = cur_batch st1 @ [table_address t segment x]" using add_blocks_batch [OF s2(1)] by simp
  with flush_batch_collects [OF s2(2)] 1(2) show ?thesis by (metis append.assoc)
qed

lemma batch_loop_collects:
  "batch_loop collect_batches limits t segment out st xs = Inr (out', go) \<Longrightarrow>
     go \<and> concat out' = concat out @ cur_batch st @ map (table_address t segment) xs"
proof (induction xs arbitrary: out st)
  case Nil
  then show ?case by (auto split: if_splits)
next
  case (Cons x xs)
  from Cons.prems obtain out1 st1 go1 where s: "batch_step collect_batches limits t segment out st x = Inr (out1, st1, go1)"
    "(if go1 then batch_loop collect_batches limits t segment out1 st1 xs else Inr (out1, False)) = Inr (out', go)" by auto
  from batch_step_collects [OF s(1)] have 1: go1 "concat out1 @ cur_batch st1 = (concat out @ cur_batch st) @ [table_address t segment x]" by auto
  with s(2) have "batch_loop collect_batches limits t segment out1 st1 xs = Inr (out', go)" by simp
  from Cons.IH [OF this] have "go" "concat out' = (concat out1 @ cur_batch st1) @ map (table_address t segment) xs" by auto
  then show ?case unfolding 1(2) by simp
qed

section \<open>Selections of a segment\<close>

lemma visit_selection_pair: "visit_selection bl expand visit s (i, q) = and_then (eval bl (Some (expand i)) q) (\<lambda>sel. visit s i sel)"
  by (simp add: visit_selection_def)

lemma visit_selection_split:
  "visit_all (visit_selection bl expand visit) s xs = Inr r \<Longrightarrow>
     \<exists>sels. visit_all (visit_selection bl expand collect_selections) acc xs = Inr (acc @ sels) \<and> visit_all (\<lambda>s (i, sel). visit s i sel) s sels = Inr r"
proof (induction xs arbitrary: s acc)
  case (Cons x xs)
  obtain i q where x: "x = (i, q)" by (cases x)
  from Cons.prems obtain sel s1 where 1: "eval bl (Some (expand i)) q = Inr sel" "visit s i sel = Inr s1"
    "visit_all (visit_selection bl expand visit) s1 xs = Inr r"
    by (auto simp: x visit_selection_pair visit_all_Cons simp del: visit_all.simps(2))
  from Cons.IH [OF 1(3), of "acc @ [(i, sel)]"] obtain sels where
    "visit_all (visit_selection bl expand collect_selections) (acc @ [(i, sel)]) xs = Inr ((acc @ [(i, sel)]) @ sels)"
    "visit_all (\<lambda>s (i, sel). visit s i sel) s1 sels = Inr r" by blast
  with 1(1,2) show ?case by (intro exI [of _ "(i, sel) # sels"]) (simp add: x visit_selection_pair)
qed simp

lemma visit_candidates_split:
  assumes "visit_candidate_selections plans n strat lookup expand fetch visit s = Inr r"
  shows "\<exists>sels. visit_candidate_selections plans n strat lookup expand fetch collect_selections [] = Inr sels \<and>
     visit_all (\<lambda>s (i, sel). visit s i sel) s sels = Inr r"
proof -
  from assms obtain bound bl where b: "bind_queries (map plan_query plans) n strat lookup = Inr bound" "fetch (fold blocks_needed bound Map.empty) = Inr bl"
    "visit_all (visit_selection bl expand visit) s (enumerate 0 bound) = Inr r" by (auto simp: visit_candidates_batch)
  from visit_selection_split [OF b(3), of "[]"] b(1,2) show ?thesis by (auto simp: visit_candidates_batch)
qed

lemma visit_candidates_lookup:
  assumes "\<forall>gram\<in>set (collect_query_grams (map plan_query plans)). lookup gram = lookup' gram"
  shows "visit_candidate_selections plans n strat lookup expand fetch visit s = visit_candidate_selections plans n strat lookup' expand fetch visit s"
  using bind_queries_cong [of "map plan_query plans" lookup lookup' n strat] assms by (simp add: visit_candidates_batch collect_query_grams_spec)

text \<open>The dictionary of an open segment: the whole file, or its index alone.\<close>

definition holds_map :: "fst_crate \<Rightarrow> pack_crates \<Rightarrow> strategy \<Rightarrow> merged_index \<Rightarrow> open_segment \<Rightarrow> bool" where
  "holds_map F X strat out seg \<longleftrightarrow> (\<forall>idx. segment_map F strat out \<noteq> SparseRemote idx) \<and>
     (os_map seg = segment_map F strat out \<or>
      (\<exists>idx gs. os_map seg = SparseRemote idx \<and> segment_map F strat out = SparseMap idx (terms_file out) \<and>
         holds_groups (sha256 X) idx (terms_file out) gs \<and> groups_unforgeable X gs))"

lemma candidate_lookup_agrees:
  assumes "holds_map F X strat out seg" "candidate_lookup C X store plans seg d = Inr (lookup, d')" "gram \<in> set (collect_query_grams (map plan_query plans))"
  shows "lookup gram = map_lookup C (segment_map F strat out) gram"
proof (cases "os_map seg = segment_map F strat out")
  case True
  with assms(1,2) show ?thesis by (auto simp: candidate_lookup_def holds_map_def split: term_map.splits)
next
  case False
  with assms(1) obtain idx gs where m: "os_map seg = SparseRemote idx" "segment_map F strat out = SparseMap idx (terms_file out)"
    "holds_groups (sha256 X) idx (terms_file out) gs" "groups_unforgeable X gs" by (auto simp: holds_map_def)
  with assms(2) obtain vals where v: "read_term_values C X store (os_meta seg) (SparseRemote idx) (map plan_query plans) d = Inr (vals, d')"
    "lookup = (\<lambda>gram. Inr (case vals gram of Some v \<Rightarrow> v | None \<Rightarrow> None))" by (auto simp: candidate_lookup_def)
  from read_term_values_known [OF m(3,4) v(1) assms(3)] m(2) v(2) show ?thesis by auto
qed

text \<open>A document entry covers block \<open>k\<close> of the document with extent \<open>e\<close>: it has no ranges, which means the whole document, or a range that reads the block.\<close>

definition range_covers :: "candidate_range list option \<Rightarrow> nat \<Rightarrow> search_extent \<Rightarrow> bool" where
  "range_covers r k e \<longleftrightarrow> (case r of None \<Rightarrow> True | Some rs \<Rightarrow> reads_block rs k e)"

definition proper :: "candidate_range list option \<Rightarrow> bool" where
  "proper r \<longleftrightarrow> (case r of None \<Rightarrow> True | Some rs \<Rightarrow> \<forall>x\<in>set rs. range_start x < range_end x)"

text \<open>Where the id of a selection lies: a block of a document, or a document.\<close>

definition names_block :: "strategy \<Rightarrow> segment_tables \<Rightarrow> nat list option \<Rightarrow> doc_id \<Rightarrow> nat \<Rightarrow> nat \<Rightarrow> bool" where
  "names_block strat t bases i d k \<longleftrightarrow> d < length (documents t) \<and>
     (case strat of
        Sparse \<Rightarrow> unat i = d
      | Trigram \<Rightarrow> (case bases of None \<Rightarrow> False | Some bs \<Rightarrow> build_block_bases t = Inr bs \<and> unat i = bs ! d + k \<and> bs ! d + k < bs ! Suc d))"

lemma sparse_documents:
  "visit_all (\<lambda>out d. ensure (unat d < n) msg (Inr (out @ [(unat d, None)]))) acc ids = Inr ds \<Longrightarrow> ds = acc @ map (\<lambda>d. (unat d, None)) ids"
  by (induction ids arbitrary: ds rule: rev_induct) (auto simp: visit_all_snoc)

lemma whole_documents:
  "visit_all (\<lambda>out i. ensure (unat i < m) msg (and_then (try_u32 (get_block_document (unat i) bs)) (\<lambda>d. Inr (out @ [(d, None)])))) acc ids = Inr ds \<Longrightarrow>
     ds = acc @ map (\<lambda>i. (get_block_document (unat i) bs, None)) ids"
  by (induction ids arbitrary: ds rule: rev_induct) (auto simp: visit_all_snoc)

lemma block_document_of:
  assumes "build_block_bases t = Inr bs" "d < length (documents t)" "bs ! d + k < bs ! Suc d"
  shows "get_block_document (bs ! d + k) bs = d"
  using block_bases_facts [OF assms(1)] assms(2,3) by (intro get_block_document_eq) auto

text \<open>The ranges of a group stay in its document.\<close>

definition groups_home :: "nat list \<Rightarrow> (nat \<times> candidate_range list) list \<Rightarrow> bool" where
  "groups_home bs gps \<longleftrightarrow> (\<forall>(d, rs)\<in>set gps. \<forall>r\<in>set rs. \<forall>k\<in>range_blocks r. get_block_document (bs ! d + k) bs = d)"

lemma group_step_home:
  assumes "group_step bs extent gps i = Inr gps'" "groups_ok extent gps" "groups_home bs gps" "bs ! get_block_document i bs \<le> i"
  shows "groups_home bs gps'"
proof -
  let ?d = "get_block_document i bs"
  let ?local = "i - bs ! ?d"
  have here: "bs ! ?d + ?local = i" using assms(4) by simp
  show ?thesis
  proof (cases "gps = [] \<or> fst (last gps) \<noteq> ?d")
    case True
    with assms(1) have "gps' = gps @ [(?d, [\<lparr>range_start = ?local, range_end = ?local + 1, range_extent = extent\<rparr>])]" by (auto simp: group_step_def Let_def)
    with assms(3) here show ?thesis by (auto simp: groups_home_def range_blocks_def less_Suc_eq_le)
  next
    case False
    then obtain gs rs where g: "gps = gs @ [(?d, rs)]" by (cases gps rule: rev_cases) auto
    with assms(2) obtain rs0 r where rs: "rs = rs0 @ [r]" by (cases rs rule: rev_cases) (auto simp: groups_ok_def)
    with g assms(2) have r: "range_start r < range_end r" by (auto simp: groups_ok_def)
    have step: "gps' = gs @ [(?d, if range_end r = ?local then rs0 @ [r\<lparr>range_end := range_end r + 1\<rparr>]
        else rs @ [\<lparr>range_start = ?local, range_end = ?local + 1, range_extent = extent\<rparr>])]"
      using assms(1) g rs by (auto simp: group_step_def Let_def split: if_splits)
    have "range_blocks (r\<lparr>range_end := range_end r + 1\<rparr>) = insert (range_end r) (range_blocks r)" using r by (intro range_blocks_extend) simp
    with assms(3) here show ?thesis unfolding step groups_home_def g rs
      by (auto simp: range_blocks_def [of "\<lparr>range_start = _, range_end = _, range_extent = _\<rparr>"] less_Suc_eq_le)
  qed
qed

lemma grouped_home:
  assumes b: "build_block_bases t = Inr bs" and g: "visit_all (group_step bs extent) [] ids = Inr gps"
  shows "groups_ok extent gps \<and> groups_home bs gps"
  using g
proof (induction ids arbitrary: gps rule: rev_induct)
  case (snoc i ids)
  then obtain g0 where g0: "visit_all (group_step bs extent) [] ids = Inr g0" "group_step bs extent g0 i = Inr gps" by (auto simp: visit_all_snoc)
  then have "i < last bs" using block_bases_facts(5) [OF b] by (auto simp: group_step_def)
  note home = block_document_base(1) [OF b this]
  from snoc.IH [OF g0(1)] group_step_home [OF g0(2) _ _ home] group_step_spec [OF g0(2) _ home] show ?case by blast
qed (simp add: groups_ok_def groups_home_def)

lemma grouped_block:
  assumes b: "build_block_bases t = Inr bs" and g: "group_candidate_blocks (map unat ids) bs extent = Inr gps"
    and i: "i \<in> set ids" "unat i = bs ! d + k" "d < length (documents t)" "bs ! d + k < bs ! Suc d"
  shows "\<exists>rs. (d, rs) \<in> set gps \<and> reads_block rs k extent"
proof -
  from group_candidate_blocks_spec [OF b g] i(1,2) have "bs ! d + k \<in> group_blocks bs gps" by force
  then obtain d' rs r k' where m: "(d', rs) \<in> set gps" "r \<in> set rs" "k' \<in> range_blocks r" "bs ! d + k = bs ! d' + k'" by (auto simp: group_blocks_def)
  have home: "groups_ok extent gps" "groups_home bs gps" using grouped_home [OF b] g by (auto simp: group_candidate_blocks_def)
  have "d' = get_block_document (bs ! d' + k') bs" using home(2) m(1-3) by (auto simp: groups_home_def)
  also have "\<dots> = d" unfolding m(4) [symmetric] by (rule block_document_of [OF b i(3,4)])
  finally have "d' = d" .
  with m have "k' = k" by simp
  moreover from home(1) m(1,2) have "range_extent r = extent" by (auto simp: groups_ok_def)
  ultimately show ?thesis using m(1-3) \<open>d' = d\<close> broader_pick(3) [of extent] unfolding reads_block_def by metis
qed

lemma candidate_documents_complete:
  assumes "candidate_documents sel extent strat (length (documents t)) bases = Inr ds" "sel_has sel i" "names_block strat t bases i d k"
  shows "\<exists>r. (d, r) \<in> set ds \<and> range_covers r k extent"
proof (cases sel)
  case SAll
  with assms(1,3) show ?thesis by (intro exI [of _ None]) (auto simp: candidate_documents_def names_block_def range_covers_def)
next
  case (SIds ids)
  then have i: "i \<in> set ids" using assms(2) by simp
  show ?thesis
  proof (cases strat)
    case Sparse
    with assms(1) SIds have "ds = map (\<lambda>d. (unat d, None)) ids" by (auto simp: candidate_documents_def dest!: sparse_documents)
    with Sparse i assms(3) show ?thesis by (intro exI [of _ None]) (force simp: names_block_def range_covers_def)
  next
    case Trigram
    with assms(3) obtain bs where bs: "bases = Some bs" "d < length (documents t)" "build_block_bases t = Inr bs" "unat i = bs ! d + k" "bs ! d + k < bs ! Suc d"
      by (auto simp: names_block_def split: option.splits)
    show ?thesis
    proof (cases "extent = EDocument")
      case True
      with assms(1) SIds Trigram bs(1) have "ds = remdups_adj (map (\<lambda>i. (get_block_document (unat i) bs, None)) ids)"
        by (auto simp: candidate_documents_def dest!: whole_documents)
      with i bs block_document_of [OF bs(3,2,5)] show ?thesis by (intro exI [of _ None]) (force simp: range_covers_def)
    next
      case False
      with assms(1) SIds Trigram bs(1) obtain gps where g: "group_candidate_blocks (map unat ids) bs extent = Inr gps" "ds = map (\<lambda>(d, rs). (d, Some rs)) gps"
        by (auto simp: candidate_documents_def)
      from grouped_block [OF bs(3) g(1) i bs(4,2,5)] g(2) show ?thesis by (force simp: range_covers_def)
    qed
  qed
qed

lemma candidate_documents_proper:
  assumes "candidate_documents sel extent strat n bases = Inr ds" "strat = Trigram \<longrightarrow> (\<exists>bs. bases = Some bs \<and> build_block_bases t = Inr bs)" "(d, r) \<in> set ds"
  shows "proper r"
proof (cases r)
  case (Some rs)
  have sel: "\<exists>ids. sel = SIds ids" using assms(1,3) Some by (cases sel) (auto simp: candidate_documents_def)
  then obtain ids where ids: "sel = SIds ids" by blast
  have "strat = Trigram" using assms(1,3) Some ids by (cases strat) (auto simp: candidate_documents_def dest!: sparse_documents)
  with assms(2) obtain bs where bs: "bases = Some bs" "build_block_bases t = Inr bs" by blast
  have ne: "extent \<noteq> EDocument"
  proof
    assume "extent = EDocument"
    with assms(1) ids bs(1) \<open>strat = Trigram\<close> have "ds = remdups_adj (map (\<lambda>i. (get_block_document (unat i) bs, None)) ids)"
      by (auto simp: candidate_documents_def simp del: if_split dest!: whole_documents)
    with assms(3) Some show False by auto
  qed
  with assms(1,3) Some ids bs(1) \<open>strat = Trigram\<close> obtain gps where g: "group_candidate_blocks (map unat ids) bs extent = Inr gps" "(d, rs) \<in> set gps"
    by (auto simp: candidate_documents_def)
  from group_candidate_blocks_spec [OF bs(2) g(1)] g(2) Some show ?thesis by (auto simp: proper_def groups_ok_def)
qed (simp add: proper_def)

definition doc_covers :: "(nat \<rightharpoonup> candidate_range list option) \<Rightarrow> nat \<Rightarrow> nat \<Rightarrow> search_extent \<Rightarrow> bool" where
  "doc_covers m d k e \<longleftrightarrow> (\<exists>r. m d = Some r \<and> range_covers r k e)"

lemma reads_merged:
  assumes "\<forall>r\<in>set (current @ incoming). range_start r < range_end r" "reads_block current k e \<or> reads_block incoming k e"
  shows "reads_block (merge_candidate_ranges current incoming) k e"
proof -
  from assms(2) obtain r where r: "r \<in> set (current @ incoming)" "k \<in> range_blocks r" "broader e (range_extent r)" by (auto simp: reads_block_def)
  from merge_candidate_ranges_spec(3) [OF assms(1) r(1,2)] obtain q where "q \<in> set (merge_candidate_ranges current incoming)" "k \<in> range_blocks q"
    "broader (range_extent r) (range_extent q)" by (auto simp: reads_block_def)
  with r(3) broader_trans show ?thesis unfolding reads_block_def by blast
qed

lemma add_document_keeps:
  assumes m: "\<forall>r\<in>ran m. proper r" and x: "proper (snd x)"
  shows "\<forall>r\<in>ran (add_document m x). proper r" "doc_covers m d k e \<Longrightarrow> doc_covers (add_document m x) d k e"
    "range_covers (snd x) k e \<Longrightarrow> doc_covers (add_document m x) (fst x) k e"
proof -
  obtain i ranges where xi: "x = (i, ranges)" by (cases x)
  have all: "(\<forall>r\<in>ran (add_document m x). proper r) \<and> (doc_covers m d k e \<longrightarrow> doc_covers (add_document m x) d k e) \<and>
      (range_covers (snd x) k e \<longrightarrow> doc_covers (add_document m x) (fst x) k e)"
  proof (cases ranges)
    case None
    with m show ?thesis by (auto simp: add_document_def xi doc_covers_def range_covers_def proper_def ran_def)
  next
    case (Some rs)
    show ?thesis
    proof (cases "m i = Some None")
      case True
      with m Some show ?thesis by (auto simp: add_document_def xi doc_covers_def range_covers_def)
    next
      case False
      define current where "current = (case m i of Some (Some c) \<Rightarrow> c | _ \<Rightarrow> [])"
      have upd: "add_document m x = m(i \<mapsto> Some (merge_candidate_ranges current rs))" using False Some by (auto simp: add_document_def xi current_def split: option.splits)
      have "\<forall>r\<in>set current. range_start r < range_end r"
      proof (cases "\<exists>c. m i = Some (Some c)")
        case True
        then obtain c where c: "m i = Some (Some c)" by blast
        then have "proper (Some c)" using m by (blast intro: ranI)
        with c show ?thesis by (simp add: current_def proper_def)
      qed (cases "m i"; auto simp: current_def split: option.splits)
      with x Some have ok: "\<forall>r\<in>set (current @ rs). range_start r < range_end r" by (auto simp: xi proper_def)
      have "proper (Some (merge_candidate_ranges current rs))" using merge_candidate_ranges_spec(1) [OF ok] by (simp add: proper_def ranges_disjoint_def)
      moreover have "reads_block (merge_candidate_ranges current rs) k e" if "m i = Some r" "range_covers r k e" for r
        using that False reads_merged [OF ok, of k e] by (cases r) (auto simp: range_covers_def current_def)
      moreover have "reads_block (merge_candidate_ranges current rs) k e" if "reads_block rs k e" using reads_merged [OF ok] that by blast
      ultimately show ?thesis using m Some unfolding upd by (auto simp: doc_covers_def range_covers_def ran_def xi)
    qed
  qed
  from all show "\<forall>r\<in>ran (add_document m x). proper r" "doc_covers m d k e \<Longrightarrow> doc_covers (add_document m x) d k e"
    "range_covers (snd x) k e \<Longrightarrow> doc_covers (add_document m x) (fst x) k e" by blast+
qed

lemma add_documents_keep:
  assumes "\<forall>r\<in>ran m. proper r" "\<forall>x\<in>set ds. proper (snd x)"
  shows "(\<forall>r\<in>ran (foldl add_document m ds). proper r) \<and> (doc_covers m d k e \<longrightarrow> doc_covers (foldl add_document m ds) d k e) \<and>
    (\<forall>r. (d, r) \<in> set ds \<longrightarrow> range_covers r k e \<longrightarrow> doc_covers (foldl add_document m ds) d k e)"
  using assms
proof (induction ds arbitrary: m)
  case (Cons x ds)
  have m: "\<forall>r\<in>ran (add_document m x). proper r" "doc_covers m d k e \<Longrightarrow> doc_covers (add_document m x) d k e"
    "range_covers (snd x) k e \<Longrightarrow> doc_covers (add_document m x) (fst x) k e"
    using add_document_keeps [of m x] Cons.prems by auto
  from Cons.IH [OF m(1)] Cons.prems(2) m(2,3) show ?case by auto
qed simp

lemma note_selections_cover:
  assumes "visit_all (\<lambda>s (p, sel). note_selection plans strat meta bases s p sel) (single, m) sels = Inr (single', m')" "length plans \<noteq> 1"
    and "strat = Trigram \<longrightarrow> (\<exists>bs. bases = Some bs \<and> build_block_bases t = Inr bs)" "unat (segment_meta.doc_count meta) = length (documents t)"
    and "\<forall>r\<in>ran m. proper r"
  shows "single' = single \<and> (\<forall>d k e. doc_covers m d k e \<longrightarrow> doc_covers m' d k e) \<and>
    (\<forall>(p, sel)\<in>set sels. \<forall>i d k. sel_has sel i \<longrightarrow> names_block strat t bases i d k \<longrightarrow> doc_covers m' d k (plan_extent (plans ! p)))"
  using assms(1,5)
proof (induction sels arbitrary: m)
  case (Cons x sels)
  obtain p sel where x: "x = (p, sel)" by (cases x)
  from Cons.prems(1) assms(2) obtain ds where ds: "candidate_documents sel (plan_extent (plans ! p)) strat (length (documents t)) bases = Inr ds"
    "visit_all (\<lambda>s (p, sel). note_selection plans strat meta bases s p sel) (single, foldl add_document m ds) sels = Inr (single', m')"
    by (auto simp: x note_selection_def add_candidate_selection_def assms(4) visit_all_Cons simp del: visit_all.simps(2))
  have "\<forall>x\<in>set ds. proper (snd x)" using candidate_documents_proper [OF ds(1) assms(3)] by auto
  note keep = add_documents_keep [OF Cons.prems(2) this]
  from Cons.IH [OF ds(2)] keep have IH: "single' = single" "\<forall>d k e. doc_covers (foldl add_document m ds) d k e \<longrightarrow> doc_covers m' d k e"
    "\<forall>(p, sel)\<in>set sels. \<forall>i d k. sel_has sel i \<longrightarrow> names_block strat t bases i d k \<longrightarrow> doc_covers m' d k (plan_extent (plans ! p))" by auto
  have "doc_covers m' d k (plan_extent (plans ! p))" if "sel_has sel i" "names_block strat t bases i d k" for i d k
    using candidate_documents_complete [OF ds(1) that] keep IH(2) by blast
  with IH keep show ?case by (auto simp: x)
qed auto

lemma noted_documents:
  assumes "visit_all (\<lambda>s (p, sel). note_selection plans strat meta bases s p sel) (None, Map.empty) sels = Inr (single, m)" "map fst sels = [0..<length plans]"
    and bs: "strat = Trigram \<longrightarrow> (\<exists>bs. bases = Some bs \<and> build_block_bases t = Inr bs)" and n: "unat (segment_meta.doc_count meta) = length (documents t)"
    and docs: "(case single of Some sel \<Rightarrow> candidate_documents sel (plan_extent (plans ! 0)) strat (unat (segment_meta.doc_count meta)) bases
         | None \<Rightarrow> Inr (map (\<lambda>i. (i, the (m i))) (sorted_list_of_set (dom m)))) = Inr docs"
    and fin: "finite (dom m)" and p: "p < length plans" "sel_has (snd (sels ! p)) i" "names_block strat t bases i d k"
  shows "\<exists>r. (d, r) \<in> set docs \<and> range_covers r k (plan_extent (plans ! p))"
proof (cases "length plans = 1")
  case True
  with assms(2) obtain sel where sels: "sels = [(0, sel)]" by (cases sels) auto
  with assms(1) True have "single = Some sel" by (auto simp: note_selection_def)
  with docs n sels p True candidate_documents_complete [of sel "plan_extent (plans ! 0)" strat t bases docs i d k] show ?thesis by simp
next
  case False
  note cov = note_selections_cover [OF assms(1) False bs n]
  then have none: "single = None" by simp
  have len: "length sels = length plans" using arg_cong [OF assms(2), of length] by simp
  have "fst (sels ! p) = p" using assms(2) p(1) len by (metis add_0 nth_map nth_upt)
  then have "(p, snd (sels ! p)) \<in> set sels" using p(1) len by (metis nth_mem prod.collapse)
  with cov p(2,3) have "doc_covers m d k (plan_extent (plans ! p))" by fastforce
  then obtain r where "m d = Some r" "range_covers r k (plan_extent (plans ! p))" by (auto simp: doc_covers_def)
  with docs none fin show ?thesis by (intro exI [of _ r]) (auto simp: image_iff intro!: bexI [of _ d])
qed

lemma add_documents_finite: "finite (dom m) \<Longrightarrow> finite (dom (foldl add_document m ds))"
proof (induction ds arbitrary: m)
  case (Cons x ds)
  have "finite (dom (add_document m x))" using Cons.prems by (auto simp: add_document_def split: prod.splits option.splits)
  with Cons.IH show ?case by simp
qed simp

lemma noted_finite:
  assumes "visit_all (\<lambda>s (p, sel). note_selection plans strat meta bases s p sel) (single, m) sels = Inr (single', m')" "finite (dom m)"
  shows "finite (dom m')"
proof -
  have "finite (dom (snd (single', m')))"
    by (rule visit_all_invariant [OF assms(1), where P = "\<lambda>s. finite (dom (snd s))"])
      (use assms(2) in \<open>auto simp: note_selection_def add_candidate_selection_def split: if_splits intro: add_documents_finite\<close>)
  then show ?thesis by simp
qed

abbreviation expand_plan :: "nat list option \<Rightarrow> segment_tables \<Rightarrow> candidate_plan list \<Rightarrow> nat \<Rightarrow> doc_id \<Rightarrow> doc_id \<times> doc_id" where
  "expand_plan bases t plans p i \<equiv> (case bases of Some bs \<Rightarrow> expand_closure bs t (plan_extent (plans ! p)) i | None \<Rightarrow> (i, i))"

lemma segment_candidates_complete:
  assumes run: "segment_candidates C X store rc strat plans seg t bases d0 = Inr docs"
    and bs: "strat = Trigram \<longrightarrow> (\<exists>bs. bases = Some bs \<and> build_block_bases t = Inr bs)"
    and n: "unat (segment_meta.doc_count (os_meta seg)) = length (documents t)" "block_count (os_meta seg) = unat n"
    and b: "holds_map F X strat out seg" "built F (sha256 X) strat n R out" "meta_of (os_meta seg) out" "no_collisions X (segment_data out)" "table_ok X (segment_data out) (os_state seg)"
    and p: "p < length plans" "query_holds {g. i \<in> hits (Some (expand_plan bases t plans p)) (index_postings C strat R g)} (plan_query (plans ! p))" "names_block strat t bases i d k"
  shows "\<exists>r. (d, r) \<in> set docs \<and> range_covers r k (plan_extent (plans ! p))"
proof -
  let ?visit = "note_selection plans strat (os_meta seg) bases"
  from run n(2) obtain lookup d1 single m where r: "candidate_lookup C X store plans seg d0 = Inr (lookup, d1)"
    "visit_candidate_selections plans n strat lookup (expand_plan bases t plans)
       (segment_fetch X store rc strat (os_meta seg) n ((os_state seg)\<lparr>ps_disk := d1\<rparr>)) ?visit (None, Map.empty) = Inr (single, m)"
    "(case single of Some sel \<Rightarrow> candidate_documents sel (plan_extent (plans ! 0)) strat (unat (segment_meta.doc_count (os_meta seg))) bases
         | None \<Rightarrow> Inr (map (\<lambda>i. (i, the (m i))) (sorted_list_of_set (dom m)))) = Inr docs"
    by (auto simp: segment_candidates_def Let_def)
  have "\<forall>gram\<in>set (collect_query_grams (map plan_query plans)). lookup gram = map_lookup C (segment_map F strat out) gram"
    using candidate_lookup_agrees [OF b(1) r(1)] by blast
  from visit_candidates_split [OF r(2) [unfolded visit_candidates_lookup [OF this]]] obtain sels where
    s: "visit_candidate_selections plans n strat (map_lookup C (segment_map F strat out)) (expand_plan bases t plans)
       (segment_fetch X store rc strat (os_meta seg) n ((os_state seg)\<lparr>ps_disk := d1\<rparr>)) collect_selections [] = Inr sels"
    "visit_all (\<lambda>s (i, sel). ?visit s i sel) (None, Map.empty) sels = Inr (single, m)" by blast
  have "table_ok X (segment_data out) ((os_state seg)\<lparr>ps_disk := d1\<rparr>)" using b(5) by (simp add: table_ok_def)
  note complete = selections_complete [OF b(2-4) this s(1)]
  with p have "sel_has (snd (sels ! p)) i" by blast
  from noted_documents [OF s(2) conjunct1 [OF complete] bs n(1) r(3) noted_finite [OF s(2)] p(1) this p(3)] show ?thesis by simp
qed

section \<open>Prefixes of display keys\<close>

lemma starts_with_iff: "starts_with s p \<longleftrightarrow> (\<exists>r. s = p @ r)"
proof
  assume "starts_with s p"
  then show "\<exists>r. s = p @ r" unfolding starts_with_def by (metis append_take_drop_id)
qed (auto simp: starts_with_def)

lemma source_part_prefix: "\<exists>r. p = source_part p @ r"
  by (induction p rule: source_part.induct) auto

lemma source_part_member: "\<exists>r. k = source_part (k @ ''!/'' @ m) @ r"
proof (induction k)
  case (Cons c k)
  then show ?case by (cases k) auto
qed simp

text \<open>A key prefix of a document reaches its source, unless it ends between the two characters of the separator.\<close>

lemma source_part_reaches:
  assumes "starts_with (k @ ''!/'' @ m) p" "p \<noteq> k @ ''!''"
  shows "starts_with k (source_part p)"
proof (cases "length p \<le> length k")
  case True
  with assms(1) have "take (length p) k = p" by (simp add: starts_with_def)
  then obtain r where "k = p @ r" by (metis append_take_drop_id)
  then show ?thesis using source_part_prefix [of p] by (metis append.assoc starts_with_iff)
next
  case False
  from assms(1) obtain r where r: "k @ ''!/'' @ m = p @ r" by (auto simp: starts_with_iff)
  then have "p = take (length p) (k @ ''!/'' @ m)" by simp
  with False have p: "p = k @ take (length p - length k) (''!/'' @ m)" by simp
  have "length p - length k \<noteq> 1" using assms(2) p by auto
  with False obtain n where "length p - length k = Suc (Suc n)" by (cases "length p - length k"; cases "length p - length k - 1") auto
  with p have "p = k @ ''!/'' @ take n m" by simp
  then show ?thesis using source_part_member [of k "take n m"] by (auto simp: starts_with_iff)
qed

lemma document_source:
  assumes wf: "sources_wf t" and d: "d < length (documents t)"
  shows "source_id (documents t ! d) < length (sources t)"
    and "display_key (documents t ! d) = source_key (sources t ! source_id (documents t ! d)) \<or>
      (\<exists>m. display_key (documents t ! d) = source_key (sources t ! source_id (documents t ! d)) @ ''!/'' @ m)"
proof -
  from owner_exists [OF wf d] obtain i where i: "i < length (sources t)" "first_doc (sources t ! i) \<le> d" "d < first_doc (sources t ! i) + source_entry.doc_count (sources t ! i)" by blast
  let ?s = "sources t ! i"
  have sid: "source_id (documents t ! d) = i" by (rule document_owner(2) [OF wf i])
  then show "source_id (documents t ! d) < length (sources t)" using i(1) by simp
  have "documents t ! d = sub_slice (documents t) (first_doc ?s) (first_doc ?s + source_entry.doc_count ?s) ! (d - first_doc ?s)"
    "d - first_doc ?s < length (sub_slice (documents t) (first_doc ?s) (first_doc ?s + source_entry.doc_count ?s))" using i(2,3) d by (auto simp: sub_slice_def)
  then have "documents t ! d \<in> set (sub_slice (documents t) (first_doc ?s) (first_doc ?s + source_entry.doc_count ?s))" by (metis nth_mem)
  with wf i(1) have "key_matches ?s (documents t ! d)" by (auto simp: sources_wf_def source_ok_def Let_def)
  then show "display_key (documents t ! d) = source_key (sources t ! source_id (documents t ! d)) \<or>
      (\<exists>m. display_key (documents t ! d) = source_key (sources t ! source_id (documents t ! d)) @ ''!/'' @ m)"
    unfolding sid by (auto simp: key_matches_def split: option.splits)
qed

lemma source_within_bounds:
  assumes "sources_wf t" "validate_segment_tables meta t = Inr ()" "i < length (sources t)"
  shows "min_key meta \<le> source_key (sources t ! i)" "source_key (sources t ! i) \<le> max_key meta"
proof -
  let ?ks = "map source_key (sources t)"
  have asc: "sorted ?ks" using assms(1) strict_sorted_imp_sorted by (auto simp: sources_wf_def)
  have b: "min_key meta = ?ks ! 0" "max_key meta = ?ks ! (length (sources t) - 1)" using assms(2,3) by (auto simp: validate_segment_tables_def)
  show "min_key meta \<le> source_key (sources t ! i)" "source_key (sources t ! i) \<le> max_key meta"
    using sorted_nth_mono [OF asc, of 0 i] sorted_nth_mono [OF asc, of i "length (sources t) - 1"] assms(3) unfolding b by auto
qed

text \<open>
  The prune keeps the segment of an admitted document, except for one prefix: the key of the source with the first character of the separator. That prefix is compared whole with
  the bounds of the segment.
\<close>

lemma admitted_segment_overlaps:
  assumes v: "sources_wf t" "validate_segment_tables meta t = Inr ()" and d: "d < length (documents t)" and k: "starts_with (display_key (documents t ! d)) p"
    and sep: "p = source_key (sources t ! source_id (documents t ! d)) @ ''!'' \<longrightarrow> prefix_overlaps meta (source_part p)"
  shows "prefix_overlaps meta (source_part p)"
proof (cases "p = source_key (sources t ! source_id (documents t ! d)) @ ''!''")
  case False
  let ?key = "source_key (sources t ! source_id (documents t ! d))"
  note src = document_source [OF v(1) d]
  have "starts_with ?key (source_part p)"
  proof (cases "display_key (documents t ! d) = ?key")
    case True
    with k obtain r where "?key = p @ r" by (auto simp: starts_with_iff)
    with source_part_prefix [of p] show ?thesis by (metis append.assoc starts_with_iff)
  next
    case False
    with src(2) obtain m where "display_key (documents t ! d) = ?key @ ''!/'' @ m" by blast
    with k \<open>p \<noteq> ?key @ ''!''\<close> show ?thesis by (intro source_part_reaches [of _ m]) auto
  qed
  with source_within_bounds [OF v src(1)] show ?thesis by (auto simp: prefix_overlaps_def prefix_interval)
qed (use sep in simp)

lemma candidate_batches_total:
  assumes "validate t = Inr ()" "sum_list (map decoded_len (table_blocks t)) < 2 ^ 64" "list_all (\<lambda>(i, _). i < length (documents t)) live"
    and "segment < 2 ^ 32" "0 < limit_documents limits"
  shows "\<exists>batches. batch_loop collect_batches limits t segment out empty_batch live = Inr (out @ batches, True) \<and>
    concat batches = map (table_address t segment) live \<and> list_all (batch_within limits t) batches"
proof -
  have "bytes_of t {..<length (table_blocks t)} = sum_list (map decoded_len (table_blocks t))"
    by (simp add: bytes_of_def sum_list_sum_nth atLeast0LessThan)
  then have total: "bytes_of t {..<length (table_blocks t)} < 2 ^ 64" using assms(2) by simp
  have wf: "sources_wf t" using assms(1) validate_sources_sound by (auto simp: validate_def)
  have "batchable limits t (fst x)" if "x \<in> set live" for x
  proof -
    from that assms(3) have d: "fst x < length (documents t)" by (auto simp: list_all_iff)
    from document_spans [OF assms(1) d] document_source(1) [OF wf d] d show ?thesis
      by (auto simp: batchable_def document_span_def)
  qed
  then have "\<forall>x\<in>set live. batchable limits t (fst x)" by blast
  from batch_loop_total [OF total assms(4,5) empty_batch_inv this, of out] show ?thesis by (simp add: empty_batch_def)
qed

text \<open>
  C6: Batching is a partition within the limits. For a validated table whose blocks decode to less than \<open>2 ^ 64\<close> bytes, the loop over the live candidates returns, without a panic or an overflow: its batches, put together, are the
  addresses of the candidates in order; no batch is empty or has more documents than the limit, and a batch of more than one document decodes to at most the byte limit, each pack block counted once.
\<close>

theorem candidate_batches_are_bounded:
  assumes "validate t = Inr ()" "sum_list (map decoded_len (table_blocks t)) < 2 ^ 64" "list_all (\<lambda>(i, _). i < length (documents t)) live"
    and "segment < 2 ^ 32" "0 < limit_documents limits"
  shows "\<exists>batches. batch_loop collect_batches limits t segment [] empty_batch live = Inr (batches, True) \<and>
    concat batches = map (table_address t segment) live \<and> list_all (batch_within limits t) batches"
  using candidate_batches_total [OF assms, of "[]"] by simp

theorem candidate_batches_are_bounded_witness:
  "\<exists>batches. batch_loop collect_batches \<lparr>limit_documents = 1, limit_bytes = 100\<rparr> sample_tables 0 [] empty_batch [(0, None), (1, None)] = Inr (batches, True) \<and>
     concat batches = map (table_address sample_tables 0) [(0, None), (1, None)] \<and> list_all (batch_within \<lparr>limit_documents = 1, limit_bytes = 100\<rparr> sample_tables) batches"
  by (rule candidate_batches_are_bounded [OF sample_tables_valid]) (simp_all add: sample_tables_def sample_out_def)

section \<open>From documents to batches\<close>

text \<open>What a segment contributes when the run does not pass over it: its table, its block bases and its live candidates.\<close>

definition segment_yields ::
    "search_env \<Rightarrow> candidate_plan list \<Rightarrow> nat \<Rightarrow> open_segment \<Rightarrow> segment_tables \<Rightarrow> nat list option \<Rightarrow> (nat \<times> candidate_range list option) list \<Rightarrow> bool" where
  "segment_yields Env plans j seg t bases docs \<longleftrightarrow>
     (\<exists>d. load_segment_tables (env_packs Env) (env_get Env) (env_tables Env) (os_meta seg) (os_dead seg) (ps_disk (os_state seg)) = Inr (t, d) \<and>
        (case env_strategy Env of Trigram \<Rightarrow> \<exists>bs. bases = Some bs \<and> segment_block_bases (os_meta seg) t = Inr bs | Sparse \<Rightarrow> bases = None) \<and>
        segment_candidates (env_grams Env) (env_packs Env) (env_ranges Env) (env_range_cache Env) (env_strategy Env) plans seg t bases d = Inr docs)"

lemma segment_batches_collects:
  assumes "segment_batches Env plans key_prefix limits collect_batches out (j, seg) = Inr (out', go)"
  shows "go \<and> ((\<exists>p. key_prefix = Some p \<and> \<not> prefix_overlaps (os_meta seg) (source_part p)) \<and> out' = out \<or>
    (\<exists>t bases docs. segment_yields Env plans j seg t bases docs \<and>
       concat out' = concat out @ map (table_address t j) (filter (\<lambda>(i, _). i \<notin> set (dead_documents (os_dead seg))) docs)))"
proof (cases "\<exists>p. key_prefix = Some p \<and> \<not> prefix_overlaps (os_meta seg) (source_part p)")
  case True
  with assms show ?thesis by (auto simp: segment_batches_def)
next
  case False
  with assms obtain t d bases docs where run: "segment_yields Env plans j seg t bases docs"
    "batch_loop collect_batches limits t j out empty_batch (filter (\<lambda>(i, _). i \<notin> set (dead_documents (os_dead seg))) docs) = Inr (out', go)"
    by (cases "env_strategy Env"; cases key_prefix) (auto simp: segment_batches_def segment_yields_def)
  from batch_loop_collects [OF run(2)] run(1) show ?thesis by (auto simp: empty_batch_def)
qed

lemma segments_loop_grows:
  "segments_loop Env plans key_prefix limits collect_batches out xs = Inr out' \<Longrightarrow> set (concat out) \<subseteq> set (concat out')"
proof (induction xs arbitrary: out)
  case (Cons x xs)
  obtain j seg where x: "x = (j, seg)" by (cases x)
  from Cons.prems obtain out1 go where s: "segment_batches Env plans key_prefix limits collect_batches out (j, seg) = Inr (out1, go)"
    "(if go then segments_loop Env plans key_prefix limits collect_batches out1 xs else Inr out1) = Inr out'" by (auto simp: x)
  have "go" "set (concat out) \<subseteq> set (concat out1)" using segment_batches_collects [OF s(1)] by (auto simp del: set_concat)
  with s(2) Cons.IH [of out1] show ?case by auto
qed simp

lemma segments_loop_visits:
  assumes "segments_loop Env plans key_prefix limits collect_batches out xs = Inr out'" "x \<in> set xs"
  shows "\<exists>o1 o2. segment_batches Env plans key_prefix limits collect_batches o1 x = Inr (o2, True) \<and> set (concat o2) \<subseteq> set (concat out')"
  using assms
proof (induction xs arbitrary: out)
  case (Cons y xs)
  obtain j seg where y: "y = (j, seg)" by (cases y)
  from Cons.prems(1) obtain out1 go where s: "segment_batches Env plans key_prefix limits collect_batches out (j, seg) = Inr (out1, go)"
    "(if go then segments_loop Env plans key_prefix limits collect_batches out1 xs else Inr out1) = Inr out'" by (auto simp: y)
  have go: go using segment_batches_collects [OF s(1)] by simp
  with s(2) have rest: "segments_loop Env plans key_prefix limits collect_batches out1 xs = Inr out'" by simp
  show ?case
  proof (cases "x = y")
    case True
    with s(1) go segments_loop_grows [OF rest] y show ?thesis by (intro exI [of _ out] exI [of _ out1]) (simp del: set_concat)
  next
    case False
    with Cons.prems(2) Cons.IH [OF rest] show ?thesis by simp
  qed
qed simp

text \<open>
  A published segment: the index of the chunks, opened with its whole dictionary or with the dictionary's index alone, and the document table \<open>t\<close> behind the recorded hash. Nothing is
  assumed of the store and of the cache but that the recorded hashes have no second preimages.
\<close>

definition indexed_segment ::
    "search_env \<Rightarrow> sort64 \<Rightarrow> fst_crate \<Rightarrow> nat \<Rightarrow> nat \<Rightarrow> chunk list \<Rightarrow> merged_index \<Rightarrow> bytes \<Rightarrow> segment_tables \<Rightarrow> open_segment \<Rightarrow> bool" where
  "indexed_segment Env S F threads run_bytes chunks out c t seg \<longleftrightarrow>
     (let X = env_packs Env; meta = os_meta seg
      in block_count meta < 2 ^ 32 \<and> indexes_chunks (env_grams Env) S F (sha256 X) threads run_bytes (env_strategy Env) (of_nat (block_count meta)) chunks out \<and>
         meta_of meta out \<and> no_collisions X (segment_data out) \<and> table_ok X (segment_data out) (os_state seg) \<and> holds_map F X (env_strategy Env) out seg \<and>
         docs_hash meta = hex (sha256 X c) \<and> (\<forall>x. sha256 X x = sha256 X c \<longrightarrow> x = c) \<and> env_tables Env c = Some t \<and>
         validate t = Inr () \<and> validate_segment_tables meta t = Inr ())"

text \<open>Document \<open>d\<close> of the table is the document \<open>doc\<close> of a chunk, with its text.\<close>

definition table_holds :: "strategy \<Rightarrow> segment_tables \<Rightarrow> nat \<Rightarrow> chunk list \<Rightarrow> bytes \<Rightarrow> bool" where
  "table_holds strat t d chunks body \<longleftrightarrow> d < length (documents t) \<and> doc_size (documents t ! d) = length body \<and>
     (\<exists>(grammed, spool, bodies)\<in>set chunks. \<exists>doc. (doc, body) \<in> set (zip grammed bodies) \<and>
        (case strat of
           Trigram \<Rightarrow> \<exists>bases. build_block_bases t = Inr bases \<and> unat (gd_base doc) = bases ! d
         | Sparse \<Rightarrow> gd_doc_id doc = d))"

text \<open>The match that has to be found; the extent of a plan bounds the matches that blocks can find.\<close>

definition plan_finds :: "strategy \<Rightarrow> 'a regex_crate \<Rightarrow> crates \<Rightarrow> candidate_plan \<Rightarrow> segment_tables \<Rightarrow> nat \<Rightarrow> bytes \<Rightarrow> nat \<Rightarrow> bool" where
  "plan_finds strat E C plan t d body i \<longleftrightarrow>
     (\<exists>h j. plan_query plan = plan_hir E C h strat \<and> hir_match E h body i j \<and>
        (strat = Trigram \<longrightarrow> i < j \<and> extent_covers (plan_extent plan) (max_line_len (documents t ! d)) i j))"

lemma match_is_selected:
  assumes ix: "indexes_chunks C S F sha threads run_bytes strat n chunks out" and hold: "table_holds strat t d chunks body" and E: "regex_laws E"
    and m: "plan_finds strat E C plan t d body i" and len: "length (documents t) < 2 ^ 32"
    and bases: "strat = Trigram \<longrightarrow> (\<exists>bs. bases = Some bs \<and> build_block_bases t = Inr bs)" "strat = Sparse \<longrightarrow> bases = None"
  shows "\<exists>x. query_holds {g. x \<in> hits (Some (\<lambda>i. case bases of Some bs \<Rightarrow> expand_closure bs t (plan_extent plan) i | None \<Rightarrow> (i, i)))
      (index_postings C strat (records_of C strat chunks) g)} (plan_query plan) \<and> names_block strat t bases x d (i div CANDIDATE_BLOCK_BYTES)"
proof -
  from hold obtain grammed spool bodies doc where doc: "(grammed, spool, bodies) \<in> set chunks" "(doc, body) \<in> set (zip grammed bodies)"
    and place: "strat = Trigram \<longrightarrow> (\<exists>bases. build_block_bases t = Inr bases \<and> unat (gd_base doc) = bases ! d)" "strat = Sparse \<longrightarrow> gd_doc_id doc = d"
    and d: "d < length (documents t)" "doc_size (documents t ! d) = length body" by (cases strat) (auto simp: table_holds_def)
  from m obtain h j where h: "plan_query plan = plan_hir E C h strat" "hir_match E h body i j"
    "strat = Trigram \<longrightarrow> i < j \<and> extent_covers (plan_extent plan) (max_line_len (documents t ! d)) i j" by (auto simp: plan_finds_def)
  have X: "radsort_sorts C" using ix by (simp add: indexes_chunks_def)
  note recs = chunk_doc_records [OF doc, of C strat]
  show ?thesis
  proof (cases strat)
    case Sparse
    have "id_records (of_nat (gd_doc_id doc)) (text_hashes C body) \<subseteq> records_of C strat chunks" using recs Sparse by (simp add: doc_records_def)
    from hashes_satisfy [OF E h(2) this, of "\<lambda>i. (i, i)"] Sparse h(1) bases(2) place(2) d(1) len show ?thesis
      by (intro exI [of _ "of_nat d"]) (simp add: names_block_def unat_of_nat32)
  next
    case Trigram
    with bases(1) obtain bs where bs: "bases = Some bs" "build_block_bases t = Inr bs" by blast
    have "block_records C (gd_base doc) body \<subseteq> records_of C strat chunks" using recs Trigram by (simp add: doc_records_def)
    from block_records_indexed [OF X this] Trigram place(1) bs(2) have idx: "indexes_blocks C (index_postings C strat (records_of C strat chunks)) (bs ! d) body" by auto
    have ij: "i < j" "extent_covers (plan_extent plan) (max_line_len (documents t ! d)) i j" using h(3) Trigram by auto
    have "i < length body" using ij(1) regex_bounds [OF E h(2)] by simp
    then have k: "bs ! d + i div CANDIDATE_BLOCK_BYTES < bs ! Suc d" using div_ceil_block [of i "length body"] block_bases_facts(6) [OF bs(2) d(1)] d(2) by simp
    have "bs ! Suc d < 2 ^ 32" using block_bases_bound [OF bs(2), of d] block_bases_facts(2) [OF bs(2)] d(1) by simp
    with k have "unat (of_nat (bs ! d + i div CANDIDATE_BLOCK_BYTES) :: doc_id) = bs ! d + i div CANDIDATE_BLOCK_BYTES" by (intro unat_of_nat32) linarith
    with match_block_satisfies [OF bs(2) d X E h(2) ij idx] Trigram h(1) bs k d(1) show ?thesis
      by (intro exI [of _ "of_nat (bs ! d + i div CANDIDATE_BLOCK_BYTES)"]) (simp add: names_block_def)
  qed
qed

text \<open>
  C1: The search loses no match, one prefix aside. Take an index of several segments, and in one of them a live document, written with its chunk to runs, merged and published, in which the pattern of a plan matches
  within the extent of the plan, and whose display key the scope of the search admits. Whatever the store and the cache return, when the run over the plans with the prefix of the scope returns its batches, one of
  them holds the address of the document, under its segment and number, with ranges that read the block in which the match starts. The exception: when the prefix is the key of the document's source
  followed by \<open>!\<close>, so that it ends inside the separator \<open>!/\<close> of an archive member, the claim holds only if the key bounds of the segment overlap that prefix; otherwise the segment is skipped
  and the match lost (\<open>separator_prefix_loses_members\<close>).
\<close>

theorem search_loses_no_match:
  assumes run: "read_candidate_batches Env segs plans (scope_prefix scope) limits collect_batches [] = Inr batches"
    and seg: "s < length segs" "indexed_segment Env S F threads run_bytes chunks out c t (segs ! s)"
    and doc: "table_holds (env_strategy Env) t d chunks body" "d \<notin> set (dead_documents (os_dead (segs ! s)))" "admits scope (display_key (documents t ! d))"
    and sep: "scope_prefix scope = Some (source_key (sources t ! source_id (documents t ! d)) @ ''!'') \<longrightarrow>
      prefix_overlaps (os_meta (segs ! s)) (source_part (source_key (sources t ! source_id (documents t ! d)) @ ''!''))"
    and m: "regex_laws E" "p < length plans" "plan_finds (env_strategy Env) E (env_grams Env) (plans ! p) t d body i"
  shows "\<exists>b\<in>set batches. \<exists>r. table_address t s (d, r) \<in> set b \<and> range_covers r (i div CANDIDATE_BLOCK_BYTES) (plan_extent (plans ! p))"
proof -
  let ?seg = "segs ! s" and ?strat = "env_strategy Env" and ?X = "env_packs Env" and ?C = "env_grams Env"
  from seg(2) have ix: "block_count (os_meta ?seg) < 2 ^ 32"
    "indexes_chunks ?C S F (sha256 ?X) threads run_bytes ?strat (of_nat (block_count (os_meta ?seg))) chunks out"
    "meta_of (os_meta ?seg) out" "no_collisions ?X (segment_data out)" "table_ok ?X (segment_data out) (os_state ?seg)" "holds_map F ?X ?strat out ?seg"
    and tbl: "docs_hash (os_meta ?seg) = hex (sha256 ?X c)" "\<forall>x. sha256 ?X x = sha256 ?X c \<longrightarrow> x = c" "env_tables Env c = Some t"
    and valid: "validate t = Inr ()" and vt: "validate_segment_tables (os_meta ?seg) t = Inr ()" unfolding indexed_segment_def Let_def by blast+
  have "(s, ?seg) \<in> set (enumerate 0 segs)" using seg(1) by (simp add: in_set_enumerate_eq)
  moreover from run have "segments_loop Env plans (scope_prefix scope) limits collect_batches [] (enumerate 0 segs) = Inr batches" by (simp add: read_candidate_batches_def)
  ultimately obtain o1 o2 where v: "segment_batches Env plans (scope_prefix scope) limits collect_batches o1 (s, ?seg) = Inr (o2, True)"
    "set (concat o2) \<subseteq> set (concat batches)" using segments_loop_visits by metis
  have wf: "sources_wf t" using valid validate_sources_sound by (auto simp: validate_def)
  have d: "d < length (documents t)" using doc(1) by (simp add: table_holds_def)
  have "prefix_overlaps (os_meta ?seg) (source_part q)" if "scope_prefix scope = Some q" for q
    by (rule admitted_segment_overlaps [OF wf vt d]) (use doc(3) sep that in \<open>auto simp: admits_def split: if_splits\<close>)
  with segment_batches_collects [OF v(1)] obtain t' bases docs where y: "segment_yields Env plans s ?seg t' bases docs"
    "concat o2 = concat o1 @ map (table_address t' s) (filter (\<lambda>(i, _). i \<notin> set (dead_documents (os_dead ?seg))) docs)" by blast
  from y(1) obtain dsk where l: "load_segment_tables ?X (env_get Env) (env_tables Env) (os_meta ?seg) (os_dead ?seg) (ps_disk (os_state ?seg)) = Inr (t', dsk)"
    and b: "case ?strat of Trigram \<Rightarrow> \<exists>bs. bases = Some bs \<and> segment_block_bases (os_meta ?seg) t' = Inr bs | Sparse \<Rightarrow> bases = None"
    and cand: "segment_candidates ?C ?X (env_ranges Env) (env_range_cache Env) ?strat plans ?seg t' bases dsk = Inr docs" by (auto simp: segment_yields_def)
  have t': "t' = t" using tables_load_authentic [OF l tbl(1,2)] tbl(3) by (simp add: parse_tables_def)
  have bases: "?strat = Trigram \<longrightarrow> (\<exists>bs. bases = Some bs \<and> build_block_bases t = Inr bs)" "?strat = Sparse \<longrightarrow> bases = None"
    using b by (auto simp: t' segment_block_bases_def split: strategy.splits)
  have n: "unat (segment_meta.doc_count (os_meta ?seg)) = length (documents t)" using vt by (auto simp: validate_segment_tables_def)
  have small: "length (documents t) < 2 ^ 32" unfolding n [symmetric] using unsigned_less [of "segment_meta.doc_count (os_meta ?seg)"] by simp
  have bc: "block_count (os_meta ?seg) = unat (of_nat (block_count (os_meta ?seg)) :: u32)" using ix(1) by (simp add: unat_of_nat32)
  from match_is_selected [OF ix(2) doc(1) m(1,3) small bases] obtain x where
    x: "query_holds {g. x \<in> hits (Some (expand_plan bases t plans p)) (index_postings ?C ?strat (records_of ?C ?strat chunks) g)} (plan_query (plans ! p))"
    "names_block ?strat t bases x d (i div CANDIDATE_BLOCK_BYTES)" by blast
  have "built F (sha256 ?X) ?strat (of_nat (block_count (os_meta ?seg))) (records_of ?C ?strat chunks) out" by (rule indexes_chunks_built [OF ix(2)])
  from segment_candidates_complete [OF cand [unfolded t'] bases(1) n bc ix(6) this ix(3-5) m(2) x] obtain r where
    r: "(d, r) \<in> set docs" "range_covers r (i div CANDIDATE_BLOCK_BYTES) (plan_extent (plans ! p))" by blast
  with doc(2) y(2) have "table_address t s (d, r) \<in> set (concat o2)" unfolding t' by auto
  with v(2) r(2) show ?thesis by auto
qed

subsection \<open>Witness\<close>

lemma sample_query: "plan_query sample_plan = QOr [QAnd [QGram [97, 98, 99]]]"
proof -
  have "trigram_grams_bytes sample_crates [97, 98, 99] = [[97, 98, 99]]"
    by (simp add: trigram_grams_bytes_def pack_trigram_grams_def BITMAP_THRESHOLD_def BITMAP_WORDS_def sort_packed_grams_def RADIX_SORT_MIN_def unpack_pack_window
      del: pack_window.simps)
  then show ?thesis by (simp add: sample_plan_def plan_hir_def side_parts_def side_query_def literal_engine_def List.map_filter_def join_parts_def lit_query_def grams_query_def Let_def)
qed

lemma sample_postings_of: "index_postings sample_crates Trigram (set sample_records) [97, 98, 99] = [1, 3]"
proof -
  have "from_be_bytes ([0,0,0,0,0,97, 98, 99]) = (0x616263 :: u64)" by (simp add: from_be_bytes_def from_le_bytes_def)
  moreover have "replicate 5 (0 :: u8) @ [97, 98, 99] = [0, 0, 0, 0, 0, 97, 98, 99]" by (simp add: numeral_eq_Suc)
  moreover have "{i. i = 1 \<or> i = 3} = {1, 3 :: doc_id}" by auto
  ultimately show ?thesis by (simp add: index_postings_def gram_key_def sample_records_def postings_of_def)
qed

text \<open>The lookup of the gram gives a list of two ids, and the fetch returns it.\<close>

lemma sample_gram_fetched:
  assumes "meta_of meta sample_index" "table_ok sample_hashes (segment_data sample_index) s" "honest sample_hashes sample_ranges meta (segment_data sample_index)"
  obtains off len bl where "bind_queries [plan_query sample_plan] 8 Trigram (map_lookup sample_crates (segment_map list_crate Trigram sample_index)) = Inr [RGram off 2 len]"
    "segment_fetch sample_hashes sample_ranges True Trigram meta 8 s (blocks_needed (RGram off 2 len) Map.empty) = Inr bl" "bl off = Some [1, 3]"
proof -
  let ?l = "segment_lookup list_crate (sha256 sample_hashes) Trigram 8 (set sample_records) sample_index sample_crates"
  have l: "map_lookup sample_crates (segment_map list_crate Trigram sample_index) = ?l"
    and p: "segment_postings list_crate (sha256 sample_hashes) Trigram 8 (set sample_records) sample_index sample_crates [97, 98, 99] = [1, 3]"
    using sample_built(1) by (simp_all add: segment_lookup_def segment_postings_def sample_postings_of)
  from built_value [OF sample_built(1), of sample_crates "[97, 98, 99]"] obtain v where v: "?l [97, 98, 99] = Inr (Some v)"
    "unat (snd (unpack_posting (packed v))) = 2" by (auto simp: l sample_postings_of holds_list_def split: option.splits)
  obtain off cnt where u: "unpack_posting (packed v) = (off, cnt)" by fastforce
  with v(2) have cnt: "cnt = 2" by (simp add: word_unat_eq_iff)
  from v(1) u cnt obtain len where bind: "bind_queries [plan_query sample_plan] 8 Trigram ?l = Inr [RGram off 2 len]" by (simp add: resolve_gram_def sample_query prune_and_def Let_def and_limit_def BLOCK_MAX_GRAMS_PER_AND_def)
  from selections_returned [OF sample_built(1) assms(1) sample_segment(3) assms(2,3), of "[sample_plan]" sample_crates "\<lambda>_ i. (i, i)" True]
  obtain bl where bl: "segment_fetch sample_hashes sample_ranges True Trigram meta 8 s (fold blocks_needed [RGram off 2 len] Map.empty) = Inr bl"
    by (auto simp: visit_candidates_batch l bind simp del: bind_queries.simps blocks_needed.simps fold_simps)
  from segment_fetched(3) [OF sample_built(1) assms(1) sample_segment(3) assms(2) bound_needed [OF bind] bl] v(1) u cnt
  have "bl off = Some [1, 3]" by (force simp: merged.fetched_def p)
  moreover have "fold blocks_needed [RGram off 2 len] Map.empty = blocks_needed (RGram off 2 len) Map.empty" by simp
  ultimately show ?thesis using bl bind by (intro that [of off len bl]) (simp_all only: l)
qed

text \<open>One segment of eight members of an archive, over the index of the eight sample documents, and the pattern \<open>abc\<close> of documents 1 and 3.\<close>

definition member_entry :: "char \<Rightarrow> bytes \<Rightarrow> nat \<Rightarrow> doc_entry" where
  "member_entry c body off = \<lparr>display_key = ''a!/'' @ [c], source_id = 0, member_path = Some [c], doc_size = length body, doc_first_block = 0, doc_block_offset = off,
     max_line_len = length body, block_newlines = [0]\<rparr>"

definition member_tables :: segment_tables where
  "member_tables = \<lparr>sources = [\<lparr>source_key = ''a'', version = ''1'', encoded_size = 9, encoding = Zip, first_doc = 0, doc_count = 8, failed = False, retry = False\<rparr>],
     documents = map (\<lambda>(c, body, off). member_entry c body off) (zip ''01234567'' (zip sample_bodies [0, 1, 4, 7, 10, 11, 12, 13])),
     table_blocks = [\<lparr>pack = 0, offset = 0, compressed_len = 9, decoded_len = 14, block_hash = []\<rparr>]\<rparr>"

definition member_segment :: open_segment where
  "member_segment = \<lparr>os_meta = sample_meta\<lparr>docs_len := 1, docs_hash := hex (replicate 32 1), min_key := ''a'', max_key := ''a'', meta_packs := [\<lparr>meta_hash = [], meta_len = 9\<rparr>]\<rparr>,
     os_dead = \<lparr>dead_sources = [], dead_documents = []\<rparr>, os_map = segment_map list_crate Trigram sample_index, os_state = fresh_state\<rparr>"

definition member_env :: search_env where
  "member_env = \<lparr>env_grams = sample_crates, env_packs = sample_hashes, env_get = (\<lambda>_. Inr (Some [25])), env_ranges = sample_ranges, env_tables = (\<lambda>_. Some member_tables),
     env_range_cache = True, env_strategy = Trigram\<rparr>"

lemma member_coordinates: "validate_coordinates member_tables = Inr ()"
  by (simp add: validate_coordinates_def member_tables_def sample_bodies_def validate_coordinates_step_def member_entry_def consume_blocks.simps [of _ _ _ "Suc _"] consume_blocks.simps [of _ _ _ "numeral _"]
    consume_blocks.simps [of _ _ _ 0] get_def checked_sub_def Let_def)

lemma member_sources: "validate_sources member_tables = Inr ()"
  by (simp add: validate_sources_def validate_source_def validate_document_def get_def add_u64_def sub_slice_def enumerate_eq_zip Let_def member_tables_def member_entry_def sample_bodies_def)

lemma member_tables_valid: "validate member_tables = Inr ()" "validate_segment_tables (os_meta member_segment) member_tables = Inr ()" "build_block_bases member_tables = Inr sample_bases"
proof -
  show "validate member_tables = Inr ()" using member_sources member_coordinates
    by (simp add: validate_def) (simp add: validate_blocks_def validate_block_def member_tables_def add_u64_def PACK_BLOCK_BYTES_def)
  show "validate_segment_tables (os_meta member_segment) member_tables = Inr ()"
    by (simp add: validate_segment_tables_def member_tables_def sample_bodies_def member_segment_def sample_meta_def get_def pack_end_def enumerate_eq_zip)
  show "build_block_bases member_tables = Inr sample_bases"
    by (simp add: build_block_bases_def member_tables_def member_entry_def sample_bodies_def div_ceil_def CANDIDATE_BLOCK_BYTES_def try_u32_def add_u32_def)
qed

lemma open_terms_local: "open_terms F bs strat = Inr m \<Longrightarrow> m \<noteq> SparseRemote idx"
  by (auto simp: open_terms_def open_trigram_def Let_def split: if_splits strategy.splits)

lemma sample_map_local: "segment_map list_crate Trigram sample_index \<noteq> SparseRemote idx"
proof -
  from built_lookup [OF sample_built(1)] obtain m where "open_terms list_crate (terms_file sample_index) Trigram = Inr m" by blast
  then show ?thesis using open_terms_local by (simp add: segment_map_def)
qed

abbreviation member_hit :: "nat \<Rightarrow> nat \<times> candidate_range list option" where
  "member_hit i \<equiv> (i, Some [\<lparr>range_start = 0, range_end = 1, range_extent = EBytes 3\<rparr>])"

lemma member_expand: "expand_ids [1, 3] (Some (expand_closure sample_bases member_tables (EBytes 3))) = [1, 3]"
proof -
  have "expand_candidate_block i sample_bases member_tables (EBytes 3) = Inr (i, i)" if i: "i < 8" for i
  proof -
    have "sample_bases ! i = i" "sample_bases ! Suc i = Suc i" "i < length (documents member_tables)"
      using i by (auto simp: less_Suc_eq numeral_eq_Suc member_tables_def sample_bodies_def)
    with expand_candidate_block_eq [OF member_tables_valid(3), of i i "EBytes 3"] i show ?thesis by (simp add: Let_def u32_limit_def min_def del: One_nat_def)
  qed
  then have "expand_closure sample_bases member_tables (EBytes 3) i = (i, i)" if "unat i < 8" for i using that by (simp add: expand_closure_def)
  then show ?thesis by (simp add: expand_ids_def id_span_def)
qed

lemma member_candidates:
  "segment_candidates sample_crates sample_hashes sample_ranges True Trigram [sample_plan] member_segment member_tables (Some sample_bases) d = Inr [member_hit 1, member_hit 3]"
proof -
  have l: "candidate_lookup sample_crates sample_hashes sample_ranges [sample_plan] member_segment d = Inr (map_lookup sample_crates (segment_map list_crate Trigram sample_index), d)"
    using sample_map_local by (auto simp: candidate_lookup_def member_segment_def split: term_map.splits)
  have m: "block_count (os_meta member_segment) = 8" "unat (segment_meta.doc_count (os_meta member_segment)) = 8" by (simp_all add: member_segment_def sample_meta_def)
  have "meta_of (os_meta member_segment) sample_index" using sample_segment(2) by (simp add: member_segment_def meta_of_def)
  moreover have "table_ok sample_hashes (segment_data sample_index) ((os_state member_segment)\<lparr>ps_disk := d\<rparr>)" using sample_segment(4) by (simp add: member_segment_def table_ok_def)
  moreover have "honest sample_hashes sample_ranges (os_meta member_segment) (segment_data sample_index)" using sample_segment(5) by (simp add: member_segment_def honest_def)
  ultimately obtain off len bl where f: "bind_queries [plan_query sample_plan] 8 Trigram (map_lookup sample_crates (segment_map list_crate Trigram sample_index)) = Inr [RGram off 2 len]"
    "segment_fetch sample_hashes sample_ranges True Trigram (os_meta member_segment) 8 ((os_state member_segment)\<lparr>ps_disk := d\<rparr>) (blocks_needed (RGram off 2 len) Map.empty) = Inr bl" "bl off = Some [1, 3]"
    by (rule sample_gram_fetched)
  have ext: "plan_extent sample_plan = EBytes 3" by (simp add: sample_plan_def)
  have "eval bl (Some (expand_closure sample_bases member_tables (EBytes 3))) (RGram off 2 len) = Inr (SIds [1, 3])" using f(3) by (simp add: member_expand del: One_nat_def)
  moreover have "candidate_documents (SIds [1, 3]) (EBytes 3) Trigram 8 (Some sample_bases) = Inr [member_hit 1, member_hit 3]"
    by (simp add: candidate_documents_def group_candidate_blocks_def group_step_def get_block_document_def get_def try_u32_def Let_def)
  ultimately show ?thesis unfolding segment_candidates_def Let_def l m visit_candidates_batch list.map
    using f(1,2) by (simp add: try_u32_def visit_selection_def note_selection_def ext del: One_nat_def bind_queries.simps eval.simps blocks_needed.simps)
qed

lemma member_unforgeable: "sha256 sample_hashes [25] = replicate 32 1" "\<forall>x. sha256 sample_hashes x = sha256 sample_hashes [25] \<longrightarrow> x = [25]"
proof -
  show sha: "sha256 sample_hashes [25] = replicate 32 1" by (simp add: sample_hashes_def)
  have rep: "(replicate 32 a :: bytes) = replicate 32 b \<longleftrightarrow> a = b" for a b by (simp add: replicate_eq_replicate)
  show "\<forall>x. sha256 sample_hashes x = sha256 sample_hashes [25] \<longrightarrow> x = [25]" unfolding sha by (simp add: sample_hashes_def rep)
qed

lemma member_indexed: "indexed_segment member_env sort list_crate 1 64 sample_chunks sample_index [25] member_tables member_segment"
proof -
  have eqs: "block_count (os_meta member_segment) = 8" "env_grams member_env = sample_crates" "env_packs member_env = sample_hashes"
    "env_tables member_env = (\<lambda>_. Some member_tables)" "env_strategy member_env = Trigram" "os_state member_segment = fresh_state"
    by (simp_all add: member_segment_def sample_meta_def member_env_def)
  show ?thesis unfolding indexed_segment_def Let_def eqs
  proof (intro conjI)
    show "indexes_chunks sample_crates sort list_crate (sha256 sample_hashes) 1 64 Trigram (of_nat 8) sample_chunks sample_index" using sample_indexed by simp
    show "meta_of (os_meta member_segment) sample_index" using sample_segment(2) by (simp add: member_segment_def meta_of_def)
    show "holds_map list_crate sample_hashes Trigram sample_index member_segment" using sample_map_local by (simp add: holds_map_def member_segment_def)
    show "docs_hash (os_meta member_segment) = hex (sha256 sample_hashes [25])" by (simp only: member_unforgeable(1)) (simp add: member_segment_def)
  qed (use sample_segment(3,4) member_tables_valid(1,2) member_unforgeable(2) in \<open>simp_all only: HOL.simp_thms, simp_all\<close>)
qed

lemma member_load:
  "\<exists>d. load_segment_tables sample_hashes (\<lambda>_. Inr (Some [25])) (\<lambda>_. Some member_tables) (os_meta member_segment) (os_dead member_segment) (ps_disk fresh_state) = Inr (member_tables, d)"
proof -
  have meta: "docs_len (os_meta member_segment) = 1" "docs_hash (os_meta member_segment) = hex (sha256 sample_hashes [25])" "files (ps_disk fresh_state) = Map.empty"
    by (simp_all add: member_segment_def fresh_state_def member_unforgeable(1))
  have "\<exists>d. cached_blob sample_hashes (\<lambda>_. Inr (Some [25])) (ps_disk fresh_state) (seg_id (os_meta member_segment)) ''docs.bin''
      (docs_len (os_meta member_segment)) (docs_hash (os_meta member_segment)) = Inr ([25], d)"
    unfolding meta by (simp add: cached_blob_def cached_bytes_def read_verified_def meta Let_def ensure_def del: and_then_eq_Inr)
  then obtain d where d: "cached_blob sample_hashes (\<lambda>_. Inr (Some [25])) (ps_disk fresh_state) (seg_id (os_meta member_segment)) ''docs.bin''
      (docs_len (os_meta member_segment)) (docs_hash (os_meta member_segment)) = Inr ([25], d)" by blast
  have parse: "parse_tables (\<lambda>_. Some member_tables) [25] = Inr member_tables" using member_tables_valid(1) by (simp add: parse_tables_def)
  have dead: "validate_dead (os_dead member_segment) member_tables = Inr ()" by (simp add: member_segment_def validate_dead_def)
  show ?thesis unfolding load_segment_tables_def load_tables_def d and_then_Inr prod.case parse member_tables_valid(2) dead by simp
qed

text \<open>The two candidates in batches of one document.\<close>

lemma member_run:
  "\<exists>batches. read_candidate_batches member_env [member_segment] [sample_plan] (Some ''a!/3'') \<lparr>limit_documents = 1, limit_bytes = 100\<rparr> collect_batches [] = Inr batches \<and> length batches = 2"
proof -
  let ?lim = "\<lparr>limit_documents = 1, limit_bytes = 100\<rparr> :: batch_limits" and ?hits = "[member_hit 1, member_hit 3]"
  from member_load obtain d where d: "load_segment_tables sample_hashes (\<lambda>_. Inr (Some [25])) (\<lambda>_. Some member_tables) (os_meta member_segment) (os_dead member_segment) (ps_disk fresh_state) = Inr (member_tables, d)" by blast
  have b: "segment_block_bases (os_meta member_segment) member_tables = Inr sample_bases"
    unfolding segment_block_bases_def member_tables_valid(3) by (simp add: member_segment_def sample_meta_def)
  have p: "prefix_overlaps (os_meta member_segment) (source_part ''a!/3'')" by (simp add: prefix_overlaps_def member_segment_def prefix_upper.simps less_char_def)
  have v: "validate_candidate_plans [sample_plan] ?lim = Inr ()" by (simp add: validate_candidate_plans_def sample_plan_def)
  have "\<exists>batches. batch_loop collect_batches ?lim member_tables 0 [] empty_batch ?hits = Inr ([] @ batches, True) \<and>
    concat batches = map (table_address member_tables 0) ?hits \<and> list_all (batch_within ?lim member_tables) batches"
    by (rule candidate_batches_total [OF member_tables_valid(1)]) (simp_all add: member_tables_def sample_bodies_def)
  then obtain batches where bs: "batch_loop collect_batches ?lim member_tables 0 [] empty_batch ?hits = Inr (batches, True)"
    "concat batches = map (table_address member_tables 0) ?hits" "list_all (batch_within ?lim member_tables) batches" by auto
  have "\<forall>b\<in>set batches. length b = 1" using bs(3) by (auto simp: list_all_iff batch_within_def Suc_le_eq le_Suc_eq)
  then have "length (concat batches) = length batches" by (simp add: length_concat sum_list_triv cong: map_cong)
  with bs(2) have two: "length batches = 2" by simp
  have "os_state member_segment = fresh_state" "dead_documents (os_dead member_segment) = []" by (simp_all add: member_segment_def)
  then have "segment_batches member_env [sample_plan] (Some ''a!/3'') ?lim collect_batches [] (0, member_segment) = Inr (batches, True)"
    using p bs(1) unfolding segment_batches_def by (simp add: member_env_def d b member_candidates del: One_nat_def source_part.simps and_then_eq_Inr batch_loop.simps)
  with two show ?thesis unfolding read_candidate_batches_def v and_then_Inr by (simp add: enumerate_eq_zip del: and_then_eq_Inr)
qed

lemma member_finds:
  "table_holds Trigram member_tables 3 sample_chunks [97, 98, 99]" "plan_finds Trigram literal_engine sample_crates sample_plan member_tables 3 [97, 98, 99] 0"
  "display_key (documents member_tables ! 3) = ''a!/3''"
proof -
  show "table_holds Trigram member_tables 3 sample_chunks [97, 98, 99]"
  proof -
    have "(sample_grammed ! 3, [97, 98, 99]) \<in> set (zip sample_grammed sample_bodies)" "unat (gd_base (sample_grammed ! 3)) = sample_bases ! 3"
      by (simp_all add: sample_grammed_def sample_bodies_def)
    moreover have "3 < length (documents member_tables)" "doc_size (documents member_tables ! 3) = length [97 :: u8, 98, 99]"
      by (simp_all add: member_tables_def member_entry_def sample_bodies_def)
    ultimately show ?thesis unfolding table_holds_def strategy.case using member_tables_valid(3) by fastforce
  qed
  show "plan_finds Trigram literal_engine sample_crates sample_plan member_tables 3 [97, 98, 99] 0"
    unfolding plan_finds_def by (intro exI [of _ "HLeaf [97, 98, 99]"] exI [of _ 3]) (simp add: sample_plan_def literal_engine_def lit_match_leaf extent_covers_def)
  show "display_key (documents member_tables ! 3) = ''a!/3''" by (simp add: member_tables_def member_entry_def sample_bodies_def)
qed

theorem search_loses_no_match_witness:
  "\<exists>batches. read_candidate_batches member_env [member_segment] [sample_plan] (Some ''a!/3'') \<lparr>limit_documents = 1, limit_bytes = 100\<rparr> collect_batches [] = Inr batches \<and>
     length batches = 2 \<and> plan_query sample_plan = QOr [QAnd [QGram [97, 98, 99]]] \<and>
     (\<exists>b\<in>set batches. \<exists>r. table_address member_tables 0 (3, r) \<in> set b \<and> range_covers r 0 (EBytes 3))"
proof -
  let ?scope = "\<lparr>scope_prefix = Some ''a!/3'', scope_matches = None\<rparr>"
  from member_run obtain batches where run: "read_candidate_batches member_env [member_segment] [sample_plan] (Some ''a!/3'') \<lparr>limit_documents = 1, limit_bytes = 100\<rparr> collect_batches [] = Inr batches"
    and two: "length batches = 2" by blast
  then have run': "read_candidate_batches member_env [member_segment] [sample_plan] (scope_prefix ?scope) \<lparr>limit_documents = 1, limit_bytes = 100\<rparr> collect_batches [] = Inr batches" by simp
  have env: "env_strategy member_env = Trigram" "env_grams member_env = sample_crates" by (simp_all add: member_env_def)
  have seg: "0 < length [member_segment]" "indexed_segment member_env sort list_crate 1 64 sample_chunks sample_index [25] member_tables ([member_segment] ! 0)" using member_indexed by simp_all
  have live: "3 \<notin> set (dead_documents (os_dead ([member_segment] ! 0)))" by (simp add: member_segment_def)
  have key: "admits ?scope (display_key (documents member_tables ! 3))" unfolding member_finds(3) by (simp add: admits_def starts_with_def)
  have sep: "scope_prefix ?scope = Some (source_key (sources member_tables ! source_id (documents member_tables ! 3)) @ ''!'') \<longrightarrow>
      prefix_overlaps (os_meta ([member_segment] ! 0)) (source_part (source_key (sources member_tables ! source_id (documents member_tables ! 3)) @ ''!''))"
    by (simp add: member_tables_def member_entry_def sample_bodies_def)
  have holds: "table_holds (env_strategy member_env) member_tables 3 sample_chunks [97, 98, 99]"
    and finds: "plan_finds (env_strategy member_env) literal_engine (env_grams member_env) ([sample_plan] ! 0) member_tables 3 [97, 98, 99] 0" using member_finds(1,2) by (simp_all add: env)
  have p: "0 < length [sample_plan]" by simp
  from search_loses_no_match [OF run' seg holds live key sep literal_engine_laws p finds] run two sample_query show ?thesis by (auto simp: sample_plan_def)
qed

text \<open>
  What the exception means. With the prefix \<open>a!\<close> the same run returns no batch: the prefix is compared whole with the source key \<open>a\<close> and the only segment is skipped, although
  the scope admits the member \<open>a!/3\<close>, which is live and holds a match.
\<close>

lemma separator_prefix_loses_members:
  "read_candidate_batches member_env [member_segment] [sample_plan] (Some ''a!'') \<lparr>limit_documents = 1, limit_bytes = 100\<rparr> collect_batches [] = Inr [] \<and>
   indexed_segment member_env sort list_crate 1 64 sample_chunks sample_index [25] member_tables member_segment \<and>
   table_holds Trigram member_tables 3 sample_chunks [97, 98, 99] \<and> 3 \<notin> set (dead_documents (os_dead member_segment)) \<and>
   admits \<lparr>scope_prefix = Some ''a!'', scope_matches = None\<rparr> (display_key (documents member_tables ! 3)) \<and>
   plan_finds Trigram literal_engine sample_crates sample_plan member_tables 3 [97, 98, 99] 0"
proof (intro conjI member_finds member_indexed)
  have "\<not> prefix_overlaps (os_meta member_segment) (source_part ''a!'')" by (simp add: prefix_overlaps_def member_segment_def less_char_def)
  then show "read_candidate_batches member_env [member_segment] [sample_plan] (Some ''a!'') \<lparr>limit_documents = 1, limit_bytes = 100\<rparr> collect_batches [] = Inr []"
    by (simp add: read_candidate_batches_def validate_candidate_plans_def sample_plan_def segment_batches_def enumerate_eq_zip del: source_part.simps)
  show "3 \<notin> set (dead_documents (os_dead member_segment))" by (simp add: member_segment_def)
  show "admits \<lparr>scope_prefix = Some ''a!'', scope_matches = None\<rparr> (display_key (documents member_tables ! 3))"
    unfolding member_finds(3) by (simp add: admits_def starts_with_def)
qed

end
