(* ===== verification/Pack_Claims.thy ===== *)
theory Pack_Claims
  imports Pack_Batch
begin

text \<open>
  Several threads that load blocks into one table, \<open>load_blocks_with\<close> and \<open>LoadingClaims\<close> of
  \<open>crates/index/src/pack.rs\<close>, as a transition system. A step is one critical section under the mutex of the
  table: the pass that returns, waits or claims; the publication of a decoded block; the final
  check; the drop of the claims, which frees what is still loading and wakes the waiting threads.
  A load can fail at any point. Spurious wake-ups of the condition variable are steps of their
  own. The lemmas give the invariant of the table and the claims, that no state with an
  unreturned call is stuck, and that every schedule is finite.
\<close>

section \<open>Definitions\<close>

datatype caller =
    Entering "nat set"
  | Waiting "nat set"
  | Loads "nat set" "nat set" "nat list"
  | Dropping "nat set" "nat set" bool
  | Returned "nat set" bool

record claims_state =
  entries :: block_state
  callers :: "caller list"

fun wake :: "caller \<Rightarrow> caller" where
  "wake (Waiting ids) = Entering ids"
| "wake t = t"

text \<open>\<open>dec i\<close> is the verified, decoded content of block \<open>i\<close>.\<close>

inductive step :: "(nat \<Rightarrow> bytes) \<Rightarrow> claims_state \<Rightarrow> claims_state \<Rightarrow> bool" for dec where
  all_ready: "k < length ts \<Longrightarrow> ts ! k = Entering ids \<Longrightarrow> claim_blocks ids e = AllReady \<Longrightarrow>
    step dec \<lparr>entries = e, callers = ts\<rparr> \<lparr>entries = e, callers = ts[k := Returned ids True]\<rparr>"
| must_wait: "k < length ts \<Longrightarrow> ts ! k = Entering ids \<Longrightarrow> claim_blocks ids e = MustWait \<Longrightarrow>
    step dec \<lparr>entries = e, callers = ts\<rparr> \<lparr>entries = e, callers = ts[k := Waiting ids]\<rparr>"
| claims: "k < length ts \<Longrightarrow> ts ! k = Entering ids \<Longrightarrow> claim_blocks ids e = Claimed c e' \<Longrightarrow>
    step dec \<lparr>entries = e, callers = ts\<rparr> \<lparr>entries = e', callers = ts[k := Loads ids c (sorted_list_of_set c)]\<rparr>"
| publish: "k < length ts \<Longrightarrow> ts ! k = Loads ids c (i # todo) \<Longrightarrow>
    step dec \<lparr>entries = e, callers = ts\<rparr> \<lparr>entries = publish_block e i (dec i), callers = ts[k := Loads ids c todo]\<rparr>"
| load_fails: "k < length ts \<Longrightarrow> ts ! k = Loads ids c todo \<Longrightarrow>
    step dec \<lparr>entries = e, callers = ts\<rparr> \<lparr>entries = e, callers = ts[k := Dropping ids c False]\<rparr>"
| completes: "k < length ts \<Longrightarrow> ts ! k = Loads ids c [] \<Longrightarrow>
    step dec \<lparr>entries = e, callers = ts\<rparr> \<lparr>entries = e, callers = ts[k := Dropping ids c (\<forall>i\<in>ids. is_ready e i)]\<rparr>"
| releases: "k < length ts \<Longrightarrow> ts ! k = Dropping ids c ok \<Longrightarrow>
    step dec \<lparr>entries = e, callers = ts\<rparr>
      \<lparr>entries = drop_claims c e, callers = map wake (ts[k := Returned ids ok])\<rparr>"

inductive spurious :: "claims_state \<Rightarrow> claims_state \<Rightarrow> bool" where
  spurious: "k < length ts \<Longrightarrow> ts ! k = Waiting ids \<Longrightarrow>
    spurious \<lparr>entries = e, callers = ts\<rparr> \<lparr>entries = e, callers = ts[k := Entering ids]\<rparr>"

definition started :: "nat set list \<Rightarrow> claims_state" where
  "started calls = \<lparr>entries = Map.empty, callers = map Entering calls\<rparr>"

inductive reachable :: "(nat \<Rightarrow> bytes) \<Rightarrow> nat set list \<Rightarrow> claims_state \<Rightarrow> bool" for dec calls where
  start: "reachable dec calls (started calls)"
| run: "reachable dec calls s \<Longrightarrow> step dec s s' \<Longrightarrow> reachable dec calls s'"
| spur: "reachable dec calls s \<Longrightarrow> spurious s s' \<Longrightarrow> reachable dec calls s'"

section \<open>The invariant\<close>

fun claimed_by :: "caller \<Rightarrow> nat set" where
  "claimed_by (Loads ids c todo) = c"
| "claimed_by (Dropping ids c ok) = c"
| "claimed_by _ = {}"

fun wanted_by :: "caller \<Rightarrow> nat set" where
  "wanted_by (Entering ids) = ids"
| "wanted_by (Waiting ids) = ids"
| "wanted_by (Loads ids c todo) = ids"
| "wanted_by (Dropping ids c ok) = ids"
| "wanted_by (Returned ids ok) = ids"

fun caller_ok :: "block_state \<Rightarrow> caller \<Rightarrow> bool" where
  "caller_ok e (Loads ids c todo) \<longleftrightarrow> c \<subseteq> ids \<and> distinct todo \<and> set todo \<subseteq> c \<and>
     (\<forall>i\<in>set todo. e i = Some Loading) \<and> (\<forall>i\<in>ids - set todo. is_ready e i)"
| "caller_ok e (Dropping ids c ok) \<longleftrightarrow> c \<subseteq> ids \<and> (\<forall>i\<in>c. e i \<noteq> None) \<and> (ok \<longrightarrow> (\<forall>i\<in>ids. is_ready e i))"
| "caller_ok e (Returned ids ok) \<longleftrightarrow> (ok \<longrightarrow> (\<forall>i\<in>ids. is_ready e i))"
| "caller_ok e _ \<longleftrightarrow> True"

definition owned :: "block_state \<Rightarrow> caller list \<Rightarrow> bool" where
  "owned e ts \<longleftrightarrow> (\<forall>i. e i = Some Loading \<longrightarrow> (\<exists>k<length ts. i \<in> claimed_by (ts ! k)))"

definition disjoint_claims :: "caller list \<Rightarrow> bool" where
  "disjoint_claims ts \<longleftrightarrow> (\<forall>j k. j < length ts \<longrightarrow> k < length ts \<longrightarrow> j \<noteq> k \<longrightarrow> claimed_by (ts ! j) \<inter> claimed_by (ts ! k) = {})"

definition decoded_only :: "(nat \<Rightarrow> bytes) \<Rightarrow> block_state \<Rightarrow> bool" where
  "decoded_only dec e \<longleftrightarrow> (\<forall>i bs. e i = Some (Ready bs) \<longrightarrow> bs = dec i)"

text \<open>A waiting thread waits for a claim that is still to be dropped.\<close>

definition woken_later :: "caller list \<Rightarrow> bool" where
  "woken_later ts \<longleftrightarrow> (\<forall>k<length ts. \<forall>ids. ts ! k = Waiting ids \<longrightarrow> (\<exists>j<length ts. claimed_by (ts ! j) \<inter> ids \<noteq> {}))"

definition claims_inv :: "(nat \<Rightarrow> bytes) \<Rightarrow> claims_state \<Rightarrow> bool" where
  "claims_inv dec s \<longleftrightarrow> (\<forall>t\<in>set (callers s). finite (wanted_by t) \<and> caller_ok (entries s) t) \<and>
     owned (entries s) (callers s) \<and> disjoint_claims (callers s) \<and> decoded_only dec (entries s) \<and> woken_later (callers s)"

lemma claimed_present: "caller_ok e t \<Longrightarrow> i \<in> claimed_by t \<Longrightarrow> e i \<noteq> None"
proof (cases t)
  case (Loads ids c todo)
  assume "caller_ok e t" "i \<in> claimed_by t"
  with Loads show ?thesis by (cases "i \<in> set todo") (auto simp: is_ready_iff)
qed auto

lemma claim_blocks_cases:
  obtains (ready) "claim_blocks ids e = AllReady" "\<forall>i\<in>ids. is_ready e i"
  | (wait) i where "claim_blocks ids e = MustWait" "i \<in> ids" "e i = Some Loading"
  | (claim) c where "claim_blocks ids e = Claimed c (\<lambda>i. if i \<in> c then Some Loading else e i)" "c = {i\<in>ids. e i = None}"
      "\<forall>i\<in>ids - c. is_ready e i"
proof -
  consider "\<forall>i\<in>ids. is_ready e i" | "\<not> (\<forall>i\<in>ids. is_ready e i)" "\<exists>i\<in>ids. e i = Some Loading"
    | "\<not> (\<forall>i\<in>ids. is_ready e i)" "\<not> (\<exists>i\<in>ids. e i = Some Loading)" by blast
  then show ?thesis
  proof cases
    case 1
    then show ?thesis by (intro ready) (simp_all add: claim_blocks_def)
  next
    case 2
    then obtain i where "i \<in> ids" "e i = Some Loading" by blast
    moreover have "claim_blocks ids e = MustWait" unfolding claim_blocks_def using 2 by (simp only: if_True if_False)
    ultimately show ?thesis by (intro wait)
  next
    case 3
    have "is_ready e i" if i: "i \<in> ids" "e i \<noteq> None" for i
    proof -
      obtain x where x: "e i = Some x" using i by auto
      with 3(2) i show ?thesis by (cases x) (auto simp: is_ready_iff)
    qed
    with 3 show ?thesis by (intro claim [of "{i\<in>ids. e i = None}"]) (auto simp: claim_blocks_def Let_def)
  qed
qed

text \<open>What the other threads rely on: ready stays ready, and a block that one of them has claimed is not touched.\<close>

lemma caller_ok_mono:
  assumes "caller_ok e t" "\<And>i. is_ready e i \<Longrightarrow> is_ready e' i" "\<And>i. i \<in> claimed_by t \<Longrightarrow> e i = Some Loading \<Longrightarrow> e' i = Some Loading"
  shows "caller_ok e' t"
proof (cases t)
  case (Loads ids c todo)
  with assms show ?thesis by auto
next
  case (Dropping ids c ok)
  have "e' i \<noteq> None" if i: "i \<in> c" for i
  proof -
    have "e i \<noteq> None" using assms(1) Dropping i by auto
    then obtain x where "e i = Some x" by blast
    then show ?thesis using assms(2) [of i] assms(3) [of i] Dropping i by (cases x) (auto simp: is_ready_iff)
  qed
  with assms Dropping show ?thesis by auto
qed (use assms in auto)

lemma callers_update:
  assumes "\<forall>t\<in>set ts. finite (wanted_by t) \<and> caller_ok e t" "k < length ts"
    and "\<And>j. j < length ts \<Longrightarrow> j \<noteq> k \<Longrightarrow> caller_ok e (ts ! j) \<Longrightarrow> caller_ok e' (ts ! j)"
    and "finite (wanted_by t)" "caller_ok e' t"
  shows "\<forall>u\<in>set (ts[k := t]). finite (wanted_by u) \<and> caller_ok e' u"
proof
  fix u assume "u \<in> set (ts[k := t])"
  then obtain j where j: "j < length ts" "u = (ts[k := t]) ! j" by (auto simp: in_set_conv_nth)
  show "finite (wanted_by u) \<and> caller_ok e' u"
  proof (cases "j = k")
    case True
    with j assms(2,4,5) show ?thesis by simp
  next
    case False
    with j have u: "u = ts ! j" "u \<in> set ts" by simp_all
    with assms(1,3) j False show ?thesis by simp
  qed
qed

lemma disjoint_update:
  assumes "disjoint_claims ts" "k < length ts"
    and "\<And>j. j < length ts \<Longrightarrow> j \<noteq> k \<Longrightarrow> claimed_by (ts ! j) \<inter> claimed_by t = {}"
  shows "disjoint_claims (ts[k := t])"
  unfolding disjoint_claims_def
proof (intro allI impI)
  fix i j assume ij: "i < length (ts[k := t])" "j < length (ts[k := t])" "i \<noteq> j"
  show "claimed_by ((ts[k := t]) ! i) \<inter> claimed_by ((ts[k := t]) ! j) = {}"
  proof (cases "i = k \<or> j = k")
    case True
    with ij assms(2) assms(3) [of i] assms(3) [of j] show ?thesis by (auto simp: Int_commute)
  next
    case False
    with ij assms(1) show ?thesis by (simp add: disjoint_claims_def)
  qed
qed

lemma owned_update:
  assumes "owned e ts" "k < length ts" "claimed_by (ts ! k) \<subseteq> claimed_by t"
    and "\<And>i. e' i = Some Loading \<Longrightarrow> e i = Some Loading \<or> i \<in> claimed_by t"
  shows "owned e' (ts[k := t])"
  unfolding owned_def
proof (intro allI impI)
  fix i assume "e' i = Some Loading"
  from assms(4) [OF this] assms(1) have "i \<in> claimed_by t \<or> (\<exists>j<length ts. i \<in> claimed_by (ts ! j))"
    unfolding owned_def by blast
  then obtain j where "j < length ts" "i \<in> claimed_by ((ts[k := t]) ! j)"
  proof (elim disjE exE conjE)
    fix j assume j: "j < length ts" "i \<in> claimed_by (ts ! j)"
    with assms(2,3) have "i \<in> claimed_by ((ts[k := t]) ! j)" by (cases "j = k") auto
    with j(1) that show ?thesis by blast
  qed (use assms(2) that [of k] in simp)
  then show "\<exists>j<length (ts[k := t]). i \<in> claimed_by ((ts[k := t]) ! j)" by auto
qed

lemma woken_update:
  assumes "woken_later ts" "k < length ts" "claimed_by (ts ! k) \<subseteq> claimed_by t"
    and "\<And>ids. t = Waiting ids \<Longrightarrow> \<exists>j<length ts. j \<noteq> k \<and> claimed_by (ts ! j) \<inter> ids \<noteq> {}"
  shows "woken_later (ts[k := t])"
  unfolding woken_later_def
proof (intro allI impI)
  fix l ids assume l: "l < length (ts[k := t])" "(ts[k := t]) ! l = Waiting ids"
  have "\<exists>j<length ts. claimed_by ((ts[k := t]) ! j) \<inter> ids \<noteq> {}"
  proof (cases "l = k")
    case True
    with l assms(2,4) show ?thesis by (metis length_list_update nth_list_update_eq nth_list_update_neq)
  next
    case False
    with l have "l < length ts" "ts ! l = Waiting ids" by simp_all
    with assms(1) obtain j where j: "j < length ts" "claimed_by (ts ! j) \<inter> ids \<noteq> {}" unfolding woken_later_def by meson
    then have "claimed_by ((ts[k := t]) ! j) \<inter> ids \<noteq> {}" using assms(2,3) by (cases "j = k") auto
    with j(1) show ?thesis by blast
  qed
  then show "\<exists>j<length (ts[k := t]). claimed_by ((ts[k := t]) ! j) \<inter> ids \<noteq> {}" by simp
qed

lemma wake_simps [simp]: "claimed_by (wake t) = claimed_by t" "wanted_by (wake t) = wanted_by t" "caller_ok e (wake t) = caller_ok e t"
  "wake t \<noteq> Waiting ids"
  by (cases t; simp)+

lemma claims_inv_dest:
  assumes "claims_inv dec \<lparr>entries = e, callers = ts\<rparr>"
  shows "owned e ts" "disjoint_claims ts" "decoded_only dec e" "woken_later ts"
    and "k < length ts \<Longrightarrow> finite (wanted_by (ts ! k))" and "k < length ts \<Longrightarrow> caller_ok e (ts ! k)"
  using assms by (auto simp: claims_inv_def)

text \<open>One thread moves: what its step owes to the table and to the other threads.\<close>

lemma claims_inv_update:
  assumes inv: "claims_inv dec \<lparr>entries = e, callers = ts\<rparr>" and k: "k < length ts"
    and t: "wanted_by t = wanted_by (ts ! k)" "caller_ok e' t" "claimed_by (ts ! k) \<subseteq> claimed_by t"
    and ready: "\<And>i. is_ready e i \<Longrightarrow> is_ready e' i"
    and others: "\<And>j. j < length ts \<Longrightarrow> j \<noteq> k \<Longrightarrow> claimed_by (ts ! j) \<inter> claimed_by t = {}"
    and frame: "\<And>i. i \<notin> claimed_by t \<Longrightarrow> e' i = e i" and decoded: "decoded_only dec e'"
    and waits: "\<And>ids. t = Waiting ids \<Longrightarrow> \<exists>j<length ts. j \<noteq> k \<and> claimed_by (ts ! j) \<inter> ids \<noteq> {}"
  shows "claims_inv dec \<lparr>entries = e', callers = ts[k := t]\<rparr>"
proof -
  note d = claims_inv_dest [OF inv]
  have all: "\<forall>t\<in>set ts. finite (wanted_by t) \<and> caller_ok e t" using inv by (simp add: claims_inv_def)
  have "\<forall>u\<in>set (ts[k := t]). finite (wanted_by u) \<and> caller_ok e' u"
  proof (rule callers_update [OF all k _ _ t(2)])
    fix j assume j: "j < length ts" "j \<noteq> k" "caller_ok e (ts ! j)"
    show "caller_ok e' (ts ! j)"
    proof (rule caller_ok_mono [OF j(3) ready])
      fix i assume "i \<in> claimed_by (ts ! j)" "e i = Some Loading"
      with others [OF j(1,2)] frame [of i] show "e' i = Some Loading" by auto
    qed
  qed (use d(5) [OF k] t(1) in simp)
  moreover have "owned e' (ts[k := t])"
  proof (rule owned_update [OF d(1) k t(3)])
    fix i assume "e' i = Some Loading"
    then show "e i = Some Loading \<or> i \<in> claimed_by t" using frame [of i] by (cases "i \<in> claimed_by t") simp_all
  qed
  ultimately show ?thesis
    using disjoint_update [OF d(2) k others] woken_update [OF d(4) k t(3) waits] decoded by (simp add: claims_inv_def)
qed

lemma claims_disjoint:
  assumes "claims_inv dec \<lparr>entries = e, callers = ts\<rparr>" "k < length ts" "j < length ts" "j \<noteq> k"
  shows "claimed_by (ts ! j) \<inter> claimed_by (ts ! k) = {}"
  using claims_inv_dest(2) [OF assms(1)] assms(2-4) by (simp add: disjoint_claims_def)

lemma claims_inv_claim:
  assumes inv: "claims_inv dec \<lparr>entries = e, callers = ts\<rparr>" and k: "k < length ts" "ts ! k = Entering ids"
    and claim: "claim_blocks ids e = Claimed c e'"
  shows "claims_inv dec \<lparr>entries = e', callers = ts[k := Loads ids c (sorted_list_of_set c)]\<rparr>"
proof -
  note d = claims_inv_dest [OF inv]
  have c: "e' = (\<lambda>i. if i \<in> c then Some Loading else e i) \<and> c = {i\<in>ids. e i = None} \<and> (\<forall>i\<in>ids - c. is_ready e i)"
    using claim by (cases rule: claim_blocks_cases [of ids e]) (simp, simp, auto)
  have finc: "finite c" using d(5) [OF k(1)] k(2) c by simp
  show ?thesis
  proof (rule claims_inv_update [OF inv k(1)])
    show "caller_ok e' (Loads ids c (sorted_list_of_set c))" using c finc by (auto simp: is_ready_iff)
    show "claimed_by (ts ! j) \<inter> claimed_by (Loads ids c (sorted_list_of_set c)) = {}" if "j < length ts" for j
    proof -
      have "i \<notin> c" if "i \<in> claimed_by (ts ! j)" for i using claimed_present [OF d(6) [OF \<open>j < length ts\<close>] that] c by simp
      then show ?thesis by auto
    qed
    show "decoded_only dec e'" using d(3) c by (auto simp: decoded_only_def split: if_splits)
    show "is_ready e i \<Longrightarrow> is_ready e' i" for i using c by (auto simp: is_ready_iff)
  qed (use k c in auto)
qed

lemma claims_inv_publish:
  assumes inv: "claims_inv dec \<lparr>entries = e, callers = ts\<rparr>" and k: "k < length ts" "ts ! k = Loads ids c (i # todo)"
  shows "claims_inv dec \<lparr>entries = publish_block e i (dec i), callers = ts[k := Loads ids c todo]\<rparr>"
proof -
  note d = claims_inv_dest [OF inv]
  have old: "caller_ok e (Loads ids c (i # todo))" using d(6) [OF k(1)] k(2) by simp
  then have e': "publish_block e i (dec i) = e(i \<mapsto> Ready (dec i))" by (simp add: publish_block_def)
  show ?thesis unfolding e'
  proof (rule claims_inv_update [OF inv k(1)])
    show "caller_ok (e(i \<mapsto> Ready (dec i))) (Loads ids c todo)" using old by (auto simp: is_ready_iff)
    show "claimed_by (ts ! j) \<inter> claimed_by (Loads ids c todo) = {}" if "j < length ts" "j \<noteq> k" for j
      using claims_disjoint [OF inv k(1) that] k(2) by simp
    show "decoded_only dec (e(i \<mapsto> Ready (dec i)))" using d(3) by (auto simp: decoded_only_def)
  qed (use k old in \<open>auto simp: is_ready_iff\<close>)
qed

lemma claims_inv_drop:
  assumes inv: "claims_inv dec \<lparr>entries = e, callers = ts\<rparr>" and k: "k < length ts" "ts ! k = Dropping ids c ok"
  shows "claims_inv dec \<lparr>entries = drop_claims c e, callers = map wake (ts[k := Returned ids ok])\<rparr>"
proof -
  note d = claims_inv_dest [OF inv]
  let ?e = "drop_claims c e" and ?ts = "ts[k := Returned ids ok]"
  have all: "\<forall>t\<in>set ts. finite (wanted_by t) \<and> caller_ok e t" using inv by (simp add: claims_inv_def)
  have old: "caller_ok e (Dropping ids c ok)" "finite ids" using d(5,6) [OF k(1)] k(2) by simp_all
  have ready: "is_ready e j \<Longrightarrow> is_ready ?e j" for j by (auto simp: drop_claims_def is_ready_iff)
  have "\<forall>u\<in>set ?ts. finite (wanted_by u) \<and> caller_ok ?e u"
  proof (rule callers_update [OF all k(1)])
    fix j assume j: "j < length ts" "j \<noteq> k" "caller_ok e (ts ! j)"
    show "caller_ok ?e (ts ! j)"
      using claims_disjoint [OF inv k(1) j(1,2)] k(2) by (intro caller_ok_mono [OF j(3) ready]) (auto simp: drop_claims_def)
  qed (use old ready in auto)
  then have "\<forall>u\<in>set (map wake ?ts). finite (wanted_by u) \<and> caller_ok ?e u" by auto
  moreover have "owned ?e (map wake ?ts)" unfolding owned_def
  proof (intro allI impI)
    fix i assume "?e i = Some Loading"
    then have i: "e i = Some Loading" "i \<notin> c" by (auto simp: drop_claims_def split: if_splits)
    then obtain j where j: "j < length ts" "i \<in> claimed_by (ts ! j)" using d(1) by (auto simp: owned_def)
    with i(2) k(2) have "j \<noteq> k" by auto
    with j show "\<exists>j<length (map wake ?ts). i \<in> claimed_by (map wake ?ts ! j)" by auto
  qed
  moreover have "disjoint_claims ?ts" by (rule disjoint_update [OF d(2) k(1)]) simp
  then have "disjoint_claims (map wake ?ts)" by (simp add: disjoint_claims_def)
  moreover have "decoded_only dec ?e" using d(3) by (auto simp: decoded_only_def drop_claims_def split: if_splits)
  moreover have "woken_later (map wake ?ts)" by (simp add: woken_later_def)
  ultimately show ?thesis by (simp add: claims_inv_def)
qed

text \<open>Steps that leave the table alone.\<close>

lemma claims_inv_local:
  assumes inv: "claims_inv dec \<lparr>entries = e, callers = ts\<rparr>" and k: "k < length ts"
    and t: "wanted_by t = wanted_by (ts ! k)" "caller_ok e t" "claimed_by t = claimed_by (ts ! k)"
    and waits: "\<And>ids. t = Waiting ids \<Longrightarrow> \<exists>j<length ts. j \<noteq> k \<and> claimed_by (ts ! j) \<inter> ids \<noteq> {}"
  shows "claims_inv dec \<lparr>entries = e, callers = ts[k := t]\<rparr>"
  using claims_inv_dest(3) [OF inv] claims_disjoint [OF inv k]
  by (intro claims_inv_update [OF inv k t(1,2)] waits) (simp_all add: t(3))

lemma claims_inv_step:
  assumes "step dec s s'" "claims_inv dec s"
  shows "claims_inv dec s'"
  using assms
proof (induction rule: step.induct)
  case (all_ready k ts ids e)
  with claim_all_ready [OF all_ready(3)] show ?case by (intro claims_inv_local) auto
next
  case (must_wait k ts ids e)
  obtain i where i: "i \<in> ids" "e i = Some Loading" using must_wait(3) by (cases rule: claim_blocks_cases [of ids e]) simp_all
  then obtain j where j: "j < length ts" "i \<in> claimed_by (ts ! j)" using claims_inv_dest(1) [OF must_wait(4)] by (auto simp: owned_def)
  with must_wait(2) i(1) have "j \<noteq> k \<and> claimed_by (ts ! j) \<inter> ids \<noteq> {}" by auto
  with j must_wait show ?case by (intro claims_inv_local) auto
next
  case (load_fails k ts ids c todo e)
  have old: "caller_ok e (Loads ids c todo)" using claims_inv_dest(6) [OF load_fails(3,1)] load_fails(2) by simp
  then have "caller_ok e (Dropping ids c False)" using claimed_present [OF old] by simp
  with load_fails show ?case by (intro claims_inv_local) auto
next
  case (completes k ts ids c e)
  have old: "caller_ok e (Loads ids c [])" using claims_inv_dest(6) [OF completes(3,1)] completes(2) by simp
  then have "caller_ok e (Dropping ids c (\<forall>i\<in>ids. is_ready e i))" using claimed_present [OF old] by simp
  with completes show ?case by (intro claims_inv_local) auto
qed (auto intro: claims_inv_claim claims_inv_publish claims_inv_drop)

lemma claims_inv_spurious:
  assumes "spurious s s'" "claims_inv dec s"
  shows "claims_inv dec s'"
  using assms by (induction rule: spurious.induct) (auto intro: claims_inv_local)

lemma claims_inv_started: "\<forall>ids\<in>set calls. finite ids \<Longrightarrow> claims_inv dec (started calls)"
  by (auto simp: claims_inv_def started_def owned_def disjoint_claims_def decoded_only_def woken_later_def)

lemma claims_inv_reachable:
  assumes "reachable dec calls s" "\<forall>ids\<in>set calls. finite ids"
  shows "claims_inv dec s"
  using assms by (induction rule: reachable.induct) (auto intro: claims_inv_started claims_inv_step claims_inv_spurious)

section \<open>Progress\<close>

fun returned :: "caller \<Rightarrow> bool" where
  "returned (Returned ids ok) \<longleftrightarrow> True"
| "returned _ \<longleftrightarrow> False"

lemma holder_steps:
  assumes "k < length (callers s)" "claimed_by (callers s ! k) \<noteq> {} \<or> (\<exists>ids. callers s ! k = Entering ids)
      \<or> (\<exists>ids c todo. callers s ! k = Loads ids c todo) \<or> (\<exists>ids c ok. callers s ! k = Dropping ids c ok)"
  shows "\<exists>s'. step dec s s'"
proof -
  obtain e ts where s: "s = \<lparr>entries = e, callers = ts\<rparr>" by (cases s)
  with assms have k: "k < length ts" by simp
  show ?thesis
  proof (cases "ts ! k")
    case (Entering ids)
    then show ?thesis using k unfolding s
      by (cases rule: claim_blocks_cases [of ids e]) (blast intro: step.intros)+
  qed (use assms k in \<open>auto simp: s intro: step.intros\<close>)
qed

lemma not_stuck:
  assumes "claims_inv dec s" "t \<in> set (callers s)" "\<not> returned t"
  shows "\<exists>s'. step dec s s'"
proof -
  from assms(2) obtain k where k: "k < length (callers s)" "callers s ! k = t" by (auto simp: in_set_conv_nth)
  show ?thesis
  proof (cases t)
    case (Waiting ids)
    with k assms(1) obtain j where "j < length (callers s)" "claimed_by (callers s ! j) \<noteq> {}"
      unfolding claims_inv_def woken_later_def by blast
    then show ?thesis by (blast intro: holder_steps)
  qed (use assms(3) k in \<open>auto intro: holder_steps\<close>)
qed

section \<open>Every schedule ends\<close>

fun pending :: "caller \<Rightarrow> nat" where
  "pending (Returned ids ok) = 0"
| "pending _ = 1"

fun weight :: "caller \<Rightarrow> nat" where
  "weight (Entering ids) = card ids + 3"
| "weight (Waiting ids) = 0"
| "weight (Loads ids c todo) = length todo + 2"
| "weight (Dropping ids c ok) = 0"
| "weight (Returned ids ok) = 0"

definition rank :: "claims_state \<Rightarrow> nat \<times> nat" where
  "rank s = (sum_list (map pending (callers s)), sum_list (map weight (callers s)))"

lemma sum_update: "k < length ts \<Longrightarrow> sum_list (map f (ts[k := t])) + f (ts ! k) = sum_list (map f ts) + (f t :: nat)"
  by (induction ts arbitrary: k) (auto simp: nth_Cons split: nat.split)

lemma pending_wake: "pending \<circ> wake = pending"
proof
  show "(pending \<circ> wake) t = pending t" for t by (cases t) simp_all
qed

lemma rank_step:
  assumes "step dec s s'" "claims_inv dec s"
  shows "(rank s', rank s) \<in> less_than <*lex*> less_than"
  using assms
proof (induction rule: step.induct)
  case (claims k ts ids e c e')
  then have "finite ids" using claims_inv_dest(5) [OF claims(4,1)] by simp
  moreover have "c \<subseteq> ids" using claims(3) by (cases rule: claim_blocks_cases [of ids e]) auto
  ultimately have "length (sorted_list_of_set c) \<le> card ids" by (simp add: card_mono)
  with claims(1,2) sum_update [of k ts pending "Loads ids c (sorted_list_of_set c)"]
    sum_update [of k ts weight "Loads ids c (sorted_list_of_set c)"] show ?case by (simp add: rank_def)
next
  case (releases k ts ids c ok e)
  from releases(1,2) pending_wake sum_update [of k ts pending "Returned ids ok"] show ?case by (simp add: rank_def)
next
  case (all_ready k ts ids e)
  with sum_update [of k ts pending "Returned ids True"] show ?case by (simp add: rank_def)
next
  case (must_wait k ts ids e)
  with sum_update [of k ts pending "Waiting ids"] sum_update [of k ts weight "Waiting ids"] show ?case by (simp add: rank_def)
next
  case (publish k ts ids c i todo e)
  with sum_update [of k ts pending "Loads ids c todo"] sum_update [of k ts weight "Loads ids c todo"] show ?case by (simp add: rank_def)
next
  case (load_fails k ts ids c todo e)
  with sum_update [of k ts pending "Dropping ids c False"] sum_update [of k ts weight "Dropping ids c False"] show ?case
    by (simp add: rank_def)
next
  case (completes k ts ids c e)
  let ?t = "Dropping ids c (\<forall>i\<in>ids. is_ready e i)"
  from completes sum_update [of k ts pending ?t] sum_update [of k ts weight ?t] show ?case by (simp add: rank_def)
qed

lemma no_infinite_run:
  assumes "claims_inv dec (run 0)" "\<And>n. step dec (run n) (run (Suc n))"
  shows False
proof -
  have "claims_inv dec (run n)" for n by (induction n) (use assms claims_inv_step in blast)+
  then have "\<forall>n. (rank (run (Suc n)), rank (run n)) \<in> less_than <*lex*> less_than" using assms(2) rank_step by blast
  then have "\<exists>f. \<forall>n. (f (Suc n), f n) \<in> less_than <*lex*> less_than" by (rule exI [of _ "\<lambda>n. rank (run n)"])
  moreover have "wf (less_than <*lex*> less_than :: ((nat \<times> nat) \<times> nat \<times> nat) set)" by (intro wf_lex_prod wf_less_than)
  ultimately show False unfolding wf_iff_no_infinite_down_chain by (rule notE [rotated])
qed

section \<open>Properties\<close>

text \<open>
  C28: The shared block table. However the threads of a batch interleave, fail and wake up, a block is
  marked as loading exactly while one claim owns it, a ready block holds its decoded
  content, a call that returned without error has all its blocks ready, and the check
  after the last block of a load never fails.
\<close>

theorem shared_blocks_invariant:
  assumes "reachable dec calls s" "\<forall>ids\<in>set calls. finite ids"
  shows "(\<forall>i. entries s i = Some Loading \<longrightarrow> (\<exists>!k. k < length (callers s) \<and> i \<in> claimed_by (callers s ! k))) \<and>
    (\<forall>i bs. entries s i = Some (Ready bs) \<longrightarrow> bs = dec i) \<and>
    (\<forall>k<length (callers s). \<forall>ids. callers s ! k = Returned ids True \<longrightarrow> (\<forall>i\<in>ids. is_ready (entries s) i)) \<and>
    (\<forall>k<length (callers s). \<forall>ids c. callers s ! k = Loads ids c [] \<longrightarrow> (\<forall>i\<in>ids. is_ready (entries s) i))"
proof -
  obtain e ts where s: "s = \<lparr>entries = e, callers = ts\<rparr>" by (cases s)
  from claims_inv_reachable [OF assms] have inv: "claims_inv dec \<lparr>entries = e, callers = ts\<rparr>" by (simp add: s)
  note d = claims_inv_dest [OF inv]
  have "\<exists>!k. k < length ts \<and> i \<in> claimed_by (ts ! k)" if i: "e i = Some Loading" for i
  proof -
    from i d(1) obtain k where k: "k < length ts" "i \<in> claimed_by (ts ! k)" by (auto simp: owned_def)
    moreover have "j = k" if "j < length ts" "i \<in> claimed_by (ts ! j)" for j
      using claims_disjoint [OF inv k(1) that(1)] that(2) k(2) by blast
    ultimately show ?thesis by blast
  qed
  moreover have "\<forall>i bs. e i = Some (Ready bs) \<longrightarrow> bs = dec i" using d(3) by (simp add: decoded_only_def)
  moreover have "\<forall>i\<in>ids. is_ready e i" if "k < length ts" "ts ! k = Returned ids True" for k ids
    using d(6) [OF that(1)] that(2) by simp
  moreover have "\<forall>i\<in>ids. is_ready e i" if "k < length ts" "ts ! k = Loads ids c []" for k ids c
    using d(6) [OF that(1)] that(2) by simp
  ultimately show ?thesis by (simp add: s)
qed

definition sample_claims :: claims_state where
  "sample_claims = \<lparr>entries = [0 \<mapsto> Loading], callers = [Loads {0} {0} [0], Entering {0}]\<rparr>"

lemma sample_claims_reachable: "reachable dec [{0}, {0}] sample_claims"
proof -
  have "claim_blocks {0} (Map.empty :: block_state) = Claimed {0} [0 \<mapsto> Loading]"
    by (auto simp: claim_blocks_def is_ready_iff Let_def fun_eq_iff)
  from step.claims [OF _ _ this, of 0 "map Entering [{0}, {0}]" dec] have "step dec (started [{0}, {0}]) sample_claims"
    by (simp add: started_def sample_claims_def)
  then show ?thesis by (blast intro: reachable.intros)
qed

theorem shared_blocks_invariant_witness:
  "\<exists>!k. k < length (callers sample_claims) \<and> 0 \<in> claimed_by (callers sample_claims ! k)"
  using shared_blocks_invariant [OF sample_claims_reachable [of "\<lambda>_. [7]"]] by (simp add: sample_claims_def)

text \<open>
  C29: Calls return. From every reachable state each schedule is finite, spurious wake-ups aside, and where
  it ends every call has returned and no block is left marked as loading: no wake-up is lost, and
  a failed load blocks nobody.
\<close>

theorem loads_return:
  assumes "reachable dec calls s" "\<forall>ids\<in>set calls. finite ids"
  shows "\<not> (\<exists>run. run 0 = s \<and> (\<forall>n. step dec (run n) (run (Suc n)))) \<and>
    ((\<exists>s'. step dec s s') \<or> list_all returned (callers s) \<and> Loading \<notin> ran (entries s))"
proof
  note inv = claims_inv_reachable [OF assms]
  with no_infinite_run show "\<not> (\<exists>run. run 0 = s \<and> (\<forall>n. step dec (run n) (run (Suc n))))" by blast
  have "Loading \<notin> ran (entries s)" if "list_all returned (callers s)"
  proof
    assume "Loading \<in> ran (entries s)"
    then obtain i where "entries s i = Some Loading" by (auto simp: ran_def)
    with inv obtain k where k: "k < length (callers s)" "i \<in> claimed_by (callers s ! k)"
      unfolding claims_inv_def owned_def by blast
    have "returned (callers s ! k)" using that k(1) by (simp add: list_all_length)
    with k(2) show False by (cases "callers s ! k") auto
  qed
  with not_stuck [OF inv] show "(\<exists>s'. step dec s s') \<or> list_all returned (callers s) \<and> Loading \<notin> ran (entries s)"
    by (auto simp: list_all_iff)
qed

theorem loads_return_witness:
  "\<not> (\<exists>run. run 0 = sample_claims \<and> (\<forall>n. step (\<lambda>_. [7]) (run n) (run (Suc n)))) \<and>
    ((\<exists>s'. step (\<lambda>_. [7]) sample_claims s') \<or> list_all returned (callers sample_claims) \<and> Loading \<notin> ran (entries sample_claims))"
  using loads_return [OF sample_claims_reachable [of "\<lambda>_. [7]"]] by simp

end
