(* ===== verification/Spec2Isabelle.thy ===== *)
theory Spec2Isabelle
  imports Candidate_Batches Pack_Claims
begin

text \<open>
  A verification development of seagrep, an indexed regular-expression search over the objects of S3 buckets.

  \<^bold>\<open>The program.\<close> seagrep decodes the objects of a bucket to documents once, extracts the grams of every document, and stores an index with a compressed snapshot of
  the documents. The index is a root (a list of immutable segments); a segment is a term dictionary (gram to packed posting value), a postings file (encoded lists of
  ids, with a table of block hashes at its end), a table of sources, documents and pack blocks, a set of dead sources, and packs (the documents as one
  stream, cut into compressed and hashed blocks). A search plans a boolean query over grams from the expression, looks its grams up, evaluates it on posting lists to
  candidates (documents under the sparse strategy, 128 KiB blocks of documents under the trigram strategy), cuts the candidates into batches, fetches the
  regions of the candidates from the packs, and runs the expression on them. The contract is that the index loses no match: what a scan of the captured
  documents finds, the candidates include. The files below are those of \<open>src/crates\<close>.

  \<^bold>\<open>Foundations.\<close>
  \<^item> \<open>Prelude\<close>: machine integers as words, \<open>result\<close> for \<open>anyhow::Result\<close> with its errors (\<open>Panic\<close> included), slices, checked arithmetic, \<open>ensure!\<close>, \<open>context\<close>, and loops with
    an early return. A quantity that the code keeps in \<open>u64\<close> or \<open>usize\<close> with checked arithmetic is a natural number with its checks written out; packed values, hashes, ids and
    the accumulators of the bit packers are words of their width.
  \<^item> \<open>Wire\<close>: integers as bytes and the varints.

  \<^bold>\<open>Grams and queries.\<close>
  \<^item> \<open>Grams\<close>, \<open>Sparse_Grams\<close> (\<open>core/src/grams.rs\<close>): packed trigrams by sorting and by bitmap, block grams, and the sparse grams with their iterator and cover. The paths
    agree, the iterator yields exactly the declarative set of ranges, and the grams of a literal are among the grams of every text that contains it. The locale
    \<open>gram_scheme\<close> is the contract of an extraction; both strategies interpret it.
  \<^item> \<open>Query_Plan\<close> (\<open>query/src/lib.rs\<close>): from a parsed expression to a query. A document with a match satisfies the query.

  \<^bold>\<open>Posting lists and dictionaries.\<close>
  \<^item> \<open>Posting_Codec\<close> (\<open>index/src/lib.rs\<close>, \<open>index/src/delta_blocks.rs\<close>): the two codecs with their bit packers. They round trip, and every accepted block is
    an ascending list of the announced length below the id space. The locale \<open>posting_codec\<close> has both as interpretations.
  \<^item> \<open>Posting_Eval\<close> (\<open>index/src/eval.rs\<close>): packed values, binding of queries against a dictionary, and evaluation; it is the set algebra of the posting lists. The locale
    \<open>posting_index\<close> is what evaluation needs of a dictionary; \<open>Segment_Search\<close> interprets it on a merged segment.
  \<^item> \<open>Sparse_Table\<close>, \<open>Terms\<close> (\<open>index/src/sparse_table.rs\<close>, \<open>index/src/terms.rs\<close>): the dictionary forms. A dictionary written from accepted entries opens and answers
    as the entries.
  \<^item> \<open>Postings_Table\<close> (\<open>index/src/postings_table.rs\<close>): the block hashes of a postings file.

  \<^bold>\<open>Building an index.\<close>
  \<^item> \<open>Run_Write\<close>, \<open>Sparse_Runs\<close> (\<open>index/src/build/runs.rs\<close>): documents from memory, files and the spool to sorted runs of records. The runs hold exactly the records of the
    grams, and streaming a file gives what the in-memory path gives.
  \<^item> \<open>Run_Merge\<close> (\<open>index/src/build/runs.rs\<close>): record format, heap merge, and the passes that bound the open runs by 64 and keep the records.
  \<^item> \<open>Index_Build\<close>, \<open>Index_Lookup\<close> (\<open>index/src/build/runs.rs\<close>): \<open>merge_posting_runs\<close> to the dictionary and postings, and that a lookup finds the list of a gram's key.

  \<^bold>\<open>Reading an index.\<close>
  \<^item> \<open>Segment_Tables\<close> (\<open>index/src/format.rs\<close>): the document table with its validation, and the dead set. A validated table is well formed, every document of it has its
    span of blocks, and the tables of the pack builder validate.
  \<^item> \<open>Segment_List\<close> (\<open>index/src/segment.rs\<close>): the root, its parser and states, the identity of the source, the verified load of a table with its retry, and the prune by prefix.
  \<^item> \<open>Posting_Read\<close> (\<open>index/src/segment.rs\<close>): posting lists through cache and store, block by verified block. A successful read is authentic, and a store that serves the
    published blob makes it succeed.
  \<^item> \<open>Remote_Terms\<close> (\<open>index/src/remote_terms.rs\<close>): sparse dictionaries read in place, equal to the local ones.
  \<^item> \<open>Candidates\<close> (\<open>index/src/candidate.rs\<close>): candidate blocks, their expansion by the extent of a plan, grouping and merging of ranges.
  \<^item> \<open>Segment_Search\<close>, \<open>Index_Search\<close>: a batch of plans over a merged segment refines the query over its records; with the run writers, from documents to
    selections under both strategies.
  \<^item> \<open>Candidate_Batches\<close> (\<open>index/src/segment.rs\<close>): \<open>read_candidate_batches\<close> over all segments. A match in a live document admitted by the key scope is in a batch, except for a prefix
    that ends within the separator of an archive member, for which the prune may skip the segment (\<open>separator_prefix_loses_members\<close> is a run that loses a match so); batches partition the
    candidates within the limits.

  \<^bold>\<open>Packs.\<close>
  \<^item> \<open>Packs\<close>, \<open>Pack_Read\<close> (\<open>index/src/pack.rs\<close>, \<open>index/src/segment/cache.rs\<close>): the builder, and spans, runs, batches and streaming reads through the cache. Documents read back
    byte for byte, and whatever the store and cache return, a successful read is authentic.
  \<^item> \<open>Pack_Batch\<close>, \<open>Pack_Lines\<close>, \<open>Pack_Regions\<close> (\<open>index/src/pack.rs\<close>): the shared block table, range reads, extension to lines and line numbers, range planning, windows and
    the two entry points. The locales \<open>range_reader\<close> and \<open>range_server\<close> (a reader that is right when it returns; one that returns) carry the line
    lemmas, interpreted on the reads of a batch and on a document in memory.
  \<^item> \<open>Pack_Claims\<close> (\<open>index/src/pack.rs\<close>): the loading threads of a batch as a step relation, with the invariant of the claims by rule induction and a measure that bounds
    every schedule.

  \<^bold>\<open>State and effects.\<close> State is passed explicitly: a writer is a record with the bytes written so far, a temporary file or an upload is its bytes, the cache directory a map
  from paths to bytes, the lazily loaded postings table a field of \<open>posting_state\<close>, and a visitor a fallible function on the state of its owner. The store is an argument;
  an arbitrary function stands for a store that may return anything, and serving the published bytes is a hypothesis where a theorem says that an operation returns.
  Parallel maps over independent documents are maps in order; the threads that share a table are a step relation.

  \<^bold>\<open>Parameters.\<close> Code of other crates is an argument with its documented behaviour as hypothesis: \<open>radsort\<close> and the sort of hashes sort; \<open>rapidhash\<close> is a
  function; \<open>zstd\<close> decompresses what it compressed; SHA-256 gives 32 bytes, and theorems on authenticity ask for no collision with the published bytes; the maps of
  \<open>fst\<close> hold what was inserted in order; \<open>postcard\<close> is a partial decoder; the expressions of \<open>regex-syntax\<close> have literal extractors and a match relation with \<open>regex_laws\<close>. The witnesses
  give each parameter a concrete function.

  \<^bold>\<open>Termination and bounds.\<close> No definition uses fuel: loops are structural or have a measure (bytes left, blocks left, runs left), so every definition is total
  and a claim that an operation returns is a theorem on its value. The constants are those of the code: 128 KiB candidate and pack blocks, 64 KiB verification blocks, 8 MiB ranges,
  windows of 1024 requests and 32 MiB, 64 open runs, 256 MiB packs.

  \<^bold>\<open>Not modelled.\<close> Ingestion (\<open>index/src/build.rs\<close>), update, publication and compaction of an index (the rest of \<open>index/src/segment.rs\<close>, \<open>index/src/segment/compact.rs\<close>) with the cache
  sweep and the mapped dictionary files, which are calls of the store and the file system around the operations above; the verification of candidates by the
  expression (\<open>index/src/search\<close> but its key scope, \<open>core/src/grep.rs\<close>, \<open>core/src/pattern.rs\<close>), which rests on the automata of \<open>regex-automata\<close>; the decoders of archives and formats
  (\<open>core/src/codec\<close>); the S3 client, the command line and the benchmarks.
\<close>

end
